(* ===== verification/Prelude.thy ===== *)
theory Prelude
  imports
    Complex_Main
    "HOL-Library.Product_Lexorder"
    "HOL-Library.List_Lexorder"
    "HOL-Library.Char_ord"
    "HOL-Library.Option_ord"
begin

section \<open>Shared vocabulary of the development\<close>

text \<open>
  What every component theory shares: the types that stand for Go's scalars, the few functions
  of Go's \<^verbatim>\<open>strings\<close> package the source calls, the meaning of the SQL statements the stores
  issue (a table is the list of its rows in rowid order), and two locales: \<open>rowid_table\<close>, the
  contract of an \<^verbatim>\<open>INTEGER PRIMARY KEY\<close> column, and \<open>invariant_machine\<close>, which carries a
  one-step invariant to every reachable state.

  Conventions. A timestamp is a \<open>real\<close> (the source keeps float64 seconds; rounding is not
  modelled). A nullable column is an \<open>option\<close>. An \<open>int64\<close> identifier is an \<open>int\<close>. A Go
  string is a \<open>string\<close>, that is a list of bytes. An operation that reads the clock takes
  \<open>clk :: nat \<Rightarrow> ts\<close>, where \<open>clk i\<close> is the value of its \<open>i\<close>-th call of \<^verbatim>\<open>now()\<close>, or a single \<open>ts\<close>
  when it reads the clock once. I/O errors of the database are not modelled; constraint
  violations and missing rows are.
\<close>

type_synonym ts = real
type_synonym clock = "nat \<Rightarrow> ts"

named_theorems store_defs \<open>definitions of the store operations\<close>
named_theorems wf_intros \<open>every operation keeps its component's well-formedness\<close>

subsection \<open>Go strings\<close>


definition trim_right :: "(char \<Rightarrow> bool) \<Rightarrow> string \<Rightarrow> string" where
  "trim_right p s = rev (dropWhile p (rev s))"


definition has_prefix :: "string \<Rightarrow> string \<Rightarrow> bool" where
  "has_prefix s p \<longleftrightarrow> take (length p) s = p"

text \<open>\<^verbatim>\<open>strings.TrimSpace\<close>: the UTF-8 encodings of Unicode's white space, cut from both ends.\<close>

definition space_runes :: "string list" where
  "space_runes = ['' '', [CHR 0x09], [CHR 0x0A], [CHR 0x0B], [CHR 0x0C], [CHR 0x0D],
     [CHR 0xC2, CHR 0x85], [CHR 0xC2, CHR 0xA0], [CHR 0xE1, CHR 0x9A, CHR 0x80],
     [CHR 0xE2, CHR 0x80, CHR 0x80], [CHR 0xE2, CHR 0x80, CHR 0x81], [CHR 0xE2, CHR 0x80, CHR 0x82],
     [CHR 0xE2, CHR 0x80, CHR 0x83], [CHR 0xE2, CHR 0x80, CHR 0x84], [CHR 0xE2, CHR 0x80, CHR 0x85],
     [CHR 0xE2, CHR 0x80, CHR 0x86], [CHR 0xE2, CHR 0x80, CHR 0x87], [CHR 0xE2, CHR 0x80, CHR 0x88],
     [CHR 0xE2, CHR 0x80, CHR 0x89], [CHR 0xE2, CHR 0x80, CHR 0x8A], [CHR 0xE2, CHR 0x80, CHR 0xA8],
     [CHR 0xE2, CHR 0x80, CHR 0xA9], [CHR 0xE2, CHR 0x80, CHR 0xAF], [CHR 0xE2, CHR 0x81, CHR 0x9F],
     [CHR 0xE3, CHR 0x80, CHR 0x80]]"

function trim_prefixes :: "string list \<Rightarrow> string \<Rightarrow> string" where
  "trim_prefixes ws s =
     (case find (\<lambda>w. w \<noteq> [] \<and> has_prefix s w) ws of
        None \<Rightarrow> s
      | Some w \<Rightarrow> trim_prefixes ws (drop (length w) s))"
  by pat_completeness auto

termination
proof (relation "measure (\<lambda>(ws, s). length s)")
  fix ws :: "string list" and s w :: string
  assume "find (\<lambda>w. w \<noteq> [] \<and> has_prefix s w) ws = Some w"
  then have "w \<noteq> []" "take (length w) s = w" by (auto simp: find_Some_iff has_prefix_def)
  then have "w \<noteq> []" "s \<noteq> []" by auto
  then show "((ws, drop (length w) s), (ws, s)) \<in> measure (\<lambda>(ws, s). length s)" by simp
qed simp

declare trim_prefixes.simps [simp del]

definition trim_space :: "string \<Rightarrow> string" where
  "trim_space s = rev (trim_prefixes (map rev space_runes) (rev (trim_prefixes space_runes s)))"

definition has_suffix :: "string \<Rightarrow> string \<Rightarrow> bool" where
  "has_suffix s p \<longleftrightarrow> length p \<le> length s \<and> drop (length s - length p) s = p"

definition ascii_lower :: "char \<Rightarrow> char" where
  "ascii_lower c =
     (case map_of (zip ''ABCDEFGHIJKLMNOPQRSTUVWXYZ'' ''abcdefghijklmnopqrstuvwxyz'') c of
        None \<Rightarrow> c | Some d \<Rightarrow> d)"

definition digit :: "nat \<Rightarrow> char" where
  "digit d = ''0123456789'' ! d"

fun itoa_nat :: "nat \<Rightarrow> string" where
  "itoa_nat n = (if n < 10 then [digit n] else itoa_nat (n div 10) @ [digit (n mod 10)])"

declare itoa_nat.simps [simp del]

definition itoa :: "int \<Rightarrow> string" where
  "itoa i = (if i < 0 then CHR ''-'' # itoa_nat (nat (- i)) else itoa_nat (nat i))"

fun join :: "string \<Rightarrow> string list \<Rightarrow> string" where
  "join sep [] = []"
| "join sep [x] = x"
| "join sep (x # y # zs) = x @ sep @ join sep (y # zs)"

fun split_on :: "char \<Rightarrow> string \<Rightarrow> string list" where
  "split_on c [] = [[]]"
| "split_on c (x # xs) =
     (if x = c then [] # split_on c xs
      else case split_on c xs of [] \<Rightarrow> [[x]] | w # ws \<Rightarrow> (x # w) # ws)"

lemma trim_prefixes_Nil [simp]: "trim_prefixes ws [] = []"
  by (subst trim_prefixes.simps) (auto simp: has_prefix_def find_Some_iff split: option.splits)

lemma trim_space_Nil [simp]: "trim_space [] = []"
  by (simp add: trim_space_def)

lemma has_prefix_iff: "has_prefix s p \<longleftrightarrow> (\<exists>t. s = p @ t)"
proof
  assume "has_prefix s p"
  then have "s = p @ drop (length p) s"
    unfolding has_prefix_def by (metis append_take_drop_id)
  then show "\<exists>t. s = p @ t" by blast
qed (auto simp: has_prefix_def)

lemma has_prefix_append [simp]: "has_prefix (p @ t) p"
  by (simp add: has_prefix_def)

lemma digit_inj: "d < 10 \<Longrightarrow> e < 10 \<Longrightarrow> digit d = digit e \<Longrightarrow> d = e"
proof -
  assume "d < 10" "e < 10" "digit d = digit e"
  moreover have "distinct ''0123456789''" by simp
  ultimately show ?thesis
    using nth_eq_iff_index_eq [of "''0123456789''" d e] by (simp add: digit_def)
qed

lemma itoa_nat_small: "n < 10 \<Longrightarrow> itoa_nat n = [digit n]"
  by (simp add: itoa_nat.simps)

lemma itoa_nat_big: "\<not> n < 10 \<Longrightarrow> itoa_nat n = itoa_nat (n div 10) @ [digit (n mod 10)]"
  by (subst itoa_nat.simps) simp

lemma itoa_nat_ne [simp]: "itoa_nat n \<noteq> []" "[] \<noteq> itoa_nat n"
  by (subst itoa_nat.simps, simp)+

lemma itoa_nat_inj: "itoa_nat m = itoa_nat n \<Longrightarrow> m = n"
proof (induction m arbitrary: n rule: itoa_nat.induct)
  case (1 m)
  show ?case
  proof (cases "m < 10")
    case True
    then have single: "itoa_nat n = [digit m]" using "1.prems" by (simp add: itoa_nat_small)
    then have "n < 10"
      by (cases "n < 10") (simp_all add: itoa_nat_big)
    with single True show ?thesis by (auto simp: itoa_nat_small dest: digit_inj)
  next
    case False
    then have m: "itoa_nat m = itoa_nat (m div 10) @ [digit (m mod 10)]" by (rule itoa_nat_big)
    have n: "\<not> n < 10"
      using m "1.prems" by (cases "n < 10") (auto simp: itoa_nat_small)
    then have "itoa_nat (m div 10) = itoa_nat (n div 10)" "digit (m mod 10) = digit (n mod 10)"
      using m "1.prems" by (simp_all add: itoa_nat_big)
    then have "m div 10 = n div 10" "m mod 10 = n mod 10"
      using "1.IH" [OF False] digit_inj by simp_all
    then show ?thesis by (metis div_mult_mod_eq)
  qed
qed

lemma itoa_nat_digits: "c \<in> set (itoa_nat n) \<Longrightarrow> \<exists>d<10. c = digit d"
proof (induction n rule: itoa_nat.induct)
  case (1 n)
  then show ?case
    by (cases "n < 10") (auto simp: itoa_nat_small itoa_nat_big intro: exI [of _ "n mod 10"])
qed

lemma digit_cases: "d < 10 \<Longrightarrow> digit d \<in> set ''0123456789''"
  unfolding digit_def by (rule nth_mem) simp

lemma itoa_nat_no: "c \<notin> set ''0123456789'' \<Longrightarrow> c \<notin> set (itoa_nat n)"
  using itoa_nat_digits digit_cases by blast

lemma split_on_ne [simp]: "split_on c s \<noteq> []"
  by (induction s) (auto split: list.splits)

lemma split_on_plain: "c \<notin> set w \<Longrightarrow> split_on c w = [w]"
  by (induction w) auto

lemma split_on_append: "c \<notin> set w \<Longrightarrow> split_on c (w @ c # s) = w # split_on c s"
  by (induction w) auto

lemma split_on_join:
  "ds \<noteq> [] \<Longrightarrow> \<forall>d\<in>set ds. c \<notin> set d \<Longrightarrow> split_on c (join [c] ds) = ds"
  by (induction "[c]" ds rule: join.induct) (auto simp: split_on_plain split_on_append)

lemma join_empty: "join [c] ds = [] \<longleftrightarrow> ds = [] \<or> ds = [[]]"
  by (cases "([c], ds)" rule: join.cases) auto

subsection \<open>SQL tables\<close>

text \<open>
  \<^verbatim>\<open>UPDATE t SET f WHERE p\<close>, its \<^verbatim>\<open>RowsAffected\<close>, \<^verbatim>\<open>DELETE\<close>, \<^verbatim>\<open>ORDER BY k LIMIT 1\<close>, and the
  rowid SQLite gives a new row of an \<^verbatim>\<open>INTEGER PRIMARY KEY\<close> table: one more than the largest.
\<close>

definition sql_update :: "('r \<Rightarrow> bool) \<Rightarrow> ('r \<Rightarrow> 'r) \<Rightarrow> 'r list \<Rightarrow> 'r list" where
  "sql_update p f rows = map (\<lambda>r. if p r then f r else r) rows"

definition sql_affected :: "('r \<Rightarrow> bool) \<Rightarrow> 'r list \<Rightarrow> nat" where
  "sql_affected p rows = length (filter p rows)"

definition sql_delete :: "('r \<Rightarrow> bool) \<Rightarrow> 'r list \<Rightarrow> 'r list" where
  "sql_delete p rows = filter (\<lambda>r. \<not> p r) rows"

definition sql_first :: "('r \<Rightarrow> 'k::linorder) \<Rightarrow> ('r \<Rightarrow> bool) \<Rightarrow> 'r list \<Rightarrow> 'r option" where
  "sql_first k p rows = (case sort_key k (filter p rows) of [] \<Rightarrow> None | r # _ \<Rightarrow> Some r)"

definition sql_next_id :: "('r \<Rightarrow> int) \<Rightarrow> 'r list \<Rightarrow> int" where
  "sql_next_id rid rows = 1 + foldr (\<lambda>r m. max (rid r) m) rows 0"

definition null_less :: "ts option \<Rightarrow> ts \<Rightarrow> bool" where
  \<comment> \<open>\<^verbatim>\<open>col < ?\<close> in a WHERE clause: a NULL column never matches\<close>
  "null_less c t = (case c of None \<Rightarrow> False | Some x \<Rightarrow> x < t)"

lemma null_less_simps [simp]: "null_less None t = False" "null_less (Some x) t = (x < t)"
  by (simp_all add: null_less_def)

lemma sql_update_map: "(\<And>r. g (f r) = g r) \<Longrightarrow> map g (sql_update p f rows) = map g rows"
  by (simp add: sql_update_def)

lemma set_sql_update: "set (sql_update p f rows) = (\<lambda>r. if p r then f r else r) ` set rows"
  by (simp add: sql_update_def)

lemma in_sql_updateE:
  assumes "y \<in> set (sql_update p f rows)"
  obtains x where "x \<in> set rows" "y = (if p x then f x else x)"
  using assms by (auto simp only: set_sql_update image_iff)

lemma bex_sql_update:
  "(\<exists>r\<in>set (sql_update p f rows). Q r) \<longleftrightarrow> (\<exists>r\<in>set rows. Q (if p r then f r else r))"
  by (simp only: set_sql_update bex_simps)

lemma ball_sql_update:
  "(\<forall>r\<in>set (sql_update p f rows). Q r) \<longleftrightarrow> (\<forall>r\<in>set rows. Q (if p r then f r else r))"
  by (simp only: set_sql_update ball_simps)

lemma filter_sql_update_other:
  "(\<And>r. r \<in> set rows \<Longrightarrow> p r \<Longrightarrow> \<not> Q r \<and> \<not> Q (f r)) \<Longrightarrow> filter Q (sql_update p f rows) = filter Q rows"
  by (induction rows) (auto simp: sql_update_def)

lemma filter_sql_update_same:
  "(\<And>r. Q (f r) = Q r) \<Longrightarrow> filter Q (sql_update p f rows) = sql_update p f (filter Q rows)"
  by (induction rows) (auto simp: sql_update_def)

lemma sql_update_cong:
  "(\<And>r. r \<in> set rows \<Longrightarrow> p r = p' r) \<Longrightarrow> (\<And>r. r \<in> set rows \<Longrightarrow> p' r \<Longrightarrow> f r = f' r) \<Longrightarrow>
     sql_update p f rows = sql_update p' f' rows"
  unfolding sql_update_def by (rule map_cong) auto

lemma length_sql_update [simp]: "length (sql_update p f rows) = length rows"
  by (simp add: sql_update_def)

lemma sql_update_simps [simp]:
  "sql_update p f [] = []"
  "sql_update p f (r # rs) = (if p r then f r else r) # sql_update p f rs"
  by (simp_all add: sql_update_def)

lemma sql_affected_pos: "0 < sql_affected p rows \<longleftrightarrow> (\<exists>r\<in>set rows. p r)"
  by (induction rows) (auto simp: sql_affected_def)

lemma sql_update_none: "sql_affected p rows = 0 \<Longrightarrow> sql_update p f rows = rows"
  by (induction rows) (auto simp: sql_affected_def split: if_splits)

lemma sql_update_unmatched: "\<not> (\<exists>r\<in>set rows. p r) \<Longrightarrow> sql_update p f rows = rows"
  by (induction rows) auto

lemma sql_update_twice:
  "(\<And>r. p r \<Longrightarrow> \<not> p (f r)) \<Longrightarrow> sql_affected p (sql_update p f rows) = 0"
  by (induction rows) (auto simp: sql_affected_def)

lemma sort_key_first_least:
  assumes "sort_key k xs = r # rs"
  shows "r \<in> set xs" "x \<in> set xs \<Longrightarrow> k r \<le> k x"
proof -
  have s: "set (sort_key k xs) = set xs" by simp
  show "r \<in> set xs" using s assms by (metis list.set_intros(1))
  have "sorted (map k (r # rs))" using sorted_sort_key [of k xs] assms by simp
  then show "k r \<le> k x" if "x \<in> set xs" using that s assms by auto
qed

lemma sql_first_SomeD:
  assumes "sql_first k p rows = Some r"
  shows "r \<in> set rows" "p r" "\<And>x. x \<in> set rows \<Longrightarrow> p x \<Longrightarrow> k r \<le> k x"
proof -
  obtain rs where *: "sort_key k (filter p rows) = r # rs"
    using assms by (auto simp: sql_first_def split: list.splits)
  from sort_key_first_least(1) [OF *] show "r \<in> set rows" "p r" by auto
  show "k r \<le> k x" if "x \<in> set rows" "p x" for x
    by (rule sort_key_first_least(2) [OF *]) (use that in simp)
qed

lemma sql_first_None: "sql_first k p rows = None \<longleftrightarrow> (\<forall>r\<in>set rows. \<not> p r)"
proof -
  have "sort_key k (filter p rows) = [] \<longleftrightarrow> filter p rows = []"
    by (metis set_empty set_sort)
  then show ?thesis
    by (auto simp: sql_first_def filter_empty_conv split: list.splits)
qed

lemma foldr_max_ge: "r \<in> set rows \<Longrightarrow> rid r \<le> foldr (\<lambda>r m. max (rid r) m) rows (b::int)"
  by (induction rows) auto

lemma sql_next_id_cong: "map rid xs = map rid ys \<Longrightarrow> sql_next_id rid xs = sql_next_id rid ys"
proof -
  have "sql_next_id rid rows = 1 + foldr max (map rid rows) 0" for rows
    by (induction rows) (simp_all add: sql_next_id_def)
  then show "map rid xs = map rid ys \<Longrightarrow> ?thesis" by simp
qed

lemma sql_next_id_fresh: "r \<in> set rows \<Longrightarrow> rid r < sql_next_id rid rows"
  using foldr_max_ge [of r rows rid 0] by (simp add: sql_next_id_def)

lemma sql_next_id_pos: "0 < sql_next_id rid rows"
proof -
  have "0 \<le> foldr (\<lambda>r m. max (rid r) m) rows (0::int)" by (induction rows) auto
  then show ?thesis by (simp add: sql_next_id_def)
qed

subsection \<open>The contract of a rowid table\<close>

text \<open>
  \<open>rid\<close> reads the primary key and \<open>set_rid\<close> writes it; the law is that a written key is the one
  read back. Inserting then keeps the keys distinct, and a lookup by key finds the one row.
\<close>

locale rowid_table =
  fixes rid :: "'r \<Rightarrow> int" and set_rid :: "int \<Rightarrow> 'r \<Rightarrow> 'r"
  assumes rid_set_rid: "rid (set_rid i r) = i"
begin

definition keyed :: "'r list \<Rightarrow> bool" where
  "keyed rows \<longleftrightarrow> distinct (map rid rows) \<and> (\<forall>i\<in>set (map rid rows). 0 < i)"

lemma keyed_Nil [simp]: "keyed []"
  by (simp add: keyed_def)

lemma keyed_ins: "keyed rows \<Longrightarrow> keyed (rows @ [set_rid (sql_next_id rid rows) r])"
  using sql_next_id_fresh [of _ rows rid] sql_next_id_pos [of rid rows]
  by (fastforce simp: keyed_def rid_set_rid)

lemma keyed_update: "(\<And>r. rid (f r) = rid r) \<Longrightarrow> keyed (sql_update p f rows) = keyed rows"
  by (simp only: keyed_def sql_update_map)

lemma keyed_filter: "keyed rows \<Longrightarrow> keyed (filter p rows)"
  by (auto simp: keyed_def distinct_map_filter)

lemma keyed_delete: "keyed rows \<Longrightarrow> keyed (sql_delete p rows)"
  by (simp add: sql_delete_def keyed_filter)

lemma keyed_eq: "keyed rows \<Longrightarrow> a \<in> set rows \<Longrightarrow> b \<in> set rows \<Longrightarrow> rid a = rid b \<Longrightarrow> a = b"
  by (auto simp: keyed_def distinct_map dest: inj_onD)

lemma filter_keyed: "keyed rows \<Longrightarrow> r \<in> set rows \<Longrightarrow> filter (\<lambda>x. rid x = rid r) rows = [r]"
proof (induction rows)
  case (Cons a rows)
  then have k: "keyed rows" by (simp add: keyed_def)
  show ?case
  proof (cases "a = r")
    case True
    have "rid r \<notin> rid ` set rows" using Cons.prems(1) True by (simp add: keyed_def)
    then have "rid x \<noteq> rid r" if "x \<in> set rows" for x using that by (metis imageI)
    then show ?thesis using True by (simp add: filter_empty_conv)
  next
    case False
    then have "r \<in> set rows" using Cons.prems(2) by simp
    moreover have "rid a \<noteq> rid r" using Cons.prems(1) \<open>r \<in> set rows\<close> by (force simp: keyed_def)
    ultimately show ?thesis using Cons.IH [OF k] by simp
  qed
qed simp

lemma keyed_affected_le_1:
  assumes "keyed rows"
  shows "sql_affected (\<lambda>r. rid r = i \<and> q r) rows \<le> 1"
  using assms
proof (induction rows)
  case (Cons a rows)
  have k: "keyed rows" using Cons.prems by (simp add: keyed_def)
  show ?case
  proof (cases "rid a = i \<and> q a")
    case True
    then have "filter (\<lambda>r. rid r = i \<and> q r) rows = []"
      using Cons.prems by (auto simp: keyed_def filter_empty_conv) (metis imageI)
    then show ?thesis using True by (simp add: sql_affected_def)
  next
    case False
    then show ?thesis using Cons.IH [OF k] by (auto simp: sql_affected_def)
  qed
qed (simp add: sql_affected_def)

text \<open>
  A loop that updates the rows of a snapshot one primary key at a time is one batch update,
  when the update keeps the key.
\<close>

lemma fold_point_updates_ids:
  assumes "distinct (map rid hs)" and "\<And>r. rid (f r) = rid r"
  shows "fold (\<lambda>h. sql_update (\<lambda>r. rid r = rid h \<and> q r) f) hs rows =
         sql_update (\<lambda>r. rid r \<in> rid ` set hs \<and> q r) f rows"
  using assms(1)
proof (induction hs arbitrary: rows)
  case (Cons h hs)
  then show ?case by (auto simp: sql_update_def assms(2))
qed (simp add: sql_update_def)

lemma fold_point_updates:
  assumes "keyed rows" and "\<And>r. rid (f r) = rid r" and "\<And>r. p r \<Longrightarrow> q r"
  shows "fold (\<lambda>h. sql_update (\<lambda>r. rid r = rid h \<and> q r) f) (filter p rows) rows = sql_update p f rows"
proof -
  have d: "distinct (map rid (filter p rows))"
    using assms(1) by (simp add: keyed_def distinct_map_filter)
  have "(rid r \<in> rid ` set (filter p rows) \<and> q r) = p r" if "r \<in> set rows" for r
    using that assms(3) keyed_eq [OF assms(1)] by (auto simp: image_iff)
  then show ?thesis
    unfolding fold_point_updates_ids [OF d assms(2)] by (simp add: sql_update_def)
qed

lemma affected_point:
  assumes "keyed rows" and "h \<in> set rows" and "q h"
  shows "sql_affected (\<lambda>r. rid r = rid h \<and> q r) rows = 1"
proof -
  have "0 < sql_affected (\<lambda>r. rid r = rid h \<and> q r) rows"
    using assms by (auto simp: sql_affected_pos)
  then show ?thesis using keyed_affected_le_1 [OF assms(1), of "rid h" q] by simp
qed

end

subsection \<open>Loops that treat one key at a time\<close>

text \<open>
  A loop over items runs an operation per item. When the operation leaves what belongs to other keys alone, what
  the loop does to a key is what the operation does to it once, in a state that agrees on that key.
\<close>

locale keyed_loop =
  fixes key :: "'m \<Rightarrow> int" and op :: "'m \<Rightarrow> 's \<Rightarrow> 's" and slice :: "int \<Rightarrow> 's \<Rightarrow> 'v" and ok :: "'s \<Rightarrow> bool"
  assumes ok_op: "ok s \<Longrightarrow> ok (op m s)"
    and frame: "ok s \<Longrightarrow> key m \<noteq> i \<Longrightarrow> slice i (op m s) = slice i s"
begin

lemma fold_ok: "ok s \<Longrightarrow> ok (fold op ms s)"
  by (induction ms arbitrary: s) (auto intro: ok_op)

lemma fold_other: "ok s \<Longrightarrow> i \<notin> key ` set ms \<Longrightarrow> slice i (fold op ms s) = slice i s"
proof (induction ms arbitrary: s)
  case (Cons m ms)
  then show ?case using Cons.IH [OF ok_op [OF Cons.prems(1)], of m] frame [OF Cons.prems(1), of m i] by simp
qed simp

lemma fold_one:
  assumes "ok s" "distinct (map key ms)" "m \<in> set ms"
  shows "\<exists>s'. ok s' \<and> slice (key m) s' = slice (key m) s \<and>
    slice (key m) (fold op ms s) = slice (key m) (op m s')"
proof -
  obtain xs ys where ms: "ms = xs @ m # ys" using assms(3) by (auto simp: in_set_conv_decomp)
  let ?s = "fold op xs s"
  have "key m \<notin> key ` set xs" "key m \<notin> key ` set ys" using assms(2) by (auto simp: ms)
  then have "slice (key m) ?s = slice (key m) s" "ok ?s"
      "slice (key m) (fold op ys (op m ?s)) = slice (key m) (op m ?s)"
    using assms(1) by (simp_all add: fold_other fold_ok ok_op)
  then show ?thesis by (intro exI [of _ ?s]) (simp add: ms)
qed

end

subsection \<open>Invariants of a transition system\<close>

locale invariant_machine =
  fixes init :: "'s \<Rightarrow> bool" and step :: "'s \<Rightarrow> 's \<Rightarrow> bool" and inv :: "'s \<Rightarrow> bool"
  assumes init_inv: "init s \<Longrightarrow> inv s"
    and step_inv: "step s t \<Longrightarrow> inv s \<Longrightarrow> inv t"
begin

lemma steps_inv: "step\<^sup>*\<^sup>* s t \<Longrightarrow> inv s \<Longrightarrow> inv t"
  by (induction rule: rtranclp_induct) (auto intro: step_inv)

lemma reachable_inv: "init s \<Longrightarrow> step\<^sup>*\<^sup>* s t \<Longrightarrow> inv t"
  by (rule steps_inv) (auto intro: init_inv)

end

end
