(* ===== verification/Machine.thy ===== *)
theory Machine
  imports Prelude
begin

section \<open>Labelled machines\<close>

text \<open>
  A machine whose steps carry the call that makes them, and its runs: the list of calls, in order, with the state before and
  after. The first locale carries a property that may depend on the calls made so far along every run. The second is a
  simulation: each step of one machine is, after abstraction, a step of another under the same label, so every run is a run of the other
  with the same calls.
\<close>

inductive event_run :: "('a \<Rightarrow> 's \<Rightarrow> 's \<Rightarrow> bool) \<Rightarrow> 'a list \<Rightarrow> 's \<Rightarrow> 's \<Rightarrow> bool" for step :: "'a \<Rightarrow> 's \<Rightarrow> 's \<Rightarrow> bool" where
  none: "event_run step [] s s"
| more: "step a s u \<Longrightarrow> event_run step as u s' \<Longrightarrow> event_run step (a # as) s s'"

inductive_simps event_run_Nil [simp]: "event_run step [] s s'"
inductive_simps event_run_Cons [simp]: "event_run step (a # as) s s'"

lemma event_run_append: "event_run step (as @ bs) s s' \<longleftrightarrow> (\<exists>u. event_run step as s u \<and> event_run step bs u s')"
  by (induction as arbitrary: s) auto

locale traced_machine =
  fixes step :: "'a \<Rightarrow> 's \<Rightarrow> 's \<Rightarrow> bool" and inv :: "'a list \<Rightarrow> 's \<Rightarrow> bool"
  assumes step_inv: "step a s s' \<Longrightarrow> inv h s \<Longrightarrow> inv (h @ [a]) s'"
begin

lemma run_inv: "event_run step as s s' \<Longrightarrow> inv h s \<Longrightarrow> inv (h @ as) s'"
proof (induction as s s' arbitrary: h rule: event_run.induct)
  case (more a s u as s')
  from more.IH [OF step_inv [OF more.hyps(1) more.prems]] show ?case by simp
qed simp

lemma run_inv_start: "event_run step as s s' \<Longrightarrow> inv [] s \<Longrightarrow> inv as s'"
  using run_inv [of as s s' "[]"] by simp

end

locale simulation =
  fixes cstep :: "'a \<Rightarrow> 's \<Rightarrow> 's \<Rightarrow> bool" and good :: "'s \<Rightarrow> bool"
    and astep :: "'a \<Rightarrow> 't \<Rightarrow> 't \<Rightarrow> bool" and abstr :: "'s \<Rightarrow> 't"
  assumes good_step: "cstep a s s' \<Longrightarrow> good s \<Longrightarrow> good s'"
    and simulated: "cstep a s s' \<Longrightarrow> good s \<Longrightarrow> astep a (abstr s) (abstr s')"
begin

lemma run_good: "event_run cstep as s s' \<Longrightarrow> good s \<Longrightarrow> good s'"
  by (induction rule: event_run.induct) (auto intro: good_step)

lemma run_simulated: "event_run cstep as s s' \<Longrightarrow> good s \<Longrightarrow> event_run astep as (abstr s) (abstr s')"
  by (induction rule: event_run.induct) (auto intro: good_step simulated)

end

end
