(* ===== verification/Queue.thy ===== *)
theory Queue
  imports Prelude
begin

section \<open>The task queue (internal/queue/store.go)\<close>

text \<open>
  The brain's task queue: the tables of the SQLite schema as record types, the store as the
  record of its tables, and one definition per method of \<^verbatim>\<open>queue.Store\<close> in
  \<^verbatim>\<open>store.go\<close>. A method's reads and writes are kept in the order of the source, with its snapshot
  reads drained before the loop that writes. A method that returns an error is a sum with the
  error on the left; the transaction is then rolled back, so the caller keeps the old store.
\<close>

subsection \<open>Rows\<close>

datatype status = Pending | Ready | Claimed | Done | Cancelled | Superseded

record task_spec =
  sp_key :: string
  sp_role :: string
  sp_title :: string
  sp_instruction :: string
  sp_system :: string
  sp_depends_on :: "string list"
  sp_verify :: string
  sp_model :: string

record task =
  t_id :: int
  t_mission_id :: int
  t_key :: string
  t_role :: string
  t_title :: string
  t_instruction :: string
  t_system :: string
  t_status :: status
  t_depends_on :: "string list"
  t_claimed_by :: "string option"
  t_claim_expires_ts :: "ts option"
  t_result :: "string option"
  t_created_ts :: ts
  t_claimed_ts :: "ts option"
  t_done_ts :: "ts option"
  t_supersedes :: int
  t_verify :: string
  t_claimed_instance :: string
  t_model :: string

record finding =
  f_id :: int
  f_mission_id :: int
  f_task_id :: int
  f_reporter :: string
  f_reporter_model :: string
  f_reporter_backend :: string
  f_type :: string
  f_severity :: string
  f_target :: string
  f_scope :: string
  f_test_file :: string
  f_test_selector :: string
  f_evidence :: string
  f_suggested_action :: string
  f_status :: string
  f_recurring :: bool
  f_created_ts :: ts
  f_resolved_ts :: ts

record execution =
  e_id :: int
  e_mission_id :: int
  e_agent :: string
  e_role :: string
  e_command :: string
  e_exit_code :: int
  e_ok :: bool
  e_ts :: int

text \<open>
  The store. \<^verbatim>\<open>mission_halts\<close> has the mission id as its primary key, so it is a map. A row of
  \<open>q_tasks\<close> stands at its place in rowid order, which is the order a query without
  \<^verbatim>\<open>ORDER BY\<close> returns.
\<close>

record qstore =
  q_tasks :: "task list"
  q_findings :: "finding list"
  q_executions :: "execution list"
  q_mission_halts :: "int \<Rightarrow> string option"

definition empty_qstore :: qstore where
  "empty_qstore = \<lparr>q_tasks = [], q_findings = [], q_executions = [], q_mission_halts = Map.empty\<rparr>"

datatype qerr =
    UniqueViolation int string
  | NoSuchTask int
  | NoUniqueKey string
  | NoTargetKey string
  | WouldCycle string string
  | InvalidFinding string
  | InvalidStatus string

interpretation task_table: rowid_table t_id "\<lambda>i t. t\<lparr>t_id := i\<rparr>"
  by unfold_locales simp

interpretation finding_table: rowid_table f_id "\<lambda>i f. f\<lparr>f_id := i\<rparr>"
  by unfold_locales simp

interpretation execution_table: rowid_table e_id "\<lambda>i e. e\<lparr>e_id := i\<rparr>"
  by unfold_locales simp

subsection \<open>Enqueue, delete, prune, halt\<close>

definition insert_task :: "task \<Rightarrow> task list \<Rightarrow> qerr + task list" where
  \<comment> \<open>\<^verbatim>\<open>INSERT INTO tasks\<close> under \<^verbatim>\<open>UNIQUE(mission_id, key)\<close>; the row's own \<open>t_id\<close> is ignored\<close>
  "insert_task t rows =
     (if \<exists>r\<in>set rows. t_mission_id r = t_mission_id t \<and> t_key r = t_key t
      then Inl (UniqueViolation (t_mission_id t) (t_key t))
      else Inr (rows @ [t\<lparr>t_id := sql_next_id t_id rows\<rparr>]))"

definition task_of_spec :: "int \<Rightarrow> int \<Rightarrow> ts \<Rightarrow> task_spec \<Rightarrow> task" where
  "task_of_spec m supersedes t sp =
     \<lparr>t_id = 0, t_mission_id = m, t_key = sp_key sp, t_role = sp_role sp, t_title = sp_title sp,
      t_instruction = sp_instruction sp, t_system = sp_system sp, t_status = Pending,
      t_depends_on = sp_depends_on sp, t_claimed_by = None, t_claim_expires_ts = None,
      t_result = None, t_created_ts = t, t_claimed_ts = None, t_done_ts = None,
      t_supersedes = supersedes, t_verify = sp_verify sp, t_claimed_instance = '''',
      t_model = sp_model sp\<rparr>"

fun enqueue_loop :: "clock \<Rightarrow> nat \<Rightarrow> int \<Rightarrow> task_spec list \<Rightarrow> task list \<Rightarrow> qerr + task list" where
  "enqueue_loop clk i m [] rows = Inr rows"
| "enqueue_loop clk i m (sp # sps) rows =
     (case insert_task (task_of_spec m 0 (clk i) sp) rows of
        Inl e \<Rightarrow> Inl e
      | Inr rows' \<Rightarrow> enqueue_loop clk (Suc i) m sps rows')"

definition enqueue :: "clock \<Rightarrow> int \<Rightarrow> task_spec list \<Rightarrow> qstore \<Rightarrow> qerr + qstore" where
  "enqueue clk m specs q =
     (case enqueue_loop clk 0 m specs (q_tasks q) of
        Inl e \<Rightarrow> Inl e
      | Inr rows \<Rightarrow> Inr (q\<lparr>q_tasks := rows\<rparr>))"

definition delete_mission_tasks :: "int \<Rightarrow> qstore \<Rightarrow> qstore" where
  "delete_mission_tasks m q = q\<lparr>q_tasks := sql_delete (\<lambda>t. t_mission_id t = m) (q_tasks q)\<rparr>"

definition footprint_counts :: "int \<Rightarrow> qstore \<Rightarrow> nat \<times> nat \<times> nat" where
  "footprint_counts m q =
     (length (filter (\<lambda>t. t_mission_id t = m) (q_tasks q)),
      length (filter (\<lambda>f. f_mission_id f = m) (q_findings q)),
      length (filter (\<lambda>e. e_mission_id e = m) (q_executions q)))"

definition prune_mission :: "int \<Rightarrow> qstore \<Rightarrow> qstore" where
  "prune_mission m q =
     q\<lparr>q_tasks := sql_delete (\<lambda>t. t_mission_id t = m) (q_tasks q),
       q_findings := sql_delete (\<lambda>f. f_mission_id f = m) (q_findings q),
       q_executions := sql_delete (\<lambda>e. e_mission_id e = m) (q_executions q),
       q_mission_halts := (q_mission_halts q)(m := None)\<rparr>"

definition halt_mission :: "int \<Rightarrow> string \<Rightarrow> qstore \<Rightarrow> qstore" where
  "halt_mission m reason q = q\<lparr>q_mission_halts := (q_mission_halts q)(m \<mapsto> reason)\<rparr>"

definition unhalt_mission :: "int \<Rightarrow> qstore \<Rightarrow> qstore" where
  "unhalt_mission m q = q\<lparr>q_mission_halts := (q_mission_halts q)(m := None)\<rparr>"

definition mission_halt_reason :: "int \<Rightarrow> qstore \<Rightarrow> string" where
  "mission_halt_reason m q = (case q_mission_halts q m of None \<Rightarrow> '''' | Some r \<Rightarrow> r)"

subsection \<open>Promotion\<close>

definition keys_with_status :: "int \<Rightarrow> status \<Rightarrow> qstore \<Rightarrow> string set" where
  "keys_with_status m st q =
     set (map t_key (filter (\<lambda>t. t_mission_id t = m \<and> t_status t = st) (q_tasks q)))"

fun all_done :: "string list \<Rightarrow> string set \<Rightarrow> bool" where
  "all_done [] done_keys = True"
| "all_done (d # ds) done_keys = (if d \<notin> done_keys then False else all_done ds done_keys)"

fun promote_loop :: "string set \<Rightarrow> (int \<times> string list) list \<Rightarrow> nat \<times> task list \<Rightarrow> nat \<times> task list" where
  "promote_loop done_keys [] (n, rows) = (n, rows)"
| "promote_loop done_keys ((i, deps) # ps) (n, rows) =
     promote_loop done_keys ps
       (if all_done deps done_keys
        then (Suc n, sql_update (\<lambda>t. t_id t = i \<and> t_status t = Pending) (\<lambda>t. t\<lparr>t_status := Ready\<rparr>) rows)
        else (n, rows))"

definition promote_ready :: "int \<Rightarrow> qstore \<Rightarrow> nat \<times> qstore" where
  "promote_ready m q =
     (let done_keys = keys_with_status m Done q;
          pending = map (\<lambda>t. (t_id t, t_depends_on t))
                      (filter (\<lambda>t. t_mission_id t = m \<and> t_status t = Pending) (q_tasks q));
          (n, rows) = promote_loop done_keys pending (0, q_tasks q)
      in (n, q\<lparr>q_tasks := rows\<rparr>))"

subsection \<open>Claiming\<close>

definition role_ok :: "string list \<Rightarrow> task \<Rightarrow> bool" where
  \<comment> \<open>\<^verbatim>\<open>role IN (roles..., '')\<close>, and no clause at all for an empty role list\<close>
  "role_ok roles t \<longleftrightarrow> roles = [] \<or> t_role t \<in> set roles \<or> t_role t = ''''"

definition self_healable :: "string \<Rightarrow> string \<Rightarrow> string list \<Rightarrow> ts \<Rightarrow> qstore \<Rightarrow> task \<Rightarrow> bool" where
  "self_healable bee inst roles t0 q t \<longleftrightarrow>
     t_status t = Claimed \<and> t_claimed_by t = Some bee \<and>
     (t_claimed_instance t = inst \<and> inst \<noteq> '''' \<or> null_less (t_claim_expires_ts t) t0) \<and>
     q_mission_halts q (t_mission_id t) = None \<and> role_ok roles t"

definition claimable :: "string list \<Rightarrow> qstore \<Rightarrow> task \<Rightarrow> bool" where
  "claimable roles q t \<longleftrightarrow>
     t_status t = Ready \<and> q_mission_halts q (t_mission_id t) = None \<and> role_ok roles t"

record claimed_task =
  c_task :: task
  c_reissued :: bool

definition claim_reply :: "task \<Rightarrow> string \<Rightarrow> ts \<Rightarrow> ts \<Rightarrow> bool \<Rightarrow> claimed_task" where
  \<comment> \<open>the Go value: the scanned columns, the fields set by hand, zero for every other field\<close>
  "claim_reply t bee tm expires re =
     \<lparr>c_task = t\<lparr>t_status := Claimed, t_claimed_by := Some bee, t_claimed_ts := Some tm,
                t_claim_expires_ts := Some expires, t_verify := '''', t_supersedes := 0,
                t_result := None, t_done_ts := None, t_claimed_instance := ''''\<rparr>,
      c_reissued = re\<rparr>"

definition claim_fresh ::
  "ts \<Rightarrow> string \<Rightarrow> string \<Rightarrow> string list \<Rightarrow> ts \<Rightarrow> qstore \<Rightarrow> claimed_task option \<times> qstore" where
  "claim_fresh tm bee inst roles lease q =
     (case sql_first (\<lambda>t. (t_created_ts t, t_id t)) (claimable roles q) (q_tasks q) of
        None \<Rightarrow> (None, q)
      | Some t \<Rightarrow>
          let p = (\<lambda>r. t_id r = t_id t \<and> t_status r = Ready) in
          if sql_affected p (q_tasks q) \<noteq> 1 then (None, q)
          else (Some (claim_reply t bee tm (tm + lease) False),
                q\<lparr>q_tasks := sql_update p
                   (\<lambda>r. r\<lparr>t_status := Claimed, t_claimed_by := Some bee, t_claimed_ts := Some tm,
                          t_claim_expires_ts := Some (tm + lease), t_claimed_instance := inst\<rparr>)
                   (q_tasks q)\<rparr>))"

definition claim_next_as ::
  "clock \<Rightarrow> string \<Rightarrow> string \<Rightarrow> string list \<Rightarrow> ts \<Rightarrow> qstore \<Rightarrow> claimed_task option \<times> qstore" where
  "claim_next_as clk bee inst roles lease q =
     (let t0 = clk 0 in
      case sql_first (\<lambda>t. (t_claimed_ts t, t_id t)) (self_healable bee inst roles t0 q) (q_tasks q) of
        Some t \<Rightarrow>
          let p = (\<lambda>r. t_id r = t_id t \<and> t_status r = Claimed) in
          if sql_affected p (q_tasks q) \<noteq> 1 then (None, q)
          else (Some (claim_reply t bee t0 (t0 + lease) True),
                q\<lparr>q_tasks := sql_update p
                   (\<lambda>r. r\<lparr>t_claimed_ts := Some t0, t_claim_expires_ts := Some (t0 + lease),
                          t_claimed_instance := inst\<rparr>)
                   (q_tasks q)\<rparr>)
      | None \<Rightarrow> claim_fresh (clk 1) bee inst roles lease q)"

definition claim_next ::
  "clock \<Rightarrow> string \<Rightarrow> string list \<Rightarrow> ts \<Rightarrow> qstore \<Rightarrow> claimed_task option \<times> qstore" where
  "claim_next clk bee roles lease q = claim_next_as clk bee '''' roles lease q"

subsection \<open>Completing, reclaiming, reaping\<close>

definition complete :: "ts \<Rightarrow> int \<Rightarrow> string \<Rightarrow> string \<Rightarrow> qstore \<Rightarrow> bool \<times> qstore" where
  "complete tm i bee res q =
     (let p = (\<lambda>t. t_id t = i \<and> t_status t = Claimed \<and> t_claimed_by t = Some bee) in
      (0 < sql_affected p (q_tasks q),
       q\<lparr>q_tasks := sql_update p
          (\<lambda>t. t\<lparr>t_status := Done, t_result := Some res, t_done_ts := Some tm,
                 t_claim_expires_ts := None\<rparr>)
          (q_tasks q)\<rparr>))"

definition requeue_task :: "task \<Rightarrow> task" where
  "requeue_task t = t\<lparr>t_status := Ready, t_claimed_by := None, t_claimed_ts := None,
     t_claim_expires_ts := None, t_claimed_instance := ''''\<rparr>"

fun reclaim_loop :: "string \<Rightarrow> task list \<Rightarrow> task list \<times> task list \<Rightarrow> task list \<times> task list" where
  "reclaim_loop bee [] (reclaimed, rows) = (reclaimed, rows)"
| "reclaim_loop bee (t # ts) (reclaimed, rows) =
     (let p = (\<lambda>r. t_id r = t_id t \<and> t_status r = Claimed \<and> t_claimed_by r = Some bee) in
      reclaim_loop bee ts
        (if 0 < sql_affected p rows then reclaimed @ [t] else reclaimed,
         sql_update p requeue_task rows))"

definition reclaim_idle :: "ts \<Rightarrow> string \<Rightarrow> ts \<Rightarrow> qstore \<Rightarrow> task list \<times> qstore" where
  "reclaim_idle t0 bee grace q =
     (let cutoff = t0 - grace;
          stale = filter (\<lambda>t. t_status t = Claimed \<and> t_claimed_by t = Some bee \<and>
                    null_less (t_claimed_ts t) cutoff \<and> null_less (t_claim_expires_ts t) t0)
                    (q_tasks q);
          (reclaimed, rows) = reclaim_loop bee stale ([], q_tasks q)
      in (reclaimed, q\<lparr>q_tasks := rows\<rparr>))"

definition reap_due :: "string set option \<Rightarrow> ts \<Rightarrow> task \<Rightarrow> bool" where
  "reap_due present tm t =
     (case present of
        Some names \<Rightarrow> (case t_claimed_by t of None \<Rightarrow> '''' | Some b \<Rightarrow> b) \<notin> names
      | None \<Rightarrow> null_less (t_claim_expires_ts t) tm)"

fun reap_loop :: "string set option \<Rightarrow> ts \<Rightarrow> task list \<Rightarrow> nat \<times> task list \<Rightarrow> nat \<times> task list" where
  "reap_loop present tm [] (n, rows) = (n, rows)"
| "reap_loop present tm (h # hs) (n, rows) =
     reap_loop present tm hs
       (if \<not> reap_due present tm h then (n, rows)
        else (Suc n, sql_update (\<lambda>t. t_id t = t_id h \<and> t_status t = Claimed) requeue_task rows))"

definition reap :: "ts \<Rightarrow> string set option \<Rightarrow> qstore \<Rightarrow> nat \<times> qstore" where
  "reap tm present q =
     (let claimed = filter (\<lambda>t. t_status t = Claimed) (q_tasks q);
          (n, rows) = reap_loop present tm claimed (0, q_tasks q)
      in (n, q\<lparr>q_tasks := rows\<rparr>))"

subsection \<open>Reads\<close>

definition holds_claimed_task :: "string \<Rightarrow> qstore \<Rightarrow> bool" where
  "holds_claimed_task agent q \<longleftrightarrow>
     (\<exists>t\<in>set (q_tasks q). t_status t = Claimed \<and> t_claimed_by t = Some agent)"

definition mission_roles :: "int \<Rightarrow> qstore \<Rightarrow> string list" where
  "mission_roles m q = sort (remdups (map t_role (filter (\<lambda>t. t_mission_id t = m) (q_tasks q))))"

definition mission_task_keys :: "int \<Rightarrow> qstore \<Rightarrow> string list" where
  "mission_task_keys m q = map t_key (filter (\<lambda>t. t_mission_id t = m) (q_tasks q))"

definition open_status :: "status \<Rightarrow> bool" where
  "open_status st \<longleftrightarrow> st = Pending \<or> st = Ready \<or> st = Claimed"

definition mission_done :: "int \<Rightarrow> qstore \<Rightarrow> bool" where
  "mission_done m q =
     (let rows = filter (\<lambda>t. t_mission_id t = m) (q_tasks q);
          total = length rows;
          opn = length (filter (\<lambda>t. open_status (t_status t)) rows)
      in 0 < total \<and> opn = 0)"

definition mission_of_task :: "int \<Rightarrow> qstore \<Rightarrow> int" where
  "mission_of_task i q =
     (case find (\<lambda>t. t_id t = i) (q_tasks q) of None \<Rightarrow> 0 | Some t \<Rightarrow> t_mission_id t)"

definition claimed_mission :: "string \<Rightarrow> qstore \<Rightarrow> int" where
  "claimed_mission bee q =
     (case find (\<lambda>t. t_claimed_by t = Some bee \<and> t_status t = Claimed) (q_tasks q) of
        None \<Rightarrow> 0
      | Some t \<Rightarrow> t_mission_id t)"

definition list_tasks :: "int \<Rightarrow> qstore \<Rightarrow> task list" where
  "list_tasks m q = sort_key t_id (filter (\<lambda>t. t_mission_id t = m) (q_tasks q))"

definition active_tasks :: "qstore \<Rightarrow> task list" where
  "active_tasks q = sort_key (\<lambda>t. (t_mission_id t, t_id t)) (q_tasks q)"

subsection \<open>Well-formedness\<close>

text \<open>
  A row is well formed when its lease columns agree with its status: exactly a claimed row has a
  lease, a claimed row names its holder, and only a claimed or done row names one.
\<close>

definition wf_task :: "task \<Rightarrow> bool" where
  "wf_task t \<longleftrightarrow>
     (t_status t = Claimed \<longleftrightarrow> t_claim_expires_ts t \<noteq> None) \<and>
     (t_status t = Claimed \<longrightarrow> t_claimed_by t \<noteq> None \<and> t_claimed_ts t \<noteq> None) \<and>
     (t_claimed_by t \<noteq> None \<longrightarrow> t_status t = Claimed \<or> t_status t = Done) \<and>
     (t_status t = Done \<longrightarrow> t_done_ts t \<noteq> None)"

definition mission_key :: "task \<Rightarrow> int \<times> string" where
  "mission_key t = (t_mission_id t, t_key t)"

definition wf_tasks :: "task list \<Rightarrow> bool" where
  "wf_tasks rows \<longleftrightarrow>
     task_table.keyed rows \<and> distinct (map mission_key rows) \<and> (\<forall>t\<in>set rows. wf_task t)"

definition wf_queue :: "qstore \<Rightarrow> bool" where
  "wf_queue q \<longleftrightarrow> wf_tasks (q_tasks q) \<and> finding_table.keyed (q_findings q) \<and>
     execution_table.keyed (q_executions q)"

lemma wf_empty_qstore: "wf_queue empty_qstore"
  by (simp add: wf_queue_def empty_qstore_def wf_tasks_def)

lemma wf_tasks_keyed: "wf_tasks rows \<Longrightarrow> task_table.keyed rows"
  by (simp add: wf_tasks_def)

lemma wf_queue_keyed: "wf_queue q \<Longrightarrow> task_table.keyed (q_tasks q)"
  by (simp add: wf_queue_def wf_tasks_def)

lemma wf_queue_wf_task: "wf_queue q \<Longrightarrow> t \<in> set (q_tasks q) \<Longrightarrow> wf_task t"
  by (simp add: wf_queue_def wf_tasks_def)

lemma wf_tasks_update:
  assumes "wf_tasks rows"
    and "\<And>r. t_id (f r) = t_id r" "\<And>r. t_mission_id (f r) = t_mission_id r" "\<And>r. t_key (f r) = t_key r"
    and "\<And>r. r \<in> set rows \<Longrightarrow> p r \<Longrightarrow> wf_task r \<Longrightarrow> wf_task (f r)"
  shows "wf_tasks (sql_update p f rows)"
proof -
  have "map mission_key (sql_update p f rows) = map mission_key rows"
    by (rule sql_update_map) (simp add: mission_key_def assms)
  moreover have "task_table.keyed (sql_update p f rows) = task_table.keyed rows"
    by (rule task_table.keyed_update) (rule assms)
  moreover have "\<forall>t\<in>set (sql_update p f rows). wf_task t"
    using assms(1,5) by (auto simp: wf_tasks_def set_sql_update)
  ultimately show ?thesis using assms(1) by (simp add: wf_tasks_def)
qed

lemma wf_tasks_delete: "wf_tasks rows \<Longrightarrow> wf_tasks (sql_delete p rows)"
  unfolding wf_tasks_def
  by (simp add: task_table.keyed_delete) (simp add: sql_delete_def distinct_map_filter)

lemma wf_tasks_insert:
  assumes "wf_tasks rows" and "insert_task t rows = Inr rows'"
    and "wf_task t"
  shows "wf_tasks rows'"
proof -
  have rows': "rows' = rows @ [t\<lparr>t_id := sql_next_id t_id rows\<rparr>]"
    and fresh: "\<And>r. r \<in> set rows \<Longrightarrow> mission_key r \<noteq> mission_key t"
    using assms(2) by (auto simp: insert_task_def mission_key_def split: if_splits)
  have "task_table.keyed rows'"
    unfolding rows' by (rule task_table.keyed_ins) (rule wf_tasks_keyed [OF assms(1)])
  moreover have "distinct (map mission_key rows')"
    using assms(1) fresh by (auto simp: rows' wf_tasks_def mission_key_def dest: sym)
  moreover have "\<forall>r\<in>set rows'. wf_task r"
    using assms(1,3) by (auto simp: rows' wf_tasks_def wf_task_def)
  ultimately show ?thesis by (simp add: wf_tasks_def)
qed

lemma wf_task_of_spec: "wf_task (task_of_spec m s t sp)"
  by (simp add: wf_task_def task_of_spec_def)

lemma wf_enqueue_loop: "wf_tasks rows \<Longrightarrow> enqueue_loop clk i m sps rows = Inr rows' \<Longrightarrow> wf_tasks rows'"
proof (induction sps arbitrary: i rows)
  case (Cons sp sps)
  then obtain rows1 where "insert_task (task_of_spec m 0 (clk i) sp) rows = Inr rows1"
    "enqueue_loop clk (Suc i) m sps rows1 = Inr rows'"
    by (auto split: sum.splits)
  then show ?case using Cons.IH wf_tasks_insert [OF Cons.prems(1)] wf_task_of_spec by blast
qed simp

lemma wf_enqueue: "wf_queue q \<Longrightarrow> enqueue clk m sps q = Inr q' \<Longrightarrow> wf_queue q'"
  by (auto simp: enqueue_def wf_queue_def split: sum.splits intro: wf_enqueue_loop)

lemma wf_delete_mission_tasks [wf_intros]: "wf_queue q \<Longrightarrow> wf_queue (delete_mission_tasks m q)"
  by (simp add: wf_queue_def delete_mission_tasks_def wf_tasks_delete)

lemma wf_prune_mission [wf_intros]: "wf_queue q \<Longrightarrow> wf_queue (prune_mission m q)"
  by (simp add: wf_queue_def prune_mission_def wf_tasks_delete finding_table.keyed_delete
      execution_table.keyed_delete)

lemma wf_halt_mission [wf_intros]: "wf_queue q \<Longrightarrow> wf_queue (halt_mission m r q)"
  by (simp add: wf_queue_def halt_mission_def)

lemma wf_unhalt_mission [wf_intros]: "wf_queue q \<Longrightarrow> wf_queue (unhalt_mission m q)"
  by (simp add: wf_queue_def unhalt_mission_def)

lemma wf_queue_tasks: "wf_queue q \<Longrightarrow> wf_tasks rows \<Longrightarrow> wf_queue (q\<lparr>q_tasks := rows\<rparr>)"
  by (simp add: wf_queue_def)

subsection \<open>Promotion is one batch update\<close>

lemma all_done_iff: "all_done ds ks \<longleftrightarrow> set ds \<subseteq> ks"
  by (induction ds) auto

lemma promote_loop_fold:
  "promote_loop ks (map (\<lambda>t. (t_id t, t_depends_on t)) ts) (n, rows) =
     (n + length (filter (\<lambda>t. all_done (t_depends_on t) ks) ts),
      fold (\<lambda>h. sql_update (\<lambda>r. t_id r = t_id h \<and> t_status r = Pending) (\<lambda>t. t\<lparr>t_status := Ready\<rparr>))
        (filter (\<lambda>t. all_done (t_depends_on t) ks) ts) rows)"
  by (induction ts arbitrary: n rows) auto

definition promotable :: "int \<Rightarrow> qstore \<Rightarrow> task \<Rightarrow> bool" where
  "promotable m q t \<longleftrightarrow> t_mission_id t = m \<and> t_status t = Pending \<and>
     set (t_depends_on t) \<subseteq> keys_with_status m Done q"

lemma promote_ready_batch:
  assumes "wf_queue q"
  shows "promote_ready m q =
    (length (filter (promotable m q) (q_tasks q)),
     q\<lparr>q_tasks := sql_update (promotable m q) (\<lambda>t. t\<lparr>t_status := Ready\<rparr>) (q_tasks q)\<rparr>)"
proof -
  let ?ks = "keys_with_status m Done q"
  have f: "(\<lambda>t. t_mission_id t = m \<and> t_status t = Pending \<and> all_done (t_depends_on t) ?ks) = promotable m q"
    by (auto simp: fun_eq_iff promotable_def all_done_iff)
  have "fold (\<lambda>h. sql_update (\<lambda>r. t_id r = t_id h \<and> t_status r = Pending) (\<lambda>t. t\<lparr>t_status := Ready\<rparr>))
          (filter (promotable m q) (q_tasks q)) (q_tasks q) =
        sql_update (promotable m q) (\<lambda>t. t\<lparr>t_status := Ready\<rparr>) (q_tasks q)"
    by (rule task_table.fold_point_updates [OF wf_queue_keyed [OF assms]])
       (simp_all add: promotable_def)
  then show ?thesis
    by (simp add: promote_ready_def Let_def promote_loop_fold f)
qed

lemma wf_promote_ready [wf_intros]: "wf_queue q \<Longrightarrow> wf_queue (snd (promote_ready m q))"
  by (simp add: promote_ready_batch)
     (rule wf_queue_tasks, simp, rule wf_tasks_update,
      auto simp: wf_queue_def wf_task_def promotable_def)

subsection \<open>Claiming\<close>

lemma claim_fresh_cases:
  assumes "wf_queue q"
  obtains (none) "claim_fresh tm bee inst roles lease q = (None, q)"
      "\<forall>t\<in>set (q_tasks q). \<not> claimable roles q t"
    | (some) t where "t \<in> set (q_tasks q)" "claimable roles q t"
      "\<And>x. x \<in> set (q_tasks q) \<Longrightarrow> claimable roles q x \<Longrightarrow>
         (t_created_ts t, t_id t) \<le> (t_created_ts x, t_id x)"
      "claim_fresh tm bee inst roles lease q =
         (Some (claim_reply t bee tm (tm + lease) False),
          q\<lparr>q_tasks := sql_update (\<lambda>r. t_id r = t_id t \<and> t_status r = Ready)
             (\<lambda>r. r\<lparr>t_status := Claimed, t_claimed_by := Some bee, t_claimed_ts := Some tm,
                    t_claim_expires_ts := Some (tm + lease), t_claimed_instance := inst\<rparr>)
             (q_tasks q)\<rparr>)"
proof (cases "sql_first (\<lambda>t. (t_created_ts t, t_id t)) (claimable roles q) (q_tasks q)")
  case None
  then have "claim_fresh tm bee inst roles lease q = (None, q)" by (simp add: claim_fresh_def)
  with None show thesis using none by (simp only: sql_first_None)
next
  case (Some t)
  note t = sql_first_SomeD [OF Some]
  have "sql_affected (\<lambda>r. t_id r = t_id t \<and> t_status r = Ready) (q_tasks q) = 1"
    using task_table.affected_point [OF wf_queue_keyed [OF assms] t(1), of "\<lambda>r. t_status r = Ready"] t(2)
    by (simp add: claimable_def)
  then show thesis using some [OF t] Some by (simp add: claim_fresh_def)
qed

lemma claim_next_as_cases:
  assumes "wf_queue q"
  obtains (heal) t where "t \<in> set (q_tasks q)" "self_healable bee inst roles (clk 0) q t"
      "claim_next_as clk bee inst roles lease q =
         (Some (claim_reply t bee (clk 0) (clk 0 + lease) True),
          q\<lparr>q_tasks := sql_update (\<lambda>r. t_id r = t_id t \<and> t_status r = Claimed)
             (\<lambda>r. r\<lparr>t_claimed_ts := Some (clk 0), t_claim_expires_ts := Some (clk 0 + lease),
                    t_claimed_instance := inst\<rparr>)
             (q_tasks q)\<rparr>)"
    | (fresh) "\<forall>t\<in>set (q_tasks q). \<not> self_healable bee inst roles (clk 0) q t"
      "claim_next_as clk bee inst roles lease q = claim_fresh (clk 1) bee inst roles lease q"
proof (cases "sql_first (\<lambda>t. (t_claimed_ts t, t_id t)) (self_healable bee inst roles (clk 0) q) (q_tasks q)")
  case None
  then have "claim_next_as clk bee inst roles lease q = claim_fresh (clk 1) bee inst roles lease q"
    by (simp add: claim_next_as_def)
  with None show thesis using fresh by (simp only: sql_first_None)
next
  case (Some t)
  note t = sql_first_SomeD [OF Some]
  have "sql_affected (\<lambda>r. t_id r = t_id t \<and> t_status r = Claimed) (q_tasks q) = 1"
    using task_table.affected_point [OF wf_queue_keyed [OF assms] t(1), of "\<lambda>r. t_status r = Claimed"] t(2)
    by (simp add: self_healable_def)
  then show thesis using Some by (intro heal [OF t(1,2)]) (simp add: claim_next_as_def Let_def)
qed

lemma wf_claim_fresh:
  assumes "wf_queue q"
  shows "wf_queue (snd (claim_fresh tm bee inst roles lease q))"
  by (rule claim_fresh_cases [OF assms, of tm bee inst roles lease])
     (use assms in \<open>auto simp: wf_queue_def wf_task_def intro!: wf_tasks_update\<close>)

lemma wf_claim_next_as [wf_intros]:
  assumes "wf_queue q"
  shows "wf_queue (snd (claim_next_as clk bee inst roles lease q))"
proof (rule claim_next_as_cases [OF assms, of bee inst roles clk lease])
  assume "claim_next_as clk bee inst roles lease q = claim_fresh (clk 1) bee inst roles lease q"
  then show ?thesis by (simp only: wf_claim_fresh [OF assms])
qed (use assms in \<open>auto simp: wf_queue_def wf_task_def intro!: wf_tasks_update\<close>)

subsection \<open>Completing, reclaiming, reaping\<close>

lemma wf_complete [wf_intros]: "wf_queue q \<Longrightarrow> wf_queue (snd (complete tm i bee res q))"
  by (auto simp: complete_def Let_def wf_queue_def wf_task_def intro!: wf_tasks_update)

lemma requeue_task_simps [simp]:
  "t_id (requeue_task t) = t_id t" "t_mission_id (requeue_task t) = t_mission_id t"
  "t_key (requeue_task t) = t_key t" "t_status (requeue_task t) = Ready" "wf_task (requeue_task t)"
  by (simp_all add: requeue_task_def wf_task_def)

lemma wf_tasks_requeue: "wf_tasks rows \<Longrightarrow> wf_tasks (sql_update p requeue_task rows)"
  by (rule wf_tasks_update) auto

lemma reclaim_loop_rows:
  "snd (reclaim_loop bee ts (acc, rows)) =
     fold (\<lambda>h. sql_update (\<lambda>r. t_id r = t_id h \<and> t_status r = Claimed \<and> t_claimed_by r = Some bee)
            requeue_task) ts rows"
  by (induction ts arbitrary: acc rows) (auto simp: Let_def)

lemma reap_loop_fold:
  "reap_loop present tm hs (n, rows) =
     (n + length (filter (reap_due present tm) hs),
      fold (\<lambda>h. sql_update (\<lambda>r. t_id r = t_id h \<and> t_status r = Claimed) requeue_task)
        (filter (reap_due present tm) hs) rows)"
  by (induction hs arbitrary: n rows) auto

lemma reap_batch:
  assumes "wf_queue q"
  shows "reap tm present q =
    (length (filter (\<lambda>t. t_status t = Claimed \<and> reap_due present tm t) (q_tasks q)),
     q\<lparr>q_tasks := sql_update (\<lambda>t. t_status t = Claimed \<and> reap_due present tm t) requeue_task (q_tasks q)\<rparr>)"
proof -
  let ?p = "\<lambda>t. t_status t = Claimed \<and> reap_due present tm t"
  have f: "filter (reap_due present tm) (filter (\<lambda>t. t_status t = Claimed) (q_tasks q)) =
      filter ?p (q_tasks q)"
    by (simp add: filter_filter conj_commute)
  have "fold (\<lambda>h. sql_update (\<lambda>r. t_id r = t_id h \<and> t_status r = Claimed) requeue_task)
          (filter ?p (q_tasks q)) (q_tasks q) = sql_update ?p requeue_task (q_tasks q)"
    by (rule task_table.fold_point_updates [OF wf_queue_keyed [OF assms]]) simp_all
  then show ?thesis by (simp add: reap_def Let_def reap_loop_fold f)
qed

definition reclaimable :: "ts \<Rightarrow> string \<Rightarrow> ts \<Rightarrow> task \<Rightarrow> bool" where
  "reclaimable t0 bee grace t \<longleftrightarrow> t_status t = Claimed \<and> t_claimed_by t = Some bee \<and>
     null_less (t_claimed_ts t) (t0 - grace) \<and> null_less (t_claim_expires_ts t) t0"

lemma reclaim_idle_batch:
  assumes "wf_queue q"
  shows "snd (reclaim_idle t0 bee grace q) =
    q\<lparr>q_tasks := sql_update (reclaimable t0 bee grace) requeue_task (q_tasks q)\<rparr>"
proof -
  have "fold (\<lambda>h. sql_update (\<lambda>r. t_id r = t_id h \<and> t_status r = Claimed \<and> t_claimed_by r = Some bee)
            requeue_task) (filter (reclaimable t0 bee grace) (q_tasks q)) (q_tasks q) =
        sql_update (reclaimable t0 bee grace) requeue_task (q_tasks q)"
    by (rule task_table.fold_point_updates [OF wf_queue_keyed [OF assms]])
       (simp_all add: reclaimable_def)
  moreover have "(\<lambda>t. t_status t = Claimed \<and> t_claimed_by t = Some bee \<and>
      null_less (t_claimed_ts t) (t0 - grace) \<and> null_less (t_claim_expires_ts t) t0) =
      reclaimable t0 bee grace"
    by (auto simp: fun_eq_iff reclaimable_def)
  ultimately show ?thesis
    by (simp add: reclaim_idle_def Let_def split_beta reclaim_loop_rows)
qed

lemma wf_reclaim_idle [wf_intros]: "wf_queue q \<Longrightarrow> wf_queue (snd (reclaim_idle t0 bee grace q))"
  by (simp add: reclaim_idle_batch) (simp add: wf_queue_def wf_tasks_requeue)

lemma wf_reap [wf_intros]: "wf_queue q \<Longrightarrow> wf_queue (snd (reap tm present q))"
  by (simp add: reap_batch) (simp add: wf_queue_def wf_tasks_requeue)

lemma set_list_tasks: "set (list_tasks m q) = {t \<in> set (q_tasks q). t_mission_id t = m}"
  by (auto simp: list_tasks_def)

lemma mission_done_iff:
  "mission_done m q \<longleftrightarrow> (\<exists>t\<in>set (q_tasks q). t_mission_id t = m) \<and>
     (\<forall>t\<in>set (q_tasks q). t_mission_id t = m \<longrightarrow> \<not> open_status (t_status t))"
  by (auto simp: mission_done_def Let_def filter_empty_conv)

end
