(* ===== verification/Queue_Replan.thy ===== *)
theory Queue_Replan
  imports Queue
begin

section \<open>Re-planning (internal/queue/supersede.go)\<close>

text \<open>
  The operations by which a lead re-plans a mission: cancel, reopen, supersede, guarded cancel with
  its breadth-first walk of the dependent subtree, and retargeting with its cycle guard. Both walks
  are defined with the source's work lists and proved to terminate on every store.
\<close>

definition terminal :: "status \<Rightarrow> bool" where
  "terminal st \<longleftrightarrow> st = Done \<or> st = Cancelled \<or> st = Superseded"

definition cancel_task :: "int \<Rightarrow> qstore \<Rightarrow> bool \<times> qstore" where
  "cancel_task i q =
     (let p = (\<lambda>t. t_id t = i \<and> open_status (t_status t)) in
      (0 < sql_affected p (q_tasks q),
       q\<lparr>q_tasks := sql_update p
          (\<lambda>t. t\<lparr>t_status := Cancelled, t_claimed_by := None, t_claim_expires_ts := None\<rparr>)
          (q_tasks q)\<rparr>))"

definition reopen_task :: "int \<Rightarrow> qstore \<Rightarrow> bool \<times> qstore" where
  "reopen_task i q =
     (let p = (\<lambda>t. t_id t = i \<and> t_status t = Done) in
      (0 < sql_affected p (q_tasks q),
       q\<lparr>q_tasks := sql_update p
          (\<lambda>t. t\<lparr>t_status := Ready, t_claimed_by := None, t_claimed_ts := None, t_done_ts := None,
                 t_result := None\<rparr>)
          (q_tasks q)\<rparr>))"

definition task_by_id :: "int \<Rightarrow> qstore \<Rightarrow> task option" where
  "task_by_id i q = find (\<lambda>t. t_id t = i) (q_tasks q)"

subsection \<open>Supersede\<close>

function unique_key_loop :: "task list \<Rightarrow> int \<Rightarrow> string \<Rightarrow> nat \<Rightarrow> string \<Rightarrow> qerr + string" where
  "unique_key_loop rows m base i key =
     (if i < 10000 then
        if length (filter (\<lambda>t. t_mission_id t = m \<and> t_key t = key) rows) = 0 then Inr key
        else unique_key_loop rows m base (Suc i) (base @ ''-r'' @ itoa (int i))
      else Inl (NoUniqueKey base))"
  by pat_completeness auto
termination
  by (relation "measure (\<lambda>(rows, m, base, i, key). 10000 - i)") auto

declare unique_key_loop.simps [simp del]

definition unique_key_tx :: "task list \<Rightarrow> int \<Rightarrow> string \<Rightarrow> qerr + string" where
  "unique_key_tx rows m base = unique_key_loop rows m base 2 base"

definition replace_key :: "string \<Rightarrow> string \<Rightarrow> string list \<Rightarrow> string list" where
  "replace_key old new ds = map (\<lambda>k. if k = old then new else k) ds"

fun rewrite_dependents :: "string \<Rightarrow> string \<Rightarrow> task list \<Rightarrow> task list \<Rightarrow> task list" where
  "rewrite_dependents old new [] rows = rows"
| "rewrite_dependents old new (d # ds) rows =
     rewrite_dependents old new ds
       (sql_update (\<lambda>t. t_id t = t_id d)
          (\<lambda>t. t\<lparr>t_depends_on := replace_key old new (t_depends_on d)\<rparr>) rows)"

definition supersede_task :: "ts \<Rightarrow> int \<Rightarrow> task_spec \<Rightarrow> qstore \<Rightarrow> qerr + int \<times> qstore" where
  "supersede_task tm old_id spec q =
     (case task_by_id old_id q of
        None \<Rightarrow> Inl (NoSuchTask old_id)
      | Some old \<Rightarrow>
          let m = t_mission_id old;
              base = (if sp_key spec = '''' then t_key old else sp_key spec)
          in case unique_key_tx (q_tasks q) m base of
            Inl e \<Rightarrow> Inl e
          | Inr uk \<Rightarrow>
              let spec' = spec\<lparr>sp_key := uk,
                               sp_verify := (if sp_verify spec = '''' then t_verify old else sp_verify spec)\<rparr>;
                  dependents = filter (\<lambda>t. t_mission_id t = m \<and> t_status t = Pending \<and>
                                 t_key old \<in> set (t_depends_on t)) (q_tasks q);
                  rows1 = sql_update (\<lambda>t. t_id t = old_id)
                            (\<lambda>t. t\<lparr>t_status := Superseded, t_claimed_by := None,
                                   t_claim_expires_ts := None\<rparr>) (q_tasks q)
              in case insert_task (task_of_spec m old_id tm spec') rows1 of
                Inl e \<Rightarrow> Inl e
              | Inr rows2 \<Rightarrow>
                  Inr (sql_next_id t_id rows1,
                       q\<lparr>q_tasks := rewrite_dependents (t_key old) uk dependents rows2\<rparr>))"

subsection \<open>Guarded cancel\<close>

type_synonym node = "int \<times> string"

definition dependents_of :: "task list \<Rightarrow> string \<Rightarrow> task list" where
  "dependents_of all k = concat (map (\<lambda>x. map (\<lambda>_. x) (filter (\<lambda>d. d = k) (t_depends_on x))) all)"

fun bfs_visit :: "task list \<Rightarrow> int set \<times> node list \<Rightarrow> int set \<times> node list" where
  "bfs_visit [] (seen, frontier) = (seen, frontier)"
| "bfs_visit (x # xs) (seen, frontier) =
     (if t_id x \<in> seen \<or> terminal (t_status x) then bfs_visit xs (seen, frontier)
      else bfs_visit xs (insert (t_id x) seen, frontier @ [(t_id x, t_key x)]))"

lemma bfs_visit_measure:
  assumes "set xs \<subseteq> set all" and "bfs_visit xs (seen, fr) = (seen', fr')"
  shows "card (t_id ` set all - seen') + length fr' \<le> card (t_id ` set all - seen) + length fr"
  using assms
proof (induction xs arbitrary: seen fr)
  case (Cons x xs)
  show ?case
  proof (cases "t_id x \<in> seen \<or> terminal (t_status x)")
    case True
    with Cons show ?thesis by simp
  next
    case False
    have "t_id ` set all - insert (t_id x) seen \<subset> t_id ` set all - seen"
      using False Cons.prems(1) by auto
    then have "card (t_id ` set all - insert (t_id x) seen) < card (t_id ` set all - seen)"
      by (intro psubset_card_mono) auto
    moreover have "card (t_id ` set all - seen') + length fr' \<le>
        card (t_id ` set all - insert (t_id x) seen) + length (fr @ [(t_id x, t_key x)])"
      by (rule Cons.IH) (use Cons.prems False in simp_all)
    ultimately show ?thesis by simp
  qed
qed simp

lemma set_dependents_of: "set (dependents_of all k) = {x \<in> set all. k \<in> set (t_depends_on x)}"
  by (auto simp: dependents_of_def)

function bfs :: "task list \<Rightarrow> node list \<Rightarrow> int set \<Rightarrow> node list \<Rightarrow> node list" where
  "bfs all [] seen subtree = subtree"
| "bfs all (cur # frontier) seen subtree =
     (let (seen', frontier') = bfs_visit (dependents_of all (snd cur)) (seen, frontier)
      in bfs all frontier' seen' (subtree @ [cur]))"
  by pat_completeness auto
termination
proof (relation "measure (\<lambda>(all, frontier, seen, subtree). card (t_id ` set all - seen) + length frontier)")
  fix all :: "task list" and cur :: node and frontier seen subtree x seen' frontier'
  assume "x = bfs_visit (dependents_of all (snd cur)) (seen, frontier)" "(seen', frontier') = x"
  then have v: "bfs_visit (dependents_of all (snd cur)) (seen, frontier) = (seen', frontier')" by simp
  have "set (dependents_of all (snd cur)) \<subseteq> set all" by (auto simp: set_dependents_of)
  from bfs_visit_measure [OF this v]
  show "((all, frontier', seen', subtree @ [cur]), all, cur # frontier, seen, subtree)
      \<in> measure (\<lambda>(all, frontier, seen, subtree). card (t_id ` set all - seen) + length frontier)"
    by simp
qed simp

fun cancel_loop :: "node list \<Rightarrow> int list \<times> qstore \<Rightarrow> int list \<times> qstore" where
  "cancel_loop [] (cancelled, q) = (cancelled, q)"
| "cancel_loop (n # ns) (cancelled, q) =
     (let (ok, q') = cancel_task (fst n) q
      in cancel_loop ns (if ok then cancelled @ [fst n] else cancelled, q'))"

definition cancel_task_guarded :: "int \<Rightarrow> bool \<Rightarrow> qstore \<Rightarrow> qerr + int list \<times> string list \<times> qstore" where
  "cancel_task_guarded i cascade q =
     (case task_by_id i q of
        None \<Rightarrow> Inl (NoSuchTask i)
      | Some t \<Rightarrow>
          let all = list_tasks (t_mission_id t) q;
              subtree = bfs all [(t_id t, t_key t)] {t_id t} [];
              dependents = drop 1 subtree
          in if \<not> cascade \<and> 0 < length dependents then Inr ([], map snd dependents, q)
             else let (cancelled, q') = cancel_loop subtree ([], q) in Inr (cancelled, [], q'))"

subsection \<open>Retargeting\<close>

definition by_key :: "task list \<Rightarrow> string \<Rightarrow> task option" where
  \<comment> \<open>the map filled in list order: a later task with the same key overwrites\<close>
  "by_key ts k = map_of (rev (map (\<lambda>x. (t_key x, x)) ts)) k"

definition deps_of_key :: "task list \<Rightarrow> string \<Rightarrow> string list" where
  "deps_of_key ts k = (case by_key ts k of None \<Rightarrow> [] | Some x \<Rightarrow> t_depends_on x)"

definition dep_universe :: "task list \<Rightarrow> string set" where
  "dep_universe ts = (\<Union>x\<in>set ts. set (t_depends_on x))"

lemma finite_dep_universe [simp]: "finite (dep_universe ts)"
  by (simp add: dep_universe_def)

lemma by_key_SomeD: "by_key ts k = Some x \<Longrightarrow> x \<in> set ts \<and> t_key x = k"
  by (auto simp: by_key_def dest: map_of_SomeD)

lemma deps_of_key_universe: "set (deps_of_key ts k) \<subseteq> dep_universe ts"
  by (cases "by_key ts k") (auto simp: deps_of_key_def dep_universe_def dest: by_key_SomeD)

text \<open>
  The stack is a list whose last element is its top. Popped keys are skipped when visited, so the
  walk ends: a visit takes a key out of the finite set of keys not yet visited, a skip shortens
  the stack.
\<close>

function reaches :: "task list \<Rightarrow> string \<Rightarrow> string list \<Rightarrow> string set \<Rightarrow> bool" where
  "reaches ts from_key stack visited =
     (if stack = [] then False
      else let k = last stack; rest = butlast stack in
        if k \<in> visited then reaches ts from_key rest visited
        else if k = from_key then True
        else reaches ts from_key (rest @ deps_of_key ts k) (insert k visited))"
  by pat_completeness auto
termination
proof (relation "measures [\<lambda>(ts, f, stack, visited). card ((set stack \<union> dep_universe ts) - visited),
                           \<lambda>(ts, f, stack, visited). length stack]")
  fix ts :: "task list" and from_key :: string and stack visited k rest
  assume s: "stack \<noteq> []" and k: "k = last stack" and rest: "rest = butlast (stack :: string list)"
    and "k \<in> visited"
  have "set rest \<subseteq> set stack" by (auto simp: rest dest: in_set_butlastD)
  then have "card (set rest \<union> dep_universe ts - visited) \<le> card (set stack \<union> dep_universe ts - visited)"
    by (intro card_mono) auto
  then show "((ts, from_key, rest, visited), ts, from_key, stack, visited)
    \<in> measures [\<lambda>(ts, f, stack, visited). card ((set stack \<union> dep_universe ts) - visited),
                 \<lambda>(ts, f, stack, visited). length stack]"
    using s by (auto simp: rest)
next
  fix ts :: "task list" and from_key :: string and stack visited k rest
  assume s: "stack \<noteq> []" and k: "k = last stack" and rest: "rest = butlast (stack :: string list)"
    and nv: "k \<notin> visited"
  have "set rest \<subseteq> set stack" by (auto simp: rest dest: in_set_butlastD)
  then have "set (rest @ deps_of_key ts k) \<union> dep_universe ts - insert k visited \<subseteq>
      set stack \<union> dep_universe ts - insert k visited"
    using deps_of_key_universe by auto
  moreover have "k \<in> set stack" using s by (simp add: k)
  ultimately have "set (rest @ deps_of_key ts k) \<union> dep_universe ts - insert k visited \<subset>
      set stack \<union> dep_universe ts - visited"
    using nv by blast
  then have "card (set (rest @ deps_of_key ts k) \<union> dep_universe ts - insert k visited) <
      card (set stack \<union> dep_universe ts - visited)"
    by (intro psubset_card_mono) auto
  then show "((ts, from_key, rest @ deps_of_key ts k, insert k visited), ts, from_key, stack, visited)
    \<in> measures [\<lambda>(ts, f, stack, visited). card ((set stack \<union> dep_universe ts) - visited),
                 \<lambda>(ts, f, stack, visited). length stack]"
    by simp
qed simp

declare reaches.simps [simp del]

fun retarget_loop :: "string \<Rightarrow> string \<Rightarrow> task list \<Rightarrow> nat \<times> task list \<Rightarrow> nat \<times> task list" where
  "retarget_loop from_key to_key [] (n, rows) = (n, rows)"
| "retarget_loop from_key to_key (x # xs) (n, rows) =
     (if terminal (t_status x) \<or> from_key \<notin> set (t_depends_on x)
      then retarget_loop from_key to_key xs (n, rows)
      else let p = (\<lambda>t. t_id t = t_id x \<and> t_depends_on t = t_depends_on x) in
        retarget_loop from_key to_key xs
          (if sql_affected p rows = 1 then Suc n else n,
           sql_update p (\<lambda>t. t\<lparr>t_depends_on := replace_key from_key to_key (t_depends_on x)\<rparr>) rows))"

definition retarget_dependents :: "int \<Rightarrow> string \<Rightarrow> string \<Rightarrow> qstore \<Rightarrow> qerr + nat \<times> qstore" where
  "retarget_dependents m from_key to_key q =
     (let ts = list_tasks m q in
      if by_key ts to_key = None then Inl (NoTargetKey to_key)
      else if reaches ts from_key [to_key] {} then Inl (WouldCycle from_key to_key)
      else let (n, rows) = retarget_loop from_key to_key ts (0, q_tasks q)
           in Inr (n, q\<lparr>q_tasks := rows\<rparr>))"

subsection \<open>Cancel and reopen\<close>

definition cancel_row :: "task \<Rightarrow> task" where
  "cancel_row t = t\<lparr>t_status := Cancelled, t_claimed_by := None, t_claim_expires_ts := None\<rparr>"

lemma open_not_terminal: "open_status st \<longleftrightarrow> \<not> terminal st"
  by (cases st) (auto simp: open_status_def terminal_def)

lemma cancel_task_tasks:
  "q_tasks (snd (cancel_task i q)) =
     sql_update (\<lambda>t. t_id t = i \<and> open_status (t_status t)) cancel_row (q_tasks q)"
  by (simp add: cancel_task_def Let_def cancel_row_def [abs_def])

lemma cancel_task_other:
  "q_findings (snd (cancel_task i q)) = q_findings q"
  "q_executions (snd (cancel_task i q)) = q_executions q"
  "q_mission_halts (snd (cancel_task i q)) = q_mission_halts q"
  by (simp_all add: cancel_task_def Let_def)

lemma cancel_row_simps [simp]:
  "t_id (cancel_row t) = t_id t" "t_mission_id (cancel_row t) = t_mission_id t"
  "t_key (cancel_row t) = t_key t" "t_status (cancel_row t) = Cancelled" "wf_task (cancel_row t)"
  "t_depends_on (cancel_row t) = t_depends_on t" "\<not> open_status Cancelled" "terminal Cancelled"
  by (simp_all add: cancel_row_def wf_task_def open_status_def terminal_def)

lemma wf_cancel_task [wf_intros]: "wf_queue q \<Longrightarrow> wf_queue (snd (cancel_task i q))"
  by (auto simp: wf_queue_def cancel_task_tasks cancel_task_other intro!: wf_tasks_update)

lemma wf_reopen_task [wf_intros]: "wf_queue q \<Longrightarrow> wf_queue (snd (reopen_task i q))"
  by (auto simp: reopen_task_def Let_def wf_queue_def wf_task_def intro!: wf_tasks_update)

lemma task_by_id_SomeD: "task_by_id i q = Some t \<Longrightarrow> t \<in> set (q_tasks q) \<and> t_id t = i"
  by (auto simp: task_by_id_def find_Some_iff)

lemma cancel_loop_tasks:
  "q_tasks (snd (cancel_loop ns (c, q))) =
     sql_update (\<lambda>t. t_id t \<in> fst ` set ns \<and> open_status (t_status t)) cancel_row (q_tasks q)"
proof (induction ns arbitrary: c q)
  case (Cons n ns)
  show ?case
    by (simp add: Let_def split_beta Cons.IH cancel_task_tasks) (auto simp: sql_update_def)
qed (simp add: sql_update_def)

lemma cancel_loop_other:
  "q_findings (snd (cancel_loop ns (c, q))) = q_findings q"
  "q_executions (snd (cancel_loop ns (c, q))) = q_executions q"
  "q_mission_halts (snd (cancel_loop ns (c, q))) = q_mission_halts q"
  by (induction ns arbitrary: c q) (simp_all add: Let_def split_beta cancel_task_other)

lemma wf_cancel_loop: "wf_queue q \<Longrightarrow> wf_queue (snd (cancel_loop ns (c, q)))"
  by (auto simp: wf_queue_def cancel_loop_tasks cancel_loop_other intro!: wf_tasks_update)

lemma cancel_loop_ids:
  assumes "distinct (map fst ns)"
  shows "fst (cancel_loop ns (c, q)) =
    c @ filter (\<lambda>i. \<exists>t\<in>set (q_tasks q). t_id t = i \<and> open_status (t_status t)) (map fst ns)"
  using assms
proof (induction ns arbitrary: c q)
  case (Cons n ns)
  have ok: "fst (cancel_task (fst n) q) \<longleftrightarrow> (\<exists>t\<in>set (q_tasks q). t_id t = fst n \<and> open_status (t_status t))"
    by (simp add: cancel_task_def Let_def sql_affected_pos)
  have "(\<exists>t\<in>set (q_tasks (snd (cancel_task (fst n) q))). t_id t = i \<and> open_status (t_status t)) =
        (\<exists>t\<in>set (q_tasks q). t_id t = i \<and> open_status (t_status t))" if "i \<in> set (map fst ns)" for i
  proof -
    have "i \<noteq> fst n" using Cons.prems that by (metis distinct.simps(2) list.simps(9))
    then show ?thesis by (fastforce simp: cancel_task_tasks set_sql_update)
  qed
  then have "filter (\<lambda>i. \<exists>t\<in>set (q_tasks (snd (cancel_task (fst n) q))). t_id t = i \<and> open_status (t_status t)) (map fst ns)
    = filter (\<lambda>i. \<exists>t\<in>set (q_tasks q). t_id t = i \<and> open_status (t_status t)) (map fst ns)"
    by (intro filter_cong refl)
  then show ?case using Cons.prems ok by (simp add: Let_def split_beta Cons.IH)
qed simp

subsection \<open>The dependent subtree\<close>

inductive strands :: "task list \<Rightarrow> string \<Rightarrow> task \<Rightarrow> bool" for all :: "task list" and rt :: string where
  direct: "x \<in> set all \<Longrightarrow> \<not> terminal (t_status x) \<Longrightarrow> rt \<in> set (t_depends_on x) \<Longrightarrow> strands all rt x"
| trans: "strands all rt y \<Longrightarrow> x \<in> set all \<Longrightarrow> \<not> terminal (t_status x) \<Longrightarrow>
    t_key y \<in> set (t_depends_on x) \<Longrightarrow> strands all rt x"

lemma strands_live: "strands all rt x \<Longrightarrow> x \<in> set all \<and> \<not> terminal (t_status x)"
  by (induction rule: strands.induct) auto

lemma bfs_visit_spec:
  assumes "bfs_visit xs (seen, fr) = (seen', fr')"
  shows "\<exists>new. fr' = fr @ new \<and> seen' = seen \<union> fst ` set new \<and> distinct (map fst new) \<and>
    fst ` set new \<inter> seen = {} \<and>
    (\<forall>n\<in>set new. \<exists>x\<in>set xs. n = (t_id x, t_key x) \<and> \<not> terminal (t_status x)) \<and>
    (\<forall>x\<in>set xs. \<not> terminal (t_status x) \<longrightarrow> t_id x \<in> seen')"
  using assms
proof (induction xs arbitrary: seen fr)
  case (Cons x xs)
  show ?case
  proof (cases "t_id x \<in> seen \<or> terminal (t_status x)")
    case True
    with Cons.prems have "bfs_visit xs (seen, fr) = (seen', fr')" by simp
    from Cons.IH [OF this] obtain new where new: "fr' = fr @ new" "seen' = seen \<union> fst ` set new"
      "distinct (map fst new)" "fst ` set new \<inter> seen = {}"
      "\<forall>n\<in>set new. \<exists>x\<in>set xs. n = (t_id x, t_key x) \<and> \<not> terminal (t_status x)"
      "\<forall>x\<in>set xs. \<not> terminal (t_status x) \<longrightarrow> t_id x \<in> seen'"
      by blast
    with True show ?thesis by (intro exI [of _ new]) auto
  next
    case False
    with Cons.prems have "bfs_visit xs (insert (t_id x) seen, fr @ [(t_id x, t_key x)]) = (seen', fr')"
      by simp
    from Cons.IH [OF this] obtain new where new: "fr' = (fr @ [(t_id x, t_key x)]) @ new"
      "seen' = insert (t_id x) seen \<union> fst ` set new"
      "distinct (map fst new)" "fst ` set new \<inter> insert (t_id x) seen = {}"
      "\<forall>n\<in>set new. \<exists>x\<in>set xs. n = (t_id x, t_key x) \<and> \<not> terminal (t_status x)"
      "\<forall>x\<in>set xs. \<not> terminal (t_status x) \<longrightarrow> t_id x \<in> seen'"
      by blast
    with False show ?thesis by (intro exI [of _ "(t_id x, t_key x) # new"]) auto
  qed
qed (auto intro: exI [of _ "[]"])

definition bfs_inv :: "task list \<Rightarrow> node \<Rightarrow> node list \<Rightarrow> int set \<Rightarrow> node list \<Rightarrow> bool" where
  "bfs_inv all rt frontier seen subtree \<longleftrightarrow>
     seen = fst ` set (subtree @ frontier) \<and> distinct (map fst (subtree @ frontier)) \<and>
     (\<forall>n\<in>set (subtree @ frontier). n = rt \<or> (\<exists>x. strands all (snd rt) x \<and> n = (t_id x, t_key x))) \<and>
     (\<forall>n\<in>set subtree. \<forall>x\<in>set all. \<not> terminal (t_status x) \<longrightarrow> snd n \<in> set (t_depends_on x) \<longrightarrow> t_id x \<in> seen)"

lemma bfs_inv_step:
  assumes "bfs_inv all rt (cur # frontier) seen subtree"
    and "bfs_visit (dependents_of all (snd cur)) (seen, frontier) = (seen', frontier')"
  shows "bfs_inv all rt frontier' seen' (subtree @ [cur])"
proof -
  from bfs_visit_spec [OF assms(2)] obtain new where new: "frontier' = frontier @ new"
    "seen' = seen \<union> fst ` set new" "distinct (map fst new)" "fst ` set new \<inter> seen = {}"
    "\<forall>n\<in>set new. \<exists>x\<in>set (dependents_of all (snd cur)). n = (t_id x, t_key x) \<and> \<not> terminal (t_status x)"
    "\<forall>x\<in>set (dependents_of all (snd cur)). \<not> terminal (t_status x) \<longrightarrow> t_id x \<in> seen'"
    by blast
  have cur: "cur = rt \<or> (\<exists>y. strands all (snd rt) y \<and> cur = (t_id y, t_key y))"
    using assms(1) by (auto simp: bfs_inv_def)
  have "\<exists>x. strands all (snd rt) x \<and> n = (t_id x, t_key x)" if n: "n \<in> set new" for n
  proof -
    obtain x where x: "x \<in> set all" "snd cur \<in> set (t_depends_on x)" "n = (t_id x, t_key x)"
      "\<not> terminal (t_status x)"
      using bspec [OF new(5) n] by (auto simp: set_dependents_of)
    with cur have "strands all (snd rt) x" by (auto intro: strands.intros)
    with x show ?thesis by blast
  qed
  then show ?thesis
    using assms(1) new unfolding bfs_inv_def by (auto simp: set_dependents_of)
qed

lemma bfs_inv_final: "bfs_inv all rt frontier seen subtree \<Longrightarrow>
    \<exists>seen'. bfs_inv all rt [] seen' (bfs all frontier seen subtree)"
proof (induction all frontier seen subtree rule: bfs.induct)
  case (2 all cur frontier seen subtree)
  obtain seen' frontier' where v: "bfs_visit (dependents_of all (snd cur)) (seen, frontier) = (seen', frontier')"
    by fastforce
  from "2.IH" [OF v [symmetric] refl bfs_inv_step [OF "2.prems" v]]
  show ?case by (simp add: v)
qed auto

lemma bfs_head: "\<exists>rest. bfs all frontier seen subtree = subtree @ rest"
proof (induction all frontier seen subtree rule: bfs.induct)
  case (2 all cur frontier seen subtree)
  obtain seen' frontier' where v: "bfs_visit (dependents_of all (snd cur)) (seen, frontier) = (seen', frontier')"
    by fastforce
  from "2.IH" [OF v [symmetric] refl] show ?case by (auto simp: v)
qed simp

definition subtree_of :: "task \<Rightarrow> task list \<Rightarrow> node list" where
  "subtree_of t all = bfs all [(t_id t, t_key t)] {t_id t} []"

lemma subtree_of_Cons: "\<exists>rest. subtree_of t all = (t_id t, t_key t) # rest"
proof -
  obtain seen' frontier' where "bfs_visit (dependents_of all (t_key t)) ({t_id t}, []) = (seen', frontier')"
    by fastforce
  then show ?thesis using bfs_head [of all frontier' seen' "[(t_id t, t_key t)]"]
    by (auto simp: subtree_of_def)
qed

lemma subtree_of_inv: "\<exists>seen'. bfs_inv all (t_id t, t_key t) [] seen' (subtree_of t all)"
  unfolding subtree_of_def by (rule bfs_inv_final) (simp add: bfs_inv_def)

lemma subtree_of_distinct: "distinct (map fst (subtree_of t all))"
  using subtree_of_inv [of all t] by (auto simp: bfs_inv_def)

lemma subtree_of_nodes:
  "n \<in> set (subtree_of t all) \<Longrightarrow>
     n = (t_id t, t_key t) \<or> (\<exists>x. strands all (t_key t) x \<and> n = (t_id x, t_key x))"
  using subtree_of_inv [of all t] by (auto simp: bfs_inv_def)

lemma subtree_of_closed:
  "n \<in> set (subtree_of t all) \<Longrightarrow> x \<in> set all \<Longrightarrow> \<not> terminal (t_status x) \<Longrightarrow>
     snd n \<in> set (t_depends_on x) \<Longrightarrow> t_id x \<in> fst ` set (subtree_of t all)"
  using subtree_of_inv [of all t] by (fastforce simp: bfs_inv_def)

lemma subtree_of_complete:
  assumes "task_table.keyed all" and "t \<in> set all" and "strands all (t_key t) x"
  shows "(t_id x, t_key x) \<in> set (subtree_of t all)"
proof -
  have node: "(t_id y, t_key y) \<in> set (subtree_of t all)"
    if y: "y \<in> set all" and yn: "t_id y \<in> fst ` set (subtree_of t all)" for y
  proof -
    obtain n where n: "n \<in> set (subtree_of t all)" "fst n = t_id y" using yn by auto
    from subtree_of_nodes [OF n(1)] obtain z where "z \<in> set all" "n = (t_id z, t_key z)"
      using assms(2) strands_live by blast
    with n y show ?thesis using task_table.keyed_eq [OF assms(1), of z y] by auto
  qed
  have rt: "(t_id t, t_key t) \<in> set (subtree_of t all)"
    using subtree_of_Cons [of t all] by auto
  from assms(3) show ?thesis
  proof (induction rule: strands.induct)
    case (direct x)
    then show ?case using subtree_of_closed [OF rt] node by simp
  next
    case (trans y x)
    then show ?case using subtree_of_closed [of "(t_id y, t_key y)"] node by simp
  qed
qed

lemma keyed_list_tasks: "wf_queue q \<Longrightarrow> task_table.keyed (list_tasks m q)"
proof -
  assume "wf_queue q"
  then have "task_table.keyed (filter (\<lambda>t. t_mission_id t = m) (q_tasks q))"
    by (rule task_table.keyed_filter [OF wf_queue_keyed])
  then show ?thesis
    by (simp add: list_tasks_def task_table.keyed_def distinct_map)
qed

lemma cancel_task_guarded_unfold:
  assumes "task_by_id i q = Some t"
  shows "cancel_task_guarded i cascade q =
    (let st = subtree_of t (list_tasks (t_mission_id t) q) in
     if \<not> cascade \<and> 0 < length (drop 1 st) then Inr ([], map snd (drop 1 st), q)
     else Inr (fst (cancel_loop st ([], q)), [], snd (cancel_loop st ([], q))))"
  using assms by (simp add: cancel_task_guarded_def subtree_of_def Let_def split_beta)

lemma wf_cancel_task_guarded:
  assumes "wf_queue q" and "cancel_task_guarded i cascade q = Inr (c, b, q')"
  shows "wf_queue q'"
proof -
  obtain t where t: "task_by_id i q = Some t"
    using assms(2) by (auto simp: cancel_task_guarded_def split: option.splits)
  show ?thesis
    using assms wf_cancel_loop [OF assms(1)]
    by (auto simp: cancel_task_guarded_unfold [OF t] Let_def split: if_splits)
qed

subsection \<open>The cycle guard\<close>

definition dep_rel :: "task list \<Rightarrow> (string \<times> string) set" where
  "dep_rel ts = {(k, d). d \<in> set (deps_of_key ts k)}"

lemma reaches_sound: "reaches ts f stack visited \<Longrightarrow> \<exists>k\<in>set stack. (k, f) \<in> (dep_rel ts)\<^sup>*"
proof (induction ts f stack visited rule: reaches.induct)
  case (1 ts f stack visited)
  from "1.prems" have s: "stack \<noteq> []" by (auto simp: reaches.simps)
  have st: "stack = butlast stack @ [last stack]" using s by simp
  have sub: "set (butlast stack) \<subseteq> set stack" by (auto dest: in_set_butlastD)
  consider "last stack \<in> visited" | "last stack \<notin> visited" "last stack = f"
    | "last stack \<notin> visited" "last stack \<noteq> f" by blast
  then show ?case
  proof cases
    case 1
    with "1.prems" s "1.IH"(1) [OF s refl refl] sub show ?thesis
      by (auto simp: reaches.simps [of ts f stack])
  next
    case 2
    with s show ?thesis by (intro bexI [of _ "last stack"]) auto
  next
    case 3
    then obtain k where k: "k \<in> set (butlast stack @ deps_of_key ts (last stack))" "(k, f) \<in> (dep_rel ts)\<^sup>*"
      using "1.prems" s "1.IH"(2) [OF s refl refl] by (auto simp: reaches.simps [of ts f stack] Let_def)
    show ?thesis
    proof (cases "k \<in> set (butlast stack)")
      case True
      with k sub show ?thesis by blast
    next
      case False
      with k have "(last stack, k) \<in> dep_rel ts" by (auto simp: dep_rel_def)
      with k s show ?thesis by (intro bexI [of _ "last stack"]) auto
    qed
  qed
qed

lemma closed_rtrancl:
  assumes "(k, f) \<in> (dep_rel ts)\<^sup>*" and "k \<in> V" and "\<And>v. v \<in> V \<Longrightarrow> set (deps_of_key ts v) \<subseteq> V"
  shows "f \<in> V"
  using assms(1,2)
proof (induction rule: converse_rtrancl_induct)
  case (step y z)
  then show ?case using assms(3) by (auto simp: dep_rel_def)
qed simp

lemma reaches_complete:
  "\<not> reaches ts f stack visited \<Longrightarrow>
   (\<forall>v\<in>visited. v \<noteq> f \<and> set (deps_of_key ts v) \<subseteq> visited \<union> set stack) \<Longrightarrow>
   k \<in> visited \<union> set stack \<Longrightarrow> (k, f) \<notin> (dep_rel ts)\<^sup>*"
proof (induction ts f stack visited rule: reaches.induct)
  case (1 ts f stack visited)
  show ?case
  proof (cases "stack = []")
    case True
    with "1.prems" closed_rtrancl [of k f ts visited] show ?thesis by auto
  next
    case False
    then have st: "set stack = insert (last stack) (set (butlast stack))"
      by (metis append_butlast_last_id list.simps(15) rotate1.simps(2) set_rotate1)
    show ?thesis
    proof (cases "last stack \<in> visited")
      case True
      have "\<not> reaches ts f (butlast stack) visited"
        using "1.prems"(1) False True by (simp add: reaches.simps [of ts f stack] Let_def)
      from "1.IH"(1) [OF False refl refl True this] "1.prems"(2,3) True st show ?thesis by auto
    next
      case nv: False
      then have nf: "last stack \<noteq> f" and
        nr: "\<not> reaches ts f (butlast stack @ deps_of_key ts (last stack)) (insert (last stack) visited)"
        using "1.prems"(1) False by (auto simp: reaches.simps [of ts f stack] Let_def split: if_splits)
      from "1.IH"(2) [OF False refl refl nv nf nr] "1.prems"(2,3) nf st show ?thesis by auto
    qed
  qed
qed

lemma reaches_iff: "reaches ts f [k] {} \<longleftrightarrow> (k, f) \<in> (dep_rel ts)\<^sup>*"
  using reaches_sound [of ts f "[k]" "{}"] reaches_complete [of ts f "[k]" "{}" k] by auto

lemma acyclic_redirect:
  assumes "acyclic R" and "(b, a) \<notin> R\<^sup>*"
  shows "acyclic (R \<union> {(k, b) | k. (k, a) \<in> R})" (is "acyclic (R \<union> ?S)")
proof -
  have path: "(x, y) \<in> (R \<union> ?S)\<^sup>+ \<Longrightarrow> (x, y) \<in> R\<^sup>+ \<or> ((x, a) \<in> R\<^sup>+ \<and> (b, y) \<in> R\<^sup>*)" for x y
  proof (induction rule: trancl_induct)
    case (base y)
    then show ?case by auto
  next
    case (step y z)
    from step.hyps(2) show ?case
    proof
      assume "(y, z) \<in> R"
      then show ?thesis using step.IH by (auto intro: trancl_into_trancl rtrancl_into_rtrancl)
    next
      assume "(y, z) \<in> ?S"
      then show ?thesis using step.IH by (auto intro: trancl_into_trancl)
    qed
  qed
  show ?thesis
    unfolding acyclic_def
  proof (intro allI notI)
    fix x assume "(x, x) \<in> (R \<union> ?S)\<^sup>+"
    with path assms(1) have "(x, a) \<in> R\<^sup>+" "(b, x) \<in> R\<^sup>*" by (auto simp: acyclic_def)
    then have "(b, a) \<in> R\<^sup>*" by (meson rtrancl_trans trancl_into_rtrancl)
    with assms(2) show False ..
  qed
qed

subsection \<open>Retargeting is one batch update\<close>

definition retargeted :: "string \<Rightarrow> task \<Rightarrow> bool" where
  "retargeted from_key t \<longleftrightarrow> \<not> terminal (t_status t) \<and> from_key \<in> set (t_depends_on t)"

definition redirect :: "string \<Rightarrow> string \<Rightarrow> task \<Rightarrow> task" where
  "redirect old new t = t\<lparr>t_depends_on := replace_key old new (t_depends_on t)\<rparr>"

lemma redirect_simps [simp]:
  "t_id (redirect a b t) = t_id t" "t_mission_id (redirect a b t) = t_mission_id t"
  "t_key (redirect a b t) = t_key t" "t_status (redirect a b t) = t_status t"
  "wf_task (redirect a b t) = wf_task t" "t_depends_on (redirect a b t) = replace_key a b (t_depends_on t)"
  by (simp_all add: redirect_def wf_task_def)

lemma set_replace_key: "set (replace_key a b ds) = (if a \<in> set ds then insert b (set ds - {a}) else set ds)"
  by (auto simp: replace_key_def split: if_splits)

lemma retarget_loop_batch:
  assumes "task_table.keyed rows" and "distinct (map t_id xs)" and "set xs \<subseteq> set rows"
  shows "retarget_loop a b xs (n, rows) =
    (n + length (filter (retargeted a) xs),
     sql_update (\<lambda>t. t_id t \<in> t_id ` set (filter (retargeted a) xs)) (redirect a b) rows)"
  using assms
proof (induction xs arbitrary: n rows)
  case (Cons x xs)
  have xr: "x \<in> set rows" and xs: "set xs \<subseteq> set rows" and d: "distinct (map t_id xs)"
    and nx: "t_id x \<notin> t_id ` set xs"
    using Cons.prems by auto
  show ?case
  proof (cases "retargeted a x")
    case False
    then show ?thesis using Cons.IH [OF Cons.prems(1) d xs] by (auto simp: retargeted_def)
  next
    case True
    let ?p = "\<lambda>t. t_id t = t_id x \<and> t_depends_on t = t_depends_on x"
    let ?rows1 = "sql_update (\<lambda>t. t_id t = t_id x) (redirect a b) rows"
    have aff: "sql_affected ?p rows = 1"
      using task_table.affected_point [OF Cons.prems(1) xr, of "\<lambda>t. t_depends_on t = t_depends_on x"] by simp
    have same: "t = x" if "t \<in> set rows" "t_id t = t_id x" for t
      using task_table.keyed_eq [OF Cons.prems(1)] that xr by blast
    have upd: "sql_update ?p (\<lambda>t. t\<lparr>t_depends_on := replace_key a b (t_depends_on x)\<rparr>) rows = ?rows1"
      using same by (auto simp: sql_update_def redirect_def)
    have k1: "task_table.keyed ?rows1"
      using task_table.keyed_update [of "redirect a b"] Cons.prems(1) by simp
    have sub1: "set xs \<subseteq> set ?rows1"
    proof
      fix y assume y: "y \<in> set xs"
      with nx have "t_id y \<noteq> t_id x" by (metis imageI)
      with y xs show "y \<in> set ?rows1" by (force simp: set_sql_update)
    qed
    have "retarget_loop a b (x # xs) (n, rows) = retarget_loop a b xs (Suc n, ?rows1)"
      using True aff upd by (simp add: retargeted_def Let_def)
    also have "\<dots> = (Suc n + length (filter (retargeted a) xs),
        sql_update (\<lambda>t. t_id t \<in> t_id ` set (filter (retargeted a) xs)) (redirect a b) ?rows1)"
      by (rule Cons.IH [OF k1 d sub1])
    finally show ?thesis using True nx by (auto simp: sql_update_def)
  qed
qed (simp add: sql_update_def)

lemma distinct_list_tasks: "wf_queue q \<Longrightarrow> distinct (map t_id (list_tasks m q))"
  using keyed_list_tasks by (auto simp: task_table.keyed_def)

lemma retarget_rows:
  assumes "wf_queue q"
  shows "retarget_loop a b (list_tasks m q) (0, q_tasks q) =
    (length (filter (retargeted a) (list_tasks m q)),
     sql_update (\<lambda>t. t_mission_id t = m \<and> retargeted a t) (redirect a b) (q_tasks q))"
proof -
  have "(t_id t \<in> t_id ` set (filter (retargeted a) (list_tasks m q))) = (t_mission_id t = m \<and> retargeted a t)"
    if "t \<in> set (q_tasks q)" for t
    using that task_table.keyed_eq [OF wf_queue_keyed [OF assms]]
    by (auto simp: set_list_tasks image_iff)
  then have "sql_update (\<lambda>t. t_id t \<in> t_id ` set (filter (retargeted a) (list_tasks m q))) (redirect a b) (q_tasks q) =
      sql_update (\<lambda>t. t_mission_id t = m \<and> retargeted a t) (redirect a b) (q_tasks q)"
    by (simp add: sql_update_def)
  moreover have "set (list_tasks m q) \<subseteq> set (q_tasks q)" by (auto simp: set_list_tasks)
  ultimately show ?thesis
    using retarget_loop_batch [OF wf_queue_keyed [OF assms] distinct_list_tasks [OF assms]] by simp
qed

lemma retarget_dependents_InrD:
  assumes "wf_queue q" and "retarget_dependents m a b q = Inr (n, q')"
  shows "q' = q\<lparr>q_tasks := sql_update (\<lambda>t. t_mission_id t = m \<and> retargeted a t) (redirect a b) (q_tasks q)\<rparr>"
    "(b, a) \<notin> (dep_rel (list_tasks m q))\<^sup>*" "by_key (list_tasks m q) b \<noteq> None"
    "n = length (filter (retargeted a) (list_tasks m q))"
  using assms(2)
  by (auto simp: retarget_dependents_def Let_def retarget_rows [OF assms(1)] reaches_iff split: if_splits)

lemma wf_retarget_dependents:
  assumes "wf_queue q" and "retarget_dependents m a b q = Inr (n, q')"
  shows "wf_queue q'"
  unfolding retarget_dependents_InrD(1) [OF assms]
  by (rule wf_queue_tasks [OF assms(1)], rule wf_tasks_update) (use assms(1) in \<open>simp_all add: wf_queue_def\<close>)

lemma distinct_keys: "wf_queue q \<Longrightarrow> x \<in> set (list_tasks m q) \<Longrightarrow> y \<in> set (list_tasks m q) \<Longrightarrow>
    t_key x = t_key y \<Longrightarrow> x = y"
  by (simp add: set_list_tasks wf_queue_def wf_tasks_def distinct_map mission_key_def inj_on_def)

lemma by_key_iff:
  assumes "wf_queue q"
  shows "by_key (list_tasks m q) k = Some x \<longleftrightarrow> x \<in> set (list_tasks m q) \<and> t_key x = k"
proof
  assume x: "x \<in> set (list_tasks m q) \<and> t_key x = k"
  then obtain y where "by_key (list_tasks m q) k = Some y"
    unfolding by_key_def
    by (metis (mono_tags, lifting) image_eqI list.set_map map_of_eq_None_iff not_None_eq fst_conv set_rev)
  with x show "by_key (list_tasks m q) k = Some x"
    using by_key_SomeD distinct_keys [OF assms] by blast
qed (rule by_key_SomeD)

lemma dep_rel_iff:
  assumes "wf_queue q"
  shows "(k, d) \<in> dep_rel (list_tasks m q) \<longleftrightarrow>
    (\<exists>x\<in>set (q_tasks q). t_mission_id x = m \<and> t_key x = k \<and> d \<in> set (t_depends_on x))"
proof (cases "by_key (list_tasks m q) k")
  case None
  then show ?thesis
    using by_key_iff [OF assms, of m k] by (auto simp: dep_rel_def deps_of_key_def set_list_tasks)
next
  case (Some x)
  then have x: "x \<in> set (list_tasks m q)" "t_key x = k" by (simp_all add: by_key_iff [OF assms])
  have "(k, d) \<in> dep_rel (list_tasks m q) \<longleftrightarrow> d \<in> set (t_depends_on x)"
    using Some by (simp add: dep_rel_def deps_of_key_def)
  moreover have "y = x" if "y \<in> set (q_tasks q)" "t_mission_id y = m" "t_key y = k" for y
    using that x distinct_keys [OF assms, of y m x] by (simp add: set_list_tasks)
  ultimately show ?thesis using x unfolding set_list_tasks by blast
qed

subsection \<open>Supersede\<close>

lemma unique_key_loop_sound:
  "unique_key_loop rows m base i key = Inr k \<Longrightarrow> \<forall>t\<in>set rows. t_mission_id t = m \<longrightarrow> t_key t \<noteq> k"
proof (induction rows m base i key rule: unique_key_loop.induct)
  case (1 rows m base i key)
  then show ?case
    by (subst (asm) (2) unique_key_loop.simps) (auto split: if_splits simp: filter_empty_conv)
qed

lemma unique_key_loop_fails:
  "unique_key_loop rows m base i key = Inl e \<Longrightarrow> i < 10000 \<Longrightarrow>
     key \<in> t_key ` set (filter (\<lambda>t. t_mission_id t = m) rows) \<and>
     (\<forall>j. i \<le> j \<longrightarrow> j < 9999 \<longrightarrow>
        base @ ''-r'' @ itoa (int j) \<in> t_key ` set (filter (\<lambda>t. t_mission_id t = m) rows))"
proof (induction rows m base i key rule: unique_key_loop.induct)
  case (1 rows m base i key)
  from "1.prems" have used: "\<not> length (filter (\<lambda>t. t_mission_id t = m \<and> t_key t = key) rows) = 0"
    and next_fails: "unique_key_loop rows m base (Suc i) (base @ ''-r'' @ itoa (int i)) = Inl e"
    by (simp_all add: unique_key_loop.simps [of rows m base i key] split: if_splits)
  from used obtain t where "t \<in> set rows" "t_mission_id t = m" "t_key t = key"
    by (auto simp: filter_empty_conv)
  then have key: "key \<in> t_key ` set (filter (\<lambda>t. t_mission_id t = m) rows)" by auto
  show ?case
  proof (cases "Suc i < 10000")
    case True
    from "1.IH" [OF "1.prems"(2) used next_fails True] key show ?thesis
      by (metis Suc_leI le_neq_implies_less)
  next
    case False
    with "1.prems"(2) key show ?thesis by auto
  qed
qed

lemma itoa_inj: "itoa (int m) = itoa (int n) \<Longrightarrow> m = n"
  by (simp add: itoa_def itoa_nat_inj)

lemma unique_key_tx_total:
  assumes "length (filter (\<lambda>t. t_mission_id t = m) rows) < 9998"
  shows "\<exists>k. unique_key_tx rows m base = Inr k"
proof (rule ccontr)
  let ?K = "t_key ` set (filter (\<lambda>t. t_mission_id t = m) rows)"
  let ?cand = "\<lambda>j. base @ ''-r'' @ itoa (int j)"
  assume "\<nexists>k. unique_key_tx rows m base = Inr k"
  then obtain e where "unique_key_loop rows m base 2 base = Inl e"
    unfolding unique_key_tx_def by (metis sum.exhaust)
  from unique_key_loop_fails [OF this] have sub: "insert base (?cand ` {2..<9999}) \<subseteq> ?K" by auto
  have inj: "inj_on ?cand {2..<9999}" by (rule inj_onI) (simp add: itoa_inj)
  have "base \<notin> ?cand ` {2..<9999}" by auto
  moreover have "card (?cand ` {2..<9999}) = 9997"
    unfolding card_image [OF inj] by simp
  ultimately have "card (insert base (?cand ` {2..<9999})) = 9998"
    by (subst card_insert_disjoint) simp_all
  moreover have "card ?K \<le> length (filter (\<lambda>t. t_mission_id t = m) rows)"
    by (metis card_length length_map list.set_map)
  ultimately show False using card_mono [OF _ sub] assms by simp
qed

lemma rewrite_dependents_batch:
  assumes "\<And>d t. d \<in> set ds \<Longrightarrow> t \<in> set rows \<Longrightarrow> t_id t = t_id d \<Longrightarrow> t_depends_on t = t_depends_on d"
    and "distinct (map t_id ds)"
  shows "rewrite_dependents a b ds rows = sql_update (\<lambda>t. t_id t \<in> t_id ` set ds) (redirect a b) rows"
  using assms
proof (induction ds arbitrary: rows)
  case (Cons d ds)
  let ?rows1 = "sql_update (\<lambda>t. t_id t = t_id d) (redirect a b) rows"
  have dd: "t_depends_on t = t_depends_on d" if "t \<in> set rows" "t_id t = t_id d" for t
    by (rule Cons.prems(1)) (use that in simp_all)
  have "sql_update (\<lambda>t. t_id t = t_id d) (\<lambda>t. t\<lparr>t_depends_on := replace_key a b (t_depends_on d)\<rparr>) rows = ?rows1"
    unfolding sql_update_def redirect_def
    by (intro map_cong refl if_cong) (simp only: dd)
  then have "rewrite_dependents a b (d # ds) rows = rewrite_dependents a b ds ?rows1" by simp
  also have "\<dots> = sql_update (\<lambda>t. t_id t \<in> t_id ` set ds) (redirect a b) ?rows1"
  proof (rule Cons.IH)
    fix d' t assume "d' \<in> set ds" "t \<in> set ?rows1" "t_id t = t_id d'"
    with Cons.prems(2) have "t_id t \<noteq> t_id d" by (metis distinct.simps(2) image_eqI list.set_map list.simps(9))
    with \<open>t \<in> set ?rows1\<close> have "t \<in> set rows" by (auto simp: set_sql_update)
    then show "t_depends_on t = t_depends_on d'"
      by (rule Cons.prems(1) [rotated]) (use \<open>d' \<in> set ds\<close> \<open>t_id t = t_id d'\<close> in simp_all)
  qed (use Cons.prems(2) in simp)
  finally show ?case using Cons.prems(2) by (auto simp: sql_update_def)
qed (simp add: sql_update_def)

definition supersede_row :: "task \<Rightarrow> task" where
  "supersede_row t = t\<lparr>t_status := Superseded, t_claimed_by := None, t_claim_expires_ts := None\<rparr>"

lemma supersede_row_simps [simp]:
  "t_id (supersede_row t) = t_id t" "t_mission_id (supersede_row t) = t_mission_id t"
  "t_key (supersede_row t) = t_key t" "t_status (supersede_row t) = Superseded"
  "t_depends_on (supersede_row t) = t_depends_on t" "wf_task (supersede_row t)"
  by (simp_all add: supersede_row_def wf_task_def)

definition pending_on :: "int \<Rightarrow> string \<Rightarrow> task \<Rightarrow> bool" where
  "pending_on m k t \<longleftrightarrow> t_mission_id t = m \<and> t_status t = Pending \<and> k \<in> set (t_depends_on t)"

definition after_supersede :: "int \<Rightarrow> task \<Rightarrow> string \<Rightarrow> task \<Rightarrow> task" where
  "after_supersede i old uk t =
     (let t' = (if t_id t = i then supersede_row t else t) in
      if pending_on (t_mission_id old) (t_key old) t then redirect (t_key old) uk t' else t')"

definition replacement :: "ts \<Rightarrow> int \<Rightarrow> task \<Rightarrow> string \<Rightarrow> task_spec \<Rightarrow> task" where
  "replacement tm i old uk spec = task_of_spec (t_mission_id old) i tm
     (spec\<lparr>sp_key := uk, sp_verify := (if sp_verify spec = '''' then t_verify old else sp_verify spec)\<rparr>)"

lemma after_supersede_simps [simp]:
  "t_id (after_supersede i old uk t) = t_id t"
  "t_mission_id (after_supersede i old uk t) = t_mission_id t"
  "t_key (after_supersede i old uk t) = t_key t"
  by (simp_all add: after_supersede_def Let_def)

lemma wf_after_supersede: "wf_task t \<Longrightarrow> wf_task (after_supersede i old uk t)"
  by (simp add: after_supersede_def Let_def)

lemma replacement_simps [simp]:
  "t_mission_id (replacement tm i old uk spec) = t_mission_id old"
  "t_key (replacement tm i old uk spec) = uk"
  "t_status (replacement tm i old uk spec) = Pending"
  "t_supersedes (replacement tm i old uk spec) = i"
  "t_verify (replacement tm i old uk spec) = (if sp_verify spec = '''' then t_verify old else sp_verify spec)"
  "wf_task (replacement tm i old uk spec)"
  by (simp_all add: replacement_def task_of_spec_def wf_task_def)

text \<open>
  What a successful \<open>supersede_task\<close> leaves, as one row list: the old row superseded, the pending
  dependents redirected, the replacement at the end.
\<close>

lemma supersede_rewrite:
  assumes "task_table.keyed rows" and "t_id nrow \<notin> t_id ` set rows"
  shows "rewrite_dependents (t_key old) uk (filter (pending_on (t_mission_id old) (t_key old)) rows)
      (sql_update (\<lambda>t. t_id t = i) supersede_row rows @ [nrow]) =
    map (after_supersede i old uk) rows @ [nrow]"
proof -
  let ?rows1 = "sql_update (\<lambda>t. t_id t = i) supersede_row rows"
  let ?deps = "filter (pending_on (t_mission_id old) (t_key old)) rows"
  have batch: "rewrite_dependents (t_key old) uk ?deps (?rows1 @ [nrow]) =
      sql_update (\<lambda>t. t_id t \<in> t_id ` set ?deps) (redirect (t_key old) uk) (?rows1 @ [nrow])"
  proof (rule rewrite_dependents_batch)
    show "distinct (map t_id ?deps)"
      using assms(1) by (simp add: task_table.keyed_def distinct_map_filter)
    fix d t assume d: "d \<in> set ?deps" and t: "t \<in> set (?rows1 @ [nrow])" and eq: "t_id t = t_id d"
    from d have "t_id d \<in> t_id ` set rows" by auto
    with t eq assms(2) have "t \<in> set ?rows1" by auto
    then obtain r where r: "r \<in> set rows" "t = (if t_id r = i then supersede_row r else r)"
      by (auto simp: set_sql_update)
    with eq have "t_id r = t_id d" by (auto split: if_splits)
    with r(1) d have "r = d" using task_table.keyed_eq [OF assms(1)] by auto
    with r show "t_depends_on t = t_depends_on d" by simp
  qed
  have "t_id t \<in> t_id ` set ?deps \<longleftrightarrow> pending_on (t_mission_id old) (t_key old) t" if "t \<in> set rows" for t
    using that task_table.keyed_eq [OF assms(1)] by (auto simp: image_iff)
  moreover have "t_id (if t_id t = i then supersede_row t else t) = t_id t" for t by simp
  ultimately have "sql_update (\<lambda>t. t_id t \<in> t_id ` set ?deps) (redirect (t_key old) uk) ?rows1 =
      map (after_supersede i old uk) rows"
    unfolding sql_update_def map_map o_def after_supersede_def Let_def
    by (intro map_cong refl) (simp only:)
  moreover have "t_id nrow \<notin> t_id ` set ?deps" using assms(2) by auto
  ultimately show ?thesis
    unfolding batch by (simp add: sql_update_def)
qed

lemma supersede_task_InrD:
  assumes "wf_queue q" and "supersede_task tm i spec q = Inr (nid, q')"
  obtains old uk where "old \<in> set (q_tasks q)" "t_id old = i"
    "\<forall>t\<in>set (q_tasks q). t_mission_id t = t_mission_id old \<longrightarrow> t_key t \<noteq> uk"
    "nid = sql_next_id t_id (q_tasks q)"
    "q' = q\<lparr>q_tasks := map (after_supersede i old uk) (q_tasks q) @ [(replacement tm i old uk spec)\<lparr>t_id := nid\<rparr>]\<rparr>"
proof -
  obtain old where old: "task_by_id i q = Some old"
    using assms(2) by (auto simp: supersede_task_def split: option.splits)
  note od = task_by_id_SomeD [OF old]
  define base where "base = (if sp_key spec = '''' then t_key old else sp_key spec)"
  obtain uk where uk: "unique_key_tx (q_tasks q) (t_mission_id old) base = Inr uk"
    using assms(2) by (auto simp: supersede_task_def old Let_def base_def split: sum.splits)
  have fresh: "\<forall>t\<in>set (q_tasks q). t_mission_id t = t_mission_id old \<longrightarrow> t_key t \<noteq> uk"
    using unique_key_loop_sound uk unfolding unique_key_tx_def by blast
  let ?rows1 = "sql_update (\<lambda>t. t_id t = i) supersede_row (q_tasks q)"
  let ?rep = "replacement tm i old uk spec"
  have ids: "map t_id ?rows1 = map t_id (q_tasks q)" by (rule sql_update_map) simp
  have nid: "sql_next_id t_id ?rows1 = sql_next_id t_id (q_tasks q)"
    by (rule sql_next_id_cong [OF ids])
  have ins: "insert_task ?rep ?rows1 = Inr (?rows1 @ [?rep\<lparr>t_id := sql_next_id t_id (q_tasks q)\<rparr>])"
    using fresh by (auto simp: insert_task_def set_sql_update nid)
  have "supersede_task tm i spec q = Inr (sql_next_id t_id ?rows1,
      q\<lparr>q_tasks := rewrite_dependents (t_key old) uk
        (filter (pending_on (t_mission_id old) (t_key old)) (q_tasks q))
        (?rows1 @ [?rep\<lparr>t_id := sql_next_id t_id (q_tasks q)\<rparr>])\<rparr>)"
    using uk ins
    by (simp add: supersede_task_def old Let_def base_def replacement_def
        supersede_row_def [abs_def] pending_on_def [abs_def])
  with assms(2) nid have res: "nid = sql_next_id t_id (q_tasks q)"
      "q' = q\<lparr>q_tasks := rewrite_dependents (t_key old) uk
        (filter (pending_on (t_mission_id old) (t_key old)) (q_tasks q))
        (?rows1 @ [?rep\<lparr>t_id := nid\<rparr>])\<rparr>"
    by auto
  have "sql_next_id t_id (q_tasks q) \<notin> t_id ` set (q_tasks q)"
    using sql_next_id_fresh [of _ "q_tasks q" t_id] by force
  then show thesis
    using that [OF conjunct1 [OF od] conjunct2 [OF od] fresh] res
      supersede_rewrite [OF wf_queue_keyed [OF assms(1)], of "?rep\<lparr>t_id := nid\<rparr>"]
    by simp
qed

lemma wf_supersede_task:
  assumes "wf_queue q" and "supersede_task tm i spec q = Inr (nid, q')"
  shows "wf_queue q'"
proof -
  obtain old uk where
    fresh: "\<forall>t\<in>set (q_tasks q). t_mission_id t = t_mission_id old \<longrightarrow> t_key t \<noteq> uk" and
    nid: "nid = sql_next_id t_id (q_tasks q)" and
    q': "q' = q\<lparr>q_tasks := map (after_supersede i old uk) (q_tasks q) @ [(replacement tm i old uk spec)\<lparr>t_id := nid\<rparr>]\<rparr>"
    by (rule supersede_task_InrD [OF assms])
  let ?rows = "map (after_supersede i old uk) (q_tasks q)"
  have maps: "map t_id ?rows = map t_id (q_tasks q)" "map mission_key ?rows = map mission_key (q_tasks q)"
    by (simp_all add: mission_key_def)
  have w: "wf_tasks (q_tasks q)" using assms(1) by (simp add: wf_queue_def)
  then have w1: "wf_tasks ?rows"
    unfolding wf_tasks_def task_table.keyed_def maps by (auto intro: wf_after_supersede)
  have "sql_next_id t_id ?rows = nid"
    unfolding nid by (rule sql_next_id_cong [OF maps(1)])
  then have "insert_task (replacement tm i old uk spec) ?rows = Inr (q_tasks q')"
    using fresh by (auto simp: insert_task_def q')
  from wf_tasks_insert [OF w1 this] show ?thesis
    using assms(1) by (simp add: wf_queue_def q')
qed

end
