(* ===== verification/Queue_Findings.thy ===== *)
theory Queue_Findings
  imports Queue
begin

section \<open>Findings and executions (internal/queue/findings.go, executions.go)\<close>

text \<open>
  The two other tables of the queue store: the findings bees report, with their validation, their
  recurrence flag and their status transitions; and the shell commands they ran, over which the
  verification gate asks whether a mission's verify command passed last time.
\<close>

subsection \<open>Findings\<close>

definition finding_types :: "string list" where
  "finding_types = [''vuln'', ''bug'', ''design-flaw'', ''missing-req'', ''regression'', ''note'',
     ''change-request'', ''ops'']"

definition severity_table :: "(string \<times> nat) list" where
  "severity_table = [(''low'', 0), (''medium'', 1), (''high'', 2), (''critical'', 3)]"

definition finding_statuses :: "string list" where
  "finding_statuses = [''open'', ''addressed'', ''dismissed'']"

definition severity_rank :: "string \<Rightarrow> nat" where
  "severity_rank s = (case map_of severity_table s of None \<Rightarrow> 0 | Some r \<Rightarrow> r)"

definition add_finding :: "ts \<Rightarrow> finding \<Rightarrow> qstore \<Rightarrow> qerr + int \<times> qstore" where
  "add_finding tm f q =
     (if f_mission_id f = 0 then Inl (InvalidFinding ''mission_id required'')
      else if f_reporter f = '''' then Inl (InvalidFinding ''reporter required'')
      else if f_type f \<notin> set finding_types then Inl (InvalidFinding ''invalid finding type'')
      else if map_of severity_table (f_severity f) = None then Inl (InvalidFinding ''invalid severity'')
      else let recurring = (f_target f \<noteq> '''' \<and>
                 0 < length (filter (\<lambda>g. f_type g = f_type f \<and> f_target g = f_target f) (q_findings q)));
               i = sql_next_id f_id (q_findings q)
           in Inr (i, q\<lparr>q_findings := q_findings q @
                [f\<lparr>f_id := i, f_status := ''open'', f_recurring := recurring, f_created_ts := tm,
                   f_resolved_ts := 0\<rparr>]\<rparr>))"

definition findings_desc :: "finding list \<Rightarrow> finding list" where
  \<comment> \<open>\<^verbatim>\<open>ORDER BY id DESC\<close>\<close>
  "findings_desc fs = rev (sort_key f_id fs)"

definition findings :: "int \<Rightarrow> string \<Rightarrow> qstore \<Rightarrow> finding list" where
  "findings m status q =
     findings_desc (filter (\<lambda>f. f_mission_id f = m \<and> (status = '''' \<or> f_status f = status)) (q_findings q))"

definition all_findings_unbounded :: "qstore \<Rightarrow> finding list" where
  "all_findings_unbounded q = findings_desc (q_findings q)"

definition all_findings :: "qstore \<Rightarrow> finding list" where
  "all_findings q = take 200 (findings_desc (q_findings q))"

definition findings_filtered :: "int \<Rightarrow> string \<Rightarrow> string \<Rightarrow> qstore \<Rightarrow> finding list" where
  "findings_filtered m status by_model q =
     (let rows = findings_desc (filter (\<lambda>f. (m = 0 \<or> f_mission_id f = m) \<and>
                   (status = '''' \<or> f_status f = status) \<and>
                   (by_model = '''' \<or> f_reporter_model f = by_model)) (q_findings q))
      in if m = 0 then take 200 rows else rows)"

definition finding_by_id :: "int \<Rightarrow> qstore \<Rightarrow> finding option" where
  "finding_by_id i q = find (\<lambda>f. f_id f = i) (q_findings q)"

definition set_finding_status :: "ts \<Rightarrow> int \<Rightarrow> string \<Rightarrow> qstore \<Rightarrow> qerr + bool \<times> qstore" where
  "set_finding_status tm i status q =
     (if status \<notin> set finding_statuses then Inl (InvalidStatus status)
      else let p = (\<lambda>f. f_id f = i);
               upd = (if status = ''open'' then (\<lambda>f. f\<lparr>f_status := status\<rparr>)
                      else (\<lambda>f. f\<lparr>f_status := status,
                                 f_resolved_ts := (if f_resolved_ts f = 0 then tm else f_resolved_ts f)\<rparr>))
           in Inr (0 < sql_affected p (q_findings q),
                   q\<lparr>q_findings := sql_update p upd (q_findings q)\<rparr>))"

subsection \<open>Executions\<close>

definition record_execution :: "execution \<Rightarrow> qstore \<Rightarrow> qstore" where
  "record_execution e q =
     q\<lparr>q_executions := q_executions q @ [e\<lparr>e_id := sql_next_id e_id (q_executions q)\<rparr>]\<rparr>"

definition executions_by_agent :: "string \<Rightarrow> int \<Rightarrow> qstore \<Rightarrow> execution list" where
  "executions_by_agent agent limit q =
     (let lim = (if limit \<le> 0 then 50 else limit)
      in take (nat lim) (sort_key (\<lambda>e. (- e_ts e, - e_id e))
           (filter (\<lambda>e. e_agent e = agent) (q_executions q))))"

definition executions_by_mission :: "int \<Rightarrow> qstore \<Rightarrow> execution list" where
  "executions_by_mission m q = sort_key (\<lambda>e. - e_ts e) (filter (\<lambda>e. e_mission_id e = m) (q_executions q))"

definition all_executions :: "qstore \<Rightarrow> execution list" where
  "all_executions q = sort_key e_ts (q_executions q)"

text \<open>
  SQLite's \<^verbatim>\<open>LIKE\<close> on UTF-8 bytes: \<^verbatim>\<open>%\<close> matches any sequence, \<^verbatim>\<open>_\<close> any one character (a byte of at least 0xC0 takes the
  continuation bytes after it with it), and the letters A to Z match their lower case.
\<close>

definition skip_utf8 :: "char \<Rightarrow> string \<Rightarrow> string" where
  \<comment> \<open>what is left of the string \<open>c # cs\<close> after its first character\<close>
  "skip_utf8 c cs = (if (192::nat) \<le> of_char c then dropWhile (\<lambda>d. (128::nat) \<le> of_char d \<and> of_char d < (192::nat)) cs else cs)"

fun sql_like :: "string \<Rightarrow> string \<Rightarrow> bool" where
  "sql_like [] s = (s = [])"
| "sql_like (p # ps) s =
     (if p = CHR ''%'' then list_ex (\<lambda>k. sql_like ps (drop k s)) [0..<Suc (length s)]
      else case s of
        [] \<Rightarrow> False
      | c # cs \<Rightarrow> if p = CHR ''_'' then sql_like ps (skip_utf8 c cs) else ascii_lower p = ascii_lower c \<and> sql_like ps cs)"

definition verify_match :: "string \<Rightarrow> string \<Rightarrow> bool" where
  "verify_match v command \<longleftrightarrow> command = v \<or> sql_like (v @ '' %'') command"

definition verify_row :: "int \<Rightarrow> string \<Rightarrow> int \<Rightarrow> string \<Rightarrow> execution \<Rightarrow> bool" where
  "verify_row m v since agent e \<longleftrightarrow> e_mission_id e = m \<and> (agent = '''' \<or> e_agent e = agent) \<and>
     since \<le> e_ts e \<and> verify_match v (e_command e)"

definition mission_passed_verify_since_by :: "int \<Rightarrow> string \<Rightarrow> int \<Rightarrow> string \<Rightarrow> qstore \<Rightarrow> bool" where
  "mission_passed_verify_since_by m verify since agent q =
     (if verify = '''' then True
      else let v = trim_space verify in
        if v = '''' then True
        else case sql_first (\<lambda>e. (- e_ts e, - e_id e)) (verify_row m v since agent) (q_executions q) of
          None \<Rightarrow> False
        | Some e \<Rightarrow> e_ok e)"

definition mission_passed_verify_since :: "int \<Rightarrow> string \<Rightarrow> int \<Rightarrow> qstore \<Rightarrow> bool" where
  "mission_passed_verify_since m verify since q = mission_passed_verify_since_by m verify since '''' q"

definition mission_passed_verify :: "int \<Rightarrow> string \<Rightarrow> qstore \<Rightarrow> bool" where
  "mission_passed_verify m verify q = mission_passed_verify_since m verify 0 q"

subsection \<open>Lemmas\<close>

lemma wf_add_finding: "wf_queue q \<Longrightarrow> add_finding tm f q = Inr (i, q') \<Longrightarrow> wf_queue q'"
proof -
  let ?i = "sql_next_id f_id (q_findings q)"
  assume w: "wf_queue q" and a: "add_finding tm f q = Inr (i, q')"
  have upd: "f\<lparr>f_id := n, f_status := s, f_recurring := r, f_created_ts := c, f_resolved_ts := d\<rparr> =
    f\<lparr>f_status := s, f_recurring := r, f_created_ts := c, f_resolved_ts := d\<rparr>\<lparr>f_id := n\<rparr>" for n s r c d
    by simp
  obtain r where "q' = q\<lparr>q_findings := q_findings q @ [f\<lparr>f_id := ?i, f_status := ''open'',
      f_recurring := r, f_created_ts := tm, f_resolved_ts := 0\<rparr>]\<rparr>"
    using a unfolding add_finding_def Let_def by (simp split: if_splits) blast
  moreover from w have "finding_table.keyed (q_findings q @ [f\<lparr>f_status := ''open'', f_recurring := r,
      f_created_ts := tm, f_resolved_ts := 0\<rparr>\<lparr>f_id := ?i\<rparr>])" for r
    by (simp only: wf_queue_def finding_table.keyed_ins)
  ultimately show ?thesis using w by (simp only: wf_queue_def upd) simp
qed

lemma wf_record_execution [wf_intros]: "wf_queue q \<Longrightarrow> wf_queue (record_execution e q)"
  by (simp add: wf_queue_def record_execution_def execution_table.keyed_ins)

definition status_stamp :: "ts \<Rightarrow> string \<Rightarrow> finding \<Rightarrow> finding" where
  "status_stamp tm status f = f\<lparr>f_status := status,
     f_resolved_ts := (if status \<noteq> ''open'' \<and> f_resolved_ts f = 0 then tm else f_resolved_ts f)\<rparr>"

lemma set_finding_status_Inr_iff:
  "set_finding_status tm i status q = Inr (ok, q') \<longleftrightarrow>
     status \<in> set finding_statuses \<and> ok = (\<exists>f\<in>set (q_findings q). f_id f = i) \<and>
     q' = q\<lparr>q_findings := sql_update (\<lambda>f. f_id f = i) (status_stamp tm status) (q_findings q)\<rparr>"
proof -
  have "(if status = ''open'' then (\<lambda>f. f\<lparr>f_status := status\<rparr>)
     else (\<lambda>f. f\<lparr>f_status := status,
                f_resolved_ts := (if f_resolved_ts f = 0 then tm else f_resolved_ts f)\<rparr>)) =
     status_stamp tm status"
    by (auto simp: fun_eq_iff status_stamp_def)
  then show ?thesis
    unfolding set_finding_status_def Let_def sql_affected_pos by (simp only: split: if_split) auto
qed

lemma wf_set_finding_status:
  assumes "wf_queue q" and "set_finding_status tm i status q = Inr (ok, q')"
  shows "wf_queue q'"
proof -
  have "finding_table.keyed (sql_update (\<lambda>f. f_id f = i) (status_stamp tm status) (q_findings q)) =
      finding_table.keyed (q_findings q)"
    by (rule finding_table.keyed_update) (simp add: status_stamp_def)
  with assms show ?thesis by (auto simp: wf_queue_def set_finding_status_Inr_iff)
qed

lemma set_findings_desc [simp]: "set (findings_desc fs) = set fs"
  by (simp add: findings_desc_def)

lemma set_findings:
  "set (findings m st q) = {f \<in> set (q_findings q). f_mission_id f = m \<and> (st = '''' \<or> f_status f = st)}"
  by (auto simp: findings_def)

lemma length_findings_desc [simp]: "length (findings_desc fs) = length fs"
  by (simp add: findings_desc_def)

lemma sql_like_plain_append:
  assumes "CHR ''%'' \<notin> set v" "CHR ''_'' \<notin> set v"
  shows "sql_like (v @ ps) s \<longleftrightarrow>
    length v \<le> length s \<and> map ascii_lower (take (length v) s) = map ascii_lower v \<and> sql_like ps (drop (length v) s)"
  using assms
proof (induction v arbitrary: s)
  case (Cons p v)
  then show ?case by (cases s) auto
qed simp

lemma sql_like_percent: "sql_like ''%'' s"
  by (auto simp: list_ex_iff intro!: bexI [of _ "length s"])

lemma ascii_lower_space: "ascii_lower (CHR '' '') = ascii_lower c \<longleftrightarrow> c = CHR '' ''"
  by (auto simp: ascii_lower_def dest!: sym [of "CHR '' ''"] split: option.splits if_splits)

lemma sql_like_space_percent: "sql_like '' %'' s \<longleftrightarrow> (\<exists>rest. s = CHR '' '' # rest)"
proof (cases s)
  case (Cons c cs)
  have "sql_like '' %'' (c # cs) \<longleftrightarrow> ascii_lower (CHR '' '') = ascii_lower c \<and> sql_like ''%'' cs"
    by (subst sql_like.simps) (simp del: sql_like.simps)
  with Cons show ?thesis by (simp only: ascii_lower_space sql_like_percent) simp
qed simp

lemma verify_match_plain:
  assumes "CHR ''%'' \<notin> set v" "CHR ''_'' \<notin> set v"
  shows "verify_match v c \<longleftrightarrow> c = v \<or>
    (\<exists>w rest. c = w @ '' '' @ rest \<and> length w = length v \<and> map ascii_lower w = map ascii_lower v)"
proof -
  have "sql_like (v @ '' %'') c \<longleftrightarrow>
    length v \<le> length c \<and> map ascii_lower (take (length v) c) = map ascii_lower v \<and>
    (\<exists>rest. drop (length v) c = CHR '' '' # rest)"
    unfolding sql_like_plain_append [OF assms] sql_like_space_percent ..
  also have "\<dots> \<longleftrightarrow> (\<exists>w rest. c = w @ '' '' @ rest \<and> length w = length v \<and> map ascii_lower w = map ascii_lower v)"
    (is "?L \<longleftrightarrow> ?R")
  proof
    assume ?L
    then show ?R by (metis append_Cons append_Nil append_take_drop_id length_take min.absorb2)
  qed auto
  finally show ?thesis by (simp add: verify_match_def)
qed

end
