(* ===== verification/Queue_Machine.thy ===== *)
theory Queue_Machine
  imports Machine Queue_Replan Queue_Findings
begin

section \<open>The queue as a transition system\<close>

text \<open>
  One rule per method of \<^verbatim>\<open>queue.Store\<close> that writes, all of them, each labelled with the call: the method, the mission, task or
  key it names and the bee that makes it. A method that returns an error rolls its transaction back and is no step. The properties are those of
  single methods, stated over every well-formed store, and those of every sequence of calls, by rule induction.
\<close>

datatype qevent =
    EnqueueCall int
  | DeleteCall int
  | PruneCall int
  | HaltCall int
  | UnhaltCall int
  | PromoteCall int
  | ClaimCall string
  | CompleteCall int string
  | ReclaimCall string
  | ReapCall "string set option"
  | CancelCall int
  | ReopenCall int
  | SupersedeCall int
  | GuardedCancelCall int bool
  | RetargetCall int string string
  | FindingCall
  | ExecutionCall

inductive queue_event :: "qevent \<Rightarrow> qstore \<Rightarrow> qstore \<Rightarrow> bool" where
  enqueue: "enqueue clk m specs q = Inr q' \<Longrightarrow> queue_event (EnqueueCall m) q q'"
| delete_tasks: "queue_event (DeleteCall m) q (delete_mission_tasks m q)"
| prune: "queue_event (PruneCall m) q (prune_mission m q)"
| halt: "queue_event (HaltCall m) q (halt_mission m reason q)"
| unhalt: "queue_event (UnhaltCall m) q (unhalt_mission m q)"
| promote: "queue_event (PromoteCall m) q (snd (promote_ready m q))"
| claim: "queue_event (ClaimCall bee) q (snd (claim_next_as clk bee inst roles lease q))"
| complete: "queue_event (CompleteCall i bee) q (snd (complete tm i bee res q))"
| reclaim: "queue_event (ReclaimCall bee) q (snd (reclaim_idle t0 bee grace q))"
| reap: "queue_event (ReapCall present) q (snd (reap tm present q))"
| cancel: "queue_event (CancelCall i) q (snd (cancel_task i q))"
| reopen: "queue_event (ReopenCall i) q (snd (reopen_task i q))"
| supersede: "supersede_task tm i spec q = Inr (nid, q') \<Longrightarrow> queue_event (SupersedeCall i) q q'"
| cancel_guarded: "cancel_task_guarded i cascade q = Inr (c, b, q') \<Longrightarrow> queue_event (GuardedCancelCall i cascade) q q'"
| retarget: "retarget_dependents m a b q = Inr (n, q') \<Longrightarrow> queue_event (RetargetCall m a b) q q'"
| add_finding: "add_finding tm f q = Inr (i, q') \<Longrightarrow> queue_event FindingCall q q'"
| set_finding_status: "set_finding_status tm i status q = Inr (ok, q') \<Longrightarrow> queue_event FindingCall q q'"
| record_execution: "queue_event ExecutionCall q (record_execution e q)"

definition queue_step :: "qstore \<Rightarrow> qstore \<Rightarrow> bool" where
  "queue_step q q' \<longleftrightarrow> (\<exists>a. queue_event a q q')"

lemma queue_stepI: "queue_event a q q' \<Longrightarrow> queue_step q q'"
  by (auto simp: queue_step_def)

definition retired :: "status \<Rightarrow> bool" where
  "retired st \<longleftrightarrow> st = Cancelled \<or> st = Superseded"

definition retired_row :: "int \<Rightarrow> int \<Rightarrow> qstore \<Rightarrow> bool" where
  "retired_row m i q \<longleftrightarrow> (\<exists>t\<in>set (q_tasks q). t_id t = i \<and> t_mission_id t = m \<and> retired (t_status t))"

definition erases :: "int \<Rightarrow> qevent \<Rightarrow> bool" where
  "erases m a \<longleftrightarrow> a = DeleteCall m \<or> a = PruneCall m"

text \<open>A batch of claims, each by some bee at some time: the grants in order and the store left.\<close>

type_synonym claim_call = "clock \<times> string \<times> string \<times> string list \<times> ts"

fun run_claims :: "claim_call list \<Rightarrow> qstore \<Rightarrow> claimed_task list \<times> qstore" where
  "run_claims [] q = ([], q)"
| "run_claims ((clk, bee, inst, roles, lease) # cs) q =
     (case claim_next_as clk bee inst roles lease q of
        (None, q') \<Rightarrow> run_claims cs q'
      | (Some c, q') \<Rightarrow> let (gs, q'') = run_claims cs q' in (c # gs, q''))"

subsection \<open>Well-formedness is an invariant\<close>

lemma wf_queue_event: "queue_event a q q' \<Longrightarrow> wf_queue q \<Longrightarrow> wf_queue q'"
  by (induction rule: queue_event.induct)
     (auto intro: wf_intros wf_enqueue wf_supersede_task wf_cancel_task_guarded wf_retarget_dependents
        wf_add_finding wf_set_finding_status)

lemma wf_queue_step: "queue_step q q' \<Longrightarrow> wf_queue q \<Longrightarrow> wf_queue q'"
  by (auto simp: queue_step_def intro: wf_queue_event)

interpretation queue_machine: invariant_machine "\<lambda>q. q = empty_qstore" queue_step wf_queue
  by unfold_locales (auto simp: wf_empty_qstore intro: wf_queue_step)

subsection \<open>Retired rows stay retired\<close>

lemma retired_update:
  assumes "retired_row m i q" and "q_tasks q' = sql_update p f (q_tasks q)"
    and "\<And>r. t_id (f r) = t_id r \<and> t_mission_id (f r) = t_mission_id r"
    and "\<And>r. p r \<Longrightarrow> retired (t_status r) \<Longrightarrow> retired (t_status (f r))"
  shows "retired_row m i q'"
proof -
  obtain t where t: "t \<in> set (q_tasks q)" "t_id t = i" "t_mission_id t = m" "retired (t_status t)"
    using assms(1) by (auto simp: retired_row_def)
  let ?t = "if p t then f t else t"
  have "?t \<in> set (q_tasks q')" using t(1) by (auto simp: assms(2) set_sql_update)
  moreover have "t_id ?t = i \<and> t_mission_id ?t = m \<and> retired (t_status ?t)" using t assms(3,4) by simp
  ultimately show ?thesis by (auto simp: retired_row_def)
qed

lemma retired_same: "retired_row m i q \<Longrightarrow> set (q_tasks q) \<subseteq> set (q_tasks q') \<Longrightarrow> retired_row m i q'"
  by (auto simp: retired_row_def)

lemma retired_delete:
  "retired_row m i q \<Longrightarrow> q_tasks q' = sql_delete (\<lambda>t. t_mission_id t = m') (q_tasks q) \<Longrightarrow> m' \<noteq> m \<Longrightarrow> retired_row m i q'"
  by (auto simp: retired_row_def sql_delete_def)

lemma enqueue_loop_prefix: "enqueue_loop clk i m sps rows = Inr rows' \<Longrightarrow> set rows \<subseteq> set rows'"
  by (induction sps arbitrary: i rows)
     (auto simp: insert_task_def split: sum.splits if_splits, fastforce+)

lemma enqueue_keeps_rows: "enqueue clk m sps q = Inr q' \<Longrightarrow> set (q_tasks q) \<subseteq> set (q_tasks q')"
  using enqueue_loop_prefix by (fastforce simp: enqueue_def split: sum.splits)

lemma retired_simps [simp]:
  "\<not> retired Pending" "\<not> retired Ready" "\<not> retired Claimed" "\<not> retired Done" "retired Cancelled"
  "retired Superseded"
  by (simp_all add: retired_def)

lemma retired_claim:
  assumes "wf_queue q" "retired_row m i q"
  shows "retired_row m i (snd (claim_next_as clk bee inst roles lease q))"
proof (rule claim_next_as_cases [OF assms(1), of bee inst roles clk lease])
  assume "claim_next_as clk bee inst roles lease q = claim_fresh (clk 1) bee inst roles lease q"
  then show ?thesis
    by (rule_tac claim_fresh_cases [OF assms(1), of "clk 1" bee inst roles lease])
       (use assms(2) in \<open>auto intro: retired_update\<close>)
qed (use assms(2) in \<open>auto intro: retired_update\<close>)

lemma retired_supersede:
  assumes "wf_queue q" "retired_row m i q" "supersede_task tm j spec q = Inr (nid, q')"
  shows "retired_row m i q'"
proof -
  obtain old uk r where rows: "q_tasks q' = map (after_supersede j old uk) (q_tasks q) @ [r]"
    by (rule supersede_task_InrD [OF assms(1,3)]) (metis (no_types, lifting) qstore.select_convs(1) qstore.surjective qstore.update_convs(1))
  have "retired (t_status (after_supersede j old uk t))" if "retired (t_status t)" for t
    using that by (simp add: after_supersede_def Let_def)
  then show ?thesis using assms(2) by (fastforce simp: retired_row_def rows)
qed

lemma retired_cancel_guarded:
  assumes "retired_row m i q" "cancel_task_guarded j cascade q = Inr (c, b, q')"
  shows "retired_row m i q'"
proof -
  obtain t where t: "task_by_id j q = Some t"
    using assms(2) by (auto simp: cancel_task_guarded_def split: option.splits)
  have "q' = q \<or> q' = snd (cancel_loop (subtree_of t (list_tasks (t_mission_id t) q)) ([], q))"
    using assms(2) unfolding cancel_task_guarded_unfold [OF t] by (auto simp: Let_def split: if_splits)
  then show ?thesis using assms(1) by (auto intro: retired_update [OF assms(1) cancel_loop_tasks])
qed

lemma retired_event: "queue_event a q q' \<Longrightarrow> wf_queue q \<Longrightarrow> \<not> erases m a \<Longrightarrow> retired_row m i q \<Longrightarrow> retired_row m i q'"
proof (induction rule: queue_event.induct)
  case (enqueue clk m specs q q')
  then show ?case by (metis enqueue_keeps_rows retired_same)
next
  case (delete_tasks m' q)
  then show ?case by (auto simp: delete_mission_tasks_def erases_def intro: retired_delete)
next
  case (prune m' q)
  then show ?case by (auto simp: prune_mission_def erases_def intro: retired_delete)
next
  case (promote m q)
  then show ?case by (auto simp: promote_ready_batch promotable_def intro: retired_update)
next
  case (reclaim bee q t0 grace)
  then show ?case by (auto simp: reclaim_idle_batch reclaimable_def intro: retired_update)
next
  case (reap present q tm)
  then show ?case by (auto simp: reap_batch intro: retired_update)
next
  case (retarget m a b q n q')
  have "q_tasks q' = sql_update (\<lambda>t. t_mission_id t = m \<and> retargeted a t) (redirect a b) (q_tasks q)"
    using retarget_dependents_InrD(1) [OF retarget.prems(1) retarget.hyps] by simp
  then show ?case by (rule retired_update [OF retarget.prems(3)]) auto
qed (auto intro: retired_same enqueue_keeps_rows retired_claim retired_supersede retired_cancel_guarded
       retired_update [OF _ cancel_task_tasks] retired_update retired_same
       simp: complete_def reopen_task_def Let_def halt_mission_def unhalt_mission_def record_execution_def
         add_finding_def set_finding_status_Inr_iff split: if_splits)

interpretation retired_machine:
  traced_machine queue_event "\<lambda>h q. wf_queue q \<and> ((\<forall>a\<in>set h. \<not> erases m a) \<longrightarrow> retired_row m i q)" for m i
  by unfold_locales (auto intro: wf_queue_event retired_event)

end
