(* ===== verification/Queue_Properties.thy ===== *)
theory Queue_Properties
  imports Queue_Machine
begin

section \<open>What the queue guarantees\<close>

text \<open>
  The correctness properties of the queue, over the batch forms and case rules of the component
  theories. The example store is a mission with one task of each kind; the witnesses evaluate the
  operations on it.
\<close>

subsection \<open>An example store\<close>

definition ex_task :: "int \<Rightarrow> string \<Rightarrow> status \<Rightarrow> string list \<Rightarrow> task" where
  "ex_task i k st deps =
     \<lparr>t_id = i, t_mission_id = 7, t_key = k, t_role = ''coder'', t_title = k, t_instruction = '''',
      t_system = '''', t_status = st, t_depends_on = deps,
      t_claimed_by = (if st = Claimed \<or> st = Done then Some ''bee'' else None),
      t_claim_expires_ts = (if st = Claimed then Some 100 else None),
      t_result = None, t_created_ts = of_int i,
      t_claimed_ts = (if st = Claimed \<or> st = Done then Some 10 else None),
      t_done_ts = (if st = Done then Some 20 else None),
      t_supersedes = 0, t_verify = '''', t_claimed_instance = '''', t_model = ''''\<rparr>"

definition ex_queue :: qstore where
  "ex_queue = empty_qstore\<lparr>q_tasks :=
     [ex_task 1 ''a'' Done [], ex_task 2 ''b'' Claimed [''a''], ex_task 3 ''c'' Ready [''a''],
      ex_task 4 ''d'' Pending [''a''], ex_task 5 ''e'' Pending [''b''], ex_task 6 ''f'' Pending [''e''],
      ex_task 7 ''g'' Cancelled []]\<rparr>"

lemmas ex_simps = ex_queue_def ex_task_def empty_qstore_def

lemma wf_ex_queue: "wf_queue ex_queue"
  by (simp add: ex_simps wf_queue_def wf_tasks_def task_table.keyed_def mission_key_def wf_task_def)

subsection \<open>Claiming\<close>

definition hold :: "string \<Rightarrow> string \<Rightarrow> ts \<Rightarrow> ts \<Rightarrow> task \<Rightarrow> task" where
  "hold bee inst tm lease r =
     r\<lparr>t_status := Claimed, t_claimed_by := Some bee, t_claimed_ts := Some tm,
       t_claim_expires_ts := Some (tm + lease), t_claimed_instance := inst\<rparr>"

lemma point_update:
  assumes "wf_queue q" "t \<in> set (q_tasks q)" "p t"
    and "p t \<Longrightarrow> f t = g t"
  shows "sql_update (\<lambda>r. t_id r = t_id t \<and> p r) f (q_tasks q) = sql_update (\<lambda>r. t_id r = t_id t) g (q_tasks q)"
  unfolding sql_update_def
  by (rule map_cong [OF refl]) (use assms task_table.keyed_eq [OF wf_queue_keyed [OF assms(1)]] in auto)

lemma claim_grantD:
  assumes "wf_queue q" and "claim_next_as clk bee inst roles lease q = (Some c, q')"
  shows "\<exists>t\<in>set (q_tasks q). \<exists>tm. t_id (c_task c) = t_id t \<and>
    t_claimed_by (c_task c) = Some bee \<and>
    q_mission_halts q (t_mission_id t) = None \<and> role_ok roles t \<and>
    (if c_reissued c
     then tm = clk 0 \<and> t_status t = Claimed \<and> t_claimed_by t = Some bee \<and>
       (t_claimed_instance t = inst \<and> inst \<noteq> '''' \<or> null_less (t_claim_expires_ts t) tm)
     else tm = clk 1 \<and> t_status t = Ready \<and>
       (\<forall>x\<in>set (q_tasks q). claimable roles q x \<longrightarrow> (t_created_ts t, t_id t) \<le> (t_created_ts x, t_id x))) \<and>
    q' = q\<lparr>q_tasks := sql_update (\<lambda>r. t_id r = t_id t) (hold bee inst tm lease) (q_tasks q)\<rparr>"
proof (rule claim_next_as_cases [OF assms(1), of bee inst roles clk lease])
  fix t
  assume t: "t \<in> set (q_tasks q)" and h: "self_healable bee inst roles (clk 0) q t"
    and eq: "claim_next_as clk bee inst roles lease q =
         (Some (claim_reply t bee (clk 0) (clk 0 + lease) True),
          q\<lparr>q_tasks := sql_update (\<lambda>r. t_id r = t_id t \<and> t_status r = Claimed)
             (\<lambda>r. r\<lparr>t_claimed_ts := Some (clk 0), t_claim_expires_ts := Some (clk 0 + lease),
                    t_claimed_instance := inst\<rparr>)
             (q_tasks q)\<rparr>)"
  have "q' = q\<lparr>q_tasks := sql_update (\<lambda>r. t_id r = t_id t) (hold bee inst (clk 0) lease) (q_tasks q)\<rparr>"
    using h assms(2) unfolding eq
    by (subst (asm) point_update [OF assms(1) t, of "\<lambda>r. t_status r = Claimed" _ "hold bee inst (clk 0) lease"])
       (auto simp: self_healable_def hold_def)
  then show ?thesis using t h assms(2) unfolding eq
    by (intro bexI [of _ t] exI [of _ "clk 0"]) (auto simp: self_healable_def claim_reply_def)
next
  assume eq: "claim_next_as clk bee inst roles lease q = claim_fresh (clk 1) bee inst roles lease q"
  show ?thesis
  proof (rule claim_fresh_cases [OF assms(1), of "clk 1" bee inst roles lease])
    fix t
    assume t: "t \<in> set (q_tasks q)" and h: "claimable roles q t"
      and least: "\<And>x. x \<in> set (q_tasks q) \<Longrightarrow> claimable roles q x \<Longrightarrow>
         (t_created_ts t, t_id t) \<le> (t_created_ts x, t_id x)"
      and eq2: "claim_fresh (clk 1) bee inst roles lease q =
         (Some (claim_reply t bee (clk 1) (clk 1 + lease) False),
          q\<lparr>q_tasks := sql_update (\<lambda>r. t_id r = t_id t \<and> t_status r = Ready)
             (\<lambda>r. r\<lparr>t_status := Claimed, t_claimed_by := Some bee, t_claimed_ts := Some (clk 1),
                    t_claim_expires_ts := Some (clk 1 + lease), t_claimed_instance := inst\<rparr>)
             (q_tasks q)\<rparr>)"
    have "q' = q\<lparr>q_tasks := sql_update (\<lambda>r. t_id r = t_id t) (hold bee inst (clk 1) lease) (q_tasks q)\<rparr>"
      using h assms(2) unfolding eq eq2
      by (subst (asm) point_update [OF assms(1) t, of "\<lambda>r. t_status r = Ready" _ "hold bee inst (clk 1) lease"])
         (auto simp: claimable_def hold_def)
    moreover have "c = claim_reply t bee (clk 1) (clk 1 + lease) False" using assms(2) unfolding eq eq2 by simp
    ultimately show ?thesis using t h least
      by (intro bexI [of _ t] exI [of _ "clk 1"]) (auto simp: claimable_def claim_reply_def)
  qed (use assms(2) eq in auto)
qed

lemma claim_noneD:
  assumes "wf_queue q" and "claim_next_as clk bee inst roles lease q = (None, q')"
  shows "q' = q \<and> (\<forall>t\<in>set (q_tasks q). \<not> self_healable bee inst roles (clk 0) q t \<and> \<not> claimable roles q t)"
  by (rule claim_next_as_cases [OF assms(1), of bee inst roles clk lease];
      rule claim_fresh_cases [OF assms(1), of "clk 1" bee inst roles lease])
     (use assms(2) in auto)

text \<open>
  C4. A claim hands out exactly one row, and only one the caller may have. A fresh grant is the oldest
  ready task (by creation time, then id) whose mission is not halted and whose role the bee takes; a
  re-issued grant is a task the same bee already holds, and only when the bee's instance is the one
  that claimed it or the lease has run out. Only that row changes: it is now claimed by the bee
  until the lease ends. When nothing is granted, nothing was grantable and the store is untouched.
\<close>

theorem claim_exact:
  assumes "wf_queue q" and "claim_next_as clk bee inst roles lease q = (r, q')"
  shows "case r of
      None \<Rightarrow> q' = q \<and>
        (\<forall>t\<in>set (q_tasks q). \<not> self_healable bee inst roles (clk 0) q t \<and> \<not> claimable roles q t)
    | Some c \<Rightarrow> (\<exists>t\<in>set (q_tasks q). \<exists>tm. t_id (c_task c) = t_id t \<and>
        q_mission_halts q (t_mission_id t) = None \<and> role_ok roles t \<and>
        (if c_reissued c
         then tm = clk 0 \<and> t_status t = Claimed \<and> t_claimed_by t = Some bee \<and>
           (t_claimed_instance t = inst \<and> inst \<noteq> '''' \<or> null_less (t_claim_expires_ts t) tm)
         else tm = clk 1 \<and> t_status t = Ready \<and>
           (\<forall>x\<in>set (q_tasks q). claimable roles q x \<longrightarrow>
              (t_created_ts t, t_id t) \<le> (t_created_ts x, t_id x))) \<and>
        q' = q\<lparr>q_tasks := sql_update (\<lambda>r. t_id r = t_id t) (hold bee inst tm lease) (q_tasks q)\<rparr>)"
proof (cases r)
  case None
  then show ?thesis using claim_noneD [OF assms(1)] assms(2) by simp
next
  case (Some c)
  then show ?thesis using claim_grantD [OF assms(1), of clk bee inst roles lease c q'] assms(2)
    by (simp only: option.case) blast
qed

lemma ex_claim:
  "claim_next_as (\<lambda>_. 50) ''other'' '''' [] 30 ex_queue =
     (Some (claim_reply (ex_task 3 ''c'' Ready [''a'']) ''other'' 50 80 False),
      ex_queue\<lparr>q_tasks := (q_tasks ex_queue)[2 := hold ''other'' '''' 50 30 (ex_task 3 ''c'' Ready [''a''])]\<rparr>)"
  by (simp add: claim_next_as_def claim_fresh_def Let_def sql_first_def self_healable_def claimable_def
      role_ok_def sql_affected_def hold_def ex_simps)

theorem claim_exact_witness:
  "\<exists>t\<in>set (q_tasks ex_queue). t_id t = 3 \<and> t_status t = Ready"
  using claim_exact [OF wf_ex_queue ex_claim]
  by (auto simp: claim_reply_def ex_task_def)

subsection \<open>No double dispatch\<close>

definition held_by :: "string \<Rightarrow> int \<Rightarrow> qstore \<Rightarrow> bool" where
  "held_by bee i q \<longleftrightarrow> (\<exists>t\<in>set (q_tasks q). t_id t = i \<and> t_status t = Claimed \<and> t_claimed_by t = Some bee)"

definition ready_id :: "int \<Rightarrow> qstore \<Rightarrow> bool" where
  "ready_id i q \<longleftrightarrow> (\<exists>t\<in>set (q_tasks q). t_id t = i \<and> t_status t = Ready)"

lemma held_by_unique: "wf_queue q \<Longrightarrow> held_by a i q \<Longrightarrow> held_by b i q \<Longrightarrow> a = b"
  using task_table.keyed_eq [OF wf_queue_keyed] by (fastforce simp: held_by_def)

lemma held_not_ready: "wf_queue q \<Longrightarrow> held_by a i q \<Longrightarrow> \<not> ready_id i q"
  using task_table.keyed_eq [OF wf_queue_keyed] by (fastforce simp: held_by_def ready_id_def)

lemma held_by_hold:
  "t \<in> set (q_tasks q) \<Longrightarrow>
   held_by b j (q\<lparr>q_tasks := sql_update (\<lambda>r. t_id r = t_id t) (hold bee inst tm lease) (q_tasks q)\<rparr>) \<longleftrightarrow>
     (if j = t_id t then b = bee else held_by b j q)"
  by (auto simp: held_by_def bex_sql_update hold_def)

lemma ready_id_hold:
  "ready_id j (q\<lparr>q_tasks := sql_update (\<lambda>r. t_id r = t_id t) (hold bee inst tm lease) (q_tasks q)\<rparr>) \<longleftrightarrow>
     j \<noteq> t_id t \<and> ready_id j q"
  by (auto simp: ready_id_def bex_sql_update hold_def)

lemma claim_step_facts:
  assumes "wf_queue q" and "claim_next_as clk bee inst roles lease q = (Some c, q')"
  shows "held_by b j q' \<longleftrightarrow> (if j = t_id (c_task c) then b = bee else held_by b j q)"
    and "ready_id j q' \<longleftrightarrow> j \<noteq> t_id (c_task c) \<and> ready_id j q"
    and "if c_reissued c then held_by bee (t_id (c_task c)) q else ready_id (t_id (c_task c)) q"
    and "t_claimed_by (c_task c) = Some bee"
proof -
  obtain t tm where t: "t \<in> set (q_tasks q)" "t_id (c_task c) = t_id t" "t_claimed_by (c_task c) = Some bee"
      "if c_reissued c then t_status t = Claimed \<and> t_claimed_by t = Some bee else t_status t = Ready"
    and q': "q' = q\<lparr>q_tasks := sql_update (\<lambda>r. t_id r = t_id t) (hold bee inst tm lease) (q_tasks q)\<rparr>"
    using claim_grantD [OF assms] by (metis (full_types))
  show "held_by b j q' \<longleftrightarrow> (if j = t_id (c_task c) then b = bee else held_by b j q)"
    unfolding q' held_by_hold [OF t(1)] t(2) ..
  show "ready_id j q' \<longleftrightarrow> j \<noteq> t_id (c_task c) \<and> ready_id j q"
    unfolding q' ready_id_hold t(2) ..
  show "if c_reissued c then held_by bee (t_id (c_task c)) q else ready_id (t_id (c_task c)) q"
    using t by (auto simp: held_by_def ready_id_def split: if_splits)
qed (use claim_grantD [OF assms] in blast)

definition fresh_ids :: "claimed_task list \<Rightarrow> int list" where
  "fresh_ids gs = map (\<lambda>g. t_id (c_task g)) (filter (\<lambda>g. \<not> c_reissued g) gs)"

definition grants_consistent :: "qstore \<Rightarrow> claimed_task list \<Rightarrow> bool" where
  "grants_consistent q gs \<longleftrightarrow> distinct (fresh_ids gs) \<and>
     (\<forall>i\<in>set (fresh_ids gs). ready_id i q) \<and>
     (\<forall>g\<in>set gs. \<forall>b. held_by b (t_id (c_task g)) q \<longrightarrow> t_claimed_by (c_task g) = Some b) \<and>
     (\<forall>g\<in>set gs. \<forall>h\<in>set gs. t_id (c_task g) = t_id (c_task h) \<longrightarrow>
        t_claimed_by (c_task g) = t_claimed_by (c_task h))"

lemma grants_consistentD:
  assumes "grants_consistent q gs"
  shows "distinct (fresh_ids gs)" "i \<in> set (fresh_ids gs) \<Longrightarrow> ready_id i q"
    "g \<in> set gs \<Longrightarrow> held_by b (t_id (c_task g)) q \<Longrightarrow> t_claimed_by (c_task g) = Some b"
    "g \<in> set gs \<Longrightarrow> h \<in> set gs \<Longrightarrow> t_id (c_task g) = t_id (c_task h) \<Longrightarrow>
       t_claimed_by (c_task g) = t_claimed_by (c_task h)"
  using assms unfolding grants_consistent_def by blast+

lemma fresh_ids_Cons [simp]:
  "fresh_ids (c # gs) = (if c_reissued c then fresh_ids gs else t_id (c_task c) # fresh_ids gs)"
  by (simp add: fresh_ids_def)

lemma run_claims_consistent: "wf_queue q \<Longrightarrow> grants_consistent q (fst (run_claims cs q))"
proof (induction cs q rule: run_claims.induct)
  case (1 q)
  then show ?case by (simp add: grants_consistent_def fresh_ids_def)
next
  case (2 clk bee inst roles lease cs q)
  obtain r q' where cl: "claim_next_as clk bee inst roles lease q = (r, q')" by fastforce
  show ?case
  proof (cases r)
    case None
    then have "q' = q" using claim_noneD [OF "2.prems"] cl by blast
    then show ?thesis using "2.IH"(1) [OF cl [symmetric] None] "2.prems" None cl by simp
  next
    case (Some c)
    have wf': "wf_queue q'" using wf_claim_next_as [OF "2.prems", of clk bee inst roles lease] cl by simp
    note IH = grants_consistentD [OF "2.IH"(2) [OF cl [symmetric] Some wf']]
    note f = claim_step_facts [OF "2.prems" cl [unfolded Some]]
    let ?gs = "fst (run_claims cs q')"
    have run: "fst (run_claims ((clk, bee, inst, roles, lease) # cs) q) = c # ?gs"
      by (simp add: cl Some split_beta)
    have "grants_consistent q (c # ?gs)"
      unfolding grants_consistent_def
    proof (intro conjI ballI allI impI)
      show "distinct (fresh_ids (c # ?gs))"
        using IH(1) IH(2) [of "t_id (c_task c)"] f(2) by auto
      show "ready_id i q" if "i \<in> set (fresh_ids (c # ?gs))" for i
        using that IH(2) [of i] f(2,3) by (auto split: if_splits)
      have same: "t_claimed_by (c_task g) = Some bee"
        if "g \<in> set (c # ?gs)" "t_id (c_task g) = t_id (c_task c)" for g
        using that IH(3) [of g bee] f(1) f(4) by auto
      show "t_claimed_by (c_task g) = Some b"
        if "g \<in> set (c # ?gs)" "held_by b (t_id (c_task g)) q" for g b
      proof (cases "t_id (c_task g) = t_id (c_task c)")
        case True
        then have "b = bee" using that(2) f(3) held_by_unique [OF "2.prems"] held_not_ready [OF "2.prems"]
          by (metis (full_types))
        then show ?thesis using same [OF that(1) True] by simp
      next
        case False
        then show ?thesis using that IH(3) [of g b] f(1) by auto
      qed
      show "t_claimed_by (c_task g) = t_claimed_by (c_task h)"
        if "g \<in> set (c # ?gs)" "h \<in> set (c # ?gs)" "t_id (c_task g) = t_id (c_task h)" for g h
        using that same IH(4) [of g h] by (metis set_ConsD)
    qed
    then show ?thesis unfolding run .
  qed
qed

text \<open>
  C31. No task is dispatched twice. In any sequence of claim calls, by any bees with any roles and
  leases, no task is freshly granted more than once, every fresh grant was ready at the start, and
  whenever the same task is granted again the grant goes to the bee that already holds it.
\<close>

theorem no_double_dispatch:
  assumes "wf_queue q" and "run_claims cs q = (gs, q')"
  shows "distinct (fresh_ids gs) \<and> (\<forall>i\<in>set (fresh_ids gs). ready_id i q) \<and>
    (\<forall>g\<in>set gs. \<forall>h\<in>set gs. t_id (c_task g) = t_id (c_task h) \<longrightarrow>
       t_claimed_by (c_task g) = t_claimed_by (c_task h))"
  using run_claims_consistent [OF assms(1), of cs, unfolded assms(2) fst_conv]
  unfolding grants_consistent_def by blast

definition ex_calls :: "claim_call list" where
  "ex_calls = [(\<lambda>_. 50, ''other'', '''', [], 30), (\<lambda>_. 90, ''third'', '''', [], 30)]"

lemma ex_run: "fresh_ids (fst (run_claims ex_calls ex_queue)) = [3]"
  unfolding ex_calls_def run_claims.simps ex_claim
  by (simp add: fresh_ids_def claim_next_as_def claim_fresh_def Let_def sql_first_def self_healable_def
      claimable_def role_ok_def sql_affected_def hold_def claim_reply_def ex_simps)

theorem no_double_dispatch_witness: "distinct (fresh_ids (fst (run_claims ex_calls ex_queue))) \<and> ready_id 3 ex_queue"
  using no_double_dispatch [OF wf_ex_queue surjective_pairing, of ex_calls] by (simp add: ex_run)

subsection \<open>Completion\<close>

definition finish :: "ts \<Rightarrow> string \<Rightarrow> task \<Rightarrow> task" where
  "finish tm res t = t\<lparr>t_status := Done, t_result := Some res, t_done_ts := Some tm, t_claim_expires_ts := None\<rparr>"

lemma complete_eq:
  "complete tm i bee res q = (held_by bee i q,
     q\<lparr>q_tasks := sql_update (\<lambda>t. t_id t = i \<and> t_status t = Claimed \<and> t_claimed_by t = Some bee) (finish tm res) (q_tasks q)\<rparr>)"
  by (simp add: complete_def Let_def sql_affected_pos held_by_def finish_def [abs_def])

text \<open>
  Only the bee that holds a task can complete it, and only once: the call succeeds exactly when
  the row is claimed by the caller, it then writes the result to that row alone, a refused call
  changes nothing, and after a success every later call for that task, by any bee, is refused.
\<close>

theorem complete_once_by_holder:
  assumes "wf_queue q" and "complete tm i bee res q = (ok, q')"
  shows "(ok \<longleftrightarrow> held_by bee i q) \<and>
    q' = (if ok then q\<lparr>q_tasks := sql_update (\<lambda>t. t_id t = i) (finish tm res) (q_tasks q)\<rparr> else q) \<and>
    (ok \<longrightarrow> (\<forall>tm' bee' res'. complete tm' i bee' res' q' = (False, q')))"
proof -
  let ?p = "\<lambda>t. t_id t = i \<and> t_status t = Claimed \<and> t_claimed_by t = Some bee"
  have ok: "ok \<longleftrightarrow> held_by bee i q" and q': "q' = q\<lparr>q_tasks := sql_update ?p (finish tm res) (q_tasks q)\<rparr>"
    using assms(2) by (simp_all add: complete_eq)
  have no: "sql_update ?p f (q_tasks q) = q_tasks q" if "\<not> ok" for f
    by (rule sql_update_none) (use that ok in \<open>auto simp: held_by_def sql_affected_def filter_empty_conv\<close>)
  have row: "q_tasks q' = sql_update (\<lambda>t. t_id t = i) (finish tm res) (q_tasks q)" if o: "ok"
  proof -
    obtain t where t: "t \<in> set (q_tasks q)" "t_id t = i" "t_status t = Claimed" "t_claimed_by t = Some bee"
      using o ok by (auto simp: held_by_def)
    then show ?thesis
      using point_update [OF assms(1) t(1), of "\<lambda>t. t_status t = Claimed \<and> t_claimed_by t = Some bee"
          "finish tm res" "finish tm res"] by (simp add: q')
  qed
  have again: "complete tm' i bee' res' q' = (False, q')" if "ok" for tm' bee' res'
  proof -
    have n: "\<not> (\<exists>t\<in>set (q_tasks q'). t_id t = i \<and> t_status t = Claimed \<and> t_claimed_by t = Some bee')"
      unfolding row [OF that] bex_sql_update by (auto simp: finish_def)
    show ?thesis unfolding complete_eq held_by_def sql_update_unmatched [OF n] using n by simp
  qed
  show ?thesis using ok q' no [of "finish tm res"] row again by auto
qed

lemma ex_held: "held_by ''bee'' 2 ex_queue"
  by (simp add: held_by_def ex_simps)

theorem complete_once_by_holder_witness:
  "fst (complete 60 2 ''bee'' ''ok'' ex_queue) \<and>
   \<not> fst (complete 61 2 ''bee'' ''again'' (snd (complete 60 2 ''bee'' ''ok'' ex_queue)))"
  using complete_once_by_holder [OF wf_ex_queue surjective_pairing, of 60 2 "''bee''" "''ok''"] ex_held
  by (metis fst_conv)

subsection \<open>Promotion\<close>

lemma keys_done_promote:
  "keys_with_status m Done (q\<lparr>q_tasks := sql_update (promotable m q) (\<lambda>t. t\<lparr>t_status := Ready\<rparr>) (q_tasks q)\<rparr>) =
   keys_with_status m Done q"
proof -
  have "k \<in> keys_with_status m Done q \<longleftrightarrow>
      (\<exists>t\<in>set (q_tasks q). t_mission_id t = m \<and> t_status t = Done \<and> t_key t = k)" for k q
    by (auto simp: keys_with_status_def)
  note keys = this
  have "(\<exists>t\<in>set (q_tasks q). t_mission_id (g t) = m \<and> t_status (g t) = Done \<and> t_key (g t) = k) \<longleftrightarrow>
      (\<exists>t\<in>set (q_tasks q). t_mission_id t = m \<and> t_status t = Done \<and> t_key t = k)"
    if "g = (\<lambda>t. if promotable m q t then t\<lparr>t_status := Ready\<rparr> else t)" for g k
    by (rule bex_cong [OF refl]) (simp add: that promotable_def)
  then show ?thesis by (simp add: set_eq_iff keys bex_sql_update)
qed

text \<open>
  Promotion is exact. \<open>promote_ready\<close> moves to ready exactly the mission's pending tasks all of
  whose dependencies are done, counts them, leaves every other row alone, and a second call finds
  nothing left to promote.
\<close>

theorem promote_ready_exact:
  assumes "wf_queue q"
  shows "promote_ready m q =
      (length (filter (promotable m q) (q_tasks q)),
       q\<lparr>q_tasks := map (\<lambda>t. if promotable m q t then t\<lparr>t_status := Ready\<rparr> else t) (q_tasks q)\<rparr>) \<and>
    promote_ready m (snd (promote_ready m q)) = (0, snd (promote_ready m q))"
proof
  let ?q = "q\<lparr>q_tasks := sql_update (promotable m q) (\<lambda>t. t\<lparr>t_status := Ready\<rparr>) (q_tasks q)\<rparr>"
  show "promote_ready m q = (length (filter (promotable m q) (q_tasks q)),
      q\<lparr>q_tasks := map (\<lambda>t. if promotable m q t then t\<lparr>t_status := Ready\<rparr> else t) (q_tasks q)\<rparr>)"
    by (simp add: promote_ready_batch [OF assms] sql_update_def)
  have q': "snd (promote_ready m q) = ?q" by (simp add: promote_ready_batch [OF assms])
  have wf: "wf_queue ?q" using wf_promote_ready [OF assms, of m] by (simp only: q')
  have "promotable m ?q t \<longleftrightarrow> promotable m q t" for t
    by (simp only: promotable_def keys_done_promote)
  then have none: "\<not> (\<exists>t\<in>set (q_tasks ?q). promotable m ?q t)"
    by (simp add: bex_sql_update) (simp add: promotable_def)
  then have "sql_affected (promotable m ?q) (q_tasks ?q) = 0"
    by (simp add: sql_affected_def filter_empty_conv del: qstore.simps)
  then show "promote_ready m (snd (promote_ready m q)) = (0, snd (promote_ready m q))"
    unfolding q' promote_ready_batch [OF wf] sql_affected_def
    by (simp only: sql_update_none [unfolded sql_affected_def]) simp
qed

theorem promote_ready_exact_witness:
  "fst (promote_ready 7 ex_queue) = 1 \<and> fst (promote_ready 7 (snd (promote_ready 7 ex_queue))) = 0"
proof -
  have "length (filter (promotable 7 ex_queue) (q_tasks ex_queue)) = 1"
    by (simp add: promotable_def keys_with_status_def ex_simps)
  then have "fst (promote_ready 7 ex_queue) = 1"
    by (subst conjunct1 [OF promote_ready_exact [OF wf_ex_queue, of 7]]) (simp only: fst_conv)
  moreover have "fst (promote_ready 7 (snd (promote_ready 7 ex_queue))) = 0"
    by (subst conjunct2 [OF promote_ready_exact [OF wf_ex_queue, of 7]]) (simp only: fst_conv)
  ultimately show ?thesis ..
qed

text \<open>
  C36. The queue cannot stall on an acyclic plan. If the mission's dependency relation has no cycle,
  every dependency of a pending task names a task of the mission that is not cancelled or superseded, and some task is
  pending, then \<open>promote_ready\<close> promotes at least one task, unless a pending task waits for a dependency that is at work: ready to be
  claimed, or claimed.
\<close>

theorem promotion_progress:
  assumes "wf_queue q" and "acyclic (dep_rel (list_tasks m q))"
    and "\<exists>t\<in>set (q_tasks q). t_mission_id t = m \<and> t_status t = Pending"
    and "\<forall>t\<in>set (q_tasks q). t_mission_id t = m \<and> t_status t = Pending \<longrightarrow>
      (\<forall>d\<in>set (t_depends_on t). \<exists>u\<in>set (q_tasks q). t_mission_id u = m \<and> t_key u = d \<and> \<not> retired (t_status u))"
  shows "0 < fst (promote_ready m q) \<or>
    (\<exists>t\<in>set (q_tasks q). \<exists>u\<in>set (q_tasks q). t_mission_id t = m \<and> t_status t = Pending \<and> t_mission_id u = m \<and>
       t_key u \<in> set (t_depends_on t) \<and> (t_status u = Ready \<or> t_status u = Claimed))" (is "?promotes \<or> ?works")
proof (rule disjCI)
  assume idle: "\<not> ?works"
  let ?R = "dep_rel (list_tasks m q)"
  define P where "P = t_key ` {t \<in> set (q_tasks q). t_mission_id t = m \<and> t_status t = Pending}"
  define S where "S = ?R\<inverse> \<inter> P \<times> P"
  have "finite S" unfolding S_def P_def by (rule finite_Int) simp
  moreover have "acyclic S"
    by (rule acyclic_subset [of "?R\<inverse>"]) (use assms(2) in \<open>auto simp: S_def acyclic_converse\<close>)
  ultimately have "wf S" by (rule finite_acyclic_wf)
  moreover obtain k0 where "k0 \<in> P" using assms(3) by (auto simp: P_def)
  ultimately obtain k where k: "k \<in> P" and least: "\<And>d. (d, k) \<in> S \<Longrightarrow> d \<notin> P"
    by (rule wfE_min) blast
  obtain t where t: "t \<in> set (q_tasks q)" "t_mission_id t = m" "t_status t = Pending" "k = t_key t"
    using k by (auto simp: P_def)
  have "d \<in> keys_with_status m Done q" if d: "d \<in> set (t_depends_on t)" for d
  proof -
    obtain u where u: "u \<in> set (q_tasks q)" "t_mission_id u = m" "t_key u = d" "\<not> retired (t_status u)"
      using assms(4) t d by blast
    with t d idle have "t_status u \<noteq> Ready" "t_status u \<noteq> Claimed" by blast+
    with u(4) have s: "t_status u = Pending \<or> t_status u = Done" by (cases "t_status u") simp_all
    have "(k, d) \<in> ?R" using t d dep_rel_iff [OF assms(1)] by blast
    then have "d \<notin> P" using least [of d] k by (auto simp: S_def)
    then have "t_status u = Done" using u s by (auto simp: P_def)
    then show ?thesis using u by (auto simp: keys_with_status_def)
  qed
  then have "promotable m q t" using t by (auto simp: promotable_def)
  then have "0 < length (filter (promotable m q) (q_tasks q))"
    using t(1) by (simp add: filter_empty_conv) blast
  then show ?promotes by (simp add: promote_ready_batch [OF assms(1)])
qed

definition ex_plan :: qstore where
  "ex_plan = empty_qstore\<lparr>q_tasks := [ex_task 1 ''a'' Done [], ex_task 2 ''b'' Pending [''a''], ex_task 3 ''c'' Pending [''b'']]\<rparr>"

lemma wf_ex_plan: "wf_queue ex_plan"
  by (simp add: ex_plan_def ex_task_def empty_qstore_def wf_queue_def wf_tasks_def task_table.keyed_def
      mission_key_def wf_task_def)

lemma acyclic_by_rank:
  assumes "\<And>x y. (x, y) \<in> r \<Longrightarrow> (f y :: nat) < f x"
  shows "acyclic r"
proof -
  have "f y < f x" if "(x, y) \<in> r\<^sup>+" for x y
    using that by (induction rule: trancl_induct) (auto dest: assms)
  then show ?thesis by (fastforce simp: acyclic_def)
qed

lemma ex_plan_acyclic: "acyclic (dep_rel (list_tasks 7 ex_plan))"
proof (rule acyclic_by_rank [of _ "\<lambda>k. if k = ''a'' then 0 else if k = ''b'' then 1 else 2"])
  fix x y assume "(x, y) \<in> dep_rel (list_tasks 7 ex_plan)"
  then show "(if y = ''a'' then 0 else if y = ''b'' then 1 else (2::nat)) <
      (if x = ''a'' then 0 else if x = ''b'' then 1 else 2)"
    unfolding dep_rel_iff [OF wf_ex_plan] by (auto simp: ex_plan_def ex_task_def)
qed

theorem promotion_progress_witness: "0 < fst (promote_ready 7 ex_plan)"
  using promotion_progress [OF wf_ex_plan ex_plan_acyclic] by (simp add: ex_plan_def ex_task_def)

subsection \<open>Reaping\<close>

text \<open>
  Presence is authoritative over leases. With a roster, reaping returns to ready exactly the claimed
  tasks whose holder is not on it, whatever their leases say; without one it returns exactly those whose
  lease has run out. It counts them and changes nothing else, so a present bee never loses a task
  to the reaper.
\<close>

theorem reap_exact:
  assumes "wf_queue q"
  shows "reap tm present q =
    (let due = (\<lambda>t. t_status t = Claimed \<and>
           (case present of Some names \<Rightarrow> \<exists>b. t_claimed_by t = Some b \<and> b \<notin> names
                          | None \<Rightarrow> \<exists>e. t_claim_expires_ts t = Some e \<and> e < tm))
     in (length (filter due (q_tasks q)),
         q\<lparr>q_tasks := map (\<lambda>t. if due t then requeue_task t else t) (q_tasks q)\<rparr>))"
proof -
  let ?due = "\<lambda>t. t_status t = Claimed \<and>
     (case present of Some names \<Rightarrow> \<exists>b. t_claimed_by t = Some b \<and> b \<notin> names
                    | None \<Rightarrow> \<exists>e. t_claim_expires_ts t = Some e \<and> e < tm)"
  have due: "(t_status t = Claimed \<and> reap_due present tm t) = ?due t" if "t \<in> set (q_tasks q)" for t
    using wf_queue_wf_task [OF assms that]
    by (auto simp: reap_due_def wf_task_def null_less_def split: option.splits)
  have "filter (\<lambda>t. t_status t = Claimed \<and> reap_due present tm t) (q_tasks q) = filter ?due (q_tasks q)"
    by (rule filter_cong [OF refl due])
  moreover have "sql_update (\<lambda>t. t_status t = Claimed \<and> reap_due present tm t) requeue_task (q_tasks q) =
      map (\<lambda>t. if ?due t then requeue_task t else t) (q_tasks q)"
    unfolding sql_update_def by (rule map_cong [OF refl]) (simp only: due)
  ultimately show ?thesis unfolding reap_batch [OF assms] Let_def by simp
qed

theorem reap_exact_witness:
  "reap 500 (Some {''bee''}) ex_queue = (0, ex_queue) \<and> fst (reap 500 None ex_queue) = 1 \<and>
   fst (reap 50 (Some {}) ex_queue) = 1"
  unfolding reap_exact [OF wf_ex_queue] by (simp add: Let_def ex_simps)

subsection \<open>Retired tasks\<close>

text \<open>
  C14. A cancelled or superseded task is gone for as long as its mission's rows are kept. From any well-formed store holding such a row
  of mission \<open>m\<close>, no sequence of queue calls, deletions and prunes of other missions included, brings it back as long as
  none of them deletes or prunes the rows of \<open>m\<close> itself: the row stays cancelled or superseded and no claim grants its id.
  (A deletion of \<open>m\<close> takes the row away, and then \<open>sql_next_id\<close> may give its id to another task: \<open>id_reused_after_prune\<close>.)
\<close>

theorem retired_forever:
  assumes "wf_queue q" and "retired_row m i q" and "event_run queue_event es q q'" and "\<forall>a\<in>set es. \<not> erases m a"
  shows "retired_row m i q' \<and>
    (\<forall>clk bee inst roles lease. case fst (claim_next_as clk bee inst roles lease q') of
       None \<Rightarrow> True | Some c \<Rightarrow> t_id (c_task c) \<noteq> i)"
proof -
  have inv: "wf_queue q'" "retired_row m i q'"
    using retired_machine.run_inv_start [OF assms(3), of m i] assms(1,2,4) by simp_all
  have nt: "t_id (c_task c) \<noteq> i" if "claim_next_as clk bee inst roles lease q' = (Some c, q'')"
    for clk bee inst roles lease c q''
    using claim_step_facts(3) [OF inv(1) that] inv task_table.keyed_eq [OF wf_queue_keyed [OF inv(1)]]
    by (fastforce simp: held_by_def ready_id_def retired_row_def retired_def split: if_splits)
  have "case fst (claim_next_as clk bee inst roles lease q') of
       None \<Rightarrow> True | Some c \<Rightarrow> t_id (c_task c) \<noteq> i" for clk bee inst roles lease
  proof (cases "fst (claim_next_as clk bee inst roles lease q')")
    case (Some c)
    then have "claim_next_as clk bee inst roles lease q' = (Some c, snd (claim_next_as clk bee inst roles lease q'))"
      by (simp add: prod_eq_iff)
    from nt [OF this] Some show ?thesis by simp
  qed simp
  with inv(2) show ?thesis by blast
qed

lemma ex_retired: "retired_row 7 7 ex_queue"
  by (simp add: retired_row_def retired_def ex_simps)

theorem retired_forever_witness:
  "retired_row 7 7 (snd (reopen_task 7 (prune_mission 8 (snd (promote_ready 7 ex_queue)))))"
proof -
  have "event_run queue_event [PromoteCall 7, PruneCall 8, ReopenCall 7] ex_queue
      (snd (reopen_task 7 (prune_mission 8 (snd (promote_ready 7 ex_queue)))))"
    by (auto intro: queue_event.intros)
  from retired_forever [OF wf_ex_queue ex_retired this] show ?thesis by (simp add: erases_def)
qed

text \<open>
  The id of a deleted row is free again: the table's key is an \<^verbatim>\<open>INTEGER PRIMARY KEY\<close> without \<^verbatim>\<open>AUTOINCREMENT\<close>. After the
  mission of a cancelled task is pruned, the next task enqueued, of any mission, may get its id, and is granted under it.
\<close>

definition ex_reused :: qstore where
  "ex_reused = snd (promote_ready 8 (case enqueue (\<lambda>_. 5) 8 [\<lparr>sp_key = ''z'', sp_role = '''', sp_title = '''', sp_instruction = '''',
     sp_system = '''', sp_depends_on = [], sp_verify = '''', sp_model = ''''\<rparr>]
     (prune_mission 7 (empty_qstore\<lparr>q_tasks := [ex_task 1 ''a'' Cancelled []]\<rparr>)) of Inr q \<Rightarrow> q | Inl _ \<Rightarrow> empty_qstore))"

lemma id_reused_after_prune:
  "retired_row 7 1 (empty_qstore\<lparr>q_tasks := [ex_task 1 ''a'' Cancelled []]\<rparr>) \<and>
   map_option (\<lambda>c. t_id (c_task c)) (fst (claim_next_as (\<lambda>_. 9) ''bee'' '''' [] 30 ex_reused)) = Some 1"
  by (simp add: ex_reused_def retired_row_def prune_mission_def sql_delete_def enqueue_def insert_task_def sql_next_id_def
      task_of_spec_def promote_ready_def keys_with_status_def Let_def sql_update_def claim_next_as_def claim_fresh_def
      sql_first_def self_healable_def claimable_def role_ok_def sql_affected_def claim_reply_def ex_task_def empty_qstore_def)

subsection \<open>Guarded cancel\<close>

text \<open>
  The tasks a guarded cancel of \<open>t\<close> concerns: the live tasks of its mission that depend on it,
  directly or through other live tasks.
\<close>

abbreviation stranded :: "qstore \<Rightarrow> task \<Rightarrow> task \<Rightarrow> bool" where
  "stranded q t x \<equiv> strands (list_tasks (t_mission_id t) q) (t_key t) x"

lemma subtree_of_set:
  assumes "wf_queue q" and "task_by_id i q = Some t"
  shows "set (subtree_of t (list_tasks (t_mission_id t) q)) =
     insert (t_id t, t_key t) {(t_id x, t_key x) | x. stranded q t x}"
proof -
  have "t \<in> set (list_tasks (t_mission_id t) q)"
    using task_by_id_SomeD [OF assms(2)] by (simp add: set_list_tasks)
  from subtree_of_complete [OF keyed_list_tasks [OF assms(1)] this]
  show ?thesis using subtree_of_nodes subtree_of_Cons [of t "list_tasks (t_mission_id t) q"] by fastforce
qed

lemma subtree_tail:
  assumes "wf_queue q" and "task_by_id i q = Some t"
  shows "set (drop 1 (subtree_of t (list_tasks (t_mission_id t) q))) =
    {(t_id x, t_key x) | x. stranded q t x \<and> t_id x \<noteq> t_id t}"
proof -
  let ?st = "subtree_of t (list_tasks (t_mission_id t) q)"
  obtain rest where r: "?st = (t_id t, t_key t) # rest" using subtree_of_Cons by blast
  have "t_id t \<notin> fst ` set rest" using subtree_of_distinct [of t "list_tasks (t_mission_id t) q"] by (simp add: r)
  then have "fst n \<noteq> t_id t" if "n \<in> set rest" for n using that by (metis imageI)
  then have "set (drop 1 ?st) = {n \<in> set ?st. fst n \<noteq> t_id t}"
    unfolding r by auto
  also have "\<dots> = {n \<in> insert (t_id t, t_key t) {(t_id x, t_key x) | x. stranded q t x}. fst n \<noteq> t_id t}"
    by (simp only: subtree_of_set [OF assms])
  also have "\<dots> = {(t_id x, t_key x) | x. stranded q t x \<and> t_id x \<noteq> t_id t}"
    unfolding set_eq_iff mem_Collect_eq insert_iff by (metis fst_conv)
  finally show ?thesis .
qed

definition cancel_set :: "qstore \<Rightarrow> task \<Rightarrow> task \<Rightarrow> bool" where
  "cancel_set q t x \<longleftrightarrow> open_status (t_status x) \<and> (t_id x = t_id t \<or> stranded q t x)"

lemma cancel_rows_set:
  assumes "wf_queue q" and "task_by_id i q = Some t"
  shows "q_tasks (snd (cancel_loop (subtree_of t (list_tasks (t_mission_id t) q)) (c, q))) =
    sql_update (cancel_set q t) cancel_row (q_tasks q)"
proof -
  have "t_id x \<in> fst ` set (subtree_of t (list_tasks (t_mission_id t) q)) \<longleftrightarrow> t_id x = t_id t \<or> stranded q t x"
    if x: "x \<in> set (q_tasks q)" for x
  proof -
    have "stranded q t x" if "stranded q t y" "t_id y = t_id x" for y
      using that x strands_live [OF that(1)] task_table.keyed_eq [OF wf_queue_keyed [OF assms(1)]]
      by (auto simp: set_list_tasks)
    then show ?thesis unfolding subtree_of_set [OF assms] by force
  qed
  then show ?thesis unfolding cancel_loop_tasks sql_update_def cancel_set_def
    by (intro map_cong refl) auto
qed

text \<open>
  Guarded cancel without cascade refuses exactly when a live task would be stranded. If some other live
  task of the mission depends on the target, directly or through live tasks, nothing is cancelled, the store is
  untouched and the reply names exactly those tasks; otherwise the target alone is cancelled,
  when it is still open.
\<close>

theorem cancel_guard_exact:
  assumes "wf_queue q" and "task_by_id i q = Some t"
    and "cancel_task_guarded i False q = Inr (cancelled, blocked, q')"
  shows "set blocked = {t_key x | x. stranded q t x \<and> t_id x \<noteq> i} \<and>
    (if \<exists>x. stranded q t x \<and> t_id x \<noteq> i then cancelled = [] \<and> q' = q
     else cancelled = (if open_status (t_status t) then [i] else []) \<and>
       q' = snd (cancel_task i q))"
proof -
  let ?st = "subtree_of t (list_tasks (t_mission_id t) q)"
  note tq = task_by_id_SomeD [OF assms(2)]
  have tail: "set (drop 1 ?st) = {(t_id x, t_key x) | x. stranded q t x \<and> t_id x \<noteq> i}"
    using subtree_tail [OF assms(1,2)] tq by simp
  show ?thesis
  proof (cases "drop 1 ?st = []")
    case False
    then have "cancelled = []" "blocked = map snd (drop 1 ?st)" "q' = q"
      using assms(3) unfolding cancel_task_guarded_unfold [OF assms(2)] by (auto simp: Let_def)
    moreover have "set (drop 1 ?st) \<noteq> {}" using False by simp
    then have "\<exists>x. stranded q t x \<and> t_id x \<noteq> i" unfolding tail by blast
    moreover have "set (map snd (drop 1 ?st)) = {t_key x | x. stranded q t x \<and> t_id x \<noteq> i}"
      by (simp only: set_map tail) (auto simp: image_iff)
    ultimately show ?thesis by simp
  next
    case True
    then have st: "?st = [(t_id t, t_key t)]"
      using subtree_of_Cons [of t "list_tasks (t_mission_id t) q"] by auto
    have none: "\<not> (\<exists>x. stranded q t x \<and> t_id x \<noteq> i)" using tail True by auto
    have open_iff: "(\<exists>x\<in>set (q_tasks q). t_id x = i \<and> open_status (t_status x)) \<longleftrightarrow> open_status (t_status t)"
      using tq task_table.keyed_eq [OF wf_queue_keyed [OF assms(1)]] by blast
    have "fst (cancel_loop ?st ([], q)) = (if open_status (t_status t) then [i] else [])"
      using cancel_loop_ids [of ?st "[]" q] open_iff tq by (simp add: st)
    moreover have "snd (cancel_loop ?st ([], q)) = snd (cancel_task i q)"
      using tq by (simp add: st split_beta)
    moreover have "cancelled = fst (cancel_loop ?st ([], q))" "blocked = []" "q' = snd (cancel_loop ?st ([], q))"
      using assms(3) unfolding cancel_task_guarded_unfold [OF assms(2)] Let_def True by simp_all
    moreover have "{t_key x | x. stranded q t x \<and> t_id x \<noteq> i} = {}" using none by blast
    ultimately show ?thesis by (simp only: none if_False list.set simp_thms)
  qed
qed

lemma ex_guard: "cancel_task_guarded 2 False ex_queue = Inr ([], [''e'', ''f''], ex_queue)"
  by (simp add: cancel_task_guarded_def task_by_id_def list_tasks_def dependents_of_def terminal_def ex_simps)

lemma ex_task_by_id: "task_by_id 2 ex_queue = Some (ex_task 2 ''b'' Claimed [''a''])"
  by (simp add: task_by_id_def ex_simps)

theorem cancel_guard_exact_witness:
  "{''e'', ''f''} = {t_key x | x. stranded ex_queue (ex_task 2 ''b'' Claimed [''a'']) x \<and> t_id x \<noteq> 2}"
  using conjunct1 [OF cancel_guard_exact [OF wf_ex_queue ex_task_by_id ex_guard]] by simp

text \<open>
  C27. Cascading cancel takes the whole live subtree and nothing else. It cancels exactly the target, when
  open, and every live task stranded behind it, reports their ids once each, and afterwards no open task
  of the mission depends on the target or on any task it stranded.
\<close>

theorem cancel_cascade_exact:
  assumes "wf_queue q" and "task_by_id i q = Some t"
    and "cancel_task_guarded i True q = Inr (cancelled, blocked, q')"
  shows "blocked = [] \<and> distinct cancelled \<and> set cancelled = t_id ` {x \<in> set (q_tasks q). cancel_set q t x} \<and>
    q' = q\<lparr>q_tasks := map (\<lambda>x. if cancel_set q t x then cancel_row x else x) (q_tasks q)\<rparr> \<and>
    (\<forall>x\<in>set (q_tasks q'). t_mission_id x = t_mission_id t \<and> open_status (t_status x) \<longrightarrow>
       t_key t \<notin> set (t_depends_on x) \<and> (\<forall>y. stranded q t y \<longrightarrow> t_key y \<notin> set (t_depends_on x)))"
proof -
  let ?st = "subtree_of t (list_tasks (t_mission_id t) q)"
  have eqs: "cancelled = fst (cancel_loop ?st ([], q))" "blocked = []" "q' = snd (cancel_loop ?st ([], q))"
    using assms(3) unfolding cancel_task_guarded_unfold [OF assms(2)] Let_def by simp_all
  note ids = cancel_loop_ids [OF subtree_of_distinct [of t "list_tasks (t_mission_id t) q"], of "[]" q]
  have rows: "q_tasks q' = sql_update (cancel_set q t) cancel_row (q_tasks q)"
    unfolding eqs(3) by (rule cancel_rows_set [OF assms(1,2)])
  have q': "q' = q\<lparr>q_tasks := sql_update (cancel_set q t) cancel_row (q_tasks q)\<rparr>"
    by (rule qstore.equality) (use rows cancel_loop_other [of ?st "[]" q] in \<open>simp_all add: eqs(3)\<close>)
  have node: "t_id x \<in> fst ` set ?st \<longleftrightarrow> t_id x = t_id t \<or> stranded q t x" if x: "x \<in> set (q_tasks q)" for x
  proof -
    have "stranded q t x" if "stranded q t y" "t_id y = t_id x" for y
      using that x strands_live [OF that(1)] task_table.keyed_eq [OF wf_queue_keyed [OF assms(1)]]
      by (auto simp: set_list_tasks)
    then show ?thesis unfolding subtree_of_set [OF assms(1,2)] by force
  qed
  have "set cancelled = t_id ` {x \<in> set (q_tasks q). cancel_set q t x}"
  proof (rule set_eqI)
    fix j
    have "j \<in> set cancelled \<longleftrightarrow> j \<in> fst ` set ?st \<and> (\<exists>x\<in>set (q_tasks q). t_id x = j \<and> open_status (t_status x))"
      unfolding eqs(1) ids by simp
    also have "\<dots> \<longleftrightarrow> (\<exists>x\<in>set (q_tasks q). j = t_id x \<and> cancel_set q t x)"
      unfolding cancel_set_def using node by metis
    finally show "j \<in> set cancelled \<longleftrightarrow> j \<in> t_id ` {x \<in> set (q_tasks q). cancel_set q t x}"
      by (simp only: image_iff mem_Collect_eq) blast
  qed
  moreover have "distinct cancelled"
    unfolding eqs(1) ids using subtree_of_distinct [of t "list_tasks (t_mission_id t) q"] by simp
  moreover have "\<not> open_status (t_status (cancel_row x))" for x by simp
  moreover have "cancel_set q t x"
    if "x \<in> set (q_tasks q)" "t_mission_id x = t_mission_id t" "open_status (t_status x)"
      "t_key t \<in> set (t_depends_on x) \<or> (\<exists>y. stranded q t y \<and> t_key y \<in> set (t_depends_on x))" for x
    using that by (auto simp: cancel_set_def open_not_terminal set_list_tasks intro: strands.intros)
  ultimately show ?thesis
    unfolding eqs(2) q' by (simp add: ball_sql_update) (auto simp: sql_update_def)
qed

lemma ex_cascade:
  "cancel_task_guarded 2 True ex_queue = Inr ([2, 5, 6], [], snd (cancel_loop [(2, ''b''), (5, ''e''), (6, ''f'')] ([], ex_queue)))"
  by (simp add: cancel_task_guarded_def task_by_id_def list_tasks_def dependents_of_def terminal_def
      cancel_task_def Let_def sql_affected_def open_status_def ex_simps)

theorem cancel_cascade_exact_witness:
  "{2, 5, 6} = t_id ` {x \<in> set (q_tasks ex_queue). cancel_set ex_queue (ex_task 2 ''b'' Claimed [''a'']) x}"
  using cancel_cascade_exact [OF wf_ex_queue ex_task_by_id ex_cascade] by simp

subsection \<open>Retargeting and superseding\<close>

text \<open>
  C24. Retargeting cannot create a dependency cycle. Let the mission's dependency relation be acyclic. A retarget of key \<open>a\<close> to key
  \<open>b\<close> is refused exactly when \<open>b\<close> is no key of the mission or already reaches \<open>a\<close>, and the error says which. When it
  is accepted, \<open>b\<close> is a key of the mission that does not reach \<open>a\<close>, the relation afterwards is acyclic, and the only change
  is that every live dependent of \<open>a\<close> depends on \<open>b\<close> in its place, so that no live task depends on \<open>a\<close> any more.
\<close>

theorem retarget_acyclic:
  assumes "wf_queue q" and "acyclic (dep_rel (list_tasks m q))"
  shows "case retarget_dependents m a b q of
      Inl e \<Rightarrow> (if \<exists>t\<in>set (q_tasks q). t_mission_id t = m \<and> t_key t = b
               then e = WouldCycle a b \<and> (b, a) \<in> (dep_rel (list_tasks m q))\<^sup>*
               else e = NoTargetKey b)
    | Inr (n, q') \<Rightarrow> (\<exists>t\<in>set (q_tasks q). t_mission_id t = m \<and> t_key t = b) \<and> (b, a) \<notin> (dep_rel (list_tasks m q))\<^sup>* \<and>
        n = length (filter (\<lambda>t. t_mission_id t = m \<and> retargeted a t) (q_tasks q)) \<and>
        q' = q\<lparr>q_tasks := map (\<lambda>t. if t_mission_id t = m \<and> retargeted a t then redirect a b t else t) (q_tasks q)\<rparr> \<and>
        acyclic (dep_rel (list_tasks m q')) \<and>
        (\<forall>t\<in>set (q_tasks q'). t_mission_id t = m \<and> \<not> terminal (t_status t) \<longrightarrow> a = b \<or> a \<notin> set (t_depends_on t))"
proof (cases "retarget_dependents m a b q")
  case (Inl e)
  have "by_key (list_tasks m q) b = None \<longleftrightarrow> \<not> (\<exists>t\<in>set (q_tasks q). t_mission_id t = m \<and> t_key t = b)"
    using by_key_iff [OF assms(1), of m b] by (cases "by_key (list_tasks m q) b") (auto simp: set_list_tasks)
  then show ?thesis using Inl
    by (auto simp: retarget_dependents_def Let_def reaches_iff split: if_splits prod.splits)
next
  case (Inr r)
  obtain n q' where r: "r = (n, q')" by fastforce
  note D = retarget_dependents_InrD [OF assms(1) Inr [unfolded r]]
  have wf': "wf_queue q'" by (rule wf_retarget_dependents [OF assms(1) Inr [unfolded r]])
  have "dep_rel (list_tasks m q') \<subseteq> dep_rel (list_tasks m q) \<union> {(k, b) | k. (k, a) \<in> dep_rel (list_tasks m q)}"
  proof (rule subrelI)
    fix k d assume "(k, d) \<in> dep_rel (list_tasks m q')"
    then obtain y where "y \<in> set (q_tasks q')" "t_mission_id y = m" "t_key y = k" "d \<in> set (t_depends_on y)"
      unfolding dep_rel_iff [OF wf'] by blast
    moreover have "y \<in> set (sql_update (\<lambda>t. t_mission_id t = m \<and> retargeted a t) (redirect a b) (q_tasks q))"
      using calculation(1) by (simp add: D(1))
    then obtain x where "x \<in> set (q_tasks q)"
      "y = (if t_mission_id x = m \<and> retargeted a x then redirect a b x else x)"
      by (rule in_sql_updateE)
    ultimately have "\<exists>x\<in>set (q_tasks q). t_mission_id x = m \<and> t_key x = k \<and>
        d \<in> set (t_depends_on (if t_mission_id x = m \<and> retargeted a x then redirect a b x else x))"
      by (intro bexI [of _ x]) (simp_all split: if_splits)
    then show "(k, d) \<in> dep_rel (list_tasks m q) \<union> {(k, b) | k. (k, a) \<in> dep_rel (list_tasks m q)}"
      unfolding Un_iff mem_Collect_eq dep_rel_iff [OF assms(1)]
      by (auto simp: set_replace_key split: if_splits)
  qed
  then have "acyclic (dep_rel (list_tasks m q'))"
    using acyclic_redirect [OF assms(2) D(2)] by (rule acyclic_subset [rotated])
  moreover have "a = b \<or> a \<notin> set (t_depends_on t)"
    if t: "t \<in> set (q_tasks q')" "t_mission_id t = m" "\<not> terminal (t_status t)" for t
  proof -
    have "t \<in> set (sql_update (\<lambda>t. t_mission_id t = m \<and> retargeted a t) (redirect a b) (q_tasks q))"
      using t(1) by (simp add: D(1))
    then obtain x where "t = (if t_mission_id x = m \<and> retargeted a x then redirect a b x else x)"
      by (rule in_sql_updateE)
    with t(2,3) show ?thesis by (cases "a \<in> set (t_depends_on x)") (auto simp: retargeted_def set_replace_key)
  qed
  moreover have "\<exists>t\<in>set (q_tasks q). t_mission_id t = m \<and> t_key t = b"
    using D(3) by_key_SomeD [of "list_tasks m q" b] by (auto simp: set_list_tasks)
  moreover have "length (filter (retargeted a) (list_tasks m q)) =
      length (filter (\<lambda>t. t_mission_id t = m \<and> retargeted a t) (q_tasks q))"
    by (simp add: list_tasks_def filter_sort filter_filter conj_commute)
  ultimately show ?thesis using D(2) unfolding Inr r by (simp add: D(4)) (simp add: D(1) sql_update_def)
qed

lemma ex_retarget: "retarget_dependents 7 ''b'' ''a'' ex_plan =
  Inr (1, ex_plan\<lparr>q_tasks := [ex_task 1 ''a'' Done [], ex_task 2 ''b'' Pending [''a''], ex_task 3 ''c'' Pending [''a'']]\<rparr>)"
  by (simp add: retarget_dependents_def list_tasks_def by_key_def deps_of_key_def reaches.simps terminal_def
      replace_key_def sql_affected_def ex_plan_def ex_task_def empty_qstore_def)

theorem retarget_acyclic_witness:
  "acyclic (dep_rel (list_tasks 7 (ex_plan\<lparr>q_tasks :=
     [ex_task 1 ''a'' Done [], ex_task 2 ''b'' Pending [''a''], ex_task 3 ''c'' Pending [''a'']]\<rparr>)))"
  using retarget_acyclic [OF wf_ex_plan ex_plan_acyclic, of "''a''" "''b''"] unfolding ex_retarget sum.case prod.case by blast

text \<open>
  Superseding rewires the mission completely. When the store is well formed and the call succeeds, the old row
  is superseded, the replacement is a new pending row with a key no task of the mission had, it
  inherits the old verify command unless the specification gives one, no pending task but the replacement
  itself still depends on the old key, and no other row changes its status.
\<close>

theorem supersede_rewires:
  assumes "wf_queue q" and "supersede_task tm i spec q = Inr (nid, q')"
  shows "\<exists>old\<in>set (q_tasks q). \<exists>new\<in>set (q_tasks q'). t_id old = i \<and> t_id new = nid \<and>
    nid \<notin> t_id ` set (q_tasks q) \<and> t_status new = Pending \<and> t_supersedes new = i \<and>
    t_mission_id new = t_mission_id old \<and>
    (t_mission_id new, t_key new) \<notin> mission_key ` set (q_tasks q) \<and>
    t_verify new = (if sp_verify spec = '''' then t_verify old else sp_verify spec) \<and>
    (\<forall>x\<in>set (q_tasks q'). t_id x = i \<longrightarrow> t_status x = Superseded) \<and>
    (\<forall>x\<in>set (q_tasks q'). t_mission_id x = t_mission_id old \<and> t_status x = Pending \<and> t_id x \<noteq> nid \<longrightarrow>
       t_key old \<notin> set (t_depends_on x)) \<and>
    (\<forall>x\<in>set (q_tasks q'). t_id x \<noteq> i \<and> t_id x \<noteq> nid \<longrightarrow>
       (\<exists>y\<in>set (q_tasks q). t_id y = t_id x \<and> t_status y = t_status x))"
proof -
  obtain old uk where old: "old \<in> set (q_tasks q)" "t_id old = i"
    and fresh: "\<forall>t\<in>set (q_tasks q). t_mission_id t = t_mission_id old \<longrightarrow> t_key t \<noteq> uk"
    and nid: "nid = sql_next_id t_id (q_tasks q)"
    and q': "q' = q\<lparr>q_tasks := map (after_supersede i old uk) (q_tasks q) @ [(replacement tm i old uk spec)\<lparr>t_id := nid\<rparr>]\<rparr>"
    by (rule supersede_task_InrD [OF assms])
  let ?new = "(replacement tm i old uk spec)\<lparr>t_id := nid\<rparr>"
  have rows: "set (q_tasks q') = insert ?new (after_supersede i old uk ` set (q_tasks q))" by (simp add: q')
  have lt: "t_id x < nid" if "x \<in> set (q_tasks q)" for x
    using that by (simp add: nid sql_next_id_fresh)
  have new_id: "nid \<notin> t_id ` set (q_tasks q)" using lt by fastforce
  have uk: "uk \<noteq> t_key old" using fresh old(1) by blast
  have sup: "t_status (after_supersede i old uk x) = (if t_id x = i then Superseded else t_status x)" for x
    by (simp add: after_supersede_def Let_def)
  have gone: "t_key old \<notin> set (t_depends_on (after_supersede i old uk x))"
    if "t_mission_id x = t_mission_id old" "t_status (after_supersede i old uk x) = Pending" for x
    using that uk by (auto simp: after_supersede_def Let_def pending_on_def set_replace_key split: if_splits)
  have "(t_mission_id ?new, t_key ?new) \<notin> mission_key ` set (q_tasks q)"
    using fresh by (auto simp: mission_key_def)
  then show ?thesis
    using old new_id lt [of old] gone
    by (intro bexI [OF _ old(1)] bexI [of _ ?new]) (auto simp: rows sup)
qed

definition ex_spec :: task_spec where
  "ex_spec = \<lparr>sp_key = '''', sp_role = ''coder'', sp_title = ''redo'', sp_instruction = '''', sp_system = '''',
     sp_depends_on = [''a''], sp_verify = '''', sp_model = ''''\<rparr>"

lemma supersede_succeeds:
  assumes "task_by_id i q = Some old"
    and "length (filter (\<lambda>t. t_mission_id t = t_mission_id old) (q_tasks q)) < 9998"
  shows "\<exists>nid q'. supersede_task tm i spec q = Inr (nid, q')"
proof -
  define base where "base = (if sp_key spec = '''' then t_key old else sp_key spec)"
  obtain uk where uk: "unique_key_tx (q_tasks q) (t_mission_id old) base = Inr uk"
    using unique_key_tx_total [OF assms(2)] by blast
  then have "\<forall>t\<in>set (q_tasks q). t_mission_id t = t_mission_id old \<longrightarrow> t_key t \<noteq> uk"
    unfolding unique_key_tx_def by (rule unique_key_loop_sound)
  then have "\<exists>rows. insert_task (replacement tm i old uk spec)
      (sql_update (\<lambda>t. t_id t = i) supersede_row (q_tasks q)) = Inr rows"
    by (auto simp: insert_task_def bex_sql_update)
  with uk show ?thesis
    by (auto simp: supersede_task_def assms(1) Let_def base_def replacement_def supersede_row_def [abs_def])
qed

text \<open>
  C37. Superseding never runs out of keys in practice. For an existing task whose mission has fewer than 9,998
  tasks the call succeeds, so the bounded search for a free key (\<^verbatim>\<open>-r2\<close> to \<^verbatim>\<open>-r9999\<close>) finds one
  and the insert cannot hit the uniqueness constraint, whatever the sizes of the other missions; for a missing task, and only then,
  it fails, and says so.
\<close>

theorem supersede_total:
  assumes "\<forall>old. task_by_id i q = Some old \<longrightarrow>
      length (filter (\<lambda>t. t_mission_id t = t_mission_id old) (q_tasks q)) < 9998"
  shows "case supersede_task tm i spec q of
      Inl e \<Rightarrow> e = NoSuchTask i \<and> i \<notin> t_id ` set (q_tasks q)
    | Inr r \<Rightarrow> i \<in> t_id ` set (q_tasks q)"
proof (cases "task_by_id i q")
  case None
  then have "i \<notin> t_id ` set (q_tasks q)" by (auto simp: task_by_id_def find_None_iff)
  with None show ?thesis by (simp add: supersede_task_def)
next
  case (Some old)
  then show ?thesis
    using supersede_succeeds [OF Some, of tm spec] assms task_by_id_SomeD [OF Some] by (auto split: sum.split)
qed

lemma ex_few: "length (filter (\<lambda>t. t_mission_id t = m) (q_tasks ex_queue)) < 9998"
  by (rule le_less_trans [OF length_filter_le]) (simp add: ex_queue_def)

theorem supersede_total_witness:
  "(\<exists>nid q'. supersede_task 60 2 ex_spec ex_queue = Inr (nid, q')) \<and>
   supersede_task 60 99 ex_spec ex_queue = Inl (NoSuchTask 99)"
proof -
  have few: "\<forall>old. task_by_id i ex_queue = Some old \<longrightarrow>
      length (filter (\<lambda>t. t_mission_id t = t_mission_id old) (q_tasks ex_queue)) < 9998" for i
    using ex_few by blast
  have "99 \<notin> t_id ` set (q_tasks ex_queue)" "2 \<in> t_id ` set (q_tasks ex_queue)" by (auto simp: ex_simps)
  then show ?thesis
    using supersede_total [OF few, where tm = 60 and spec = ex_spec] by (fastforce split: sum.splits)
qed

theorem supersede_rewires_witness:
  "\<exists>nid q'. supersede_task 60 2 ex_spec ex_queue = Inr (nid, q') \<and> nid \<notin> {1, 2, 3, 4, 5, 6, 7} \<and>
     (\<forall>x\<in>set (q_tasks q'). t_id x = 2 \<longrightarrow> t_status x = Superseded)"
proof -
  obtain nid q' where s: "supersede_task 60 2 ex_spec ex_queue = Inr (nid, q')"
    using supersede_succeeds [OF ex_task_by_id ex_few] by blast
  have "t_id ` set (q_tasks ex_queue) = {1, 2, 3, 4, 5, 6, 7}" by (auto simp: ex_simps)
  with supersede_rewires [OF wf_ex_queue s] have "nid \<notin> {1, 2, 3, 4, 5, 6, 7} \<and>
     (\<forall>x\<in>set (q_tasks q'). t_id x = 2 \<longrightarrow> t_status x = Superseded)" by blast
  with s show ?thesis by blast
qed

subsection \<open>Reachable stores\<close>

text \<open>
  C32. Every store the queue's methods can reach from the empty database is well formed: the ids of each
  table are distinct and positive, no two tasks of a mission share a key, exactly a claimed task
  has a lease, a claimed task names its holder and claim time, only a claimed or done task names one,
  and a done task has its completion time.
\<close>

theorem reachable_queue_wf:
  assumes "queue_step\<^sup>*\<^sup>* empty_qstore q"
  shows "wf_queue q"
  using queue_machine.reachable_inv [OF refl assms] .

definition ex_worked :: qstore where
  \<comment> \<open>one task enqueued, promoted and claimed\<close>
  "ex_worked = snd (claim_next_as (\<lambda>_. 9) ''bee'' '''' [] 30 (snd (promote_ready 8
     (case enqueue (\<lambda>_. 5) 8 [ex_spec\<lparr>sp_depends_on := []\<rparr>] empty_qstore of Inr q \<Rightarrow> q | Inl _ \<Rightarrow> empty_qstore))))"

theorem reachable_queue_wf_witness:
  "wf_queue ex_worked \<and> map (\<lambda>t. (t_id t, t_status t, t_claimed_by t)) (q_tasks ex_worked) = [(1, Claimed, Some ''bee'')]"
proof
  have e: "enqueue (\<lambda>_. 5) 8 [ex_spec\<lparr>sp_depends_on := []\<rparr>] empty_qstore =
      Inr (case enqueue (\<lambda>_. 5) 8 [ex_spec\<lparr>sp_depends_on := []\<rparr>] empty_qstore of Inr q \<Rightarrow> q | Inl _ \<Rightarrow> empty_qstore)"
    by (simp add: enqueue_def insert_task_def empty_qstore_def)
  show "wf_queue ex_worked"
    by (rule reachable_queue_wf)
       (unfold ex_worked_def, rule rtranclp.rtrancl_into_rtrancl, rule rtranclp.rtrancl_into_rtrancl, rule r_into_rtranclp,
        rule queue_stepI [OF queue_event.enqueue [OF e]], rule queue_stepI [OF queue_event.promote],
        rule queue_stepI [OF queue_event.claim])
  show "map (\<lambda>t. (t_id t, t_status t, t_claimed_by t)) (q_tasks ex_worked) = [(1, Claimed, Some ''bee'')]"
    by (simp add: ex_worked_def enqueue_def insert_task_def sql_next_id_def ex_spec_def
      task_of_spec_def promote_ready_def keys_with_status_def Let_def sql_update_def claim_next_as_def claim_fresh_def
      sql_first_def self_healable_def claimable_def role_ok_def sql_affected_def empty_qstore_def)
qed

subsection \<open>The verification gate\<close>

text \<open>
  The verification gate is fail-closed and looks at the last run. With a verify command that is not blank, the gate
  passes exactly when some matching execution of the mission exists and the latest one (by time, then
  id) was ok; a mission that never ran the command does not pass. A blank command always passes.
\<close>

theorem verify_gate_latest:
  assumes "execution_table.keyed (q_executions q)"
  shows "mission_passed_verify_since_by m v since agent q \<longleftrightarrow>
    trim_space v = '''' \<or>
    (\<exists>e\<in>set (q_executions q). verify_row m (trim_space v) since agent e \<and> e_ok e \<and>
       (\<forall>x\<in>set (q_executions q). verify_row m (trim_space v) since agent x \<longrightarrow>
          e_ts x < e_ts e \<or> e_ts x = e_ts e \<and> e_id x \<le> e_id e))"
proof (cases "trim_space v = ''''")
  case True
  then show ?thesis by (simp add: mission_passed_verify_since_by_def Let_def)
next
  case False
  then have v: "v \<noteq> ''''" by auto
  let ?k = "\<lambda>e. (- e_ts e, - e_id e)" and ?p = "verify_row m (trim_space v) since agent"
  show ?thesis
  proof (cases "sql_first ?k ?p (q_executions q)")
    case None
    then show ?thesis using False v
      by (simp add: mission_passed_verify_since_by_def Let_def) (use None in \<open>simp only: sql_first_None, blast\<close>)
  next
    case (Some e)
    note e = sql_first_SomeD [OF Some]
    have "x = e" if "x \<in> set (q_executions q)" "?p x"
      "\<forall>y\<in>set (q_executions q). ?p y \<longrightarrow> e_ts y < e_ts x \<or> e_ts y = e_ts x \<and> e_id y \<le> e_id x" for x
    proof -
      have "e_ts e < e_ts x \<or> e_ts e = e_ts x \<and> e_id e \<le> e_id x" using that(3) e(1,2) by blast
      moreover have "?k e \<le> ?k x" by (rule e(3) [OF that(1,2)])
      ultimately have "e_id e = e_id x" by (auto simp: less_eq_prod_def)
      then show ?thesis using execution_table.keyed_eq [OF assms e(1) that(1)] by simp
    qed
    moreover have "\<forall>y\<in>set (q_executions q). ?p y \<longrightarrow> e_ts y < e_ts e \<or> e_ts y = e_ts e \<and> e_id y \<le> e_id e"
      using e(3) by (fastforce simp: less_eq_prod_def)
    moreover have "mission_passed_verify_since_by m v since agent q = e_ok e"
      using Some False v by (simp add: mission_passed_verify_since_by_def Let_def)
    ultimately show ?thesis using False e(1,2) by blast
  qed
qed

definition ex_run_of :: "int \<Rightarrow> string \<Rightarrow> int \<Rightarrow> bool \<Rightarrow> execution" where
  "ex_run_of i cmd tm ok = \<lparr>e_id = i, e_mission_id = 7, e_agent = ''bee'', e_role = ''coder'', e_command = cmd,
     e_exit_code = (if ok then 0 else 1), e_ok = ok, e_ts = tm\<rparr>"

definition ex_runs :: qstore where
  "ex_runs = empty_qstore\<lparr>q_executions := [ex_run_of 1 ''go test'' 10 False, ex_run_of 2 ''go test ./...'' 20 True]\<rparr>"

theorem verify_gate_latest_witness:
  "mission_passed_verify_since_by 7 ''go test'' 0 '''' ex_runs \<and>
   \<not> mission_passed_verify_since_by 7 ''go vet'' 0 '''' ex_runs"
proof -
  have k: "execution_table.keyed (q_executions ex_runs)"
    by (simp add: ex_runs_def ex_run_of_def execution_table.keyed_def)
  have ts: "trim_space ''go test'' = ''go test''" "trim_space ''go vet'' = ''go vet''"
    by (simp_all add: trim_space_def trim_prefixes.simps space_runes_def has_prefix_def)
  have like: "sql_like ''go test %'' ''go test ./...''" "\<not> sql_like ''go vet %'' ''go test ./...''"
    "\<not> sql_like ''go vet %'' ''go test''"
    by code_simp+
  show ?thesis
    unfolding verify_gate_latest [OF k] ts
    by (simp add: ex_runs_def ex_run_of_def verify_row_def verify_match_def like del: sql_like.simps)
qed

end
