(* ===== verification/Queue_Lifecycle.thy ===== *)
theory Queue_Lifecycle
  imports Queue_Properties
begin

section \<open>The queue refines a board of jobs\<close>

text \<open>
  What a client of the queue may assume of its tasks, as a labelled machine over a board: a map from task id to a job, which has a
  mission, a key, the keys it needs and a phase. There are no roles, leases, instances, clocks, results, findings or halt marks on the board, and no
  loops, snapshots or row updates in its steps: each call is one transition, which for every call but an enqueue, a claim, a release by
  lease and the needs of a replacement is a function of the board. The abstraction \<open>life\<close> reads the board off the rows; the labels are
  the calls of \<open>queue_event\<close>, so that a transition can be held to who made it.
\<close>

datatype phase = Waiting | Open | Held "string option" | Finished | Withdrawn | Replaced

record job =
  jb_mission :: int
  jb_key :: string
  jb_needs :: "string list"
  jb_phase :: phase

type_synonym board = "int \<rightharpoonup> job"

definition phase_of :: "task \<Rightarrow> phase" where
  "phase_of t =
     (case t_status t of Pending \<Rightarrow> Waiting | Ready \<Rightarrow> Open | Claimed \<Rightarrow> Held (t_claimed_by t) | Done \<Rightarrow> Finished
      | Cancelled \<Rightarrow> Withdrawn | Superseded \<Rightarrow> Replaced)"

definition job_of :: "task \<Rightarrow> job" where
  "job_of t = \<lparr>jb_mission = t_mission_id t, jb_key = t_key t, jb_needs = t_depends_on t, jb_phase = phase_of t\<rparr>"

definition life :: "qstore \<Rightarrow> board" where
  "life q i = map_option job_of (task_by_id i q)"

subsection \<open>The board's transitions\<close>

definition unfinished :: "phase \<Rightarrow> bool" where
  "unfinished p \<longleftrightarrow> p = Waiting \<or> p = Open \<or> (\<exists>b. p = Held b)"

definition moves :: "(int \<Rightarrow> job \<Rightarrow> bool) \<Rightarrow> phase \<Rightarrow> board \<Rightarrow> board" where
  \<comment> \<open>the jobs in \<open>P\<close> take phase \<open>p\<close>\<close>
  "moves P p l i = map_option (\<lambda>j. if P i j then j\<lparr>jb_phase := p\<rparr> else j) (l i)"

definition met :: "int \<Rightarrow> board \<Rightarrow> string \<Rightarrow> bool" where
  \<comment> \<open>the job of mission \<open>m\<close> with key \<open>k\<close> is finished\<close>
  "met m l k \<longleftrightarrow> (\<exists>i j. l i = Some j \<and> jb_mission j = m \<and> jb_key j = k \<and> jb_phase j = Finished)"

definition one_per_key :: "board \<Rightarrow> bool" where
  "one_per_key l \<longleftrightarrow> (\<forall>i k j j'. l i = Some j \<longrightarrow> l k = Some j' \<longrightarrow> jb_mission j = jb_mission j' \<longrightarrow>
     jb_key j = jb_key j' \<longrightarrow> i = k)"

inductive leans :: "board \<Rightarrow> int \<Rightarrow> string \<Rightarrow> int \<Rightarrow> bool" for l :: board and m :: int and k :: string where
  \<comment> \<open>an unfinished job of the mission needs \<open>k\<close>, or needs one that leans on it\<close>
  direct: "l i = Some j \<Longrightarrow> jb_mission j = m \<Longrightarrow> unfinished (jb_phase j) \<Longrightarrow> k \<in> set (jb_needs j) \<Longrightarrow> leans l m k i"
| through: "leans l m k i \<Longrightarrow> l i = Some j \<Longrightarrow> l x = Some y \<Longrightarrow> jb_mission y = m \<Longrightarrow> unfinished (jb_phase y) \<Longrightarrow>
    jb_key j \<in> set (jb_needs y) \<Longrightarrow> leans l m k x"

definition redirected :: "string \<Rightarrow> string \<Rightarrow> job \<Rightarrow> job" where
  "redirected a b j = j\<lparr>jb_needs := replace_key a b (jb_needs j)\<rparr>"

definition handed_over :: "int \<Rightarrow> job \<Rightarrow> string \<Rightarrow> board \<Rightarrow> board" where
  \<comment> \<open>job \<open>i\<close>, which is \<open>old\<close>, is replaced, and the waiting jobs of its mission that need it need \<open>k\<close> instead\<close>
  "handed_over i old k l x = map_option (\<lambda>j.
     let j' = (if x = i then j\<lparr>jb_phase := Replaced\<rparr> else j) in
     if jb_mission j = jb_mission old \<and> jb_phase j = Waiting \<and> jb_key old \<in> set (jb_needs j)
     then redirected (jb_key old) k j' else j') (l x)"

definition without :: "int \<Rightarrow> board \<Rightarrow> board" where
  "without m l i = (case l i of None \<Rightarrow> None | Some j \<Rightarrow> if jb_mission j = m then None else Some j)"

inductive life_step :: "qevent \<Rightarrow> board \<Rightarrow> board \<Rightarrow> bool" where
  created: "\<forall>i. l' i = l i \<or> (l i = None \<and> (\<exists>j. l' i = Some j \<and> jb_mission j = m \<and> jb_phase j = Waiting)) \<Longrightarrow>
    one_per_key l' \<Longrightarrow> life_step (EnqueueCall m) l l'"
| erased: "a = DeleteCall m \<or> a = PruneCall m \<Longrightarrow> life_step a l (without m l)"
| opened: "life_step (PromoteCall m) l
    (moves (\<lambda>i j. jb_mission j = m \<and> jb_phase j = Waiting \<and> (\<forall>k\<in>set (jb_needs j). met m l k)) Open l)"
| taken: "l i = Some j \<Longrightarrow> jb_phase j = Open \<Longrightarrow> life_step (ClaimCall bee) l (l(i \<mapsto> j\<lparr>jb_phase := Held (Some bee)\<rparr>))"
| kept: "life_step (ClaimCall bee) l l"
| finished: "life_step (CompleteCall i bee) l (moves (\<lambda>x j. x = i \<and> jb_phase j = Held (Some bee)) Finished l)"
| reclaimed: "(\<And>i j. P i j \<Longrightarrow> jb_phase j = Held (Some bee)) \<Longrightarrow> life_step (ReclaimCall bee) l (moves P Open l)"
| absent: "life_step (ReapCall (Some names)) l (moves (\<lambda>i j. \<exists>b. jb_phase j = Held (Some b) \<and> b \<notin> names) Open l)"
| expired: "(\<And>i j. P i j \<Longrightarrow> \<exists>b. jb_phase j = Held b) \<Longrightarrow> life_step (ReapCall None) l (moves P Open l)"
| withdrawn: "life_step (CancelCall i) l (moves (\<lambda>x j. x = i \<and> unfinished (jb_phase j)) Withdrawn l)"
| refused: "l i = Some t \<Longrightarrow> x \<noteq> i \<Longrightarrow> leans l (jb_mission t) (jb_key t) x \<Longrightarrow> life_step (GuardedCancelCall i False) l l"
| felled: "l i = Some t \<Longrightarrow> cascade \<or> (\<forall>x. leans l (jb_mission t) (jb_key t) x \<longrightarrow> x = i) \<Longrightarrow>
    life_step (GuardedCancelCall i cascade) l
      (moves (\<lambda>x j. unfinished (jb_phase j) \<and> (x = i \<or> leans l (jb_mission t) (jb_key t) x)) Withdrawn l)"
| reopened: "life_step (ReopenCall i) l (moves (\<lambda>x j. x = i \<and> jb_phase j = Finished) Open l)"
| replaced: "l i = Some old \<Longrightarrow> l n = None \<Longrightarrow> jb_mission new = jb_mission old \<Longrightarrow> jb_phase new = Waiting \<Longrightarrow>
    (\<And>x j. l x = Some j \<Longrightarrow> jb_mission j = jb_mission old \<Longrightarrow> jb_key j \<noteq> jb_key new) \<Longrightarrow>
    life_step (SupersedeCall i) l ((handed_over i old (jb_key new) l)(n \<mapsto> new))"
| retargeted: "l i = Some t \<Longrightarrow> jb_mission t = m \<Longrightarrow> jb_key t = b \<Longrightarrow>
    life_step (RetargetCall m a b) l (\<lambda>x. map_option (\<lambda>j.
      if jb_mission j = m \<and> unfinished (jb_phase j) \<and> a \<in> set (jb_needs j) then redirected a b j else j) (l x))"
| silent: "a = HaltCall m \<or> a = UnhaltCall m \<or> a = FindingCall \<or> a = ExecutionCall \<Longrightarrow> life_step a l l"

subsection \<open>Reading the board off the rows\<close>

lemma phase_iff [simp]:
  "phase_of t = Waiting \<longleftrightarrow> t_status t = Pending" "phase_of t = Open \<longleftrightarrow> t_status t = Ready"
  "phase_of t = Held b \<longleftrightarrow> t_status t = Claimed \<and> t_claimed_by t = b" "phase_of t = Finished \<longleftrightarrow> t_status t = Done"
  "phase_of t = Withdrawn \<longleftrightarrow> t_status t = Cancelled" "phase_of t = Replaced \<longleftrightarrow> t_status t = Superseded"
  by (auto simp: phase_of_def split: status.splits)

lemma job_simps [simp]:
  "jb_mission (job_of t) = t_mission_id t" "jb_key (job_of t) = t_key t" "jb_needs (job_of t) = t_depends_on t"
  "jb_phase (job_of t) = phase_of t"
  by (simp_all add: job_of_def)

lemma unfinished_iff [simp]: "unfinished (phase_of t) \<longleftrightarrow> open_status (t_status t)"
  by (auto simp: unfinished_def open_status_def)

lemma find_map: "(\<And>t. p (g t) = p t) \<Longrightarrow> find p (map g rows) = map_option g (find p rows)"
  by (induction rows) auto

lemma find_rows_append: "find p (xs @ ys) = (case find p xs of None \<Rightarrow> find p ys | Some x \<Rightarrow> Some x)"
  by (induction xs) auto

lemma task_by_id_iff:
  assumes "wf_queue q"
  shows "task_by_id i q = Some t \<longleftrightarrow> t \<in> set (q_tasks q) \<and> t_id t = i"
proof
  assume t: "t \<in> set (q_tasks q) \<and> t_id t = i"
  then obtain u where u: "task_by_id i q = Some u"
    by (cases "task_by_id i q") (auto simp: task_by_id_def find_None_iff)
  then have "u = t" using t task_by_id_SomeD [OF u] task_table.keyed_eq [OF wf_queue_keyed [OF assms]] by blast
  with u show "task_by_id i q = Some t" by simp
qed (use task_by_id_SomeD in blast)

lemma life_iff: "wf_queue q \<Longrightarrow> life q i = Some j \<longleftrightarrow> (\<exists>t\<in>set (q_tasks q). t_id t = i \<and> job_of t = j)"
  by (auto simp: life_def task_by_id_iff)

lemma life_tasks: "q_tasks q' = q_tasks q \<Longrightarrow> life q' = life q"
  by (simp add: life_def task_by_id_def fun_eq_iff)

lemma life_map:
  assumes "q_tasks q' = map g (q_tasks q)" and "\<And>r. t_id (g r) = t_id r"
  shows "life q' i = map_option (\<lambda>r. job_of (g r)) (task_by_id i q)"
proof -
  have "task_by_id i q' = map_option g (task_by_id i q)"
    unfolding task_by_id_def assms(1) by (rule find_map) (simp add: assms(2))
  then show ?thesis by (simp add: life_def option.map_comp o_def)
qed

lemma life_moves:
  assumes rows: "q_tasks q' = sql_update p f (q_tasks q)" and ident: "\<And>r. t_id (f r) = t_id r"
    and to: "\<And>r. r \<in> set (q_tasks q) \<Longrightarrow> p r \<Longrightarrow> job_of (f r) = (job_of r)\<lparr>jb_phase := c\<rparr>"
    and which: "\<And>r. r \<in> set (q_tasks q) \<Longrightarrow> p r \<longleftrightarrow> P (t_id r) (job_of r)"
  shows "life q' = moves P c (life q)"
proof
  fix i
  have "life q' i = map_option (\<lambda>r. job_of (if p r then f r else r)) (task_by_id i q)"
    by (rule life_map) (simp_all add: rows sql_update_def ident)
  then show "life q' i = moves P c (life q) i"
    using to which by (cases "task_by_id i q") (auto simp: moves_def life_def dest: task_by_id_SomeD)
qed

lemma life_same:
  assumes "q_tasks q' = sql_update p f (q_tasks q)" and "\<And>r. t_id (f r) = t_id r"
    and "\<And>r. r \<in> set (q_tasks q) \<Longrightarrow> p r \<Longrightarrow> job_of (f r) = job_of r"
  shows "life q' = life q"
proof
  fix i
  have "life q' i = map_option (\<lambda>r. job_of (if p r then f r else r)) (task_by_id i q)"
    by (rule life_map) (simp_all add: assms(1,2) sql_update_def)
  then show "life q' i = life q i"
    using assms(3) by (cases "task_by_id i q") (auto simp: life_def dest: task_by_id_SomeD)
qed

lemma met_iff: "wf_queue q \<Longrightarrow> met m (life q) k \<longleftrightarrow> k \<in> keys_with_status m Done q"
  by (auto simp: met_def life_iff keys_with_status_def) force

lemma one_per_key_life:
  assumes "wf_queue q"
  shows "one_per_key (life q)"
proof -
  have inj: "inj_on mission_key (set (q_tasks q))" using assms by (simp add: wf_queue_def wf_tasks_def distinct_map)
  have "x = y" if "x \<in> set (q_tasks q)" "y \<in> set (q_tasks q)" "t_mission_id x = t_mission_id y" "t_key x = t_key y" for x y
    by (rule inj_onD [OF inj]) (use that in \<open>simp_all add: mission_key_def\<close>)
  then show ?thesis unfolding one_per_key_def life_iff [OF assms] by fastforce
qed

lemma leans_iff:
  assumes "wf_queue q"
  shows "leans (life q) m k i \<longleftrightarrow> (\<exists>x. strands (list_tasks m q) k x \<and> t_id x = i)"
proof
  assume "leans (life q) m k i"
  then show "\<exists>x. strands (list_tasks m q) k x \<and> t_id x = i"
  proof (induction rule: leans.induct)
    case (direct i j)
    then obtain t where t: "t \<in> set (q_tasks q)" "t_id t = i" "job_of t = j" by (auto simp: life_iff [OF assms])
    then have "strands (list_tasks m q) k t"
      using direct by (intro strands.direct) (auto simp: set_list_tasks open_not_terminal)
    with t(2) show ?case by blast
  next
    case (through i j x y)
    obtain s where s: "strands (list_tasks m q) k s" "t_id s = i" using through.IH by blast
    then have "s \<in> set (q_tasks q)" using strands_live [OF s(1)] by (simp add: set_list_tasks)
    then have j: "job_of s = j" using through.hyps(2) s(2) task_table.keyed_eq [OF wf_queue_keyed [OF assms]]
      by (auto simp: life_iff [OF assms])
    obtain t where t: "t \<in> set (q_tasks q)" "t_id t = x" "job_of t = y"
      using through.hyps(3) by (auto simp: life_iff [OF assms])
    then have "strands (list_tasks m q) k t"
      using through.hyps j by (intro strands.trans [OF s(1)]) (auto simp: set_list_tasks open_not_terminal)
    with t(2) show ?case by blast
  qed
next
  assume "\<exists>x. strands (list_tasks m q) k x \<and> t_id x = i"
  then obtain x where "strands (list_tasks m q) k x" "t_id x = i" by blast
  then show "leans (life q) m k i"
  proof (induction arbitrary: i rule: strands.induct)
    case (direct x)
    then have "life q i = Some (job_of x)" by (auto simp: life_iff [OF assms] set_list_tasks)
    then show ?case using direct by (intro leans.direct [of _ _ "job_of x"]) (simp_all add: set_list_tasks open_not_terminal)
  next
    case (trans y x)
    then have "life q (t_id y) = Some (job_of y)" "life q i = Some (job_of x)"
      using strands_live [OF trans.hyps(1)] by (auto simp: life_iff [OF assms] set_list_tasks)
    then show ?case using trans
      by (intro leans.through [OF trans.IH [OF refl], of "job_of y" _ "job_of x"]) (simp_all add: set_list_tasks open_not_terminal)
  qed
qed

subsection \<open>Every call is a transition\<close>

lemma enqueue_appends:
  "enqueue_loop clk i m sps rows = Inr rows' \<Longrightarrow> \<exists>new. rows' = rows @ new \<and> (\<forall>t\<in>set new. t_status t = Pending \<and> t_mission_id t = m)"
proof (induction sps arbitrary: i rows)
  case (Cons sp sps)
  from Cons.prems obtain t where "enqueue_loop clk (Suc i) m sps (rows @ [t]) = Inr rows'" "t_status t = Pending" "t_mission_id t = m"
    by (auto simp: insert_task_def task_of_spec_def split: sum.splits if_splits)
  with Cons.IH [OF this(1)] show ?case by auto
qed simp

lemma life_enqueue:
  assumes "wf_queue q" "enqueue clk m specs q = Inr q'"
  shows "life_step (EnqueueCall m) (life q) (life q')"
proof (rule life_step.created)
  obtain new where new: "q_tasks q' = q_tasks q @ new" "\<forall>t\<in>set new. t_status t = Pending \<and> t_mission_id t = m"
    using assms(2) enqueue_appends by (force simp: enqueue_def split: sum.splits)
  show "\<forall>i. life q' i = life q i \<or> (life q i = None \<and> (\<exists>j. life q' i = Some j \<and> jb_mission j = m \<and> jb_phase j = Waiting))"
  proof
    fix i
    have "task_by_id i q' = (case task_by_id i q of None \<Rightarrow> find (\<lambda>t. t_id t = i) new | Some t \<Rightarrow> Some t)"
      by (simp add: task_by_id_def new(1) find_rows_append)
    then show "life q' i = life q i \<or> (life q i = None \<and> (\<exists>j. life q' i = Some j \<and> jb_mission j = m \<and> jb_phase j = Waiting))"
      using new(2) by (cases "task_by_id i q"; cases "find (\<lambda>t. t_id t = i) new") (auto simp: life_def find_Some_iff)
  qed
  show "one_per_key (life q')" by (rule one_per_key_life [OF wf_enqueue [OF assms]])
qed

lemma life_delete:
  assumes "wf_queue q" "wf_queue q'" "q_tasks q' = sql_delete (\<lambda>t. t_mission_id t = m) (q_tasks q)"
  shows "life q' = without m (life q)"
proof
  fix i
  show "life q' i = without m (life q) i"
  proof (cases "task_by_id i q")
    case None
    then have "task_by_id i q' = None" by (auto simp: task_by_id_def find_None_iff assms(3) sql_delete_def)
    with None show ?thesis by (simp add: life_def without_def)
  next
    case (Some t)
    note t = task_by_id_SomeD [OF Some]
    show ?thesis
    proof (cases "t_mission_id t = m")
      case True
      have "x = t" if "x \<in> set (q_tasks q)" "t_id x = i" for x
        using that t task_table.keyed_eq [OF wf_queue_keyed [OF assms(1)]] by blast
      then have "task_by_id i q' = None"
        using True by (auto simp: task_by_id_def find_None_iff assms(3) sql_delete_def)
      with Some True show ?thesis by (simp add: life_def without_def)
    next
      case False
      then have "task_by_id i q' = Some t" using t by (simp add: task_by_id_iff [OF assms(2)] assms(3) sql_delete_def)
      with Some False show ?thesis by (simp add: life_def without_def)
    qed
  qed
qed

lemma life_claim:
  assumes "wf_queue q"
  shows "life_step (ClaimCall bee) (life q) (life (snd (claim_next_as clk bee inst roles lease q)))"
proof (cases "claim_next_as clk bee inst roles lease q")
  case (Pair r q')
  show ?thesis
  proof (cases r)
    case None
    then have "q' = q" using claim_noneD [OF assms] Pair by blast
    then show ?thesis using Pair by (simp add: life_step.kept)
  next
    case (Some c)
    from claim_grantD [OF assms Pair [unfolded Some]] obtain t tm where t: "t \<in> set (q_tasks q)"
      "if c_reissued c then t_status t = Claimed \<and> t_claimed_by t = Some bee else t_status t = Ready"
      and q': "q' = q\<lparr>q_tasks := sql_update (\<lambda>r. t_id r = t_id t) (hold bee inst tm lease) (q_tasks q)\<rparr>"
      by (metis (full_types))
    have rows: "q_tasks q' = map (\<lambda>r. if t_id r = t_id t then hold bee inst tm lease r else r) (q_tasks q)"
      by (simp add: q' sql_update_def)
    have j: "job_of (hold bee inst tm lease r) = (job_of r)\<lparr>jb_phase := Held (Some bee)\<rparr>" for r
      by (simp add: job_of_def hold_def phase_of_def)
    have at: "life q (t_id t) = Some (job_of t)" using t(1) by (auto simp: life_iff [OF assms])
    have m: "life q' i = map_option (\<lambda>r. job_of (if t_id r = t_id t then hold bee inst tm lease r else r)) (task_by_id i q)" for i
      by (rule life_map [OF rows]) (simp add: hold_def)
    have "life q' i = ((life q)(t_id t \<mapsto> (job_of t)\<lparr>jb_phase := Held (Some bee)\<rparr>)) i" for i
    proof (cases "task_by_id i q")
      case None
      then have "i \<noteq> t_id t" using at by (auto simp: life_def)
      with None show ?thesis using m [of i] by (simp add: life_def)
    next
      case (Some r)
      then have "r = t" if "i = t_id t" using that at t(1) by (metis task_by_id_iff [OF assms] option.inject)
      with Some task_by_id_SomeD [OF Some] show ?thesis unfolding m by (auto simp: life_def j)
    qed
    then have l: "life q' = (life q)(t_id t \<mapsto> (job_of t)\<lparr>jb_phase := Held (Some bee)\<rparr>)" by (rule ext)
    show ?thesis
    proof (cases "c_reissued c")
      case True
      then have "(job_of t)\<lparr>jb_phase := Held (Some bee)\<rparr> = job_of t" using t(2) by (simp add: job_of_def phase_of_def)
      then have "life q' = life q" using l at by (simp add: fun_upd_idem)
      then show ?thesis using Pair by (simp add: life_step.kept)
    next
      case False
      then show ?thesis using life_step.taken [of "life q" "t_id t" "job_of t" bee] at t(2) Pair l by simp
    qed
  qed
qed

lemma job_requeue: "job_of (requeue_task r) = (job_of r)\<lparr>jb_phase := Open\<rparr>"
  by (simp add: job_of_def phase_of_def) (simp add: requeue_task_def)

lemma job_cancel: "job_of (cancel_row r) = (job_of r)\<lparr>jb_phase := Withdrawn\<rparr>"
  by (simp add: job_of_def phase_of_def)

lemma life_reap:
  assumes "wf_queue q"
  shows "life_step (ReapCall present) (life q) (life (snd (reap tm present q)))"
proof -
  have rows: "q_tasks (snd (reap tm present q)) = sql_update (\<lambda>t. t_status t = Claimed \<and> reap_due present tm t) requeue_task (q_tasks q)"
    by (simp add: reap_batch [OF assms])
  show ?thesis
  proof (cases present)
    case (Some names)
    have "life (snd (reap tm present q)) = moves (\<lambda>i j. \<exists>b. jb_phase j = Held (Some b) \<and> b \<notin> names) Open (life q)"
    proof (rule life_moves [OF rows])
      fix r assume "r \<in> set (q_tasks q)"
      from wf_queue_wf_task [OF assms this]
      show "(t_status r = Claimed \<and> reap_due present tm r) = (\<exists>b. jb_phase (job_of r) = Held (Some b) \<and> b \<notin> names)"
        by (auto simp: reap_due_def Some wf_task_def)
    qed (simp_all add: job_requeue)
    then show ?thesis by (simp add: Some life_step.absent)
  next
    case None
    let ?P = "\<lambda>i j. (\<exists>b. jb_phase j = Held b) \<and> (\<exists>t\<in>set (q_tasks q). t_id t = i \<and> reap_due present tm t)"
    have "life (snd (reap tm present q)) = moves ?P Open (life q)"
      by (rule life_moves [OF rows])
         (use task_table.keyed_eq [OF wf_queue_keyed [OF assms]] in \<open>auto simp: job_requeue\<close>)
    then show ?thesis using life_step.expired [of ?P "life q"] by (simp add: None)
  qed
qed

lemma life_reclaim:
  assumes "wf_queue q"
  shows "life_step (ReclaimCall bee) (life q) (life (snd (reclaim_idle t0 bee grace q)))"
proof -
  let ?P = "\<lambda>i j. jb_phase j = Held (Some bee) \<and> (\<exists>t\<in>set (q_tasks q). t_id t = i \<and> reclaimable t0 bee grace t)"
  have rows: "q_tasks (snd (reclaim_idle t0 bee grace q)) = sql_update (reclaimable t0 bee grace) requeue_task (q_tasks q)"
    by (simp add: reclaim_idle_batch [OF assms])
  have "life (snd (reclaim_idle t0 bee grace q)) = moves ?P Open (life q)"
    by (rule life_moves [OF rows])
       (use task_table.keyed_eq [OF wf_queue_keyed [OF assms]] in \<open>auto simp: job_requeue reclaimable_def\<close>)
  then show ?thesis using life_step.reclaimed [of ?P bee "life q"] by simp
qed

lemma life_guarded:
  assumes "wf_queue q" "cancel_task_guarded i cascade q = Inr (c, b, q')"
  shows "life_step (GuardedCancelCall i cascade) (life q) (life q')"
proof -
  obtain t where t: "task_by_id i q = Some t"
    using assms(2) by (auto simp: cancel_task_guarded_def split: option.splits)
  have tq: "t \<in> set (q_tasks q)" "t_id t = i" using task_by_id_SomeD [OF t] by simp_all
  let ?st = "subtree_of t (list_tasks (t_mission_id t) q)" and ?m = "t_mission_id t" and ?k = "t_key t"
  have at: "life q i = Some (job_of t)" by (simp add: life_def t)
  have tail: "drop 1 ?st = [] \<longleftrightarrow> (\<forall>x. leans (life q) ?m ?k x \<longrightarrow> x = i)"
  proof -
    have "drop 1 ?st = [] \<longleftrightarrow> set (drop 1 ?st) = {}" by (simp only: set_empty)
    also have "\<dots> \<longleftrightarrow> (\<forall>x. stranded q t x \<longrightarrow> t_id x = i)"
      unfolding subtree_tail [OF assms(1) t] using tq(2) by auto
    finally show ?thesis by (auto simp: leans_iff [OF assms(1)])
  qed
  show ?thesis
  proof (cases "cascade \<or> drop 1 ?st = []")
    case True
    then have q': "q' = snd (cancel_loop ?st ([], q))"
      using assms(2) unfolding cancel_task_guarded_unfold [OF t] by (auto simp: Let_def)
    have rows: "q_tasks q' = sql_update (cancel_set q t) cancel_row (q_tasks q)"
      unfolding q' by (rule cancel_rows_set [OF assms(1) t])
    have "life q' = moves (\<lambda>x j. unfinished (jb_phase j) \<and> (x = i \<or> leans (life q) ?m ?k x)) Withdrawn (life q)"
    proof (rule life_moves [OF rows])
      fix r assume r: "r \<in> set (q_tasks q)"
      have "stranded q t r" if "stranded q t x" "t_id x = t_id r" for x
        using that r strands_live [OF that(1)] task_table.keyed_eq [OF wf_queue_keyed [OF assms(1)]]
        by (auto simp: set_list_tasks)
      then show "cancel_set q t r = (unfinished (jb_phase (job_of r)) \<and> (t_id r = i \<or> leans (life q) ?m ?k (t_id r)))"
        using tq(2) by (auto simp: cancel_set_def leans_iff [OF assms(1)])
    qed (simp_all add: job_cancel)
    moreover have "life_step (GuardedCancelCall i cascade) (life q) (moves (\<lambda>x j. unfinished (jb_phase j) \<and>
        (x = i \<or> leans (life q) (jb_mission (job_of t)) (jb_key (job_of t)) x)) Withdrawn (life q))"
      by (rule life_step.felled) (use at True tail in auto)
    ultimately show ?thesis by simp
  next
    case False
    then have "q' = q" "\<not> cascade" using assms(2) unfolding cancel_task_guarded_unfold [OF t] by (auto simp: Let_def)
    moreover obtain x where "x \<noteq> i" "leans (life q) ?m ?k x" using False tail by blast
    ultimately show ?thesis using life_step.refused [of "life q" i "job_of t" x] at by simp
  qed
qed

lemma life_supersede:
  assumes "wf_queue q" "supersede_task tm i spec q = Inr (nid, q')"
  shows "life_step (SupersedeCall i) (life q) (life q')"
proof -
  obtain old uk where o: "old \<in> set (q_tasks q)" "t_id old = i" "nid = sql_next_id t_id (q_tasks q)"
    and fresh: "\<forall>t\<in>set (q_tasks q). t_mission_id t = t_mission_id old \<longrightarrow> t_key t \<noteq> uk"
    and q': "q' = q\<lparr>q_tasks := map (after_supersede i old uk) (q_tasks q) @ [(replacement tm i old uk spec)\<lparr>t_id := nid\<rparr>]\<rparr>"
    using assms by (rule supersede_task_InrD)
  let ?q1 = "q\<lparr>q_tasks := map (after_supersede i old uk) (q_tasks q)\<rparr>" and ?new = "(replacement tm i old uk spec)\<lparr>t_id := nid\<rparr>"
  have at: "life q i = Some (job_of old)" using o by (auto simp: life_iff [OF assms(1)])
  have n: "life q nid = None"
    using sql_next_id_fresh [of _ "q_tasks q" t_id] o(3) by (fastforce simp: life_def task_by_id_def find_None_iff)
  have l1: "life ?q1 x = handed_over i (job_of old) uk (life q) x" for x
  proof -
    have "life ?q1 x = map_option (\<lambda>r. job_of (after_supersede i old uk r)) (task_by_id x q)" by (rule life_map) simp_all
    moreover have "job_of (after_supersede i old uk r) =
        (let j' = (if t_id r = i then (job_of r)\<lparr>jb_phase := Replaced\<rparr> else job_of r) in
         if t_mission_id r = t_mission_id old \<and> t_status r = Pending \<and> t_key old \<in> set (t_depends_on r)
         then redirected (t_key old) uk j' else j')" for r
      by (auto simp: after_supersede_def Let_def pending_on_def supersede_row_def redirect_def redirected_def job_of_def phase_of_def)
    ultimately show ?thesis
      by (cases "task_by_id x q") (auto simp: handed_over_def life_def Let_def dest: task_by_id_SomeD)
  qed
  then have "life ?q1 nid = None" using n by (simp add: handed_over_def)
  then have "task_by_id x q' = (if x = nid then Some ?new else task_by_id x ?q1)" for x
    by (auto simp: task_by_id_def q' find_rows_append life_def split: option.splits)
  then have "life q' x = ((handed_over i (job_of old) uk (life q))(nid \<mapsto> job_of ?new)) x" for x
    using l1 [of x] by (auto simp: life_def)
  then have "life q' = (handed_over i (job_of old) uk (life q))(nid \<mapsto> job_of ?new)" by (rule ext)
  moreover have "life_step (SupersedeCall i) (life q) ((handed_over i (job_of old) (jb_key (job_of ?new)) (life q))(nid \<mapsto> job_of ?new))"
    by (rule life_step.replaced [OF at n]) (use fresh in \<open>auto simp: life_iff [OF assms(1)]\<close>)
  ultimately show ?thesis by simp
qed

lemma life_retarget:
  assumes "wf_queue q" "retarget_dependents m a b q = Inr (n, q')"
  shows "life_step (RetargetCall m a b) (life q) (life q')"
proof -
  note D = retarget_dependents_InrD [OF assms]
  obtain t where "t \<in> set (q_tasks q)" "t_mission_id t = m" "t_key t = b"
    using D(3) by_key_SomeD [of "list_tasks m q" b] by (auto simp: set_list_tasks)
  then have at: "life q (t_id t) = Some (job_of t)" "jb_mission (job_of t) = m" "jb_key (job_of t) = b"
    by (auto simp: life_iff [OF assms(1)])
  have "life q' x = map_option (\<lambda>r. job_of (if t_mission_id r = m \<and> retargeted a r then redirect a b r else r)) (task_by_id x q)" for x
    by (rule life_map) (simp_all add: D(1) sql_update_def)
  moreover have "job_of (redirect a b r) = redirected a b (job_of r)" for r
    by (simp add: job_of_def redirected_def phase_of_def redirect_def del: redirect_simps split: status.splits)
  ultimately have "life q' = (\<lambda>x. map_option (\<lambda>j.
      if jb_mission j = m \<and> unfinished (jb_phase j) \<and> a \<in> set (jb_needs j) then redirected a b j else j) (life q x))"
    by (intro ext, case_tac "task_by_id x q") (simp_all add: life_def retargeted_def open_not_terminal)
  then show ?thesis using life_step.retargeted [of "life q" "t_id t" "job_of t", OF at] by simp
qed

lemma life_event: "queue_event a q q' \<Longrightarrow> wf_queue q \<Longrightarrow> life_step a (life q) (life q')"
proof (induction rule: queue_event.induct)
  case (enqueue clk m specs q q')
  then show ?case by (simp add: life_enqueue)
next
  case (delete_tasks m q)
  have "life (delete_mission_tasks m q) = without m (life q)"
    by (rule life_delete [OF delete_tasks wf_delete_mission_tasks [OF delete_tasks]]) (simp add: delete_mission_tasks_def)
  then show ?case using life_step.erased by simp
next
  case (prune m q)
  have "life (prune_mission m q) = without m (life q)"
    by (rule life_delete [OF prune wf_prune_mission [OF prune]]) (simp add: prune_mission_def)
  then show ?case using life_step.erased by simp
next
  case (promote m q)
  have rows: "q_tasks (snd (promote_ready m q)) = sql_update (promotable m q) (\<lambda>t. t\<lparr>t_status := Ready\<rparr>) (q_tasks q)"
    by (simp add: promote_ready_batch [OF promote])
  have "life (snd (promote_ready m q)) =
      moves (\<lambda>i j. jb_mission j = m \<and> jb_phase j = Waiting \<and> (\<forall>k\<in>set (jb_needs j). met m (life q) k)) Open (life q)"
    by (rule life_moves [OF rows], simp, simp add: job_of_def phase_of_def)
       (auto simp: promotable_def met_iff [OF promote])
  then show ?case by (simp add: life_step.opened)
next
  case (claim bee q clk inst roles lease)
  then show ?case by (rule life_claim)
next
  case (complete i bee q tm res)
  have rows: "q_tasks (snd (complete tm i bee res q)) = sql_update (\<lambda>t. t_id t = i \<and> t_status t = Claimed \<and> t_claimed_by t = Some bee)
      (\<lambda>t. t\<lparr>t_status := Done, t_result := Some res, t_done_ts := Some tm, t_claim_expires_ts := None\<rparr>) (q_tasks q)"
    by (simp add: complete_def Let_def)
  have "life (snd (complete tm i bee res q)) = moves (\<lambda>x j. x = i \<and> jb_phase j = Held (Some bee)) Finished (life q)"
    by (rule life_moves [OF rows], simp, simp add: job_of_def phase_of_def) auto
  then show ?case by (simp add: life_step.finished)
next
  case (reclaim bee q t0 grace)
  then show ?case by (rule life_reclaim)
next
  case (reap present q tm)
  then show ?case by (rule life_reap)
next
  case (cancel i q)
  have "life (snd (cancel_task i q)) = moves (\<lambda>x j. x = i \<and> unfinished (jb_phase j)) Withdrawn (life q)"
    by (rule life_moves [OF cancel_task_tasks]) (simp_all add: job_cancel)
  then show ?case by (simp add: life_step.withdrawn)
next
  case (reopen i q)
  have rows: "q_tasks (snd (reopen_task i q)) = sql_update (\<lambda>t. t_id t = i \<and> t_status t = Done)
      (\<lambda>t. t\<lparr>t_status := Ready, t_claimed_by := None, t_claimed_ts := None, t_done_ts := None, t_result := None\<rparr>) (q_tasks q)"
    by (simp add: reopen_task_def Let_def)
  have "life (snd (reopen_task i q)) = moves (\<lambda>x j. x = i \<and> jb_phase j = Finished) Open (life q)"
    by (rule life_moves [OF rows], simp, simp add: job_of_def phase_of_def) auto
  then show ?case by (simp add: life_step.reopened)
next
  case (supersede tm i spec q nid q')
  then show ?case by (simp add: life_supersede)
next
  case (cancel_guarded i cascade q c b q')
  then show ?case by (simp add: life_guarded)
next
  case (retarget m a b q n q')
  then show ?case by (simp add: life_retarget)
next
  case (halt m q reason)
  have "life (halt_mission m reason q) = life q" by (rule life_tasks) (simp add: halt_mission_def)
  then show ?case by (simp add: life_step.silent)
next
  case (unhalt m q)
  have "life (unhalt_mission m q) = life q" by (rule life_tasks) (simp add: unhalt_mission_def)
  then show ?case by (simp add: life_step.silent)
next
  case (add_finding tm f q i q')
  then have "life q' = life q" by (intro life_tasks) (auto simp: add_finding_def Let_def split: if_splits)
  then show ?case by (simp add: life_step.silent)
next
  case (set_finding_status tm i status q ok q')
  then have "life q' = life q" by (intro life_tasks) (auto simp: set_finding_status_Inr_iff split: if_splits)
  then show ?case by (simp add: life_step.silent)
next
  case (record_execution q e)
  have "life (record_execution e q) = life q" by (rule life_tasks) (simp add: record_execution_def Let_def)
  then show ?case by (simp add: life_step.silent)
qed

interpretation board: simulation queue_event wf_queue life_step life
  by unfold_locales (auto intro: wf_queue_event life_event)

text \<open>
  C15. The queue refines the board. From any well-formed store, whatever the calls made and in whatever order, the same calls run the
  board from the store's board to that of the store they leave. So a job is created waiting under a fresh id and key; a promotion of its
  mission opens it exactly when it waits and the jobs of all the keys it needs are finished; it is taken only when open, and is then held by the
  bee that called; a completion finishes it exactly when that bee holds it; only a reclaim of the holder, a roster without it or
  a lapsed lease takes it from the holder, and then it is open again; a cancel withdraws it exactly when unfinished, a guarded one with all that leans on it
  or not at all; a replacement takes over its waiting dependents; it leaves the board only when its own mission is deleted or
  pruned.
\<close>

theorem queue_refines_lifecycle:
  assumes "event_run queue_event es q q'" and "wf_queue q"
  shows "event_run life_step es (life q) (life q')"
  by (rule board.run_simulated [OF assms])

lemma queue_refines_lifecycle_witness:
  "event_run life_step [PromoteCall 7, CompleteCall 2 ''other'', CompleteCall 2 ''bee''] (life ex_queue)
     (life (snd (complete 60 2 ''bee'' ''ok'' (snd (complete 60 2 ''other'' ''no'' (snd (promote_ready 7 ex_queue)))))))"
proof -
  have "event_run queue_event [PromoteCall 7, CompleteCall 2 ''other'', CompleteCall 2 ''bee''] ex_queue
     (snd (complete 60 2 ''bee'' ''ok'' (snd (complete 60 2 ''other'' ''no'' (snd (promote_ready 7 ex_queue))))))"
    by (auto intro: queue_event.intros)
  from queue_refines_lifecycle [OF this wf_ex_queue] show ?thesis .
qed

end
