(* ===== verification/Mission.thy ===== *)
theory Mission
  imports Queue_Machine Fence
begin

section \<open>Missions (internal/mission/store.go)\<close>

text \<open>
  The mission store: the missions and phases tables, the plan expansion that turns phases into
  queue tasks, and the operations that steer a mission. Both tables are
  \<^verbatim>\<open>AUTOINCREMENT\<close>, so the store keeps the last id each has given. The operations that
  also drive the queue take and return both stores; what the source does before it fails stays done, since
  the two stores are two databases. A Go \<^verbatim>\<open>int\<close> is an \<open>int\<close>.
\<close>

subsection \<open>Rows\<close>

record mission =
  mi_id :: int
  mi_directive :: string
  mi_status :: string
  mi_sprint :: int
  mi_requires_review :: bool
  mi_created_ts :: ts
  mi_updated_ts :: ts
  mi_repo :: string
  mi_base :: string
  mi_branch :: string
  mi_pr_url :: string
  mi_review_rounds :: int
  mi_review_watermark :: string
  mi_review_parked :: bool
  mi_record_story :: bool

record phase_row =
  pr_id :: int
  pr_mission_id :: int
  pr_name :: string
  pr_role :: string
  pr_program :: string
  pr_instruction :: string
  pr_depends_on :: string
  pr_count :: int
  pr_status :: string
  pr_position :: int

record phase_spec =
  ph_name :: string
  ph_role :: string
  ph_program :: string
  ph_instruction :: string
  ph_depends_on :: "string list"
  ph_count :: int
  ph_verify :: string

record phase =
  pa_row :: phase_row
  pa_depends_on :: "string list"

record phase_view =
  pv_name :: string
  pv_role :: string
  pv_program :: string
  pv_status :: string
  pv_count :: int
  pv_depends_on :: "string list"
  pv_done_tasks :: nat
  pv_agents :: "string list"

record mission_view =
  mv_id :: int
  mv_directive :: string
  mv_status :: string
  mv_sprint :: int
  mv_created_ts :: ts
  mv_phases :: "phase_view list"

record mstore =
  ms_missions :: "mission list"
  ms_phases :: "phase_row list"
  ms_mission_seq :: int
  ms_phase_seq :: int

definition empty_mstore :: mstore where
  "empty_mstore = \<lparr>ms_missions = [], ms_phases = [], ms_mission_seq = 0, ms_phase_seq = 0\<rparr>"

datatype merr =
    EmptyPlan
  | NoMission int
  | WrongState int string
  | StillOpen int nat string
  | QueueError qerr
  | NoRow int
  | BadNumber string
  | NoSegment string

subsection \<open>Expanding a plan\<close>

definition phase_count :: "int \<Rightarrow> int" where
  "phase_count c = (if c \<le> 0 then 1 else c)"

definition task_key :: "string \<Rightarrow> int \<Rightarrow> string" where
  "task_key name i = name @ ''#'' @ itoa i"

definition phase_keys :: "phase_spec \<Rightarrow> string list" where
  "phase_keys p = map (task_key (ph_name p)) [1..phase_count (ph_count p)]"

definition keys_by_phase :: "phase_spec list \<Rightarrow> string \<Rightarrow> string list" where
  \<comment> \<open>the map filled by \<^verbatim>\<open>append\<close> in plan order; a missing key reads as nil\<close>
  "keys_by_phase plan = fold (\<lambda>p m. m(ph_name p := m (ph_name p) @ phase_keys p)) plan (\<lambda>_. [])"

definition phase_tasks :: "(string \<Rightarrow> string list) \<Rightarrow> phase_spec \<Rightarrow> task_spec list" where
  "phase_tasks keys p =
     (let deps = concat (map keys (ph_depends_on p)) in
      map (\<lambda>i. \<lparr>sp_key = task_key (ph_name p) i, sp_role = ph_role p, sp_title = ph_name p,
                sp_instruction = ph_instruction p, sp_system = '''', sp_depends_on = deps,
                sp_verify = ph_verify p, sp_model = ''''\<rparr>)
        [1..phase_count (ph_count p)])"

definition plan_to_tasks :: "phase_spec list \<Rightarrow> task_spec list" where
  "plan_to_tasks plan = concat (map (phase_tasks (keys_by_phase plan)) plan)"

definition split_deps :: "string \<Rightarrow> string list" where
  "split_deps s = (if s = '''' then [] else split_on (CHR '','') s)"

subsection \<open>Creating a mission\<close>

definition phase_of_spec :: "int \<Rightarrow> int \<Rightarrow> int \<Rightarrow> phase_spec \<Rightarrow> phase_row" where
  "phase_of_spec i mid pos p =
     \<lparr>pr_id = i, pr_mission_id = mid, pr_name = ph_name p, pr_role = ph_role p, pr_program = ph_program p,
      pr_instruction = ph_instruction p, pr_depends_on = join '','' (ph_depends_on p),
      pr_count = phase_count (ph_count p), pr_status = ''pending'', pr_position = pos\<rparr>"

fun insert_phases :: "int \<Rightarrow> int \<Rightarrow> phase_spec list \<Rightarrow> mstore \<Rightarrow> mstore" where
  "insert_phases mid pos [] ms = ms"
| "insert_phases mid pos (p # ps) ms =
     insert_phases mid (pos + 1) ps
       (ms\<lparr>ms_phases := ms_phases ms @ [phase_of_spec (ms_phase_seq ms + 1) mid pos p],
           ms_phase_seq := ms_phase_seq ms + 1\<rparr>)"

definition create_mission ::
  "ts \<Rightarrow> clock \<Rightarrow> string \<Rightarrow> phase_spec list \<Rightarrow> bool \<Rightarrow> mstore \<times> qstore option \<Rightarrow>
     (int \<times> merr option) \<times> mstore \<times> qstore option" where
  "create_mission tm clk directive plan requires_review st =
     (let (ms, qo) = st in
      if plan = [] then ((0, Some EmptyPlan), ms, qo)
      else let mid = ms_mission_seq ms + 1;
               row = \<lparr>mi_id = mid, mi_directive = directive, mi_status = ''running'', mi_sprint = 1,
                      mi_requires_review = requires_review, mi_created_ts = tm, mi_updated_ts = tm,
                      mi_repo = '''', mi_base = '''', mi_branch = '''', mi_pr_url = '''',
                      mi_review_rounds = 0, mi_review_watermark = '''', mi_review_parked = False,
                      mi_record_story = False\<rparr>;
               ms1 = ms\<lparr>ms_missions := ms_missions ms @ [row], ms_mission_seq := mid\<rparr>;
               ms2 = insert_phases mid 0 plan ms1
           in case qo of
             None \<Rightarrow> ((mid, None), ms2, None)
           | Some q \<Rightarrow>
               (case enqueue clk mid (plan_to_tasks plan) q of
                  Inl e \<Rightarrow> ((mid, Some (QueueError e)), ms2, Some q)
                | Inr q' \<Rightarrow> ((mid, None), ms2, Some q')))"

subsection \<open>Queries\<close>

definition mission_by_id :: "int \<Rightarrow> mstore \<Rightarrow> mission option" where
  "mission_by_id i ms = find (\<lambda>m. mi_id m = i) (ms_missions ms)"

definition running_missions :: "mstore \<Rightarrow> mission list" where
  "running_missions ms = sort_key mi_id (filter (\<lambda>m. mi_status m = ''running'') (ms_missions ms))"

definition missions_pending_pr :: "mstore \<Rightarrow> mission list" where
  "missions_pending_pr ms = sort_key mi_id
     (filter (\<lambda>m. mi_status m = ''done'' \<and> mi_repo m \<noteq> '''' \<and> mi_pr_url m = '''') (ms_missions ms))"

definition missions_with_open_pr :: "mstore \<Rightarrow> mission list" where
  "missions_with_open_pr ms = sort_key mi_id
     (filter (\<lambda>m. mi_status m = ''done'' \<and> mi_repo m \<noteq> '''' \<and> mi_pr_url m \<noteq> '''' \<and> \<not> mi_review_parked m)
        (ms_missions ms))"

definition list_missions :: "mstore \<Rightarrow> mission list" where
  "list_missions ms = take 50 (rev (sort_key mi_id (ms_missions ms)))"

definition phases :: "int \<Rightarrow> mstore \<Rightarrow> phase list" where
  "phases mid ms = map (\<lambda>r. \<lparr>pa_row = r, pa_depends_on = split_deps (pr_depends_on r)\<rparr>)
     (sort_key pr_position (filter (\<lambda>r. pr_mission_id r = mid) (ms_phases ms)))"

subsection \<open>Setters\<close>

definition update_mission :: "int \<Rightarrow> (mission \<Rightarrow> mission) \<Rightarrow> mstore \<Rightarrow> mstore" where
  "update_mission i f ms = ms\<lparr>ms_missions := sql_update (\<lambda>m. mi_id m = i) f (ms_missions ms)\<rparr>"

definition set_mission_status :: "ts \<Rightarrow> int \<Rightarrow> string \<Rightarrow> mstore \<Rightarrow> mstore" where
  "set_mission_status tm i st = update_mission i (\<lambda>m. m\<lparr>mi_status := st, mi_updated_ts := tm\<rparr>)"

definition set_record_story :: "ts \<Rightarrow> int \<Rightarrow> bool \<Rightarrow> mstore \<Rightarrow> mstore" where
  "set_record_story tm i on = update_mission i (\<lambda>m. m\<lparr>mi_record_story := on, mi_updated_ts := tm\<rparr>)"

definition set_repo :: "ts \<Rightarrow> int \<Rightarrow> string \<Rightarrow> string \<Rightarrow> string \<Rightarrow> mstore \<Rightarrow> mstore" where
  "set_repo tm i repo base branch =
     update_mission i (\<lambda>m. m\<lparr>mi_repo := repo, mi_base := base, mi_branch := branch, mi_updated_ts := tm\<rparr>)"

definition set_pr_url :: "ts \<Rightarrow> int \<Rightarrow> string \<Rightarrow> mstore \<Rightarrow> mstore" where
  "set_pr_url tm i url = update_mission i (\<lambda>m. m\<lparr>mi_pr_url := url, mi_updated_ts := tm\<rparr>)"

definition set_review_state :: "ts \<Rightarrow> int \<Rightarrow> int \<Rightarrow> string \<Rightarrow> bool \<Rightarrow> mstore \<Rightarrow> mstore" where
  "set_review_state tm i rounds watermark parked =
     update_mission i (\<lambda>m. m\<lparr>mi_review_rounds := rounds, mi_review_watermark := watermark,
                              mi_review_parked := parked, mi_updated_ts := tm\<rparr>)"

definition delete_mission :: "int \<Rightarrow> mstore \<Rightarrow> mstore" where
  "delete_mission i ms =
     ms\<lparr>ms_phases := sql_delete (\<lambda>p. pr_mission_id p = i) (ms_phases ms),
        ms_missions := sql_delete (\<lambda>m. mi_id m = i) (ms_missions ms)\<rparr>"

subsection \<open>Steering\<close>

definition pause_mission :: "ts \<Rightarrow> int \<Rightarrow> mstore \<times> qstore \<Rightarrow> merr + mission option \<times> mstore \<times> qstore" where
  "pause_mission tm i st =
     (let (ms, q) = st in
      case mission_by_id i ms of
        None \<Rightarrow> Inl (NoMission i)
      | Some mi \<Rightarrow>
          if mi_status mi \<noteq> ''running'' then Inl (WrongState i (mi_status mi))
          else let q' = halt_mission i ''paused'' q; ms' = set_mission_status tm i ''paused'' ms
               in Inr (mission_by_id i ms', ms', q'))"

definition resume_mission :: "ts \<Rightarrow> int \<Rightarrow> mstore \<times> qstore \<Rightarrow> merr + mission option \<times> mstore \<times> qstore" where
  "resume_mission tm i st =
     (let (ms, q) = st in
      case mission_by_id i ms of
        None \<Rightarrow> Inl (NoMission i)
      | Some mi \<Rightarrow>
          if mi_status mi \<noteq> ''paused'' then Inl (WrongState i (mi_status mi))
          else let q' = unhalt_mission i q; ms' = set_mission_status tm i ''running'' ms
               in Inr (mission_by_id i ms', ms', q'))"

definition cancel_mission :: "ts \<Rightarrow> int \<Rightarrow> mstore \<times> qstore \<Rightarrow> merr + mission option \<times> mstore \<times> qstore" where
  "cancel_mission tm i st =
     (let (ms, q) = st in
      case mission_by_id i ms of
        None \<Rightarrow> Inl (NoMission i)
      | Some mi \<Rightarrow>
          if mi_status mi = ''done'' \<or> mi_status mi = ''cancelled'' then Inl (WrongState i (mi_status mi))
          else let q' = halt_mission i ''cancelled'' q; ms' = set_mission_status tm i ''cancelled'' ms
               in Inr (mission_by_id i ms', ms', q'))"

text \<open>The view a mission is reported with; the queue may be absent.\<close>

definition phase_status :: "task list \<Rightarrow> string" where
  "phase_status ts =
     (let dn = length (filter (\<lambda>t. t_status t = Done) ts) in
      if 0 < length ts \<and> dn = length ts then ''done''
      else if \<not> list_all (\<lambda>t. t_status t = Pending) ts then ''running''
      else ''pending'')"

fun agents_loop :: "task list \<Rightarrow> string list \<Rightarrow> string list" where
  "agents_loop [] acc = acc"
| "agents_loop (t # ts) acc =
     (let b = (case t_claimed_by t of None \<Rightarrow> '''' | Some b \<Rightarrow> b) in
      agents_loop ts (if b \<noteq> '''' \<and> b \<notin> set acc then acc @ [b] else acc))"

definition phase_view_of :: "task list \<Rightarrow> phase \<Rightarrow> phase_view" where
  "phase_view_of tasks p =
     (let ts = filter (\<lambda>t. t_title t = pr_name (pa_row p)) tasks in
      \<lparr>pv_name = pr_name (pa_row p), pv_role = pr_role (pa_row p), pv_program = pr_program (pa_row p),
       pv_status = phase_status ts, pv_count = pr_count (pa_row p), pv_depends_on = pa_depends_on p,
       pv_done_tasks = length (filter (\<lambda>t. t_status t = Done) ts), pv_agents = agents_loop ts []\<rparr>)"

definition view :: "int \<Rightarrow> mstore \<Rightarrow> qstore option \<Rightarrow> mission_view option" where
  "view i ms qo =
     (case mission_by_id i ms of
        None \<Rightarrow> None
      | Some m \<Rightarrow>
          let tasks = (case qo of None \<Rightarrow> [] | Some q \<Rightarrow> list_tasks i q) in
          Some \<lparr>mv_id = mi_id m, mv_directive = mi_directive m, mv_status = mi_status m,
                mv_sprint = mi_sprint m, mv_created_ts = mi_created_ts m,
                mv_phases = map (phase_view_of tasks) (phases i ms)\<rparr>)"

definition open_at_or_above :: "string \<Rightarrow> int \<Rightarrow> qstore \<Rightarrow> finding list" where
  "open_at_or_above block i q =
     filter (\<lambda>f. severity_rank block \<le> severity_rank (f_severity f)) (findings i ''open'' q)"

definition resolve_needs_review ::
  "ts \<Rightarrow> int \<Rightarrow> string \<Rightarrow> mstore \<times> qstore option \<Rightarrow> merr + mission_view option \<times> mstore" where
  "resolve_needs_review tm i block st =
     (let (ms, qo) = st in
      case mission_by_id i ms of
        None \<Rightarrow> Inl (NoMission i)
      | Some mi \<Rightarrow>
          if mi_status mi \<noteq> ''needs-review'' then Inl (WrongState i (mi_status mi))
          else let opn = (case qo of
                            None \<Rightarrow> 0
                          | Some q \<Rightarrow> if block = '''' then 0 else length (open_at_or_above block i q))
               in if 0 < opn then Inl (StillOpen i opn block)
                  else let ms' = set_mission_status tm i ''done'' ms in Inr (view i ms' qo, ms'))"

definition reopen_for_review ::
  "ts \<Rightarrow> clock \<Rightarrow> int \<Rightarrow> phase_spec list \<Rightarrow> string \<Rightarrow> mstore \<times> qstore \<Rightarrow> merr option \<times> mstore \<times> qstore" where
  "reopen_for_review tm clk i plan watermark st =
     (let (ms, q) = st;
          max_pos = fold max (map pr_position (filter (\<lambda>p. pr_mission_id p = i) (ms_phases ms))) 0;
          ms1 = insert_phases i (max_pos + 1) plan ms
      in case mission_by_id i ms of
           None \<Rightarrow> (Some (NoRow i), ms, q)
         | Some mi \<Rightarrow>
             let ms2 = update_mission i (\<lambda>m. m\<lparr>mi_status := ''running'', mi_review_rounds := mi_review_rounds mi + 1,
                                              mi_review_watermark := watermark, mi_updated_ts := tm\<rparr>) ms1
             in case enqueue clk i (plan_to_tasks plan) q of
                  Inl e \<Rightarrow> (Some (QueueError e), ms2, q)
                | Inr q' \<Rightarrow> (None, ms2, q'))"

subsection \<open>Reading the number of a change request\<close>

definition digits :: string where
  "digits = ''0123456789''"

definition digit_val :: "char \<Rightarrow> int" where
  "digit_val c = (case map_of (zip digits [0..9]) c of None \<Rightarrow> 0 | Some d \<Rightarrow> d)"

definition atoi :: "string \<Rightarrow> int option" where
  \<comment> \<open>\<^verbatim>\<open>strconv.Atoi\<close> on a 64-bit platform\<close>
  "atoi s =
     (let (neg, ds) = (case s of [] \<Rightarrow> (False, [])
                       | c # r \<Rightarrow> if c = CHR ''-'' then (True, r) else if c = CHR ''+'' then (False, r) else (False, s));
          n = fold (\<lambda>c a. a * 10 + digit_val c) ds 0;
          v = (if neg then - n else n)
      in if ds = [] \<or> \<not> set ds \<subseteq> set digits then None
         else if - (2 ^ 63) \<le> v \<and> v < 2 ^ 63 then Some v else None)"

definition last_index :: "string \<Rightarrow> string \<Rightarrow> nat option" where
  "last_index s sub = find (\<lambda>i. has_prefix (drop i s) sub) (rev [0..<Suc (length s)])"

fun parse_pr_segs :: "string list \<Rightarrow> string \<Rightarrow> merr + int" where
  "parse_pr_segs [] url = Inl (NoSegment url)"
| "parse_pr_segs (seg # segs) url =
     (case last_index url seg of
        None \<Rightarrow> parse_pr_segs segs url
      | Some i \<Rightarrow>
          (case atoi (trim_right (\<lambda>c. c = CHR ''/'') (drop (i + length seg) url)) of
             None \<Rightarrow> Inl (BadNumber url)
           | Some n \<Rightarrow> Inr n))"

definition parse_pr_number :: "string \<Rightarrow> merr + int" where
  "parse_pr_number url = parse_pr_segs [''/pull/'', ''/merge_requests/''] url"

definition mission_dir :: "string \<Rightarrow> int \<Rightarrow> string" where
  \<comment> \<open>for a clean workspace path that is not empty, where \<^verbatim>\<open>filepath.Join\<close> only adds the separator\<close>
  "mission_dir workspace i = workspace @ ''/m'' @ itoa i"

subsection \<open>Injecting lessons\<close>

record lesson =
  le_text :: string
  le_author :: string

fun lesson_lines :: "lesson list \<Rightarrow> string" where
  "lesson_lines [] = ''''"
| "lesson_lines (l # ls) =
     (let t = trim_space (le_text l) in
      (if t = '''' then ''''
       else ''- '' @ t @ (if le_author l \<noteq> '''' then '' (author: '' @ le_author l @ '')'' else '''') @ [CHR 0x0A]) @
      lesson_lines ls)"

definition inject_lessons :: "phase_spec list \<Rightarrow> lesson list \<Rightarrow> phase_spec list" where
  "inject_lessons plan lessons =
     (let b = lesson_lines lessons in
      if b = '''' then plan
      else let preamble = untrusted ''LESSONS FROM THE HERD (vetted)'' ''human-vetted memory'' b @ [CHR 0x0A, CHR 0x0A]
           in map (\<lambda>p. p\<lparr>ph_instruction := preamble @ ph_instruction p\<rparr>) plan)"

end
