(* ===== verification/Engine.thy ===== *)
theory Engine
  imports Mission
begin

section \<open>The mission engine (internal/mission/engine.go)\<close>

text \<open>
  One tick of the engine: for each running mission of the snapshot it promotes, sweeps tasks whose dependencies
  can never be met, and then finishes the mission, parks it for review, or counts a tick without
  progress and in the end fails it. The engine's own state is its configuration, its two maps and the calls of its
  completion hook, kept as a list of events. One timestamp stands for the clock reads of one tick. The
  fields the tick does not read (repository, egress, index, sandbox) are dormant in the source and left out.
\<close>

record engine =
  en_block_severity :: string
  en_no_progress_ticks :: int
  en_no_progress :: "int \<Rightarrow> int"
  en_last_fingerprint :: "int \<Rightarrow> string"
  en_events :: "(int \<times> string \<times> int) list"

type_synonym sys = "mstore \<times> qstore \<times> engine"

definition new_engine :: engine where
  "new_engine = \<lparr>en_block_severity = ''high'', en_no_progress_ticks = 240, en_no_progress = (\<lambda>_. 0),
     en_last_fingerprint = (\<lambda>_. ''''), en_events = []\<rparr>"

definition blocking_finding_open :: "engine \<Rightarrow> int \<Rightarrow> qstore \<Rightarrow> bool" where
  "blocking_finding_open e i q =
     (if en_block_severity e = '''' then False
      else list_ex (\<lambda>f. severity_rank (en_block_severity e) \<le> severity_rank (f_severity f)) (findings i ''open'' q))"

definition completed :: "int \<Rightarrow> string \<Rightarrow> int \<Rightarrow> engine \<Rightarrow> engine" where
  "completed i st rounds e = e\<lparr>en_events := en_events e @ [(i, st, rounds)]\<rparr>"

subsection \<open>The dependency sweep\<close>

definition blocked_dep_finding :: "int \<Rightarrow> string \<Rightarrow> string \<Rightarrow> bool \<Rightarrow> finding" where
  "blocked_dep_finding i key dep dep_exists =
     \<lparr>f_id = 0, f_mission_id = i, f_task_id = 0, f_reporter = ''dep-sweep'', f_reporter_model = '''',
      f_reporter_backend = '''', f_type = ''missing-req'', f_severity = ''high'',
      f_target = ''blocked-dep:'' @ key, f_scope = '''', f_test_file = '''', f_test_selector = '''',
      f_evidence = ''task '' @ [CHR 0x27] @ key @ [CHR 0x27] @ '' depends on '' @ [CHR 0x27] @ dep @ [CHR 0x27] @
        '', which '' @ (if dep_exists then ''was cancelled or superseded'' else ''does not exist in the mission'') @
        '' '' @ em_dash @ '' it can never run, so it was cancelled'',
      f_suggested_action = ''re-plan without the dead dependency, or restore/replace '' @ [CHR 0x27] @ dep @ [CHR 0x27],
      f_status = '''', f_recurring = False, f_created_ts = 0, f_resolved_ts = 0\<rparr>"

definition file_blocked_dep_finding :: "ts \<Rightarrow> int \<Rightarrow> string \<Rightarrow> string \<Rightarrow> bool \<Rightarrow> qstore \<Rightarrow> qstore" where
  "file_blocked_dep_finding tm i key dep dep_exists q =
     (if list_ex (\<lambda>f. f_reporter f = ''dep-sweep'' \<and> f_target f = ''blocked-dep:'' @ key) (findings i ''open'' q) then q
      else case add_finding tm (blocked_dep_finding i key dep dep_exists) q of
        Inl _ \<Rightarrow> q
      | Inr (_, q') \<Rightarrow> q')"

definition dead_dep :: "task list \<Rightarrow> string \<Rightarrow> bool" where
  "dead_dep all dep =
     (case by_key all dep of
        None \<Rightarrow> True
      | Some d \<Rightarrow> t_status d = Cancelled \<or> t_status d = Superseded)"

fun sweep_loop :: "ts \<Rightarrow> int \<Rightarrow> task list \<Rightarrow> task list \<Rightarrow> qstore \<Rightarrow> qstore" where
  "sweep_loop tm i all [] q = q"
| "sweep_loop tm i all (t # ts) q =
     sweep_loop tm i all ts
       (if t_status t \<noteq> Pending then q
        else case find (dead_dep all) (t_depends_on t) of
          None \<Rightarrow> q
        | Some dep \<Rightarrow>
            snd (cancel_task (t_id t)
              (file_blocked_dep_finding tm i (t_key t) dep (by_key all dep \<noteq> None) q)))"

definition sweep_blocked_deps :: "ts \<Rightarrow> int \<Rightarrow> qstore \<Rightarrow> qstore" where
  "sweep_blocked_deps tm i q = (let all = list_tasks i q in sweep_loop tm i all all q)"

subsection \<open>The give-up backstop\<close>

definition progress_fingerprint :: "int \<Rightarrow> qstore \<Rightarrow> string \<times> nat" where
  "progress_fingerprint i q =
     (let tasks = list_tasks i q;
          term = length (filter (\<lambda>t. terminal (t_status t)) tasks);
          claimed = length (filter (\<lambda>t. t_status t = Claimed) tasks);
          opn = length (findings i ''open'' q)
      in (itoa (int term) @ ''/'' @ itoa (int (length tasks)) @ ''/'' @ itoa (int opn), claimed))"

definition fail_mission :: "ts \<Rightarrow> mission \<Rightarrow> string \<Rightarrow> sys \<Rightarrow> sys" where
  "fail_mission tm mi reason s =
     (let (ms, q, e) = s;
          e1 = completed (mi_id mi) ''failed'' (mi_review_rounds mi) e
      in (set_mission_status tm (mi_id mi) ''failed'' ms,
          halt_mission (mi_id mi) (''failed: '' @ reason) q,
          e1\<lparr>en_no_progress := (en_no_progress e1)(mi_id mi := 0),
             en_last_fingerprint := (en_last_fingerprint e1)(mi_id mi := '''')\<rparr>))"

definition check_no_progress :: "ts \<Rightarrow> mission \<Rightarrow> sys \<Rightarrow> sys" where
  "check_no_progress tm mi s =
     (let (ms, q, e) = s; i = mi_id mi in
      if en_no_progress_ticks e \<le> 0 then s
      else let (fp, claimed) = progress_fingerprint i q in
        if fp \<noteq> en_last_fingerprint e i
        then (ms, q, e\<lparr>en_last_fingerprint := (en_last_fingerprint e)(i := fp),
                       en_no_progress := (en_no_progress e)(i := 0)\<rparr>)
        else if 0 < claimed then s
        else let e' = e\<lparr>en_no_progress := (en_no_progress e)(i := en_no_progress e i + 1)\<rparr> in
          if en_no_progress_ticks e \<le> en_no_progress e' i
          then fail_mission tm mi ''no forward progress and nothing claimable'' (ms, q, e')
          else (ms, q, e'))"

subsection \<open>The tick\<close>

definition tick_mission :: "ts \<Rightarrow> mission \<Rightarrow> sys \<Rightarrow> sys" where
  "tick_mission tm mi s =
     (let (ms, q, e) = s; i = mi_id mi;
          q1 = snd (promote_ready i q);
          q2 = sweep_blocked_deps tm i q1
      in if \<not> mission_done i q2 then check_no_progress tm mi (ms, q2, e)
         else if blocking_finding_open e i q2
         then (set_mission_status tm i ''needs-review'' ms, q2, completed i ''needs-review'' (mi_review_rounds mi) e)
         else (set_mission_status tm i ''done'' ms, q2, completed i ''done'' (mi_review_rounds mi) e))"

definition tick :: "ts \<Rightarrow> sys \<Rightarrow> sys" where
  "tick tm s = fold (tick_mission tm) (running_missions (fst s)) s"

subsection \<open>Well-formed systems\<close>

interpretation mission_table: rowid_table mi_id "\<lambda>i m. m\<lparr>mi_id := i\<rparr>"
  by unfold_locales simp

definition wf_sys :: "sys \<Rightarrow> bool" where
  "wf_sys s \<longleftrightarrow> (let (ms, q, e) = s in
     mission_table.keyed (ms_missions ms) \<and> (\<forall>m\<in>set (ms_missions ms). mi_id m \<le> ms_mission_seq ms) \<and>
     0 \<le> ms_mission_seq ms \<and> wf_queue q)"

lemma wf_sysD: "wf_sys (ms, q, e) \<Longrightarrow> wf_queue q" "wf_sys (ms, q, e) \<Longrightarrow> mission_table.keyed (ms_missions ms)"
  by (simp_all add: wf_sys_def)

lemma wf_update_mission:
  assumes "\<And>m. mi_id (f m) = mi_id m"
  shows "wf_sys (update_mission i f ms, q, e) = wf_sys (ms, q, e)"
  by (simp add: wf_sys_def update_mission_def mission_table.keyed_update assms ball_sql_update if_distrib cong: if_cong)

lemma wf_set_mission_status: "wf_sys (set_mission_status tm i st ms, q, e) = wf_sys (ms, q, e)"
  unfolding set_mission_status_def by (rule wf_update_mission) simp

lemma wf_sys_queue: "wf_sys (ms, q, e) \<Longrightarrow> wf_queue q' \<Longrightarrow> wf_sys (ms, q', e')"
  by (simp add: wf_sys_def)

lemma insert_phases_missions [simp]:
  "ms_missions (insert_phases mid pos ps ms) = ms_missions ms"
  "ms_mission_seq (insert_phases mid pos ps ms) = ms_mission_seq ms"
  by (induction ps arbitrary: pos ms) simp_all

subsection \<open>The sweep is one batch update\<close>

lemma file_blocked_cases:
  "\<exists>fs. file_blocked_dep_finding tm i key dep ex q = q\<lparr>q_findings := q_findings q @ fs\<rparr> \<and>
     (\<forall>f\<in>set fs. f_mission_id f = i)"
proof (cases "file_blocked_dep_finding tm i key dep ex q = q")
  case True
  then show ?thesis by (intro exI [of _ "[]"]) simp
next
  case False
  then show ?thesis
    by (auto simp: file_blocked_dep_finding_def add_finding_def blocked_dep_finding_def Let_def
        split: if_splits sum.splits)
qed

lemma wf_file_blocked: "wf_queue q \<Longrightarrow> wf_queue (file_blocked_dep_finding tm i key dep ex q)"
  by (auto simp: file_blocked_dep_finding_def split: sum.splits intro: wf_add_finding)

definition dead_task :: "task list \<Rightarrow> task \<Rightarrow> bool" where
  "dead_task all t \<longleftrightarrow> t_status t = Pending \<and> (\<exists>d\<in>set (t_depends_on t). dead_dep all d)"

definition sweep_one :: "ts \<Rightarrow> int \<Rightarrow> task list \<Rightarrow> task \<Rightarrow> qstore \<Rightarrow> qstore" where
  "sweep_one tm i all t q =
     (if t_status t \<noteq> Pending then q
      else case find (dead_dep all) (t_depends_on t) of
        None \<Rightarrow> q
      | Some dep \<Rightarrow>
          snd (cancel_task (t_id t) (file_blocked_dep_finding tm i (t_key t) dep (by_key all dep \<noteq> None) q)))"

lemma sweep_loop_fold: "sweep_loop tm i all ts q = fold (sweep_one tm i all) ts q"
  by (induction ts arbitrary: q) (simp_all add: sweep_one_def)

lemma sweep_one_skip: "\<not> dead_task all t \<Longrightarrow> sweep_one tm i all t q = q"
  by (auto simp: sweep_one_def dead_task_def find_None_iff split: option.split)
     (metis find_None_iff option.distinct(1))

lemma sweep_one_dead:
  assumes "dead_task all t"
  obtains fs where "sweep_one tm i all t q = snd (cancel_task (t_id t) (q\<lparr>q_findings := q_findings q @ fs\<rparr>))"
    "\<forall>f\<in>set fs. f_mission_id f = i"
proof -
  obtain dep where "find (dead_dep all) (t_depends_on t) = Some dep"
    using assms by (cases "find (dead_dep all) (t_depends_on t)") (auto simp: find_None_iff dead_task_def)
  then show thesis
    using that assms file_blocked_cases [of tm i "t_key t" dep "by_key all dep \<noteq> None" q]
    by (auto simp: sweep_one_def dead_task_def)
qed

lemma sweep_one_tasks:
  "q_tasks (sweep_one tm i all t q) =
     sql_update (\<lambda>r. t_id r \<in> t_id ` set (filter (dead_task all) [t]) \<and> open_status (t_status r)) cancel_row (q_tasks q)"
proof (cases "dead_task all t")
  case True
  then show ?thesis by (auto elim!: sweep_one_dead [of all t tm i q] simp: cancel_task_tasks)
next
  case False
  then show ?thesis by (simp add: sweep_one_skip sql_update_def)
qed

lemma sweep_one_other:
  "(\<exists>fs. q_findings (sweep_one tm i all t q) = q_findings q @ fs \<and> (\<forall>f\<in>set fs. f_mission_id f = i)) \<and>
   q_executions (sweep_one tm i all t q) = q_executions q \<and>
   q_mission_halts (sweep_one tm i all t q) = q_mission_halts q"
proof (cases "dead_task all t")
  case True
  then show ?thesis by (auto elim!: sweep_one_dead [of all t tm i q] simp: cancel_task_other)
qed (auto simp: sweep_one_skip)

lemma sweep_loop_tasks:
  "q_tasks (sweep_loop tm i all ts q) =
     sql_update (\<lambda>r. t_id r \<in> t_id ` set (filter (dead_task all) ts) \<and> open_status (t_status r)) cancel_row (q_tasks q)"
proof (induction ts arbitrary: q)
  case (Cons t ts)
  have "q_tasks (sweep_loop tm i all (t # ts) q) = q_tasks (sweep_loop tm i all ts (sweep_one tm i all t q))"
    by (simp add: sweep_loop_fold)
  then show ?case by (auto simp: Cons.IH sweep_one_tasks sql_update_def)
qed (simp add: sql_update_def)

lemma sweep_loop_other:
  "(\<exists>fs. q_findings (sweep_loop tm i all ts q) = q_findings q @ fs \<and> (\<forall>f\<in>set fs. f_mission_id f = i)) \<and>
   q_executions (sweep_loop tm i all ts q) = q_executions q \<and>
   q_mission_halts (sweep_loop tm i all ts q) = q_mission_halts q"
proof (induction ts arbitrary: q)
  case (Cons t ts)
  obtain fs where "q_findings (sweep_one tm i all t q) = q_findings q @ fs" "\<forall>f\<in>set fs. f_mission_id f = i"
    using sweep_one_other by blast
  moreover obtain gs where "q_findings (sweep_loop tm i all ts (sweep_one tm i all t q)) =
      q_findings (sweep_one tm i all t q) @ gs" "\<forall>f\<in>set gs. f_mission_id f = i"
    using Cons.IH by blast
  ultimately show ?case
    using Cons.IH [of "sweep_one tm i all t q"] sweep_one_other [of tm i all t q]
    by (auto simp: sweep_loop_fold intro!: exI [of _ "fs @ gs"])
qed auto

lemma sweep_loop_skip: "\<forall>t\<in>set ts. \<not> dead_task all t \<Longrightarrow> sweep_loop tm i all ts q = q"
  by (induction ts arbitrary: q) (simp_all add: sweep_loop_fold sweep_one_skip)

lemma wf_sweep_one: "wf_queue q \<Longrightarrow> wf_queue (sweep_one tm i all t q)"
  by (auto simp: sweep_one_def intro: wf_cancel_task wf_file_blocked split: option.split)

lemma wf_sweep: "wf_queue q \<Longrightarrow> wf_queue (sweep_blocked_deps tm i q)"
proof -
  have "wf_queue q \<Longrightarrow> wf_queue (sweep_loop tm i all ts q)" for all ts
    by (induction ts arbitrary: q) (simp_all add: sweep_loop_fold wf_sweep_one)
  then show "wf_queue q \<Longrightarrow> ?thesis" by (simp add: sweep_blocked_deps_def Let_def)
qed

definition swept :: "int \<Rightarrow> qstore \<Rightarrow> task \<Rightarrow> bool" where
  "swept i q t \<longleftrightarrow> t_mission_id t = i \<and> dead_task (list_tasks i q) t"

lemma sweep_tasks:
  assumes "wf_queue q"
  shows "q_tasks (sweep_blocked_deps tm i q) = sql_update (swept i q) cancel_row (q_tasks q)"
  unfolding sweep_blocked_deps_def Let_def sweep_loop_tasks
proof (rule sql_update_cong)
  fix r assume r: "r \<in> set (q_tasks q)"
  have "r = t" if "t \<in> set (list_tasks i q)" "t_id r = t_id t" for t
    using that r task_table.keyed_eq [OF wf_queue_keyed [OF assms]] by (simp add: set_list_tasks)
  then show "(t_id r \<in> t_id ` set (filter (dead_task (list_tasks i q)) (list_tasks i q)) \<and> open_status (t_status r)) =
      swept i q r"
    using r by (auto simp: swept_def set_list_tasks dead_task_def open_status_def)
qed simp

lemma sweep_findings:
  "\<exists>fs. q_findings (sweep_blocked_deps tm i q) = q_findings q @ fs \<and> (\<forall>f\<in>set fs. f_mission_id f = i)"
  using sweep_loop_other by (simp add: sweep_blocked_deps_def Let_def)

lemma sweep_halts: "q_mission_halts (sweep_blocked_deps tm i q) = q_mission_halts q"
  using sweep_loop_other by (simp add: sweep_blocked_deps_def Let_def)

lemma sweep_skip: "\<not> (\<exists>t\<in>set (q_tasks q). swept i q t) \<Longrightarrow> sweep_blocked_deps tm i q = q"
  unfolding sweep_blocked_deps_def Let_def
  by (rule sweep_loop_skip) (auto simp: swept_def set_list_tasks)

subsection \<open>A tick touches only the missions it runs\<close>

definition mission_slice :: "int \<Rightarrow> sys \<Rightarrow>
    (mission list \<times> task list \<times> finding list \<times> string option) \<times> int \<times> string \<times> string \<times> int" where
  "mission_slice i s = (let (ms, q, e) = s in
     ((filter (\<lambda>m. mi_id m = i) (ms_missions ms), filter (\<lambda>t. t_mission_id t = i) (q_tasks q),
       filter (\<lambda>f. f_mission_id f = i) (q_findings q), q_mission_halts q i),
      en_no_progress e i, en_last_fingerprint e i, en_block_severity e, en_no_progress_ticks e))"

lemma slice_eq:
  "mission_slice i (ms, q, e) = mission_slice i (ms', q', e') \<longleftrightarrow>
     filter (\<lambda>m. mi_id m = i) (ms_missions ms) = filter (\<lambda>m. mi_id m = i) (ms_missions ms') \<and>
     filter (\<lambda>t. t_mission_id t = i) (q_tasks q) = filter (\<lambda>t. t_mission_id t = i) (q_tasks q') \<and>
     filter (\<lambda>f. f_mission_id f = i) (q_findings q) = filter (\<lambda>f. f_mission_id f = i) (q_findings q') \<and>
     q_mission_halts q i = q_mission_halts q' i \<and> en_no_progress e i = en_no_progress e' i \<and>
     en_last_fingerprint e i = en_last_fingerprint e' i \<and> en_block_severity e = en_block_severity e' \<and>
     en_no_progress_ticks e = en_no_progress_ticks e'"
  by (simp add: mission_slice_def)

definition swept_queue :: "ts \<Rightarrow> int \<Rightarrow> qstore \<Rightarrow> qstore" where
  "swept_queue tm i q = sweep_blocked_deps tm i (snd (promote_ready i q))"

lemma wf_swept_queue: "wf_queue q \<Longrightarrow> wf_queue (swept_queue tm i q)"
  by (simp add: swept_queue_def wf_sweep wf_promote_ready)

lemma swept_queue_frame:
  assumes "wf_queue q" and "j \<noteq> i"
  shows "filter (\<lambda>t. t_mission_id t = j) (q_tasks (swept_queue tm i q)) = filter (\<lambda>t. t_mission_id t = j) (q_tasks q)"
    and "filter (\<lambda>f. f_mission_id f = j) (q_findings (swept_queue tm i q)) = filter (\<lambda>f. f_mission_id f = j) (q_findings q)"
    and "q_mission_halts (swept_queue tm i q) = q_mission_halts q"
proof -
  let ?q = "snd (promote_ready i q)"
  have p: "q_tasks ?q = sql_update (promotable i q) (\<lambda>t. t\<lparr>t_status := Ready\<rparr>) (q_tasks q)"
    "q_findings ?q = q_findings q" "q_mission_halts ?q = q_mission_halts q"
    by (simp_all add: promote_ready_batch [OF assms(1)])
  show "filter (\<lambda>t. t_mission_id t = j) (q_tasks (swept_queue tm i q)) = filter (\<lambda>t. t_mission_id t = j) (q_tasks q)"
    unfolding swept_queue_def sweep_tasks [OF wf_promote_ready [OF assms(1)]] p(1)
    by (subst filter_sql_update_other, use assms(2) in \<open>auto simp: swept_def\<close>)
       (rule filter_sql_update_other, use assms(2) in \<open>auto simp: promotable_def\<close>)
  obtain fs where "q_findings (swept_queue tm i q) = q_findings ?q @ fs" "\<forall>f\<in>set fs. f_mission_id f = i"
    using sweep_findings unfolding swept_queue_def by blast
  then show "filter (\<lambda>f. f_mission_id f = j) (q_findings (swept_queue tm i q)) = filter (\<lambda>f. f_mission_id f = j) (q_findings q)"
    using assms(2) p(2) by (auto simp: filter_empty_conv)
  show "q_mission_halts (swept_queue tm i q) = q_mission_halts q"
    by (simp add: swept_queue_def sweep_halts p(3))
qed

lemma set_status_frame:
  "j \<noteq> i \<Longrightarrow> filter (\<lambda>m. mi_id m = j) (ms_missions (set_mission_status tm i st ms)) =
     filter (\<lambda>m. mi_id m = j) (ms_missions ms)"
  by (auto simp: set_mission_status_def update_mission_def intro: filter_sql_update_other)

lemma tick_mission_unfold:
  "tick_mission tm mi (ms, q, e) =
     (let i = mi_id mi; q2 = swept_queue tm i q in
      if \<not> mission_done i q2 then check_no_progress tm mi (ms, q2, e)
      else let st = (if blocking_finding_open e i q2 then ''needs-review'' else ''done'')
           in (set_mission_status tm i st ms, q2, completed i st (mi_review_rounds mi) e))"
  by (simp add: tick_mission_def Let_def swept_queue_def)

definition stalls :: "engine \<Rightarrow> int \<Rightarrow> qstore \<Rightarrow> bool" where
  "stalls e i q \<longleftrightarrow> 0 < en_no_progress_ticks e \<and> fst (progress_fingerprint i q) = en_last_fingerprint e i \<and>
     snd (progress_fingerprint i q) = 0 \<and> en_no_progress_ticks e \<le> en_no_progress e i + 1"

definition watch :: "engine \<Rightarrow> int \<Rightarrow> qstore \<Rightarrow> engine" where
  "watch e i q =
     (if en_no_progress_ticks e \<le> 0 then e
      else if fst (progress_fingerprint i q) \<noteq> en_last_fingerprint e i
      then e\<lparr>en_last_fingerprint := (en_last_fingerprint e)(i := fst (progress_fingerprint i q)),
             en_no_progress := (en_no_progress e)(i := 0)\<rparr>
      else if 0 < snd (progress_fingerprint i q) then e
      else e\<lparr>en_no_progress := (en_no_progress e)(i := en_no_progress e i + 1)\<rparr>)"

definition failed_engine :: "mission \<Rightarrow> engine \<Rightarrow> engine" where
  "failed_engine mi e = completed (mi_id mi) ''failed'' (mi_review_rounds mi)
     (e\<lparr>en_no_progress := (en_no_progress e)(mi_id mi := 0),
        en_last_fingerprint := (en_last_fingerprint e)(mi_id mi := '''')\<rparr>)"

definition fail_reason :: string where
  "fail_reason = ''failed: no forward progress and nothing claimable''"

lemma check_no_progress_eq:
  "check_no_progress tm mi (ms, q, e) =
     (if stalls e (mi_id mi) q
      then (set_mission_status tm (mi_id mi) ''failed'' ms, halt_mission (mi_id mi) fail_reason q, failed_engine mi e)
      else (ms, q, watch e (mi_id mi) q))"
  by (cases "progress_fingerprint (mi_id mi) q")
     (simp add: check_no_progress_def fail_mission_def Let_def completed_def stalls_def watch_def failed_engine_def
       fail_reason_def)

lemma watch_frame:
  "j \<noteq> i \<Longrightarrow> en_no_progress (watch e i q) j = en_no_progress e j"
  "j \<noteq> i \<Longrightarrow> en_last_fingerprint (watch e i q) j = en_last_fingerprint e j"
  "en_block_severity (watch e i q) = en_block_severity e"
  "en_no_progress_ticks (watch e i q) = en_no_progress_ticks e"
  by (simp_all add: watch_def)

lemma failed_engine_frame:
  "j \<noteq> mi_id mi \<Longrightarrow> en_no_progress (failed_engine mi e) j = en_no_progress e j"
  "j \<noteq> mi_id mi \<Longrightarrow> en_last_fingerprint (failed_engine mi e) j = en_last_fingerprint e j"
  "en_block_severity (failed_engine mi e) = en_block_severity e"
  "en_no_progress_ticks (failed_engine mi e) = en_no_progress_ticks e"
  by (simp_all add: failed_engine_def completed_def)

lemma completed_frame:
  "en_no_progress (completed i st r e) = en_no_progress e"
  "en_last_fingerprint (completed i st r e) = en_last_fingerprint e"
  "en_block_severity (completed i st r e) = en_block_severity e"
  "en_no_progress_ticks (completed i st r e) = en_no_progress_ticks e"
  by (simp_all add: completed_def)

lemma halt_mission_simps:
  "q_tasks (halt_mission i r q) = q_tasks q" "q_findings (halt_mission i r q) = q_findings q"
  "q_mission_halts (halt_mission i r q) = (q_mission_halts q)(i \<mapsto> r)"
  by (simp_all add: halt_mission_def)

lemma tick_mission_ok: "wf_sys s \<Longrightarrow> wf_sys (tick_mission tm mi s)"
proof (cases s)
  case (fields ms q e)
  assume "wf_sys s"
  then have w: "wf_sys (ms, q, e)" "wf_queue (swept_queue tm (mi_id mi) q)"
    by (auto simp: fields intro: wf_swept_queue wf_sysD)
  have "wf_sys (set_mission_status tm i st ms, q', e')" "wf_sys (ms, q', e')" if "wf_queue q'" for i st q' e'
    using w(1) that by (auto simp: wf_set_mission_status intro: wf_sys_queue)
  then show ?thesis
    using w(2) by (simp add: fields tick_mission_unfold check_no_progress_eq Let_def wf_halt_mission)
qed

lemma tick_mission_frame:
  assumes "wf_sys s" and "mi_id mi \<noteq> j"
  shows "mission_slice j (tick_mission tm mi s) = mission_slice j s"
proof (cases s)
  case (fields ms q e)
  have w: "wf_queue q" using assms(1) by (auto simp: fields intro: wf_sysD)
  have j: "j \<noteq> mi_id mi" using assms(2) by simp
  show ?thesis
    unfolding fields tick_mission_unfold Let_def check_no_progress_eq
    using j by (simp add: slice_eq swept_queue_frame [OF w j] set_status_frame [OF j] watch_frame
        failed_engine_frame completed_frame halt_mission_simps)
qed

interpretation ticking: keyed_loop mi_id "tick_mission tm" mission_slice wf_sys for tm
  by unfold_locales (auto intro: tick_mission_ok tick_mission_frame)

end
