(* ===== verification/Mission_Properties.thy ===== *)
theory Mission_Properties
  imports Engine Queue_Properties
begin

section \<open>What the mission engine guarantees\<close>

text \<open>
  The engine's contract: what a tick may conclude about a mission, that it leaves every other mission alone, that no
  idle mission runs forever, and that the claim path hands out nothing of a mission that is paused, cancelled or failed.
\<close>

subsection \<open>What a mission's rows determine\<close>

lemma queries_cong:
  assumes "filter (\<lambda>t. t_mission_id t = i) (q_tasks q) = filter (\<lambda>t. t_mission_id t = i) (q_tasks q')"
    and "filter (\<lambda>f. f_mission_id f = i) (q_findings q) = filter (\<lambda>f. f_mission_id f = i) (q_findings q')"
  shows "mission_done i q = mission_done i q'" "list_tasks i q = list_tasks i q'"
    "findings i st q = findings i st q'" "blocking_finding_open e i q = blocking_finding_open e i q'"
    "progress_fingerprint i q = progress_fingerprint i q'"
proof -
  show l: "list_tasks i q = list_tasks i q'" by (simp add: list_tasks_def assms(1))
  show "mission_done i q = mission_done i q'" by (simp add: mission_done_def assms(1))
  have f: "findings i st q = findings i st q'" for st
  proof -
    have "filter (\<lambda>f. f_mission_id f = i \<and> (st = '''' \<or> f_status f = st)) fs =
        filter (\<lambda>f. st = '''' \<or> f_status f = st) (filter (\<lambda>f. f_mission_id f = i) fs)" for fs :: "finding list"
      by (simp add: conj_commute)
    then show ?thesis unfolding findings_def using assms(2) by (simp only:)
  qed
  then show "findings i st q = findings i st q'" .
  show "blocking_finding_open e i q = blocking_finding_open e i q'" by (simp add: blocking_finding_open_def f)
  show "progress_fingerprint i q = progress_fingerprint i q'" by (simp add: progress_fingerprint_def l f)
qed

lemma slice_queries:
  assumes "mission_slice i (ms, q, e) = mission_slice i (ms', q', e')"
  shows "mission_done i q = mission_done i q'" "list_tasks i q = list_tasks i q'"
    "blocking_finding_open e i q = blocking_finding_open e' i q'"
    "progress_fingerprint i q = progress_fingerprint i q'"
  using assms queries_cong [of i q q'] by (simp_all add: slice_eq) (simp add: blocking_finding_open_def)

definition status_of :: "int \<Rightarrow> mstore \<Rightarrow> string list" where
  "status_of i ms = map mi_status (filter (\<lambda>m. mi_id m = i) (ms_missions ms))"

lemma status_of_row:
  "mission_table.keyed (ms_missions ms) \<Longrightarrow> m \<in> set (ms_missions ms) \<Longrightarrow> status_of (mi_id m) ms = [mi_status m]"
  by (simp add: status_of_def mission_table.filter_keyed)

lemma status_of_set:
  "status_of i (set_mission_status tm i st ms) = map (\<lambda>_. st) (status_of i ms)"
proof -
  have "filter (\<lambda>m. mi_id m = i) (ms_missions (set_mission_status tm i st ms)) =
      sql_update (\<lambda>m. mi_id m = i) (\<lambda>m. m\<lparr>mi_status := st, mi_updated_ts := tm\<rparr>)
        (filter (\<lambda>m. mi_id m = i) (ms_missions ms))"
    by (simp add: set_mission_status_def update_mission_def filter_sql_update_same)
  then show ?thesis by (simp add: status_of_def sql_update_def)
qed

lemma running_distinct: "mission_table.keyed (ms_missions ms) \<Longrightarrow> distinct (map mi_id (running_missions ms))"
proof -
  assume k: "mission_table.keyed (ms_missions ms)"
  have "distinct (map mi_id (filter p (ms_missions ms)))" for p
    using mission_table.keyed_filter [OF k] by (simp add: mission_table.keyed_def)
  then show ?thesis by (simp add: running_missions_def distinct_map) 
qed

lemma set_running_missions: "set (running_missions ms) = {m \<in> set (ms_missions ms). mi_status m = ''running''}"
  by (simp add: running_missions_def)

lemma tick_own:
  assumes "wf_sys s" and "mi \<in> set (ms_missions (fst s))" and "mi_status mi = ''running''"
  obtains s' where "wf_sys s'" "mission_slice (mi_id mi) s' = mission_slice (mi_id mi) s"
    "mission_slice (mi_id mi) (tick tm s) = mission_slice (mi_id mi) (tick_mission tm mi s')"
proof -
  obtain ms q e where s: "s = (ms, q, e)" by (cases s)
  have "distinct (map mi_id (running_missions (fst s)))"
    using assms(1) by (simp add: s running_distinct wf_sysD)
  moreover have "mi \<in> set (running_missions (fst s))" using assms(2,3) by (simp add: set_running_missions)
  ultimately show thesis using ticking.fold_one [OF assms(1)] that unfolding tick_def by blast
qed

lemma wf_tick: "wf_sys s \<Longrightarrow> wf_sys (tick tm s)"
  by (simp add: tick_def ticking.fold_ok)

lemma tick_other:
  assumes "wf_sys s" and "''running'' \<notin> set (status_of i (fst s))"
  shows "mission_slice i (tick tm s) = mission_slice i s"
  unfolding tick_def
  by (rule ticking.fold_other [OF assms(1)]) (use assms(2) in \<open>force simp: set_running_missions status_of_def\<close>)

subsection \<open>What a tick may conclude\<close>

lemma tick_decides:
  assumes "wf_sys (ms, q, e)" and "mi \<in> set (ms_missions ms)" and "mi_status mi = ''running''"
    and "tick tm (ms, q, e) = (ms', q', e')"
  shows "let i = mi_id mi; drained = mission_done i q'; blocked = blocking_finding_open e i q' in
    status_of i ms' = [''running''] \<and> \<not> drained \<or>
    status_of i ms' = [''done''] \<and> drained \<and> \<not> blocked \<or>
    status_of i ms' = [''needs-review''] \<and> drained \<and> blocked \<or>
    status_of i ms' = [''failed''] \<and> \<not> drained \<and> q_mission_halts q' i \<noteq> None \<and>
      snd (progress_fingerprint i q') = 0"
proof -
  let ?i = "mi_id mi"
  obtain s1 where s1: "wf_sys s1" "mission_slice ?i s1 = mission_slice ?i (ms, q, e)"
    "mission_slice ?i (ms', q', e') = mission_slice ?i (tick_mission tm mi s1)"
    using tick_own [OF assms(1), of mi tm] assms(2,3) unfolding assms(4) by auto
  obtain ms1 q1 e1 where s1_def: "s1 = (ms1, q1, e1)" by (cases s1)
  obtain ms2 q2 e2 where r: "tick_mission tm mi s1 = (ms2, q2, e2)" by (cases "tick_mission tm mi s1")
  have run: "status_of ?i ms1 = [''running'']"
    using s1(2) status_of_row [OF wf_sysD(2) [OF assms(1)] assms(2)] assms(3)
    by (simp add: s1_def slice_eq status_of_def)
  have sev: "en_block_severity e1 = en_block_severity e" using s1(2) by (simp add: s1_def slice_eq)
  have eqs: "status_of ?i ms' = status_of ?i ms2" "q_mission_halts q' ?i = q_mission_halts q2 ?i"
      "mission_done ?i q' = mission_done ?i q2" "progress_fingerprint ?i q' = progress_fingerprint ?i q2"
      "blocking_finding_open e ?i q' = blocking_finding_open e ?i q2"
    using s1(3) slice_queries [OF s1(3) [unfolded r]] queries_cong(4) [of ?i q' q2 e]
    by (simp_all add: r slice_eq status_of_def)
  let ?w = "swept_queue tm ?i q1"
  have h: "mission_done ?i (halt_mission ?i x ?w) = mission_done ?i ?w"
      "progress_fingerprint ?i (halt_mission ?i x ?w) = progress_fingerprint ?i ?w" for x
    by (rule queries_cong; simp add: halt_mission_simps)+
  have b: "blocking_finding_open e1 ?i ?w = blocking_finding_open e ?i ?w"
    by (simp add: blocking_finding_open_def sev)
  show ?thesis
    using r run unfolding s1_def tick_mission_unfold Let_def check_no_progress_eq eqs b
    by (auto simp: status_of_set h halt_mission_simps stalls_def split: if_splits)
qed

text \<open>
  C5. A tick certifies a mission only when its queue is drained and no blocking finding is open. Of a running mission
  it decides from the queue it leaves: the mission stays running when the queue is not drained; it is done when the queue is drained
  and no open finding reaches the blocking severity; it needs review when one does; it has failed only when the queue is
  not drained, nothing is claimed and the queue is halted for it.
\<close>

theorem tick_outcome:
  assumes "wf_sys (ms, q, e)" and "mi \<in> set (ms_missions ms)" and "mi_status mi = ''running''"
    and "tick tm (ms, q, e) = (ms', q', e')"
  shows "let i = mi_id mi; drained = mission_done i q'; blocked = blocking_finding_open e i q' in
    status_of i ms' = [''running''] \<and> \<not> drained \<or>
    status_of i ms' = [''done''] \<and> drained \<and> \<not> blocked \<or>
    status_of i ms' = [''needs-review''] \<and> drained \<and> blocked \<or>
    status_of i ms' = [''failed''] \<and> \<not> drained \<and> q_mission_halts q' i \<noteq> None \<and>
      snd (progress_fingerprint i q') = 0"
  by (rule tick_decides [OF assms])

lemma tick_idle:
  assumes "wf_sys (ms, q, e)" and "\<forall>m\<in>set (ms_missions ms). mi_id m = i \<longrightarrow> mi_status m \<noteq> ''running''"
    and "tick tm (ms, q, e) = (ms', q', e')"
  shows "filter (\<lambda>m. mi_id m = i) (ms_missions ms') = filter (\<lambda>m. mi_id m = i) (ms_missions ms) \<and>
    filter (\<lambda>t. t_mission_id t = i) (q_tasks q') = filter (\<lambda>t. t_mission_id t = i) (q_tasks q) \<and>
    filter (\<lambda>f. f_mission_id f = i) (q_findings q') = filter (\<lambda>f. f_mission_id f = i) (q_findings q) \<and>
    q_mission_halts q' i = q_mission_halts q i \<and> en_no_progress e' i = en_no_progress e i"
proof -
  have "''running'' \<notin> set (status_of i (fst (ms, q, e)))" using assms(2) by (auto simp: status_of_def)
  from tick_other [OF assms(1) this, of tm] show ?thesis unfolding assms(3) slice_eq by blast
qed

text \<open>
  A tick leaves alone every mission that is not running: its row, its tasks, its findings, its halt mark and the engine's
  counters for it are the same after the tick, so a paused, cancelled, parked or finished mission is never
  promoted, swept, failed or certified.
\<close>

theorem tick_ignores_idle:
  assumes "wf_sys (ms, q, e)" and "\<forall>m\<in>set (ms_missions ms). mi_id m = i \<longrightarrow> mi_status m \<noteq> ''running''"
    and "tick tm (ms, q, e) = (ms', q', e')"
  shows "filter (\<lambda>m. mi_id m = i) (ms_missions ms') = filter (\<lambda>m. mi_id m = i) (ms_missions ms) \<and>
    filter (\<lambda>t. t_mission_id t = i) (q_tasks q') = filter (\<lambda>t. t_mission_id t = i) (q_tasks q) \<and>
    filter (\<lambda>f. f_mission_id f = i) (q_findings q') = filter (\<lambda>f. f_mission_id f = i) (q_findings q) \<and>
    q_mission_halts q' i = q_mission_halts q i \<and> en_no_progress e' i = en_no_progress e i"
  by (rule tick_idle [OF assms])

subsection \<open>No idle mission runs forever\<close>

definition open_tasks :: "int \<Rightarrow> qstore \<Rightarrow> nat" where
  "open_tasks i q = length (filter (\<lambda>t. open_status (t_status t)) (filter (\<lambda>t. t_mission_id t = i) (q_tasks q)))"

definition unclaimed :: "int \<Rightarrow> qstore \<Rightarrow> bool" where
  "unclaimed i q \<longleftrightarrow> (\<forall>t\<in>set (filter (\<lambda>t. t_mission_id t = i) (q_tasks q)). t_status t \<noteq> Claimed)"

definition patience :: "int \<Rightarrow> qstore \<Rightarrow> engine \<Rightarrow> nat" where
  "patience i q e =
     (if fst (progress_fingerprint i q) \<noteq> en_last_fingerprint e i then Suc (nat (en_no_progress_ticks e))
      else nat (en_no_progress_ticks e - en_no_progress e i))"

lemma patience_le: "0 \<le> en_no_progress e i \<Longrightarrow> patience i q e \<le> Suc (nat (en_no_progress_ticks e))"
proof -
  assume "0 \<le> en_no_progress e i"
  then have "nat (en_no_progress_ticks e - en_no_progress e i) \<le> nat (en_no_progress_ticks e)"
    by (intro nat_mono) simp
  then show ?thesis by (simp add: patience_def)
qed

definition fuel :: "int \<Rightarrow> qstore \<Rightarrow> engine \<Rightarrow> nat" where
  "fuel i q e = open_tasks i q * (nat (en_no_progress_ticks e) + 2) + patience i q e"

lemma slice_fuel:
  assumes "mission_slice i (ms, q, e) = mission_slice i (ms', q', e')"
  shows "fuel i q e = fuel i q' e'" "unclaimed i q = unclaimed i q'"
  using assms slice_queries(4) [OF assms]
  by (simp_all add: slice_eq fuel_def open_tasks_def patience_def unclaimed_def)

lemma filter_map_le:
  assumes "\<And>x. x \<in> set xs \<Longrightarrow> P (g x) \<Longrightarrow> P x"
  shows "length (filter P (map g xs)) \<le> length (filter P xs)"
    and "y \<in> set xs \<Longrightarrow> P y \<Longrightarrow> \<not> P (g y) \<Longrightarrow> length (filter P (map g xs)) < length (filter P xs)"
proof -
  have le: "length (filter P (map g ys)) \<le> length (filter P ys)" if "set ys \<subseteq> set xs" for ys
    using that assms by (induction ys) auto
  from le [of xs] show "length (filter P (map g xs)) \<le> length (filter P xs)" by simp
  assume y: "y \<in> set xs" "P y" "\<not> P (g y)"
  then obtain as bs where xs: "xs = as @ y # bs" by (auto simp: in_set_conv_decomp)
  have "length (filter P (map g as)) \<le> length (filter P as)" "length (filter P (map g bs)) \<le> length (filter P bs)"
    using le [of as] le [of bs] by (auto simp: xs)
  then show "length (filter P (map g xs)) < length (filter P xs)" using y by (simp add: xs)
qed

text \<open>What the promote-and-sweep half of a tick does to the tasks of its own mission, row by row.\<close>

definition advance :: "int \<Rightarrow> qstore \<Rightarrow> task \<Rightarrow> task" where
  "advance i q t =
     (let t' = (if promotable i q t then t\<lparr>t_status := Ready\<rparr> else t) in
      if swept i (snd (promote_ready i q)) t' then cancel_row t' else t')"

lemma swept_queue_rows:
  assumes "wf_queue q"
  shows "q_tasks (swept_queue tm i q) = map (advance i q) (q_tasks q)"
  unfolding swept_queue_def sweep_tasks [OF wf_promote_ready [OF assms]]
  by (simp add: promote_ready_batch [OF assms] sql_update_def advance_def Let_def)

lemma advance_simps [simp]:
  "t_mission_id (advance i q t) = t_mission_id t"
  by (simp add: advance_def Let_def)

lemma advance_open: "open_status (t_status (advance i q t)) \<Longrightarrow> open_status (t_status t)"
  by (auto simp: advance_def Let_def promotable_def open_status_def split: if_splits)

lemma advance_unclaimed: "t_status (advance i q t) = Claimed \<Longrightarrow> t_status t = Claimed"
  by (auto simp: advance_def Let_def split: if_splits)

lemma swept_queue_own:
  assumes "wf_queue q"
  shows "filter (\<lambda>t. t_mission_id t = i) (q_tasks (swept_queue tm i q)) =
    map (advance i q) (filter (\<lambda>t. t_mission_id t = i) (q_tasks q))"
  unfolding swept_queue_rows [OF assms] by (simp add: filter_map o_def)

lemma unclaimed_swept: "wf_queue q \<Longrightarrow> unclaimed i q \<Longrightarrow> unclaimed i (swept_queue tm i q)"
  unfolding unclaimed_def swept_queue_own using advance_unclaimed by auto

lemma open_tasks_swept: "wf_queue q \<Longrightarrow> open_tasks i (swept_queue tm i q) \<le> open_tasks i q"
  unfolding open_tasks_def swept_queue_own by (rule filter_map_le(1)) (rule advance_open)

lemma swept_queue_quiet:
  assumes "wf_queue q" and "open_tasks i (swept_queue tm i q) = open_tasks i q"
  shows "progress_fingerprint i (swept_queue tm i q) = (fst (progress_fingerprint i q),
    snd (progress_fingerprint i (swept_queue tm i q)))"
proof -
  let ?q = "snd (promote_ready i q)" and ?ts = "filter (\<lambda>t. t_mission_id t = i) (q_tasks q)"
  have quiet: "\<not> swept i ?q (if promotable i q t then t\<lparr>t_status := Ready\<rparr> else t)" if t: "t \<in> set ?ts" for t
  proof
    assume s: "swept i ?q (if promotable i q t then t\<lparr>t_status := Ready\<rparr> else t)"
    then have "t_status t = Pending" "\<not> promotable i q t"
      by (auto simp: swept_def dead_task_def split: if_splits)
    then have "open_status (t_status t)" "\<not> open_status (t_status (advance i q t))"
      using s by (simp_all add: open_status_def advance_def Let_def)
    then have "open_tasks i (swept_queue tm i q) < open_tasks i q"
      unfolding open_tasks_def swept_queue_own [OF assms(1)]
      by (intro filter_map_le(2) [OF advance_open t])
    with assms(2) show False by simp
  qed
  then have adv: "advance i q t = (if promotable i q t then t\<lparr>t_status := Ready\<rparr> else t)" if "t \<in> set ?ts" for t
    using that by (simp add: advance_def Let_def)
  have "\<not> (\<exists>t\<in>set (q_tasks ?q). swept i ?q t)"
  proof
    assume "\<exists>t\<in>set (q_tasks ?q). swept i ?q t"
    then obtain t where "t \<in> set (q_tasks q)" "swept i ?q (if promotable i q t then t\<lparr>t_status := Ready\<rparr> else t)"
      by (auto simp: promote_ready_batch [OF assms(1)] bex_sql_update)
    moreover from this have "t_mission_id t = i" by (auto simp: swept_def split: if_splits)
    ultimately show False using quiet by simp
  qed
  then have sq: "swept_queue tm i q = ?q" unfolding swept_queue_def by (rule sweep_skip)
  have same_term: "length (filter (\<lambda>t. terminal (t_status t)) (map (advance i q) ?ts)) =
      length (filter (\<lambda>t. terminal (t_status t)) ?ts)"
  proof -
    have "terminal (t_status (advance i q t)) = terminal (t_status t)" if "t \<in> set ?ts" for t
      unfolding adv [OF that] by (auto simp: promotable_def terminal_def)
    then have "filter (\<lambda>t. terminal (t_status (advance i q t))) ?ts = filter (\<lambda>t. terminal (t_status t)) ?ts"
      by (rule filter_cong [OF refl])
    then show ?thesis by (simp add: filter_map o_def)
  qed
  have f: "findings i ''open'' ?q = findings i ''open'' q"
    by (simp add: findings_def promote_ready_batch [OF assms(1)])
  have len: "length (filter p (sort_key t_id xs)) = length (filter p xs)" for p :: "task \<Rightarrow> bool" and xs
    by (metis filter_sort length_sort)
  show ?thesis
    using same_term unfolding progress_fingerprint_def Let_def list_tasks_def sq [symmetric] swept_queue_own [OF assms(1)]
    by (simp add: len f [unfolded sq [symmetric]])
qed

lemma unclaimed_count: "unclaimed i q \<Longrightarrow> snd (progress_fingerprint i q) = 0"
  by (auto simp: progress_fingerprint_def Let_def unclaimed_def filter_empty_conv set_list_tasks)

lemma watch_fuel:
  assumes "wf_queue q" "unclaimed i q" "0 < en_no_progress_ticks e" "0 \<le> en_no_progress e i"
    and w: "w = swept_queue tm i q" and ns: "\<not> stalls e i w"
  shows "fuel i w (watch e i w) < fuel i q e" and "0 \<le> en_no_progress (watch e i w) i"
proof -
  let ?N = "nat (en_no_progress_ticks e)"
  have ticks: "en_no_progress_ticks (watch e i w) = en_no_progress_ticks e" by (rule watch_frame)
  have claimed: "snd (progress_fingerprint i w) = 0"
    using unclaimed_swept [OF assms(1,2)] unclaimed_count by (simp add: w)
  show np: "0 \<le> en_no_progress (watch e i w) i" using assms(4) by (simp add: watch_def)
  show "fuel i w (watch e i w) < fuel i q e"
  proof (cases "open_tasks i w = open_tasks i q")
    case True
    then have fp: "fst (progress_fingerprint i w) = fst (progress_fingerprint i q)"
      using swept_queue_quiet [OF assms(1), of i tm] by (simp add: w) (metis fst_conv)
    have "patience i w (watch e i w) < patience i q e"
      using assms(3,4) ns claimed by (auto simp: patience_def watch_def stalls_def fp)
    then show ?thesis by (simp add: fuel_def True ticks)
  next
    case False
    then have lt: "Suc (open_tasks i w) \<le> open_tasks i q"
      using open_tasks_swept [OF assms(1), of i tm] by (simp add: w)
    have "patience i w (watch e i w) \<le> Suc ?N" using patience_le [OF np] by (simp add: ticks)
    then have "fuel i w (watch e i w) < Suc (open_tasks i w) * (?N + 2)" by (simp add: fuel_def ticks)
    also have "\<dots> \<le> open_tasks i q * (?N + 2)" using lt by (rule mult_le_mono1)
    finally show ?thesis by (simp add: fuel_def)
  qed
qed

definition waiting :: "int \<Rightarrow> sys \<Rightarrow> bool" where
  "waiting i s \<longleftrightarrow> (let (ms, q, e) = s in
     status_of i ms = [''running''] \<and> unclaimed i q \<and> 0 < en_no_progress_ticks e \<and> 0 \<le> en_no_progress e i)"

definition sys_fuel :: "int \<Rightarrow> sys \<Rightarrow> nat" where
  "sys_fuel i s = (let (ms, q, e) = s in fuel i q e)"

lemma slice_waiting:
  "mission_slice i s = mission_slice i s' \<Longrightarrow> waiting i s = waiting i s' \<and> sys_fuel i s = sys_fuel i s'"
proof -
  obtain ms q e ms' q' e' where s: "s = (ms, q, e)" "s' = (ms', q', e')" by (cases s; cases s') blast
  assume a: "mission_slice i s = mission_slice i s'"
  note sl = a [unfolded s]
  have "status_of i ms = status_of i ms'" "en_no_progress_ticks e = en_no_progress_ticks e'"
    "en_no_progress e i = en_no_progress e' i"
    using sl unfolding slice_eq status_of_def by metis+
  with slice_fuel [OF sl] show ?thesis by (simp add: s waiting_def sys_fuel_def)
qed

lemma tick_mission_waiting:
  assumes "wf_sys s" "waiting i s" "mi_id mi = i" "status_of i (fst (tick_mission tm mi s)) = [''running'']"
  shows "waiting i (tick_mission tm mi s) \<and> sys_fuel i (tick_mission tm mi s) < sys_fuel i s"
proof -
  obtain ms q e where s: "s = (ms, q, e)" by (cases s)
  have w: "wf_queue q" using assms(1) by (auto simp: s intro: wf_sysD)
  have h: "status_of i ms = [''running'']" "unclaimed i q" "0 < en_no_progress_ticks e" "0 \<le> en_no_progress e i"
    using assms(2) by (simp_all add: s waiting_def)
  let ?w = "swept_queue tm i q"
  have step: "tick_mission tm mi s = (ms, ?w, watch e i ?w)" and ns: "\<not> stalls e i ?w"
    using assms(4) h(1) unfolding s tick_mission_unfold check_no_progress_eq Let_def assms(3)
    by (auto simp: status_of_set split: if_splits)
  show ?thesis
    using watch_fuel [OF w h(2,3,4) refl ns] unclaimed_swept [OF w h(2)] h
    unfolding step by (simp add: waiting_def sys_fuel_def s watch_frame)
qed

lemma tick_waiting:
  assumes "wf_sys s" "waiting i s" "status_of i (fst (tick tm s)) = [''running'']"
  shows "waiting i (tick tm s) \<and> sys_fuel i (tick tm s) < sys_fuel i s"
proof -
  have "status_of i (fst s) = [''running'']" using assms(2) by (cases s) (simp add: waiting_def)
  then obtain mi where mi: "mi \<in> set (ms_missions (fst s))" "mi_id mi = i" "mi_status mi = ''running''"
    by (fastforce simp: status_of_def filter_eq_Cons_iff)
  obtain s' where s': "wf_sys s'" "mission_slice i s' = mission_slice i s"
      "mission_slice i (tick tm s) = mission_slice i (tick_mission tm mi s')"
    using tick_own [OF assms(1) mi(1,3), of tm] mi(2) by auto
  have "status_of i (fst (tick_mission tm mi s')) = status_of i (fst (tick tm s))"
    using s'(3) by (cases "tick tm s"; cases "tick_mission tm mi s'") (simp add: slice_eq status_of_def)
  then show ?thesis
    using tick_mission_waiting [OF s'(1) _ mi(2), of tm] slice_waiting [OF s'(2)] slice_waiting [OF s'(3)] assms(2,3)
    by simp
qed

lemma ticks_waiting:
  "wf_sys s \<Longrightarrow> waiting i s \<Longrightarrow> status_of i (fst (fold tick tms s)) = [''running''] \<Longrightarrow>
     length tms \<le> sys_fuel i s"
proof (induction tms arbitrary: s)
  case (Cons tm tms)
  have run: "status_of i (fst (tick tm s)) = [''running'']"
  proof (rule ccontr)
    assume n: "status_of i (fst (tick tm s)) \<noteq> [''running'']"
    have k: "mission_table.keyed (ms_missions (fst x))" if "wf_sys x" for x
      using that by (cases x) (simp add: wf_sys_def)
    have "status_of i (fst (fold tick ts x)) = status_of i (fst x)" if "wf_sys x" "''running'' \<notin> set (status_of i (fst x))" for ts x
      using that
    proof (induction ts arbitrary: x)
      case (Cons t ts)
      have "mission_slice i (tick t x) = mission_slice i x" by (rule tick_other [OF Cons.prems])
      then have "status_of i (fst (tick t x)) = status_of i (fst x)"
        by (cases "tick t x"; cases x) (simp add: slice_eq status_of_def)
      then show ?case using Cons.IH [OF wf_tick [OF Cons.prems(1)], of t] Cons.prems(2) by simp
    qed simp
    moreover have "''running'' \<notin> set (status_of i (fst (tick tm s)))"
    proof
      assume "''running'' \<in> set (status_of i (fst (tick tm s)))"
      then obtain m where "m \<in> set (ms_missions (fst (tick tm s)))" "mi_id m = i" "mi_status m = ''running''"
        by (auto simp: status_of_def)
      then show False using n status_of_row [OF k [OF wf_tick [OF Cons.prems(1)]]] by fastforce
    qed
    ultimately show False using Cons.prems(3) n wf_tick [OF Cons.prems(1)] by simp
  qed
  from tick_waiting [OF Cons.prems(1,2) run] show ?case
    using Cons.IH [OF wf_tick [OF Cons.prems(1)], of tm] Cons.prems(3) by simp
qed simp

text \<open>
  C23. No idle mission runs forever. A running mission none of whose tasks is claimed leaves the running state
  within a bounded number of ticks, at most one more than \<open>(open tasks) * (N + 2) + N + 1\<close> for a backstop of \<open>N\<close>
  ticks, when nothing but the engine acts on it.
\<close>

theorem no_idle_mission_hangs:
  assumes "wf_sys (ms, q, e)" and "mi \<in> set (ms_missions ms)" and "mi_status mi = ''running''"
    and "\<forall>t\<in>set (q_tasks q). t_mission_id t = mi_id mi \<longrightarrow> t_status t \<noteq> Claimed"
    and "0 < en_no_progress_ticks e" and "0 \<le> en_no_progress e (mi_id mi)"
    and "(open_tasks (mi_id mi) q + 1) * (nat (en_no_progress_ticks e) + 2) \<le> length tms"
  shows "status_of (mi_id mi) (fst (fold tick tms (ms, q, e))) \<noteq> [''running'']"
proof
  let ?i = "mi_id mi"
  assume r: "status_of ?i (fst (fold tick tms (ms, q, e))) = [''running'']"
  have "waiting ?i (ms, q, e)"
    using assms(3-6) status_of_row [OF wf_sysD(2) [OF assms(1)] assms(2)] by (simp add: waiting_def unclaimed_def)
  from ticks_waiting [OF assms(1) this r] have "length tms \<le> fuel ?i q e" by (simp add: sys_fuel_def)
  moreover have "patience ?i q e \<le> Suc (nat (en_no_progress_ticks e))" by (rule patience_le [OF assms(6)])
  ultimately show False using assms(7) by (simp add: fuel_def)
qed

subsection \<open>An example system\<close>

definition ex_mission :: "int \<Rightarrow> string \<Rightarrow> mission" where
  "ex_mission i st = \<lparr>mi_id = i, mi_directive = ''build'', mi_status = st, mi_sprint = 1, mi_requires_review = False,
     mi_created_ts = 1, mi_updated_ts = 1, mi_repo = '''', mi_base = '''', mi_branch = '''', mi_pr_url = '''',
     mi_review_rounds = 0, mi_review_watermark = '''', mi_review_parked = False, mi_record_story = False\<rparr>"

definition ex_missions :: mstore where
  "ex_missions = empty_mstore\<lparr>ms_missions := [ex_mission 7 ''running'', ex_mission 8 ''paused''], ms_mission_seq := 8\<rparr>"

definition ex_done_queue :: qstore where
  "ex_done_queue = empty_qstore\<lparr>q_tasks := [ex_task 1 ''a'' Done []]\<rparr>"

lemma wf_ex_done_queue: "wf_queue ex_done_queue"
  by (simp add: ex_done_queue_def ex_task_def empty_qstore_def wf_queue_def wf_tasks_def task_table.keyed_def
      mission_key_def wf_task_def)

lemma wf_ex_sys: "wf_queue q \<Longrightarrow> wf_sys (ex_missions, q, e)"
  by (simp add: wf_sys_def ex_missions_def empty_mstore_def ex_mission_def mission_table.keyed_def)

lemma ex_missions_rows: "set (ms_missions ex_missions) = {ex_mission 7 ''running'', ex_mission 8 ''paused''}"
  by (simp add: ex_missions_def)

lemma ex_running: "ex_mission 7 ''running'' \<in> set (ms_missions ex_missions)" "mi_status (ex_mission 7 ''running'') = ''running''"
    "mi_id (ex_mission 7 ''running'') = 7"
  by (simp_all add: ex_missions_rows) (simp_all add: ex_mission_def)

theorem tick_outcome_witness:
  "status_of 7 (fst (tick 9 (ex_missions, ex_done_queue, new_engine))) \<noteq> []"
proof -
  obtain ms' q' e' where t: "tick 9 (ex_missions, ex_done_queue, new_engine) = (ms', q', e')"
    by (cases "tick 9 (ex_missions, ex_done_queue, new_engine)")
  show ?thesis
    using tick_outcome [OF wf_ex_sys [OF wf_ex_done_queue] ex_running(1,2) t]
    by (auto simp: t Let_def ex_running(3))
qed

theorem tick_ignores_idle_witness:
  "filter (\<lambda>m. mi_id m = 8) (ms_missions (fst (tick 9 (ex_missions, ex_done_queue, new_engine)))) = [ex_mission 8 ''paused'']"
proof -
  obtain ms' q' e' where t: "tick 9 (ex_missions, ex_done_queue, new_engine) = (ms', q', e')"
    by (cases "tick 9 (ex_missions, ex_done_queue, new_engine)")
  have n: "\<forall>m\<in>set (ms_missions ex_missions). mi_id m = 8 \<longrightarrow> mi_status m \<noteq> ''running''"
    by (simp add: ex_missions_rows) (simp add: ex_mission_def)
  have "filter (\<lambda>m. mi_id m = 8) (ms_missions ex_missions) = [ex_mission 8 ''paused'']"
    by (simp add: ex_missions_def ex_mission_def)
  then show ?thesis
    using tick_ignores_idle [OF wf_ex_sys [OF wf_ex_done_queue] n t] by (simp add: t)
qed

theorem no_idle_mission_hangs_witness:
  "status_of 7 (fst (fold tick (replicate 484 9) (ex_missions, ex_done_queue, new_engine))) \<noteq> [''running'']"
proof -
  have "\<forall>t\<in>set (q_tasks ex_done_queue). t_mission_id t = mi_id (ex_mission 7 ''running'') \<longrightarrow> t_status t \<noteq> Claimed"
    by (simp add: ex_done_queue_def ex_task_def)
  moreover have "(open_tasks 7 ex_done_queue + 1) * (nat (en_no_progress_ticks new_engine) + 2) \<le> length (replicate 484 9)"
    by (simp add: open_tasks_def ex_done_queue_def ex_task_def new_engine_def open_status_def)
  ultimately show ?thesis
    using no_idle_mission_hangs [OF wf_ex_sys [OF wf_ex_done_queue] ex_running(1,2), of new_engine "replicate 484 9"]
    by (simp add: ex_running(3)) (simp add: new_engine_def)
qed

end
