(* ===== verification/Plans.thy ===== *)
theory Plans
  imports Mission_Properties
begin

section \<open>Plans: expansion, storage and reading back\<close>

text \<open>
  What \<^verbatim>\<open>planToTasks\<close> makes of a plan, what \<^verbatim>\<open>CreateMission\<close> leaves on each of its branches, and the two
  textual encodings of the mission store read back: dependency lists and change-request numbers.
\<close>

subsection \<open>Task keys\<close>

lemma itoa_pos: "0 < i \<Longrightarrow> itoa i = itoa_nat (nat i)"
  by (simp add: itoa_def)

lemma hash_split:
  assumes "a @ c # x = b @ c # y" "c \<notin> set x" "c \<notin> set y"
  shows "a = b \<and> x = y"
proof -
  have last: "takeWhile (\<lambda>z. z \<noteq> c) (rev (a @ c # x)) = rev x" if "c \<notin> set x" for a x
    using that by (auto simp: takeWhile_append)
  have "rev x = rev y" using last [OF assms(2), of a] last [OF assms(3), of b] assms(1) by simp
  then show ?thesis using assms(1) by simp
qed

lemma task_key_inj: "task_key a i = task_key b j \<Longrightarrow> 0 < i \<Longrightarrow> 0 < j \<Longrightarrow> a = b \<and> i = j"
proof -
  assume eq: "task_key a i = task_key b j" and pos: "0 < i" "0 < j"
  have split: "a @ CHR ''#'' # itoa_nat (nat i) = b @ CHR ''#'' # itoa_nat (nat j)"
    using eq pos by (simp add: task_key_def itoa_pos)
  have no: "CHR ''#'' \<notin> set (itoa_nat n)" for n by (rule itoa_nat_no) simp
  note h = hash_split [OF split no no]
  from itoa_nat_inj [OF conjunct2 [OF h]] conjunct1 [OF h] pos show ?thesis by simp
qed

lemma phase_count_pos: "0 < phase_count c"
  by (simp add: phase_count_def)

lemma set_phase_keys: "set (phase_keys p) = task_key (ph_name p) ` {1..phase_count (ph_count p)}"
  by (simp add: phase_keys_def)

lemma distinct_phase_keys: "distinct (phase_keys p)"
  unfolding phase_keys_def distinct_map by (auto intro!: inj_onI dest!: task_key_inj)

lemma phase_keys_disjoint: "ph_name p \<noteq> ph_name r \<Longrightarrow> set (phase_keys p) \<inter> set (phase_keys r) = {}"
  by (auto simp: set_phase_keys dest!: task_key_inj)

lemma keys_by_phase_eq: "keys_by_phase plan n = concat (map phase_keys (filter (\<lambda>p. ph_name p = n) plan))"
proof -
  have "fold (\<lambda>p m. m(ph_name p := m (ph_name p) @ phase_keys p)) plan m n =
      m n @ concat (map phase_keys (filter (\<lambda>p. ph_name p = n) plan))" for m :: "string \<Rightarrow> string list"
    by (induction plan arbitrary: m) auto
  then show ?thesis by (simp add: keys_by_phase_def)
qed

lemma keys_of_phase_tasks: "map sp_key (phase_tasks keys p) = phase_keys p"
  by (simp add: phase_tasks_def Let_def phase_keys_def)

lemma keys_of_plan: "map sp_key (plan_to_tasks plan) = concat (map phase_keys plan)"
  by (simp add: plan_to_tasks_def map_concat keys_of_phase_tasks o_def)

lemma phase_keys_ne [simp]: "phase_keys p \<noteq> []"
  using phase_count_pos [of "ph_count p"] by (simp add: phase_keys_def)

lemma distinct_plan_keys: "distinct (map sp_key (plan_to_tasks plan)) \<longleftrightarrow> distinct (map ph_name plan)"
proof -
  have "distinct (concat (map phase_keys ps)) \<longleftrightarrow> distinct (map ph_name ps)" for ps
  proof (induction ps)
    case (Cons p ps)
    have "set (phase_keys p) \<inter> (\<Union>r\<in>set ps. set (phase_keys r)) = {} \<longleftrightarrow> ph_name p \<notin> ph_name ` set ps"
    proof
      assume d: "set (phase_keys p) \<inter> (\<Union>r\<in>set ps. set (phase_keys r)) = {}"
      show "ph_name p \<notin> ph_name ` set ps"
      proof
        assume "ph_name p \<in> ph_name ` set ps"
        then obtain r where r: "r \<in> set ps" "ph_name r = ph_name p" by auto
        have "task_key (ph_name p) 1 \<in> set (phase_keys p)" "task_key (ph_name p) 1 \<in> set (phase_keys r)"
          using phase_count_pos [of "ph_count p"] phase_count_pos [of "ph_count r"]
          by (auto simp: set_phase_keys r(2))
        with d r(1) show False by blast
      qed
    next
      assume "ph_name p \<notin> ph_name ` set ps"
      then show "set (phase_keys p) \<inter> (\<Union>r\<in>set ps. set (phase_keys r)) = {}"
        using phase_keys_disjoint by fastforce
    qed
    then show ?case using Cons.IH by (simp add: distinct_phase_keys conj_commute)
  qed simp
  then show ?thesis by (simp add: keys_of_plan)
qed

lemma deps_of_phases:
  "set (concat (map (keys_by_phase plan) ds)) =
     {task_key (ph_name d) i | d i. d \<in> set plan \<and> ph_name d \<in> set ds \<and> 1 \<le> i \<and> i \<le> phase_count (ph_count d)}"
proof (rule set_eqI)
  fix k
  have "k \<in> set (concat (map (keys_by_phase plan) ds)) \<longleftrightarrow>
      (\<exists>d\<in>set plan. ph_name d \<in> set ds \<and> k \<in> set (phase_keys d))"
    by (auto simp: keys_by_phase_eq)
  also have "\<dots> \<longleftrightarrow> (\<exists>d\<in>set plan. ph_name d \<in> set ds \<and>
      (\<exists>i. 1 \<le> i \<and> i \<le> phase_count (ph_count d) \<and> k = task_key (ph_name d) i))"
    by (simp add: set_phase_keys image_iff Bex_def conj_assoc)
  finally show "k \<in> set (concat (map (keys_by_phase plan) ds)) \<longleftrightarrow>
      k \<in> {task_key (ph_name d) i | d i. d \<in> set plan \<and> ph_name d \<in> set ds \<and> 1 \<le> i \<and> i \<le> phase_count (ph_count d)}"
    unfolding mem_Collect_eq by blast
qed

text \<open>
  A plan expands to its tasks with full fan-in. Every task belongs to one phase of the plan, is numbered from 1 to the
  phase's count (at least 1), carries the phase's role, instruction and verify command, and depends on exactly the tasks of all
  the phases its phase names, where a name that is no phase of the plan adds nothing; the keys are distinct exactly when the
  phase names are.
\<close>

theorem plan_expansion:
  "(distinct (map sp_key (plan_to_tasks plan)) \<longleftrightarrow> distinct (map ph_name plan)) \<and>
   sp_key ` set (plan_to_tasks plan) = {task_key (ph_name p) i | p i. p \<in> set plan \<and> 1 \<le> i \<and> i \<le> max 1 (ph_count p)} \<and>
   (\<forall>t\<in>set (plan_to_tasks plan). \<exists>p\<in>set plan. sp_title t = ph_name p \<and> sp_role t = ph_role p \<and>
      sp_instruction t = ph_instruction p \<and> sp_verify t = ph_verify p \<and>
      set (sp_depends_on t) = {task_key (ph_name d) i | d i. d \<in> set plan \<and> ph_name d \<in> set (ph_depends_on p) \<and>
        1 \<le> i \<and> i \<le> max 1 (ph_count d)})"
proof (intro conjI ballI)
  have mx: "phase_count c = max 1 c" for c by (simp add: phase_count_def)
  show "distinct (map sp_key (plan_to_tasks plan)) \<longleftrightarrow> distinct (map ph_name plan)" by (rule distinct_plan_keys)
  have "sp_key ` set (plan_to_tasks plan) = set (map sp_key (plan_to_tasks plan))" by simp
  then show "sp_key ` set (plan_to_tasks plan) = {task_key (ph_name p) i | p i. p \<in> set plan \<and> 1 \<le> i \<and> i \<le> max 1 (ph_count p)}"
    unfolding keys_of_plan by (auto simp: set_phase_keys mx) (rule exI, rule exI, rule conjI [OF refl], simp)
  fix t assume "t \<in> set (plan_to_tasks plan)"
  then obtain p where p: "p \<in> set plan" "t \<in> set (phase_tasks (keys_by_phase plan) p)"
    by (auto simp: plan_to_tasks_def)
  have "set (sp_depends_on t) = {task_key (ph_name d) i | d i. d \<in> set plan \<and> ph_name d \<in> set (ph_depends_on p) \<and>
        1 \<le> i \<and> i \<le> max 1 (ph_count d)}"
  proof -
    have "sp_depends_on t = concat (map (keys_by_phase plan) (ph_depends_on p))"
      using p(2) by (auto simp: phase_tasks_def Let_def)
    then show ?thesis by (simp only: deps_of_phases mx)
  qed
  with p show "\<exists>p\<in>set plan. sp_title t = ph_name p \<and> sp_role t = ph_role p \<and>
      sp_instruction t = ph_instruction p \<and> sp_verify t = ph_verify p \<and>
      set (sp_depends_on t) = {task_key (ph_name d) i | d i. d \<in> set plan \<and> ph_name d \<in> set (ph_depends_on p) \<and>
        1 \<le> i \<and> i \<le> max 1 (ph_count d)}"
    by (intro bexI [of _ p]) (auto simp: phase_tasks_def Let_def)
qed

subsection \<open>Enqueueing a plan\<close>

lemma enqueue_loop_ok:
  assumes "distinct (map sp_key sps)" and "\<forall>r\<in>set rows. t_mission_id r = m \<longrightarrow> t_key r \<notin> sp_key ` set sps"
  shows "\<exists>new. enqueue_loop clk i m sps rows = Inr (rows @ new) \<and> map t_key new = map sp_key sps \<and>
    map t_depends_on new = map sp_depends_on sps \<and> (\<forall>t\<in>set new. t_mission_id t = m \<and> t_status t = Pending)"
  using assms
proof (induction sps arbitrary: i rows)
  case (Cons sp sps)
  let ?t = "(task_of_spec m 0 (clk i) sp)\<lparr>t_id := sql_next_id t_id rows\<rparr>"
  have ins: "insert_task (task_of_spec m 0 (clk i) sp) rows = Inr (rows @ [?t])"
    using Cons.prems(2) by (auto simp: insert_task_def task_of_spec_def)
  have fresh: "\<forall>r\<in>set (rows @ [?t]). t_mission_id r = m \<longrightarrow> t_key r \<notin> sp_key ` set sps"
    using Cons.prems by (auto simp: task_of_spec_def)
  obtain new where "enqueue_loop clk (Suc i) m sps (rows @ [?t]) = Inr ((rows @ [?t]) @ new)"
    "map t_key new = map sp_key sps" "map t_depends_on new = map sp_depends_on sps"
    "\<forall>t\<in>set new. t_mission_id t = m \<and> t_status t = Pending"
    using Cons.IH [OF _ fresh, of "Suc i"] Cons.prems(1) by auto
  moreover have "t_key ?t = sp_key sp" "t_depends_on ?t = sp_depends_on sp" "t_mission_id ?t = m" "t_status ?t = Pending"
    by (simp_all add: task_of_spec_def)
  ultimately show ?case
    by (intro exI [of _ "?t # new"]) (simp only: enqueue_loop.simps ins sum.case, simp)
qed simp

lemma enqueue_loop_dup:
  assumes "\<not> distinct (map sp_key sps) \<or> (\<exists>r\<in>set rows. t_mission_id r = m \<and> t_key r \<in> sp_key ` set sps)"
  shows "\<exists>k. enqueue_loop clk i m sps rows = Inl (UniqueViolation m k)"
  using assms
proof (induction sps arbitrary: i rows)
  case (Cons sp sps)
  let ?t = "(task_of_spec m 0 (clk i) sp)\<lparr>t_id := sql_next_id t_id rows\<rparr>"
  show ?case
  proof (cases "\<exists>r\<in>set rows. t_mission_id r = m \<and> t_key r = sp_key sp")
    case True
    then show ?thesis by (auto simp: insert_task_def task_of_spec_def)
  next
    case False
    have "\<not> distinct (map sp_key sps) \<or> (\<exists>r\<in>set (rows @ [?t]). t_mission_id r = m \<and> t_key r \<in> sp_key ` set sps)"
      using Cons.prems False by (auto simp: task_of_spec_def)
    then obtain k where "enqueue_loop clk (Suc i) m sps (rows @ [?t]) = Inl (UniqueViolation m k)"
      using Cons.IH by blast
    moreover have "insert_task (task_of_spec m 0 (clk i) sp) rows = Inr (rows @ [?t])"
      using False by (auto simp: insert_task_def task_of_spec_def)
    ultimately show ?thesis by auto
  qed
qed simp

text \<open>
  Creating a mission, on every branch. An empty plan is refused and changes nothing. Otherwise the mission row is
  added, running, under a new id; with distinct phase names its tasks are enqueued, pending, with the keys of the
  expanded plan; with a repeated phase name the call fails on the queue's uniqueness constraint, no task is enqueued, and the running
  mission row stays behind.
\<close>

theorem create_mission_outcome:
  assumes "\<forall>t\<in>set (q_tasks q). t_mission_id t \<noteq> ms_mission_seq ms + 1"
    and "create_mission tm clk directive plan rr (ms, Some q) = ((mid, err), ms', Some q')"
  shows "if plan = [] then err = Some EmptyPlan \<and> ms' = ms \<and> q' = q
    else mid = ms_mission_seq ms + 1 \<and>
      (\<exists>row. ms_missions ms' = ms_missions ms @ [row] \<and> mi_id row = mid \<and> mi_status row = ''running'') \<and>
      (if distinct (map ph_name plan)
       then err = None \<and> (\<exists>new. q' = q\<lparr>q_tasks := q_tasks q @ new\<rparr> \<and> map t_key new = map sp_key (plan_to_tasks plan) \<and>
              (\<forall>t\<in>set new. t_mission_id t = mid \<and> t_status t = Pending))
       else (\<exists>k. err = Some (QueueError (UniqueViolation mid k))) \<and> q' = q)"
proof (cases "plan = []")
  case True
  then show ?thesis using assms(2) by (simp add: create_mission_def)
next
  case False
  let ?mid = "ms_mission_seq ms + 1" and ?sps = "plan_to_tasks plan"
  have row: "mid = ?mid \<and> (\<exists>row. ms_missions ms' = ms_missions ms @ [row] \<and> mi_id row = mid \<and> mi_status row = ''running'')"
    using assms(2) False by (auto simp: create_mission_def Let_def split: sum.splits)
  show ?thesis
  proof (cases "distinct (map ph_name plan)")
    case True
    then have "distinct (map sp_key ?sps)" by (simp add: distinct_plan_keys)
    then obtain new where new: "enqueue_loop clk 0 ?mid ?sps (q_tasks q) = Inr (q_tasks q @ new)"
        "map t_key new = map sp_key ?sps" "\<forall>t\<in>set new. t_mission_id t = ?mid \<and> t_status t = Pending"
      using enqueue_loop_ok [of ?sps "q_tasks q" ?mid clk 0] assms(1) by auto
    then have "err = None \<and> q' = q\<lparr>q_tasks := q_tasks q @ new\<rparr>"
      using assms(2) False by (auto simp: create_mission_def Let_def enqueue_def)
    then show ?thesis using row new False True by auto
  next
    case dup: False
    then have "\<not> distinct (map sp_key ?sps)" by (simp add: distinct_plan_keys)
    then obtain k where "enqueue_loop clk 0 ?mid ?sps (q_tasks q) = Inl (UniqueViolation ?mid k)"
      using enqueue_loop_dup [of ?sps "q_tasks q" ?mid clk 0] by blast
    then have "err = Some (QueueError (UniqueViolation ?mid k)) \<and> q' = q"
      using assms(2) False by (auto simp: create_mission_def Let_def enqueue_def)
    then show ?thesis using row False dup by auto
  qed
qed

definition ex_phase :: "string \<Rightarrow> string list \<Rightarrow> int \<Rightarrow> phase_spec" where
  "ex_phase n deps c = \<lparr>ph_name = n, ph_role = ''coder'', ph_program = '''', ph_instruction = ''do'', ph_depends_on = deps,
     ph_count = c, ph_verify = ''''\<rparr>"

definition ex_phases :: "phase_spec list" where
  "ex_phases = [ex_phase ''build'' [] 2, ex_phase ''test'' [''build'', ''gone''] 0]"

theorem plan_expansion_witness:
  "set (sp_depends_on (plan_to_tasks ex_phases ! 2)) = {task_key ''build'' 1, task_key ''build'' 2}"
proof -
  let ?t = "plan_to_tasks ex_phases ! 2"
  have t: "?t \<in> set (plan_to_tasks ex_phases)" "sp_title ?t = ''test''"
    by (simp_all add: plan_to_tasks_def phase_tasks_def Let_def ex_phases_def ex_phase_def phase_count_def
        phase_keys_def upto_rec1 numeral_eq_Suc)
  obtain p where p: "p \<in> set ex_phases" "sp_title ?t = ph_name p"
    "set (sp_depends_on ?t) = {task_key (ph_name d) i | d i. d \<in> set ex_phases \<and> ph_name d \<in> set (ph_depends_on p) \<and>
        1 \<le> i \<and> i \<le> max 1 (ph_count d)}"
    using plan_expansion [of ex_phases] t(1) by blast
  have "p = ex_phase ''test'' [''build'', ''gone''] 0"
    using p(1,2) t(2) by (auto simp: ex_phases_def ex_phase_def)
  then have b: "d \<in> set ex_phases \<and> ph_name d \<in> set (ph_depends_on p) \<longleftrightarrow> d = ex_phase ''build'' [] 2" for d
    by (auto simp: ex_phases_def ex_phase_def)
  have "k \<in> set (sp_depends_on ?t) \<longleftrightarrow> (\<exists>i. k = task_key ''build'' i \<and> 1 \<le> i \<and> i \<le> 2)" for k
  proof -
    have "k \<in> set (sp_depends_on ?t) \<longleftrightarrow> (\<exists>d i. k = task_key (ph_name d) i \<and>
        (d \<in> set ex_phases \<and> ph_name d \<in> set (ph_depends_on p)) \<and> 1 \<le> i \<and> i \<le> max 1 (ph_count d))"
      unfolding p(3) by simp
    then show ?thesis unfolding b by (simp add: ex_phase_def)
  qed
  then have "set (sp_depends_on ?t) = {task_key ''build'' i | i. 1 \<le> i \<and> i \<le> 2}" by blast
  also have "\<dots> = task_key ''build'' ` {1, 2}"
  proof -
    have "1 \<le> i \<and> i \<le> (2::int) \<longleftrightarrow> i \<in> {1, 2}" for i by auto
    then show ?thesis by (simp only:) blast
  qed
  finally show ?thesis by simp
qed

theorem create_mission_outcome_witness:
  "\<exists>ms' q'. create_mission 5 (\<lambda>_. 5) ''x'' ex_phases False (empty_mstore, Some empty_qstore) = ((1, None), ms', Some q') \<and>
     length (q_tasks q') = 3"
proof -
  obtain mid err ms' qo where c: "create_mission 5 (\<lambda>_. 5) ''x'' ex_phases False (empty_mstore, Some empty_qstore) = ((mid, err), ms', qo)"
    by (metis prod.exhaust)
  moreover obtain q' where q': "qo = Some q'"
    using c by (auto simp: create_mission_def ex_phases_def Let_def split: sum.splits)
  moreover have "distinct (map ph_name ex_phases)" "ex_phases \<noteq> []" by (simp_all add: ex_phases_def ex_phase_def)
  moreover have "length (plan_to_tasks ex_phases) = 3"
    by (simp add: plan_to_tasks_def phase_tasks_def Let_def ex_phases_def ex_phase_def phase_count_def)
  ultimately show ?thesis
    using create_mission_outcome [of empty_qstore empty_mstore 5 "\<lambda>_. 5" "''x''" ex_phases False mid err ms' q']
    by (auto simp: empty_qstore_def empty_mstore_def) (metis length_map)
qed

subsection \<open>Reading back\<close>

lemma split_deps_join:
  "ds \<noteq> [[]] \<Longrightarrow> \<forall>d\<in>set ds. CHR '','' \<notin> set d \<Longrightarrow> split_deps (join '','' ds) = ds"
  using join_empty [of "CHR '',''" ds] split_on_join [of ds "CHR '',''"]
  by (cases "ds = []") (auto simp: split_deps_def)

lemma insert_phases_rows:
  "ms_phases (insert_phases mid pos ps ms) = ms_phases ms @
     map2 (\<lambda>k p. phase_of_spec (ms_phase_seq ms + 1 + int k) mid (pos + int k) p) [0..<length ps] ps"
proof (induction ps arbitrary: pos ms)
  case (Cons p ps)
  have "map2 f [0..<length (p # ps)] (p # ps) = f 0 p # map2 (\<lambda>k. f (Suc k)) [0..<length ps] ps" for f :: "nat \<Rightarrow> phase_spec \<Rightarrow> phase_row"
    by (simp add: map_Suc_upt [symmetric] upt_conv_Cons zip_map1 o_def split_beta del: upt_Suc)
  then show ?case by (simp only: insert_phases.simps Cons.IH) (simp add: algebra_simps)
qed simp

definition spec_of_phase :: "phase \<Rightarrow> string \<times> string \<times> string \<times> string \<times> string list \<times> int \<times> string" where
  "spec_of_phase p = (pr_name (pa_row p), pr_role (pa_row p), pr_program (pa_row p), pr_instruction (pa_row p),
     pa_depends_on p, pr_count (pa_row p), pr_status (pa_row p))"

text \<open>
  A stored plan reads back as it was given. When no dependency list is the single empty name and no dependency name contains a
  comma, the phases of a freshly created mission are the plan's phases in plan order, with names, roles, programs, instructions,
  dependency lists and (normalised) counts unchanged, all pending.
\<close>

theorem phases_roundtrip:
  assumes "plan \<noteq> []" and "\<forall>r\<in>set (ms_phases ms). pr_mission_id r \<noteq> ms_mission_seq ms + 1"
    and "\<forall>p\<in>set plan. ph_depends_on p \<noteq> [''''] \<and> (\<forall>d\<in>set (ph_depends_on p). CHR '','' \<notin> set d)"
    and "create_mission tm clk directive plan rr (ms, qo) = ((mid, err), ms', qo')"
  shows "map spec_of_phase (phases mid ms') =
    map (\<lambda>p. (ph_name p, ph_role p, ph_program p, ph_instruction p, ph_depends_on p,
              if ph_count p \<le> 0 then 1 else ph_count p, ''pending'')) plan"
proof -
  let ?mid = "ms_mission_seq ms + 1"
  let ?new = "map2 (\<lambda>k p. phase_of_spec (ms_phase_seq ms + 1 + int k) ?mid (int k) p) [0..<length plan] plan"
  have ms': "mid = ?mid" "ms_phases ms' = ms_phases ms @ ?new"
    using assms(1,4) by (auto simp: create_mission_def Let_def insert_phases_rows split: option.splits sum.splits)
  have old: "filter (\<lambda>r. pr_mission_id r = ?mid) (ms_phases ms) = []"
    using assms(2) by (simp add: filter_empty_conv)
  have new: "filter (\<lambda>r. pr_mission_id r = ?mid) ?new = ?new"
    by (auto simp: filter_id_conv phase_of_spec_def in_set_zip)
  have "map pr_position ?new = map int [0..<length plan]"
    by (rule nth_equalityI) (simp_all add: phase_of_spec_def)
  then have srt: "sort_key pr_position ?new = ?new"
    by (intro sort_key_id_if_sorted) (simp add: sorted_iff_nth_mono)
  have "map spec_of_phase (map (\<lambda>r. \<lparr>pa_row = r, pa_depends_on = split_deps (pr_depends_on r)\<rparr>) ?new) =
      map (\<lambda>p. (ph_name p, ph_role p, ph_program p, ph_instruction p, ph_depends_on p,
              if ph_count p \<le> 0 then 1 else ph_count p, ''pending'')) plan"
  proof -
    have "split_deps (join '','' (ph_depends_on (plan ! i))) = ph_depends_on (plan ! i)" if "i < length plan" for i
      using assms(3) nth_mem [OF that] by (intro split_deps_join) blast+
    then show ?thesis
      by (intro nth_equalityI) (simp_all add: spec_of_phase_def phase_of_spec_def phase_count_def)
  qed
  then show ?thesis by (simp add: phases_def ms' old new srt)
qed

theorem phases_roundtrip_witness:
  "map (\<lambda>p. pa_depends_on p) (phases 1 (fst (snd (create_mission 5 (\<lambda>_. 5) ''x'' ex_phases False (empty_mstore, None))))) =
     [[], [''build'', ''gone'']]"
proof -
  obtain mid err ms' qo where c: "create_mission 5 (\<lambda>_. 5) ''x'' ex_phases False (empty_mstore, None) = ((mid, err), ms', qo)"
    by (metis prod.exhaust)
  then have mid: "mid = 1" by (auto simp: create_mission_def ex_phases_def empty_mstore_def Let_def)
  have "map spec_of_phase (phases mid ms') =
    map (\<lambda>p. (ph_name p, ph_role p, ph_program p, ph_instruction p, ph_depends_on p,
              if ph_count p \<le> 0 then 1 else ph_count p, ''pending'')) ex_phases"
    by (rule phases_roundtrip [OF _ _ _ c]) (simp_all add: ex_phases_def ex_phase_def empty_mstore_def)
  then have "map (\<lambda>x. fst (snd (snd (snd (snd x))))) (map spec_of_phase (phases mid ms')) = [[], [''build'', ''gone'']]"
    by (simp only:) (simp add: ex_phases_def ex_phase_def)
  then show ?thesis by (simp add: c mid spec_of_phase_def o_def)
qed

subsection \<open>Change-request numbers\<close>

lemma fold_digits: "fold (\<lambda>c a. a * 10 + digit_val c) (itoa_nat n) a = a * 10 ^ length (itoa_nat n) + int n"
proof (induction n arbitrary: a rule: itoa_nat.induct)
  case (1 n)
  have dv: "digit_val (digit d) = int d" if "d < 10" for d
  proof -
    have "d \<in> {0, 1, 2, 3, 4, 5, 6, 7, 8, 9}" using that by auto
    then show ?thesis by (elim insertE emptyE) (simp_all add: digit_def digit_val_def digits_def upto_rec1)
  qed
  show ?case
  proof (cases "n < 10")
    case True
    then show ?thesis by (simp add: itoa_nat_small dv)
  next
    case False
    have "int n = int (n div 10) * 10 + int (n mod 10)"
      by (metis div_mult_mod_eq of_nat_add of_nat_mult of_nat_numeral)
    then show ?thesis using "1.IH" [OF False] dv [of "n mod 10"] False
      by (simp add: itoa_nat_big algebra_simps)
  qed
qed

lemma itoa_nat_set: "set (itoa_nat n) \<subseteq> set digits"
proof -
  have "set ''0123456789'' = set digits" by (simp add: digits_def)
  then show ?thesis using itoa_nat_no by blast
qed

lemma atoi_itoa_nat: "int n < 2 ^ 63 \<Longrightarrow> atoi (itoa_nat n) = Some (int n)"
proof -
  assume n: "int n < 2 ^ 63"
  obtain c r where cr: "itoa_nat n = c # r" by (cases "itoa_nat n") auto
  have "c \<in> set digits" using itoa_nat_set [of n] cr by auto
  then have "c \<noteq> CHR ''-''" "c \<noteq> CHR ''+''" by (auto simp: digits_def)
  then have "atoi (c # r) = Some (int n)"
    using n itoa_nat_set [of n] fold_digits [of n 0] unfolding cr
    by (simp add: atoi_def Let_def)
  then show ?thesis by (simp add: cr)
qed

lemma last_index_eq:
  assumes "has_prefix (drop i s) sub" "i \<le> length s" "\<And>j. i < j \<Longrightarrow> j \<le> length s \<Longrightarrow> \<not> has_prefix (drop j s) sub"
  shows "last_index s sub = Some i"
proof -
  have "rev [0..<Suc (length s)] = rev [Suc i..<Suc (length s)] @ i # rev [0..<i]"
  proof -
    have "[0..<Suc (length s)] = [0..<i] @ i # [Suc i..<Suc (length s)]"
      using assms(2) upt_add_eq_append [of 0 i "Suc (length s) - i"] by (simp add: upt_conv_Cons del: upt_Suc)
    then show ?thesis by simp
  qed
  moreover have "find (\<lambda>i. has_prefix (drop i s) sub) (rev [Suc i..<Suc (length s)]) = None"
  proof -
    have "\<not> has_prefix (drop j s) sub" if "j \<in> set (rev [Suc i..<Suc (length s)])" for j
      using that by (intro assms(3)) (simp_all del: upt_Suc)
    then show ?thesis by (simp only: find_None_iff) blast
  qed
  moreover have "find p (xs @ y # ys) = Some y" if "find p xs = None" "p y" for p xs y and ys :: "nat list"
    using that by (induction xs) (auto split: if_splits)
  ultimately show ?thesis unfolding last_index_def using assms(1) by (simp only:)
qed

lemma trim_right_none: "s \<noteq> [] \<Longrightarrow> \<not> p (last s) \<Longrightarrow> trim_right p s = s"
  by (cases s rule: rev_cases) (simp_all add: trim_right_def)

text \<open>
  The number of a pull request reads back from its URL: for any base (that may itself contain such segments) and any number
  a 64-bit \<^verbatim>\<open>int\<close> holds, the number parsed from \<^verbatim>\<open>base/pull/n\<close> is \<open>n\<close>.
\<close>

theorem parse_pr_roundtrip:
  assumes "0 \<le> n" and "n < 2 ^ 63"
  shows "parse_pr_number (base @ ''/pull/'' @ itoa n) = Inr n"
proof -
  let ?ds = "itoa_nat (nat n)"
  let ?url = "base @ ''/pull/'' @ ?ds"
  have it: "itoa n = ?ds" using assms(1) by (simp add: itoa_def)
  have dig: "c \<in> set digits" if "c \<in> set ?ds" for c using itoa_nat_set that by blast
  have no: "\<not> has_prefix (drop j ?url) ''/pull/''" if j: "length base < j" "j \<le> length ?url" for j
  proof
    assume p: "has_prefix (drop j ?url) ''/pull/''"
    obtain k where k: "j = length base + Suc k" using j(1) less_imp_Suc_add by fastforce
    have d: "drop j ?url = drop k (''pull/'' @ ?ds)" by (simp add: k)
    obtain t where t: "drop k (''pull/'' @ ?ds) = ''/pull/'' @ t" using p unfolding d has_prefix_iff by blast
    have "CHR ''p'' \<notin> set ?ds" using dig by (auto simp: digits_def)
    have "k < 5"
    proof (rule ccontr)
      assume "\<not> k < 5"
      then obtain l where "k = 5 + l" by (metis le_Suc_ex not_less)
      then have "drop k (''pull/'' @ ?ds) = drop (k - 5) ?ds" by (simp add: numeral_eq_Suc)
      then have "CHR ''p'' \<in> set (drop (k - 5) ?ds)" using t by simp
      then show False using \<open>CHR ''p'' \<notin> set ?ds\<close> in_set_dropD by metis
    qed
    then have "k \<in> {0, 1, 2, 3, 4}" by auto
    then show False using t \<open>CHR ''p'' \<notin> set ?ds\<close> by (elim insertE emptyE) auto
  qed
  have "last_index ?url ''/pull/'' = Some (length base)"
    by (rule last_index_eq) (use no in \<open>auto simp: has_prefix_def\<close>)
  moreover have "trim_right (\<lambda>c. c = CHR ''/'') ?ds = ?ds"
  proof (rule trim_right_none)
    show "\<not> last ?ds = CHR ''/''" using dig [of "last ?ds"] by (auto simp: digits_def)
  qed simp
  moreover have "atoi ?ds = Some n" using atoi_itoa_nat [of "nat n"] assms by simp
  ultimately show ?thesis by (simp add: parse_pr_number_def it)
qed

theorem parse_pr_roundtrip_witness: "parse_pr_number ''https://h/o/r/pull/17'' = Inr 17"
proof -
  have "itoa 17 = ''17''" by (simp add: itoa_def itoa_nat.simps digit_def)
  then show ?thesis using parse_pr_roundtrip [of 17 "''https://h/o/r''"] by simp
qed

end
