(* ===== verification/Steering.thy ===== *)
theory Steering
  imports Plans
begin

section \<open>Missions and the claim path together\<close>

text \<open>
  The mission store steers the queue through halt marks: it sets one when a mission is paused, cancelled or failed, lifts it on a
  resume, and the claim honours it; pruning a mission's rows drops its mark as well. The locale states that contract; its interpretation
  discharges it for the queue's own operations. The system is then one labelled machine over the two stores and the engine: every
  operation that writes the mission store, the tick, the pruning of a mission's rows, which the superuser may call on a mission in any state
  (\<^verbatim>\<open>brain/prune.go\<close>), and every call of the queue that leaves the halt marks alone. (Only the mission store and the engine call
  \<^verbatim>\<open>HaltMission\<close> and \<^verbatim>\<open>UnhaltMission\<close>.)
\<close>

definition stopped :: "string \<Rightarrow> bool" where
  "stopped st \<longleftrightarrow> st \<in> {''paused'', ''cancelled'', ''failed''}"

definition can_grant :: "int \<Rightarrow> qstore \<Rightarrow> bool" where
  "can_grant i q \<longleftrightarrow> (\<exists>clk bee inst roles lease c q' t. claim_next_as clk bee inst roles lease q = (Some c, q') \<and>
     t \<in> set (q_tasks q) \<and> t_id t = t_id (c_task c) \<and> t_mission_id t = i)"

lemma can_grantI:
  "claim_next_as clk bee inst roles lease q = (Some c, q') \<Longrightarrow> t \<in> set (q_tasks q) \<Longrightarrow> t_id t = t_id (c_task c) \<Longrightarrow>
     t_mission_id t = i \<Longrightarrow> can_grant i q"
  unfolding can_grant_def by blast

definition is_halted :: "int \<Rightarrow> qstore \<Rightarrow> bool" where
  "is_halted i q \<longleftrightarrow> q_mission_halts q i \<noteq> None"

locale halting_queue =
  fixes ok :: "'q \<Rightarrow> bool" and halt :: "int \<Rightarrow> string \<Rightarrow> 'q \<Rightarrow> 'q" and unhalt :: "int \<Rightarrow> 'q \<Rightarrow> 'q"
    and drop_rows :: "int \<Rightarrow> 'q \<Rightarrow> 'q" and halted :: "int \<Rightarrow> 'q \<Rightarrow> bool" and grants :: "int \<Rightarrow> 'q \<Rightarrow> bool"
  assumes halted_halt: "halted j (halt i r q) \<longleftrightarrow> j = i \<or> halted j q"
    and halted_unhalt: "halted j (unhalt i q) \<longleftrightarrow> j \<noteq> i \<and> halted j q"
    and halted_drop: "halted j (drop_rows i q) \<longleftrightarrow> j \<noteq> i \<and> halted j q"
    and no_grant: "ok q \<Longrightarrow> halted i q \<Longrightarrow> \<not> grants i q"
begin

definition gated :: "(int \<Rightarrow> bool) \<Rightarrow> mission list \<Rightarrow> 'q \<Rightarrow> bool" where
  \<comment> \<open>the stopped missions among those of \<open>P\<close> are halted\<close>
  "gated P rows q \<longleftrightarrow> (\<forall>m\<in>set rows. P (mi_id m) \<longrightarrow> stopped (mi_status m) \<longrightarrow> halted (mi_id m) q)"

lemma gated_halt: "gated P rows q \<Longrightarrow> gated P' (sql_update (\<lambda>m. mi_id m = i) f rows) (halt i r q)"
  if "\<And>m. mi_id (f m) = mi_id m" "\<And>j. j \<noteq> i \<Longrightarrow> P' j \<Longrightarrow> P j"
  by (auto simp: gated_def ball_sql_update halted_halt that)

lemma gated_unhalt: "gated P rows q \<Longrightarrow> gated P' (sql_update (\<lambda>m. mi_id m = i) f rows) (unhalt i q)"
  if "\<And>m. mi_id (f m) = mi_id m" "\<And>m. \<not> stopped (mi_status (f m))" "\<And>j. j \<noteq> i \<Longrightarrow> P' j \<Longrightarrow> P j"
  by (auto simp: gated_def ball_sql_update halted_unhalt that)

lemma gated_update:
  assumes "gated P rows q" and ident: "\<And>m. mi_id (f m) = mi_id m"
    and at: "\<And>m. mi_id m = i \<Longrightarrow> P' i \<Longrightarrow> stopped (mi_status (f m)) \<Longrightarrow> P i \<and> stopped (mi_status m)"
    and off: "\<And>j. j \<noteq> i \<Longrightarrow> P' j \<Longrightarrow> P j"
  shows "gated P' (sql_update (\<lambda>m. mi_id m = i) f rows) q"
  unfolding gated_def ball_sql_update
proof (intro ballI impI)
  fix m assume m: "m \<in> set rows" "P' (mi_id (if mi_id m = i then f m else m))" "stopped (mi_status (if mi_id m = i then f m else m))"
  then have "P (mi_id m) \<and> stopped (mi_status m)" using at [of m] off [of "mi_id m"] by (auto simp: ident split: if_splits)
  then show "halted (mi_id (if mi_id m = i then f m else m)) q" using assms(1) m(1) by (auto simp: gated_def ident)
qed

lemma gated_drop: "gated P rows q \<Longrightarrow> gated P' rows (drop_rows i q)"
  if "\<not> P' i" "\<And>j. j \<noteq> i \<Longrightarrow> P' j \<Longrightarrow> P j"
  unfolding gated_def halted_drop using that by metis

lemma gated_no_grant:
  "ok q \<Longrightarrow> gated P rows q \<Longrightarrow> m \<in> set rows \<Longrightarrow> P (mi_id m) \<Longrightarrow> stopped (mi_status m) \<Longrightarrow> \<not> grants (mi_id m) q"
  by (auto simp: gated_def no_grant)

end

lemma no_grant_halted:
  assumes "wf_queue q" and "is_halted i q"
  shows "\<not> can_grant i q"
proof
  assume "can_grant i q"
  then obtain clk bee inst roles lease c q' t where
    c: "claim_next_as clk bee inst roles lease q = (Some c, q')" and
    t: "t \<in> set (q_tasks q)" "t_id t = t_id (c_task c)" "t_mission_id t = i"
    by (auto simp: can_grant_def)
  obtain t' where t': "t' \<in> set (q_tasks q)" "t_id (c_task c) = t_id t'" "q_mission_halts q (t_mission_id t') = None"
    using claim_grantD [OF assms(1) c] by blast
  have "t' = t"
    by (rule task_table.keyed_eq [OF wf_queue_keyed [OF assms(1)] t'(1) t(1)]) (simp only: t(2) t'(2))
  then show False using t(3) t'(3) assms(2) by (simp add: is_halted_def)
qed

interpretation steered: halting_queue wf_queue halt_mission unhalt_mission prune_mission is_halted can_grant
  by unfold_locales (auto simp: is_halted_def halt_mission_def unhalt_mission_def prune_mission_def no_grant_halted)

subsection \<open>The system\<close>

datatype sys_call =
    Create | Pause int | Resume int | Cancel int | Resolve int | Reopen int | Delete int | SetStatus int string | Annotate int | Tick
  | PruneRows int | Work qevent

inductive sys_step :: "sys_call \<Rightarrow> sys \<Rightarrow> sys \<Rightarrow> bool" where
  create: "create_mission tm clk directive plan rr (ms, Some q) = (res, ms', Some q') \<Longrightarrow> sys_step Create (ms, q, e) (ms', q', e)"
| pause: "pause_mission tm i (ms, q) = Inr (r, ms', q') \<Longrightarrow> sys_step (Pause i) (ms, q, e) (ms', q', e)"
| resume: "resume_mission tm i (ms, q) = Inr (r, ms', q') \<Longrightarrow> sys_step (Resume i) (ms, q, e) (ms', q', e)"
| cancel: "cancel_mission tm i (ms, q) = Inr (r, ms', q') \<Longrightarrow> sys_step (Cancel i) (ms, q, e) (ms', q', e)"
| resolve: "resolve_needs_review tm i block (ms, Some q) = Inr (r, ms') \<Longrightarrow> sys_step (Resolve i) (ms, q, e) (ms', q, e)"
| reopen: "reopen_for_review tm clk i plan wm (ms, q) = (res, ms', q') \<Longrightarrow> sys_step (Reopen i) (ms, q, e) (ms', q', e)"
| delete: "sys_step (Delete i) (ms, q, e) (delete_mission i ms, q, e)"
| set_status: "sys_step (SetStatus i st) (ms, q, e) (set_mission_status tm i st ms, q, e)"
| set_repo: "sys_step (Annotate i) (ms, q, e) (set_repo tm i repo base branch ms, q, e)"
| set_pr_url: "sys_step (Annotate i) (ms, q, e) (set_pr_url tm i url ms, q, e)"
| set_review: "sys_step (Annotate i) (ms, q, e) (set_review_state tm i rounds wm parked ms, q, e)"
| set_story: "sys_step (Annotate i) (ms, q, e) (set_record_story tm i on ms, q, e)"
| tick: "sys_step Tick s (tick tm s)"
| prune: "sys_step (PruneRows i) (ms, q, e) (ms, prune_mission i q, e)"
| work: "queue_event a q q' \<Longrightarrow> q_mission_halts q' = q_mission_halts q \<Longrightarrow> sys_step (Work a) (ms, q, e) (ms, q', e)"

text \<open>
  Whether the stop of a mission is backed by a halt mark, as far as the calls made tell. Steering the mission and re-opening it put status and mark
  in step; pruning its rows drops the mark, and writing a stopped status directly sets none.
\<close>

fun backing :: "int \<Rightarrow> sys_call \<Rightarrow> bool \<Rightarrow> bool" where
  "backing i (Pause j) b = (i = j \<or> b)"
| "backing i (Resume j) b = (i = j \<or> b)"
| "backing i (Cancel j) b = (i = j \<or> b)"
| "backing i (Reopen j) b = (i = j \<or> b)"
| "backing i (SetStatus j st) b = (if i = j then \<not> stopped st else b)"
| "backing i (PruneRows j) b = (i \<noteq> j \<and> b)"
| "backing i _ b = b"

definition backed :: "int \<Rightarrow> sys_call list \<Rightarrow> bool" where
  "backed i h = fold (backing i) h True"

lemma backed_snoc: "backed i (h @ [a]) = backing i a (backed i h)"
  by (simp add: backed_def)

definition sys_ok :: "(int \<Rightarrow> bool) \<Rightarrow> sys \<Rightarrow> bool" where
  "sys_ok P s \<longleftrightarrow> wf_sys s \<and> steered.gated P (ms_missions (fst s)) (fst (snd s))"

definition init_sys :: "sys \<Rightarrow> bool" where
  "init_sys s \<longleftrightarrow> fst s = empty_mstore \<and> fst (snd s) = empty_qstore"

lemma wf_sys_fresh:
  assumes "wf_sys (ms, q, e)" "mi_id row = ms_mission_seq ms + 1" "wf_queue q'"
    and "ms_missions ms' = ms_missions ms @ [row]" "ms_mission_seq ms' = ms_mission_seq ms + 1"
  shows "wf_sys (ms', q', e)"
proof -
  have "mi_id m \<noteq> mi_id row" if "m \<in> set (ms_missions ms)" for m
    using assms(1,2) that by (force simp: wf_sys_def)
  then have "mission_table.keyed (ms_missions ms')"
    using assms by (auto simp: wf_sys_def mission_table.keyed_def)
  then show ?thesis using assms by (force simp: wf_sys_def)
qed

lemma enqueue_halts: "enqueue clk m specs q = Inr q' \<Longrightarrow> q_mission_halts q' = q_mission_halts q"
  by (auto simp: enqueue_def split: sum.splits)

lemma wf_sys_rows:
  "wf_sys (ms, q, e) \<Longrightarrow> wf_queue q' \<Longrightarrow> (\<And>m. mi_id (f m) = mi_id m) \<Longrightarrow>
     ms_missions ms' = sql_update p f (ms_missions ms) \<Longrightarrow> ms_mission_seq ms' = ms_mission_seq ms \<Longrightarrow> wf_sys (ms', q', e')"
  by (simp add: wf_sys_def mission_table.keyed_update ball_sql_update)

lemma sys_okD: "sys_ok P (ms, q, e) \<Longrightarrow> wf_sys (ms, q, e) \<and> wf_queue q \<and> steered.gated P (ms_missions ms) q"
  by (simp add: sys_ok_def wf_sys_def)

lemma sys_ok_rows:
  assumes "sys_ok P (ms, q, e)" "\<And>m. mi_id (f m) = mi_id m"
    "\<And>m. mi_id m = i \<Longrightarrow> P' i \<Longrightarrow> stopped (mi_status (f m)) \<Longrightarrow> P i \<and> stopped (mi_status m)" "\<And>j. j \<noteq> i \<Longrightarrow> P' j \<Longrightarrow> P j"
    "ms_missions ms' = sql_update (\<lambda>m. mi_id m = i) f (ms_missions ms)" "ms_mission_seq ms' = ms_mission_seq ms"
    "wf_queue q'" "q_mission_halts q' = q_mission_halts q"
  shows "sys_ok P' (ms', q', e)"
proof -
  have "wf_sys (ms, q, e)" using assms(1) by (simp add: sys_ok_def)
  then have "wf_sys (ms', q', e)" by (rule wf_sys_rows [OF _ assms(7,2,5,6)])
  moreover have "steered.gated P' (ms_missions ms') q"
    unfolding assms(5) using sys_okD [OF assms(1)]
    by (intro steered.gated_update [where P = P and P' = P' and f = f and i = i, OF _ assms(2,3,4)]) simp_all
  ultimately show ?thesis using assms(8) by (simp add: sys_ok_def steered.gated_def is_halted_def)
qed

lemma not_stopped [simp]: "\<not> stopped ''running''" "\<not> stopped ''done''" "\<not> stopped ''needs-review''"
  by (simp_all add: stopped_def)

lemma sys_ok_tick:
  assumes "sys_ok P s"
  shows "sys_ok P (tick tm s)"
proof -
  obtain ms q e where s: "s = (ms, q, e)" by (cases s)
  obtain ms' q' e' where t: "tick tm s = (ms', q', e')" by (cases "tick tm s")
  have w: "wf_sys (ms, q, e)" and g: "steered.gated P (ms_missions ms) q"
    using assms by (simp_all add: sys_ok_def s)
  have w': "wf_sys (ms', q', e')" using wf_tick [OF w, of tm] by (simp add: s [symmetric] t)
  have "is_halted (mi_id m) q'" if m: "m \<in> set (ms_missions ms')" "P (mi_id m)" "stopped (mi_status m)" for m
  proof (cases "\<exists>mi\<in>set (ms_missions ms). mi_id mi = mi_id m \<and> mi_status mi = ''running''")
    case True
    then obtain mi where mi: "mi \<in> set (ms_missions ms)" "mi_id mi = mi_id m" "mi_status mi = ''running''" by blast
    have "status_of (mi_id mi) ms' = [mi_status m]"
      using status_of_row [OF wf_sysD(2) [OF w'] m(1)] mi(2) by simp
    then show ?thesis
      using tick_decides [OF w mi(1,3) t [unfolded s]] m(3) mi(2) by (auto simp: Let_def is_halted_def)
  next
    case False
    then have "\<forall>x\<in>set (ms_missions ms). mi_id x = mi_id m \<longrightarrow> mi_status x \<noteq> ''running''" by blast
    note idle = tick_idle [OF w this t [unfolded s]]
    have "m \<in> set (filter (\<lambda>x. mi_id x = mi_id m) (ms_missions ms))"
      unfolding conjunct1 [OF idle, symmetric] using m(1) by simp
    then show ?thesis using g m(2,3) idle by (auto simp: steered.gated_def is_halted_def)
  qed
  then show ?thesis using w' by (simp add: sys_ok_def t steered.gated_def)
qed

lemma set_status_rows:
  "ms_missions (set_mission_status tm i st ms) =
     sql_update (\<lambda>m. mi_id m = i) (\<lambda>m. m\<lparr>mi_status := st, mi_updated_ts := tm\<rparr>) (ms_missions ms)"
  by (simp add: set_mission_status_def update_mission_def)

lemma sys_ok_halt:
  assumes "sys_ok P (ms, q, e)" "\<And>j. j \<noteq> i \<Longrightarrow> P' j \<Longrightarrow> P j"
  shows "sys_ok P' (set_mission_status tm i st ms, halt_mission i r q, e)"
proof -
  note w = sys_okD [OF assms(1)]
  have "wf_sys (set_mission_status tm i st ms, halt_mission i r q, e)"
    unfolding wf_set_mission_status using w wf_halt_mission [of q i r] wf_sys_queue [of ms q e] by simp
  moreover have "steered.gated P' (ms_missions (set_mission_status tm i st ms)) (halt_mission i r q)"
    unfolding set_status_rows by (rule steered.gated_halt [of _ _ P' P]) (use w assms(2) in simp_all)
  ultimately show ?thesis by (simp only: sys_ok_def fst_conv snd_conv)
qed

lemma sys_ok_unhalt:
  assumes "sys_ok P (ms, q, e)" "\<not> stopped st" "\<And>j. j \<noteq> i \<Longrightarrow> P' j \<Longrightarrow> P j"
  shows "sys_ok P' (set_mission_status tm i st ms, unhalt_mission i q, e)"
proof -
  note w = sys_okD [OF assms(1)]
  have "wf_sys (set_mission_status tm i st ms, unhalt_mission i q, e)"
    unfolding wf_set_mission_status using w wf_unhalt_mission [of q i] wf_sys_queue [of ms q e] by simp
  moreover have "steered.gated P' (ms_missions (set_mission_status tm i st ms)) (unhalt_mission i q)"
    unfolding set_status_rows by (rule steered.gated_unhalt [of _ _ P' P]) (use w assms(2,3) in simp_all)
  ultimately show ?thesis by (simp only: sys_ok_def fst_conv snd_conv)
qed

lemma sys_ok_create:
  assumes "sys_ok P (ms, q, e)" "create_mission tm clk directive plan rr (ms, Some q) = (res, ms', Some q')"
  shows "sys_ok P (ms', q', e)"
proof (cases "plan = []")
  case True
  then show ?thesis using assms by (simp add: create_mission_def)
next
  case False
  note w = sys_okD [OF assms(1)]
  obtain row where rows: "ms_missions ms' = ms_missions ms @ [row]" "ms_mission_seq ms' = ms_mission_seq ms + 1"
      "mi_id row = ms_mission_seq ms + 1" "mi_status row = ''running''"
    using assms(2) False by (auto simp: create_mission_def Let_def split: sum.splits)
  have q': "wf_queue q'" "q_mission_halts q' = q_mission_halts q"
    using assms(2) False w by (auto simp: create_mission_def Let_def split: sum.splits intro: wf_enqueue dest: enqueue_halts)
  have "wf_sys (ms', q', e)" by (rule wf_sys_fresh [OF conjunct1 [OF w] rows(3) q'(1) rows(1,2)])
  then show ?thesis using w q'(2) by (auto simp: sys_ok_def steered.gated_def rows is_halted_def)
qed

lemma sys_ok_reopen:
  assumes "sys_ok P (ms, q, e)" "reopen_for_review tm clk i plan wm (ms, q) = (res, ms', q')" "\<And>j. j \<noteq> i \<Longrightarrow> P' j \<Longrightarrow> P j"
  shows "sys_ok P' (ms', q', e)"
proof (cases "mission_by_id i ms")
  case None
  then have "m \<in> set (ms_missions ms) \<Longrightarrow> mi_id m \<noteq> i" for m by (auto simp: mission_by_id_def find_None_iff)
  then show ?thesis using assms None by (auto simp: reopen_for_review_def Let_def sys_ok_def steered.gated_def)
next
  case (Some mi)
  note w = sys_okD [OF assms(1)]
  let ?f = "\<lambda>m. m\<lparr>mi_status := ''running'', mi_review_rounds := mi_review_rounds mi + 1,
              mi_review_watermark := wm, mi_updated_ts := tm\<rparr>"
  have rows: "ms_missions ms' = sql_update (\<lambda>m. mi_id m = i) ?f (ms_missions ms)" "ms_mission_seq ms' = ms_mission_seq ms"
    using assms(2) Some by (auto simp: reopen_for_review_def Let_def update_mission_def split: sum.splits)
  have q': "wf_queue q'" "q_mission_halts q' = q_mission_halts q"
    using assms(2) Some w by (auto simp: reopen_for_review_def Let_def split: sum.splits intro: wf_enqueue dest: enqueue_halts)
  show ?thesis
    by (rule sys_ok_rows [OF assms(1) _ _ _ rows q']) (use assms(3) in simp_all)
qed

lemma sys_ok_annotate:
  assumes "sys_ok P (ms, q, e)" "\<And>m. mi_id (f m) = mi_id m" "\<And>m. mi_status (f m) = mi_status m"
  shows "sys_ok P (update_mission i f ms, q, e)"
  by (rule sys_ok_rows [OF assms(1), where i = i and f = f])
     (use assms(2,3) sys_okD [OF assms(1)] in \<open>simp_all add: update_mission_def\<close>)

lemma sys_ok_step: "sys_step a s s' \<Longrightarrow> sys_ok (\<lambda>i. backed i h) s \<Longrightarrow> sys_ok (\<lambda>i. backed i (h @ [a])) s'"
proof (induction rule: sys_step.induct)
  case (create tm clk directive plan rr ms q res ms' q' e)
  from sys_ok_create [OF create.prems create.hyps] show ?case by (simp add: backed_snoc)
next
  case (pause tm i ms q r ms' q' e)
  then show ?case
    by (auto simp: backed_snoc pause_mission_def Let_def split: option.splits if_splits intro: sys_ok_halt)
next
  case (resume tm i ms q r ms' q' e)
  then show ?case
    by (auto simp: backed_snoc resume_mission_def Let_def split: option.splits if_splits intro: sys_ok_unhalt)
next
  case (cancel tm i ms q r ms' q' e)
  then show ?case
    by (auto simp: backed_snoc cancel_mission_def Let_def split: option.splits if_splits intro: sys_ok_halt)
next
  case (resolve tm i block ms q r ms' e)
  then have ms': "ms' = set_mission_status tm i ''done'' ms"
    by (auto simp: resolve_needs_review_def Let_def split: option.splits if_splits)
  show ?case
    by (rule sys_ok_rows [OF resolve.prems, where i = i and f = "\<lambda>m. m\<lparr>mi_status := ''done'', mi_updated_ts := tm\<rparr>"])
       (use sys_okD [OF resolve.prems] in \<open>simp_all add: backed_snoc ms' set_mission_status_def update_mission_def\<close>)
next
  case (reopen tm clk i plan wm ms q res ms' q' e)
  show ?case by (rule sys_ok_reopen [OF reopen.prems reopen.hyps]) (simp add: backed_snoc)
next
  case (delete i ms q e)
  then show ?case
    by (auto simp: backed_snoc sys_ok_def wf_sys_def delete_mission_def steered.gated_def sql_delete_def mission_table.keyed_filter)
next
  case (set_status i st ms q e tm)
  show ?case
    by (rule sys_ok_rows [OF set_status, where i = i and f = "\<lambda>m. m\<lparr>mi_status := st, mi_updated_ts := tm\<rparr>"])
       (use sys_okD [OF set_status] in \<open>simp_all add: backed_snoc set_mission_status_def update_mission_def\<close>)
next
  case (set_repo i ms q e tm repo base branch)
  then show ?case by (simp add: backed_snoc set_repo_def sys_ok_annotate)
next
  case (set_pr_url i ms q e tm url)
  then show ?case by (simp add: backed_snoc set_pr_url_def sys_ok_annotate)
next
  case (set_review i ms q e tm rounds wm parked)
  then show ?case by (simp add: backed_snoc set_review_state_def sys_ok_annotate)
next
  case (set_story i ms q e tm on)
  then show ?case by (simp add: backed_snoc set_record_story_def sys_ok_annotate)
next
  case (tick s tm)
  from sys_ok_tick [OF tick] show ?case by (simp add: backed_snoc)
next
  case (prune i ms q e)
  note w = sys_okD [OF prune]
  have "steered.gated (\<lambda>j. backed j (h @ [PruneRows i])) (ms_missions ms) (prune_mission i q)"
    by (rule steered.gated_drop [of _ _ "\<lambda>j. backed j h"]) (use w in \<open>simp_all add: backed_snoc\<close>)
  then show ?case using w wf_prune_mission [of q i] by (simp add: sys_ok_def wf_sys_def)
next
  case (work a q q' ms e)
  then show ?case
    by (auto simp: backed_snoc sys_ok_def wf_sys_def steered.gated_def is_halted_def intro: wf_queue_event)
qed

lemma sys_ok_init: "init_sys s \<Longrightarrow> sys_ok P s"
  by (cases s) (auto simp: init_sys_def sys_ok_def wf_sys_def empty_mstore_def wf_empty_qstore steered.gated_def)

interpretation sys_machine: traced_machine sys_step "\<lambda>h s. sys_ok (\<lambda>i. backed i h) s"
  by unfold_locales (rule sys_ok_step)

text \<open>
  C10. A stopped mission is not dispatched while its stop is backed. From empty stores let the system run through any calls: missions
  created, steered, resolved, re-opened, deleted, annotated, ticked, their status written directly, their rows pruned, interleaved with any
  work on the queue, deletions of tasks included. Then a mission that is paused, cancelled or failed has no task that
  any claim, fresh or re-issued, by any bee, would hand out, unless since it was last steered or re-opened its rows were pruned or a stopped
  status was written directly: nothing else can undo the gate. (\<open>pruned_pause_dispatches\<close> shows that a prune does.)
\<close>

theorem stopped_never_dispatched:
  assumes "init_sys s" and "event_run sys_step calls s (ms, q, e)" and "m \<in> set (ms_missions ms)"
    and "mi_status m \<in> {''paused'', ''cancelled'', ''failed''}" and "backed (mi_id m) calls"
  shows "\<not> can_grant (mi_id m) q"
proof -
  have ok: "sys_ok (\<lambda>i. backed i calls) (ms, q, e)"
    using sys_machine.run_inv_start [OF assms(2)] sys_ok_init [OF assms(1)] by blast
  from steered.gated_no_grant [OF _ _ assms(3), of q "\<lambda>i. backed i calls"] sys_okD [OF ok] assms(4,5)
  show ?thesis by (simp add: stopped_def)
qed

theorem stopped_never_dispatched_witness:
  "\<exists>ms q. event_run sys_step [Create, PruneRows 1, Pause 1, PruneRows 2] (empty_mstore, empty_qstore, new_engine) (ms, q, new_engine) \<and>
     (\<exists>m\<in>set (ms_missions ms). mi_id m = 1 \<and> mi_status m = ''paused'') \<and> \<not> can_grant 1 q"
proof -
  obtain res ms1 qo where "create_mission 5 (\<lambda>_. 5) ''x'' ex_phases False (empty_mstore, Some empty_qstore) = (res, ms1, qo)"
    by (metis prod.exhaust)
  moreover from this obtain q1 where "qo = Some q1"
    by (auto simp: create_mission_def ex_phases_def Let_def split: sum.splits)
  ultimately have c: "create_mission 5 (\<lambda>_. 5) ''x'' ex_phases False (empty_mstore, Some empty_qstore) = (res, ms1, Some q1)"
    by simp
  obtain m where m: "ms_missions ms1 = [m]" "mi_id m = 1" "mi_status m = ''running''"
    using c by (auto simp: create_mission_def ex_phases_def Let_def empty_mstore_def split: sum.splits)
  let ?ms = "set_mission_status 6 1 ''paused'' ms1" and ?p = "halt_mission 1 ''paused'' (prune_mission 1 q1)"
  let ?q = "prune_mission 2 ?p"
  have p: "pause_mission 6 1 (ms1, prune_mission 1 q1) = Inr (mission_by_id 1 ?ms, ?ms, ?p)"
    by (simp add: pause_mission_def mission_by_id_def m Let_def)
  have r: "event_run sys_step [Create, PruneRows 1, Pause 1, PruneRows 2] (empty_mstore, empty_qstore, new_engine) (?ms, ?q, new_engine)"
    using sys_step.create [OF c] sys_step.pause [OF p] by (blast intro: event_run.intros sys_step.prune)
  let ?m = "m\<lparr>mi_status := ''paused'', mi_updated_ts := 6\<rparr>"
  have "?m \<in> set (ms_missions ?ms)" by (simp add: set_mission_status_def update_mission_def m)
  moreover from stopped_never_dispatched [OF _ r this] have "\<not> can_grant 1 ?q"
    by (simp add: init_sys_def m backed_def)
  moreover have "mi_id ?m = 1 \<and> mi_status ?m = ''paused''" using m by simp
  ultimately show ?thesis using r by blast
qed

text \<open>
  Pruning a halted mission's rows lifts its halt: a task enqueued for the mission afterwards is promoted and granted, though the
  mission's own status, in the other store, still says it is paused.
\<close>

definition ex_pruned :: qstore where
  "ex_pruned = snd (promote_ready 1 (case enqueue (\<lambda>_. 5) 1 [ex_spec\<lparr>sp_depends_on := []\<rparr>]
     (prune_mission 1 (halt_mission 1 ''paused'' empty_qstore)) of Inr q \<Rightarrow> q | Inl _ \<Rightarrow> empty_qstore))"

lemma pruned_pause_dispatches:
  "is_halted 1 (halt_mission 1 ''paused'' empty_qstore) \<and> can_grant 1 ex_pruned"
proof
  let ?t = "(task_of_spec 1 0 5 (ex_spec\<lparr>sp_depends_on := []\<rparr>))\<lparr>t_id := 1, t_status := Ready\<rparr>"
  have q: "ex_pruned = empty_qstore\<lparr>q_tasks := [?t]\<rparr>"
    by (simp add: ex_pruned_def prune_mission_def halt_mission_def sql_delete_def enqueue_def insert_task_def sql_next_id_def
        ex_spec_def task_of_spec_def promote_ready_def keys_with_status_def Let_def sql_update_def empty_qstore_def fun_eq_iff)
  have "claim_next_as (\<lambda>_. 9) ''bee'' '''' [] 30 ex_pruned =
      (Some (claim_reply ?t ''bee'' 9 39 False), snd (claim_next_as (\<lambda>_. 9) ''bee'' '''' [] 30 ex_pruned))"
    by (simp add: q ex_spec_def task_of_spec_def claim_next_as_def claim_fresh_def Let_def sql_first_def self_healable_def
        claimable_def role_ok_def sql_affected_def empty_qstore_def)
  then show "can_grant 1 ex_pruned"
    by (rule can_grantI [where t = ?t]) (simp_all add: q claim_reply_def task_of_spec_def)
qed (simp add: is_halted_def halt_mission_def)

end
