(* ===== verification/Bus.thy ===== *)
theory Bus
  imports Prelude
begin

section \<open>The wake-up bus (internal/coord/bus.go)\<close>

text \<open>
  The fan-out signal of the coordination store. Go's channels are modelled as a list indexed by
  channel number: each has a buffer of one element, so it is full or not, and it is open or
  closed. The bus keeps the set of subscribed channels (\<open>bus_subs\<close>, in the order of subscription:
  Go's map order is arbitrary and \<open>publish\<close> does not depend on it). The two operations of the
  source that could crash the process, a send on a closed channel and closing a closed channel,
  set \<open>bus_panicked\<close>.
\<close>

record chan =
  ch_full :: bool
  ch_closed :: bool

record bus =
  bus_chans :: "chan list"
  bus_subs :: "nat list"
  bus_panicked :: bool

definition new_bus :: bus where
  "new_bus = \<lparr>bus_chans = [], bus_subs = [], bus_panicked = False\<rparr>"

definition subscribe :: "bus \<Rightarrow> nat \<times> bus" where
  "subscribe b = (let ch = length (bus_chans b) in
     (ch, b\<lparr>bus_chans := bus_chans b @ [\<lparr>ch_full = False, ch_closed = False\<rparr>], bus_subs := bus_subs b @ [ch]\<rparr>))"

definition close_chan :: "nat \<Rightarrow> bus \<Rightarrow> bus" where
  "close_chan ch b =
     (if ch_closed (bus_chans b ! ch) then b\<lparr>bus_panicked := True\<rparr>
      else b\<lparr>bus_chans := (bus_chans b)[ch := (bus_chans b ! ch)\<lparr>ch_closed := True\<rparr>]\<rparr>)"

definition unsubscribe :: "nat \<Rightarrow> bus \<Rightarrow> bus" where
  \<comment> \<open>the function \<^verbatim>\<open>Subscribe\<close> returns with channel \<open>ch\<close>\<close>
  "unsubscribe ch b =
     (if ch \<in> set (bus_subs b) then close_chan ch (b\<lparr>bus_subs := filter (\<lambda>c. c \<noteq> ch) (bus_subs b)\<rparr>) else b)"

definition try_send :: "nat \<Rightarrow> bus \<Rightarrow> bus" where
  \<comment> \<open>\<^verbatim>\<open>select { case ch <- struct{}{}: default: }\<close>\<close>
  "try_send ch b =
     (if ch_closed (bus_chans b ! ch) then b\<lparr>bus_panicked := True\<rparr>
      else if ch_full (bus_chans b ! ch) then b
      else b\<lparr>bus_chans := (bus_chans b)[ch := (bus_chans b ! ch)\<lparr>ch_full := True\<rparr>]\<rparr>)"

definition publish :: "bus option \<Rightarrow> bus option" where
  "publish bo = (case bo of None \<Rightarrow> None | Some b \<Rightarrow> Some (fold try_send (bus_subs b) b))"

datatype recv = Signal | Closed | Blocks

definition receive :: "nat \<Rightarrow> bus \<Rightarrow> recv \<times> bus" where
  \<comment> \<open>\<^verbatim>\<open><-ch\<close> by a subscriber\<close>
  "receive ch b =
     (let c = bus_chans b ! ch in
      if ch_full c then (Signal, b\<lparr>bus_chans := (bus_chans b)[ch := c\<lparr>ch_full := False\<rparr>]\<rparr>)
      else if ch_closed c then (Closed, b) else (Blocks, b))"

subsection \<open>The bus never panics\<close>

definition wf_bus :: "bus \<Rightarrow> bool" where
  "wf_bus b \<longleftrightarrow> distinct (bus_subs b) \<and> \<not> bus_panicked b \<and>
     (\<forall>ch\<in>set (bus_subs b). ch < length (bus_chans b) \<and> \<not> ch_closed (bus_chans b ! ch))"

inductive bus_step :: "bus \<Rightarrow> bus \<Rightarrow> bool" where
  subscribe: "bus_step b (snd (subscribe b))"
| unsubscribe: "bus_step b (unsubscribe ch b)"
| publish: "publish (Some b) = Some b' \<Longrightarrow> bus_step b b'"
| receive: "ch < length (bus_chans b) \<Longrightarrow> bus_step b (snd (receive ch b))"

lemma wf_new_bus: "wf_bus new_bus"
  by (simp add: wf_bus_def new_bus_def)

lemma wf_subscribe: "wf_bus b \<Longrightarrow> wf_bus (snd (subscribe b))"
  by (auto simp: wf_bus_def subscribe_def Let_def nth_append)

lemma wf_unsubscribe: "wf_bus b \<Longrightarrow> wf_bus (unsubscribe ch b)"
  by (auto simp: wf_bus_def unsubscribe_def close_chan_def nth_list_update)

lemma wf_receive: "wf_bus b \<Longrightarrow> wf_bus (snd (receive ch b))"
proof -
  have "ch_closed ((bus_chans b)[ch := (bus_chans b ! ch)\<lparr>ch_full := False\<rparr>] ! c) = ch_closed (bus_chans b ! c)" for c
    by (cases "c = ch \<and> ch < length (bus_chans b)") (auto simp: list_update_beyond)
  then show "wf_bus b \<Longrightarrow> ?thesis" by (auto simp: wf_bus_def receive_def Let_def)
qed

text \<open>What the send loop leaves: every channel it names is full, nothing else has changed.\<close>

lemma fold_try_send:
  assumes "\<forall>ch\<in>set cs. ch < length (bus_chans b) \<and> \<not> ch_closed (bus_chans b ! ch)"
  shows "fold try_send cs b = b\<lparr>bus_chans :=
    map (\<lambda>i. if i \<in> set cs then (bus_chans b ! i)\<lparr>ch_full := True\<rparr> else bus_chans b ! i) [0..<length (bus_chans b)]\<rparr>"
  using assms
proof (induction cs arbitrary: b)
  case Nil
  then show ?case by (simp add: map_nth)
next
  case (Cons c cs)
  have full: "x\<lparr>ch_full := True\<rparr> = x" if "ch_full x" for x :: chan using that by (cases x) simp
  have send: "try_send c b = b\<lparr>bus_chans := (bus_chans b)[c := (bus_chans b ! c)\<lparr>ch_full := True\<rparr>]\<rparr>"
  proof (cases "ch_full (bus_chans b ! c)")
    case True
    then have "(bus_chans b)[c := (bus_chans b ! c)\<lparr>ch_full := True\<rparr>] = bus_chans b" by (simp add: full)
    then show ?thesis using Cons.prems True by (simp add: try_send_def)
  next
    case False
    then show ?thesis using Cons.prems by (simp add: try_send_def)
  qed
  have "\<forall>ch\<in>set cs. ch < length (bus_chans (try_send c b)) \<and> \<not> ch_closed (bus_chans (try_send c b) ! ch)"
    using Cons.prems by (auto simp: send nth_list_update)
  then have "fold try_send (c # cs) b = (try_send c b)\<lparr>bus_chans := map (\<lambda>i. if i \<in> set cs
      then (bus_chans (try_send c b) ! i)\<lparr>ch_full := True\<rparr> else bus_chans (try_send c b) ! i) [0..<length (bus_chans (try_send c b))]\<rparr>"
    using Cons.IH [of "try_send c b"] by simp
  also have "\<dots> = b\<lparr>bus_chans := map (\<lambda>i. if i \<in> set (c # cs)
      then (bus_chans b ! i)\<lparr>ch_full := True\<rparr> else bus_chans b ! i) [0..<length (bus_chans b)]\<rparr>"
    unfolding send using Cons.prems by (auto intro!: bus.equality nth_equalityI simp: nth_list_update)
  finally show ?case .
qed

lemma publish_Some:
  assumes "wf_bus b"
  shows "publish (Some b) = Some (b\<lparr>bus_chans := map (\<lambda>i. if i \<in> set (bus_subs b)
    then (bus_chans b ! i)\<lparr>ch_full := True\<rparr> else bus_chans b ! i) [0..<length (bus_chans b)]\<rparr>)"
  using assms fold_try_send [of "bus_subs b" b] by (simp add: publish_def wf_bus_def)

lemma wf_publish: "wf_bus b \<Longrightarrow> publish (Some b) = Some b' \<Longrightarrow> wf_bus b'"
  by (auto simp: publish_Some wf_bus_def)

lemma wf_bus_step: "bus_step b b' \<Longrightarrow> wf_bus b \<Longrightarrow> wf_bus b'"
  by (induction rule: bus_step.induct) (simp_all add: wf_subscribe wf_unsubscribe wf_receive wf_publish)

interpretation bus_machine: invariant_machine "\<lambda>b. b = new_bus" bus_step wf_bus
  by unfold_locales (auto simp: wf_new_bus intro: wf_bus_step)

inductive quiet_step :: "nat \<Rightarrow> bus \<Rightarrow> bus \<Rightarrow> bool" for ch where
  \<comment> \<open>every operation but a read or an unsubscribe of channel \<open>ch\<close>\<close>
  subscribe: "quiet_step ch b (snd (subscribe b))"
| unsubscribe: "c \<noteq> ch \<Longrightarrow> quiet_step ch b (unsubscribe c b)"
| publish: "publish (Some b) = Some b' \<Longrightarrow> quiet_step ch b b'"
| receive: "c \<noteq> ch \<Longrightarrow> c < length (bus_chans b) \<Longrightarrow> quiet_step ch b (snd (receive c b))"

definition signalled :: "nat \<Rightarrow> bus \<Rightarrow> bool" where
  "signalled ch b \<longleftrightarrow> wf_bus b \<and> ch \<in> set (bus_subs b) \<and> ch_full (bus_chans b ! ch)"

lemma quiet_bus_step: "quiet_step ch b b' \<Longrightarrow> bus_step b b'"
  by (induction rule: quiet_step.induct) (auto intro: bus_step.intros)

lemma signalled_quiet:
  assumes "quiet_step ch b b'" and "signalled ch b"
  shows "signalled ch b'"
proof -
  have lt: "ch < length (bus_chans b)" using assms(2) by (auto simp: signalled_def wf_bus_def)
  have "wf_bus b'" using assms wf_bus_step [OF quiet_bus_step] by (auto simp: signalled_def)
  moreover have "ch \<in> set (bus_subs b') \<and> ch_full (bus_chans b' ! ch)"
    using assms lt
  proof (induction rule: quiet_step.induct)
    case (publish b b')
    then have "wf_bus b" by (simp add: signalled_def)
    from publish publish_Some [OF this] show ?case by (auto simp: signalled_def)
  qed (auto simp: signalled_def subscribe_def Let_def nth_append unsubscribe_def close_chan_def receive_def nth_list_update)
  ultimately show ?thesis by (simp add: signalled_def)
qed

lemma signalled_stays: "(quiet_step ch)\<^sup>*\<^sup>* b b' \<Longrightarrow> signalled ch b \<Longrightarrow> signalled ch b'"
  by (induction rule: rtranclp_induct) (auto intro: signalled_quiet)

text \<open>
  C40. No wake-up is lost and the bus never crashes the broker. In every state reached from a new bus by any
  interleaving of subscriptions, unsubscriptions, publications and reads, no send or close has hit a closed channel; and
  after a publication every subscriber that has not unsubscribed finds a signal at its next read, whatever other operations
  come first and however many publications were coalesced into it. Publishing on a store without a bus does nothing.
\<close>

theorem bus_wakes_all:
  assumes "bus_step\<^sup>*\<^sup>* new_bus b"
  shows "\<not> bus_panicked b \<and> publish None = None \<and>
    (\<forall>ch b' b''. publish (Some b) = Some b' \<longrightarrow> ch \<in> set (bus_subs b) \<longrightarrow> (quiet_step ch)\<^sup>*\<^sup>* b' b'' \<longrightarrow>
       fst (receive ch b'') = Signal)"
proof -
  have wf: "wf_bus b" using assms by (rule bus_machine.reachable_inv [OF refl])
  have "fst (receive ch b'') = Signal"
    if "publish (Some b) = Some b'" "ch \<in> set (bus_subs b)" "(quiet_step ch)\<^sup>*\<^sup>* b' b''" for ch b' b''
  proof -
    have "ch < length (bus_chans b)" using wf that(2) by (auto simp: wf_bus_def)
    then have "signalled ch b'"
      using wf_publish [OF wf that(1)] that(1,2) publish_Some [OF wf] by (auto simp: signalled_def)
    from signalled_stays [OF that(3) this] show ?thesis by (simp add: signalled_def receive_def)
  qed
  with wf show ?thesis by (auto simp: wf_bus_def publish_def)
qed

theorem bus_wakes_all_witness:
  "fst (receive 0 (the (publish (publish (Some (snd (subscribe new_bus))))))) = Signal"
proof -
  let ?b = "snd (subscribe new_bus)"
  have r: "bus_step\<^sup>*\<^sup>* new_bus ?b" by (rule r_into_rtranclp) (rule bus_step.subscribe)
  obtain b' where b': "publish (Some ?b) = Some b'" by (simp add: publish_def)
  obtain b'' where b'': "publish (Some b') = Some b''" by (simp add: publish_def)
  have "(quiet_step 0)\<^sup>*\<^sup>* b' b''" using b'' by (intro r_into_rtranclp quiet_step.publish)
  moreover have "0 \<in> set (bus_subs ?b)" by (simp add: subscribe_def new_bus_def)
  ultimately show ?thesis using bus_wakes_all [OF r] b' b'' by auto
qed

end
