(* ===== verification/Coord.thy ===== *)
theory Coord
  imports Bus
begin

section \<open>The coordination store (internal/coord/store.go, inbox.go)\<close>

text \<open>
  Agent presence, path leases, completed work, the audit stream and the instruction inbox: the
  tables as lists of rows in rowid order, and one definition per method of \<^verbatim>\<open>coord.Store\<close>. No
  method deletes a claim, completed, audit or instruction row, so their AUTOINCREMENT key is
  \<open>sql_next_id\<close>. Texts the store writes with \<^verbatim>\<open>json.Marshal\<close> (audit details, completed paths) are kept
  as the value encoded. The grace period of parked agents, read from the environment, is an
  argument \<open>grace\<close> of the operations that use it; \<open>parked_grace_seconds\<close> says how it is read. Every operation that audits also
  signals the bus.
\<close>

subsection \<open>Rows and replies\<close>

datatype json = JNull | JStr string | JNum real | JList "json list" | JObj "(string \<times> json) list"

record agent =
  ag_name :: string
  ag_program :: string
  ag_model :: string
  ag_task :: string
  ag_session_id :: string
  ag_registered_ts :: ts
  ag_last_active_ts :: ts
  ag_parent :: string
  ag_role :: string
  ag_status :: string
  ag_status_since :: ts
  ag_principal :: string

record claim_row =
  cl_id :: int
  cl_agent :: string
  cl_path :: string
  cl_exclusive :: bool
  cl_reason :: string
  cl_created_ts :: ts
  cl_expires_ts :: ts
  cl_released_ts :: "ts option"

record completed_row =
  cw_id :: int
  cw_agent :: string
  cw_summary :: string
  cw_paths :: "string list"
  cw_completed_ts :: ts

record audit_row =
  au_id :: int
  au_ts :: ts
  au_agent :: string
  au_action :: string
  au_detail :: json

record instr_row =
  in_id :: int
  in_target :: string
  in_issuer :: string
  in_text :: string
  in_status :: string
  in_result :: "string option"
  in_created_ts :: ts
  in_acked_ts :: "ts option"

record cstore =
  c_agents :: "agent list"
  c_claims :: "claim_row list"
  c_completed :: "completed_row list"
  c_audit :: "audit_row list"
  c_instructions :: "instr_row list"
  c_bus :: "bus option"

definition empty_cstore :: cstore where
  "empty_cstore = \<lparr>c_agents = [], c_claims = [], c_completed = [], c_audit = [], c_instructions = [], c_bus = None\<rparr>"

record conflict =
  cf_path :: string
  cf_held_by :: string
  cf_their_path :: string
  cf_reason :: string

record claim_result =
  res_granted :: "string list"
  res_conflicts :: "conflict list"
  res_expires_ts :: ts
  res_advisory :: bool

record agent_view =
  av_name :: string
  av_program :: string
  av_model :: string
  av_task :: string
  av_parent :: string
  av_role :: string
  av_status :: string
  av_status_since :: ts
  av_last_active_ts :: ts
  av_registered_ts :: ts

record claim_view =
  cv_path :: string
  cv_exclusive :: bool
  cv_reason :: string
  cv_expires_ts :: ts

record completed_view =
  co_agent :: string
  co_summary :: string
  co_paths :: "string list"
  co_completed_ts :: ts

record activity =
  ac_ts :: ts
  ac_agent :: string
  ac_action :: string
  ac_detail :: json

record active_claim =
  act_agent :: string
  act_path :: string
  act_reason :: string
  act_status :: string
  act_exclusive :: bool
  act_status_since :: ts

record bootstrap =
  bo_you :: "(string \<times> string) list"
  bo_active_peers :: "agent_view list"
  bo_your_claims :: "claim_view list"
  bo_recent_completed :: "completed_view list"
  bo_contested :: "conflict list"
  bo_hint :: string

record live_claim =
  lc_agent :: string
  lc_path :: string
  lc_exclusive :: bool
  lc_reason :: string
  lc_expires_ts :: ts

record coord_status =
  st_active_agents :: "agent_view list"
  st_live_claims :: "live_claim list"
  st_recent_completed :: "completed_view list"
  st_recent_activity :: "activity list"
  st_server_now :: ts
  st_parked_grace_seconds :: ts

record instruction =
  iv_id :: int
  iv_target :: string
  iv_issuer :: string
  iv_text :: string
  iv_status :: string
  iv_result :: string
  iv_created_ts :: ts
  iv_acked_ts :: ts

interpretation claim_table: rowid_table cl_id "\<lambda>i c. c\<lparr>cl_id := i\<rparr>"
  by unfold_locales simp

interpretation instr_table: rowid_table in_id "\<lambda>i r. r\<lparr>in_id := i\<rparr>"
  by unfold_locales simp

definition presence_window :: ts where
  "presence_window = 300"

definition sql_limit :: "int \<Rightarrow> 'a list \<Rightarrow> 'a list" where
  \<comment> \<open>\<^verbatim>\<open>LIMIT n\<close>; SQLite reads a negative limit as none\<close>
  "sql_limit n xs = (if n < 0 then xs else take (nat n) xs)"

subsection \<open>The audit stream\<close>

definition set_bus :: "bus option \<Rightarrow> cstore \<Rightarrow> cstore" where
  "set_bus b s = s\<lparr>c_bus := b\<rparr>"

definition audit :: "ts \<Rightarrow> string \<Rightarrow> string \<Rightarrow> json \<Rightarrow> cstore \<Rightarrow> cstore" where
  "audit t agent action detail s =
     s\<lparr>c_audit := c_audit s @ [\<lparr>au_id = sql_next_id au_id (c_audit s), au_ts = t, au_agent = agent,
                              au_action = action, au_detail = detail\<rparr>],
       c_bus := publish (c_bus s)\<rparr>"

definition activity_of :: "(audit_row \<Rightarrow> bool) \<Rightarrow> int \<Rightarrow> cstore \<Rightarrow> activity list" where
  "activity_of p limit s =
     map (\<lambda>r. \<lparr>ac_ts = au_ts r, ac_agent = au_agent r, ac_action = au_action r, ac_detail = au_detail r\<rparr>)
       (sql_limit (if limit \<le> 0 then 25 else limit) (sort_key (\<lambda>r. - au_ts r) (filter p (c_audit s))))"

definition recent_activity :: "string \<Rightarrow> int \<Rightarrow> cstore \<Rightarrow> activity list" where
  "recent_activity agent limit = activity_of (\<lambda>r. au_agent r = agent) limit"

definition recent_activity_all :: "int \<Rightarrow> cstore \<Rightarrow> activity list" where
  "recent_activity_all limit = activity_of (\<lambda>_. True) limit"

subsection \<open>Agents\<close>

definition trim_slash :: "string \<Rightarrow> string" where
  "trim_slash s = trim_right (\<lambda>c. c = CHR ''/'') s"

definition paths_overlap :: "string \<Rightarrow> string \<Rightarrow> bool" where
  "paths_overlap a b =
     (let a = trim_slash a; b = trim_slash b in
      a = b \<or> has_prefix a (b @ ''/'') \<or> has_prefix b (a @ ''/''))"

definition agent_by_name :: "string \<Rightarrow> cstore \<Rightarrow> agent option" where
  "agent_by_name n s = find (\<lambda>a. ag_name a = n) (c_agents s)"

definition update_agent :: "string \<Rightarrow> (agent \<Rightarrow> agent) \<Rightarrow> cstore \<Rightarrow> cstore" where
  \<comment> \<open>\<^verbatim>\<open>UPDATE agents SET ... WHERE name=?\<close>\<close>
  "update_agent n f s = s\<lparr>c_agents := sql_update (\<lambda>a. ag_name a = n) f (c_agents s)\<rparr>"

definition upsert_agent :: "ts \<Rightarrow> string \<Rightarrow> string \<Rightarrow> string \<Rightarrow> string \<Rightarrow> string \<Rightarrow> string \<Rightarrow> string \<Rightarrow> cstore \<Rightarrow> cstore" where
  "upsert_agent n name program model tsk session parent role s =
     (if \<exists>a\<in>set (c_agents s). ag_name a = name
      then update_agent name (\<lambda>a. a\<lparr>ag_program := program, ag_model := model, ag_task := tsk,
             ag_session_id := session, ag_last_active_ts := n,
             ag_parent := (if parent \<noteq> '''' then parent else ag_parent a),
             ag_role := (if role \<noteq> '''' then role else ag_role a)\<rparr>) s
      else s\<lparr>c_agents := c_agents s @ [\<lparr>ag_name = name, ag_program = program, ag_model = model, ag_task = tsk,
             ag_session_id = session, ag_registered_ts = n, ag_last_active_ts = n, ag_parent = parent, ag_role = role,
             ag_status = ''working'', ag_status_since = 0, ag_principal = ''''\<rparr>]\<rparr>)"

definition register :: "clock \<Rightarrow> string \<Rightarrow> string \<Rightarrow> string \<Rightarrow> string \<Rightarrow> string \<Rightarrow> string \<Rightarrow> cstore \<Rightarrow> cstore" where
  "register clk name program model tsk session role s =
     audit (clk 1) name ''register'' (JObj [(''task'', JStr tsk), (''role'', JStr role)])
       (upsert_agent (clk 0) name program model tsk session '''' role s)"

definition spawn :: "clock \<Rightarrow> string \<Rightarrow> string \<Rightarrow> string \<Rightarrow> string \<Rightarrow> string \<Rightarrow> string \<Rightarrow> cstore \<Rightarrow> string \<times> cstore" where
  "spawn clk parent child role program model tsk s =
     (let full = parent @ ''/'' @ child in
      (full, audit (clk 1) full ''spawn'' (JObj [(''parent'', JStr parent), (''role'', JStr role), (''task'', JStr tsk)])
               (upsert_agent (clk 0) full program model tsk '''' parent role s)))"

definition release_where :: "ts \<Rightarrow> (claim_row \<Rightarrow> bool) \<Rightarrow> cstore \<Rightarrow> nat \<times> cstore" where
  \<comment> \<open>\<^verbatim>\<open>UPDATE claims SET released_ts=? WHERE ... AND released_ts IS NULL\<close>\<close>
  "release_where n p s =
     (let q = (\<lambda>c. p c \<and> cl_released_ts c = None) in
      (sql_affected q (c_claims s), s\<lparr>c_claims := sql_update q (\<lambda>c. c\<lparr>cl_released_ts := Some n\<rparr>) (c_claims s)\<rparr>))"

definition despawn :: "clock \<Rightarrow> string \<Rightarrow> cstore \<Rightarrow> bool \<times> cstore" where
  "despawn clk name s =
     (let s1 = snd (release_where (clk 0) (\<lambda>c. cl_agent c = name) s);
          n = sql_affected (\<lambda>a. ag_name a = name) (c_agents s1);
          s2 = s1\<lparr>c_agents := sql_delete (\<lambda>a. ag_name a = name) (c_agents s1)\<rparr> in
      (0 < n, if 0 < n then audit (clk 1) name ''despawn'' JNull s2 else s2))"

definition agent_exists :: "string \<Rightarrow> cstore \<Rightarrow> bool" where
  "agent_exists name s = (agent_by_name name s \<noteq> None)"

definition brief_view :: "agent \<Rightarrow> agent_view" where
  \<comment> \<open>the columns \<^verbatim>\<open>Subagents\<close> and \<^verbatim>\<open>Whois\<close> select: no status\<close>
  "brief_view a = \<lparr>av_name = ag_name a, av_program = ag_program a, av_model = ag_model a, av_task = ag_task a,
     av_parent = ag_parent a, av_role = ag_role a, av_status = '''', av_status_since = 0,
     av_last_active_ts = ag_last_active_ts a, av_registered_ts = ag_registered_ts a\<rparr>"

definition full_view :: "agent \<Rightarrow> agent_view" where
  "full_view a = (brief_view a)\<lparr>av_status := ag_status a, av_status_since := ag_status_since a\<rparr>"

definition subagents :: "string \<Rightarrow> cstore \<Rightarrow> agent_view list" where
  "subagents parent s = map brief_view (sort_key ag_registered_ts (filter (\<lambda>a. ag_parent a = parent) (c_agents s)))"

definition record_principal :: "string \<Rightarrow> string \<Rightarrow> cstore \<Rightarrow> cstore" where
  "record_principal name owner s =
     (if owner = '''' then s
      else s\<lparr>c_agents := sql_update (\<lambda>a. ag_name a = name \<and> ag_principal a = '''')
               (\<lambda>a. a\<lparr>ag_principal := owner\<rparr>) (c_agents s)\<rparr>)"

definition count_live_by_principal :: "ts \<Rightarrow> string \<Rightarrow> cstore \<Rightarrow> nat" where
  "count_live_by_principal t owner s =
     sql_affected (\<lambda>a. ag_principal a = owner \<and> ag_last_active_ts a \<ge> t - presence_window) (c_agents s)"

definition heartbeat :: "ts \<Rightarrow> string \<Rightarrow> cstore \<Rightarrow> cstore" where
  "heartbeat t name = update_agent name (\<lambda>a. a\<lparr>ag_last_active_ts := t\<rparr>)"

definition set_status :: "ts \<Rightarrow> string \<Rightarrow> string \<Rightarrow> cstore \<Rightarrow> cstore" where
  "set_status n name st = update_agent name (\<lambda>a. a\<lparr>ag_status := st,
     ag_status_since := (if ag_status a \<noteq> st then n else ag_status_since a), ag_last_active_ts := n\<rparr>)"

definition list_active :: "ts \<Rightarrow> ts \<Rightarrow> cstore \<Rightarrow> agent_view list" where
  "list_active t window s =
     map full_view (sort_key (\<lambda>a. - ag_last_active_ts a) (filter (\<lambda>a. ag_last_active_ts a > t - window) (c_agents s)))"

subsection \<open>Path leases\<close>

definition live :: "ts \<Rightarrow> claim_row \<Rightarrow> bool" where
  \<comment> \<open>\<^verbatim>\<open>released_ts IS NULL AND expires_ts > ?\<close>\<close>
  "live n c \<longleftrightarrow> cl_released_ts c = None \<and> cl_expires_ts c > n"

definition active_claim_of :: "cstore \<Rightarrow> claim_row \<Rightarrow> active_claim" where
  \<comment> \<open>the left join with \<^verbatim>\<open>agents\<close>, whose key is the name, and its \<^verbatim>\<open>COALESCE\<close>\<close>
  "active_claim_of s c = \<lparr>act_agent = cl_agent c, act_path = cl_path c, act_reason = cl_reason c,
     act_status = (case agent_by_name (cl_agent c) s of None \<Rightarrow> ''working'' | Some a \<Rightarrow> ag_status a),
     act_exclusive = cl_exclusive c,
     act_status_since = (case agent_by_name (cl_agent c) s of None \<Rightarrow> 0 | Some a \<Rightarrow> ag_status_since a)\<rparr>"

definition active_claims :: "ts \<Rightarrow> cstore \<Rightarrow> active_claim list" where
  "active_claims n s = map (active_claim_of s) (sort_key cl_created_ts (filter (live n) (c_claims s)))"

definition parked_grace_seconds :: "string \<Rightarrow> (string \<Rightarrow> ts option) \<Rightarrow> ts" where
  \<comment> \<open>\<open>v\<close> is the environment variable, \<open>parse_float\<close> the parser of \<^verbatim>\<open>strconv\<close>\<close>
  "parked_grace_seconds v parse_float =
     (if v \<noteq> '''' then (case parse_float v of Some f \<Rightarrow> if f \<ge> 0 then f else 300 | None \<Rightarrow> 300) else 300)"

definition enforcing :: "ts \<Rightarrow> active_claim \<Rightarrow> ts \<Rightarrow> bool" where
  "enforcing grace c n =
     (if act_status c = ''awaiting_approval'' \<and> n - act_status_since c > grace then False else True)"

definition live_claim_holders :: "ts \<Rightarrow> cstore \<Rightarrow> string list" where
  "live_claim_holders t s = sort (remdups (map cl_agent (filter (live t) (c_claims s))))"

fun release_loop :: "ts \<Rightarrow> string \<Rightarrow> string list \<Rightarrow> nat \<Rightarrow> cstore \<Rightarrow> nat \<times> cstore" where
  "release_loop n name [] tot s = (tot, s)"
| "release_loop n name (p # ps) tot s =
     (let (c, s') = release_where n (\<lambda>c. cl_agent c = name \<and> cl_path c = p) s in
      release_loop n name ps (tot + c) s')"

definition release_claims :: "clock \<Rightarrow> string \<Rightarrow> string list \<Rightarrow> cstore \<Rightarrow> nat \<times> cstore" where
  "release_claims clk name paths s =
     (let n = clk 0;
          (tot, s') = (if 0 < length paths then release_loop n name paths 0 s
                         else release_where n (\<lambda>c. cl_agent c = name) s) in
      (tot, audit (clk 1) name ''release'' (JObj [(''released'', JNum (real tot))]) s'))"

fun reap_absent_loop :: "clock \<Rightarrow> (string \<Rightarrow> bool) \<Rightarrow> string list \<Rightarrow> cstore \<Rightarrow> string list \<times> cstore" where
  "reap_absent_loop clk present [] s = ([], s)"
| "reap_absent_loop clk present (h # hs) s =
     (if present h then reap_absent_loop clk present hs s
      else let s' = snd (release_claims clk h [] s);
               (reaped, s'') = reap_absent_loop (\<lambda>i. clk (i + 2)) present hs s' in
           (h # reaped, s''))"

definition reap_absent_claims :: "clock \<Rightarrow> (string \<Rightarrow> bool) option \<Rightarrow> cstore \<Rightarrow> string list \<times> cstore" where
  "reap_absent_claims clk present s =
     (case present of
        None \<Rightarrow> ([], s)
      | Some pr \<Rightarrow> reap_absent_loop (\<lambda>i. clk (i + 1)) pr (live_claim_holders (clk 0) s) s)"

fun check_path :: "ts \<Rightarrow> ts \<Rightarrow> string \<Rightarrow> bool \<Rightarrow> string \<Rightarrow> active_claim list \<Rightarrow> bool \<Rightarrow> conflict list \<Rightarrow> bool \<times> conflict list" where
  \<comment> \<open>the inner loop of \<^verbatim>\<open>ClaimPaths\<close>: is path \<open>p\<close> blocked, and the conflicts so far\<close>
  "check_path grace n name exclusive p [] blocked cfs = (blocked, cfs)"
| "check_path grace n name exclusive p (c # cs) blocked cfs =
     (if act_agent c = name \<or> \<not> act_exclusive c \<or> \<not> paths_overlap p (act_path c)
      then check_path grace n name exclusive p cs blocked cfs
      else check_path grace n name exclusive p cs (if exclusive \<and> enforcing grace c n then True else blocked)
             (cfs @ [\<lparr>cf_path = p, cf_held_by = act_agent c, cf_their_path = act_path c, cf_reason = act_reason c\<rparr>]))"

definition insert_claim :: "string \<Rightarrow> string \<Rightarrow> bool \<Rightarrow> string \<Rightarrow> ts \<Rightarrow> ts \<Rightarrow> claim_row list \<Rightarrow> claim_row list" where
  "insert_claim name p exclusive reason n expires rows =
     rows @ [\<lparr>cl_id = sql_next_id cl_id rows, cl_agent = name, cl_path = p, cl_exclusive = exclusive, cl_reason = reason,
              cl_created_ts = n, cl_expires_ts = expires, cl_released_ts = None\<rparr>]"

fun claim_loop :: "ts \<Rightarrow> ts \<Rightarrow> string \<Rightarrow> bool \<Rightarrow> string \<Rightarrow> ts \<Rightarrow> active_claim list \<Rightarrow> string list \<Rightarrow>
    string list \<times> conflict list \<times> claim_row list \<Rightarrow> string list \<times> conflict list \<times> claim_row list" where
  "claim_loop grace n name exclusive reason expires active [] acc = acc"
| "claim_loop grace n name exclusive reason expires active (p # ps) (granted, cfs, rows) =
     (let (blocked, cfs') = check_path grace n name exclusive p active False cfs in
      claim_loop grace n name exclusive reason expires active ps
        (if blocked then (granted, cfs', rows)
         else (granted @ [p], cfs', insert_claim name p exclusive reason n expires rows)))"

definition claim_paths :: "ts \<Rightarrow> clock \<Rightarrow> string \<Rightarrow> string list \<Rightarrow> ts \<Rightarrow> bool \<Rightarrow> string \<Rightarrow> cstore \<Rightarrow> claim_result \<times> cstore" where
  "claim_paths grace clk name paths ttl exclusive reason s =
     (let n = clk 0; expires = n + ttl;
          (granted, cfs, rows) = claim_loop grace n name exclusive reason expires (active_claims n s) paths ([], [], c_claims s);
          res = \<lparr>res_granted = granted, res_conflicts = cfs, res_expires_ts = expires, res_advisory = (\<not> exclusive)\<rparr>;
          s1 = heartbeat (clk 1) name (s\<lparr>c_claims := rows\<rparr>) in
      (res, audit (clk 2) name ''claim''
              (JObj [(''paths'', JList (map JStr paths)), (''ttl'', JNum ttl), (''conflicts'', JNum (real (length cfs)))]) s1))"

definition claim_view_of :: "claim_row \<Rightarrow> claim_view" where
  "claim_view_of c = \<lparr>cv_path = cl_path c, cv_exclusive = cl_exclusive c, cv_reason = cl_reason c, cv_expires_ts = cl_expires_ts c\<rparr>"

definition whois :: "ts \<Rightarrow> string \<Rightarrow> cstore \<Rightarrow> (agent_view \<times> claim_view list) option" where
  "whois t name s =
     (case agent_by_name name s of
        None \<Rightarrow> None
      | Some a \<Rightarrow> Some (brief_view a, map claim_view_of (filter (\<lambda>c. cl_agent c = name \<and> live t c) (c_claims s))))"

subsection \<open>Completed work, contested claims, session start, status\<close>

definition mark_done :: "clock \<Rightarrow> string \<Rightarrow> string \<Rightarrow> string list \<Rightarrow> cstore \<Rightarrow> cstore" where
  "mark_done clk name summary paths s =
     audit (clk 1) name ''mark_done'' (JObj [(''summary'', JStr summary)])
       (s\<lparr>c_completed := c_completed s @ [\<lparr>cw_id = sql_next_id cw_id (c_completed s), cw_agent = name, cw_summary = summary,
                                          cw_paths = paths, cw_completed_ts = clk 0\<rparr>]\<rparr>)"

definition recent_completed :: "int \<Rightarrow> cstore \<Rightarrow> completed_view list" where
  "recent_completed limit s =
     map (\<lambda>r. \<lparr>co_agent = cw_agent r, co_summary = cw_summary r, co_paths = cw_paths r, co_completed_ts = cw_completed_ts r\<rparr>)
       (sql_limit limit (sort_key (\<lambda>r. - cw_completed_ts r) (c_completed s)))"

definition contested_claims :: "clock \<Rightarrow> string \<Rightarrow> cstore \<Rightarrow> conflict list" where
  "contested_claims clk name s =
     (let mine = map cl_path (filter (\<lambda>c. cl_agent c = name \<and> live (clk 0) c) (c_claims s));
          active = active_claims (clk 1) s in
      concat (map (\<lambda>p. map (\<lambda>c. \<lparr>cf_path = p, cf_held_by = act_agent c, cf_their_path = act_path c, cf_reason = act_reason c\<rparr>)
        (filter (\<lambda>c. act_agent c \<noteq> name \<and> act_exclusive c \<and> paths_overlap p (act_path c)) active)) mine))"

definition bootstrap_session :: "clock \<Rightarrow> string \<Rightarrow> string \<Rightarrow> string \<Rightarrow> string \<Rightarrow> string \<Rightarrow> string \<Rightarrow> cstore \<Rightarrow> bootstrap \<times> cstore" where
  "bootstrap_session clk name program model tsk session role s =
     (let s1 = register clk name program model tsk session role s in
      (\<lparr>bo_you = [(''name'', name), (''task'', tsk)],
        bo_active_peers = filter (\<lambda>a. av_name a \<noteq> name) (list_active (clk 2) presence_window s1),
        bo_your_claims = (case whois (clk 3) name s1 of None \<Rightarrow> [] | Some (a, cs) \<Rightarrow> cs),
        bo_recent_completed = recent_completed 10 s1,
        bo_contested = contested_claims (\<lambda>i. clk (4 + i)) name s1,
        bo_hint = ''Check active_peers' claims and recent_completed before claiming work.''\<rparr>, s1))"

definition live_claim_of :: "claim_row \<Rightarrow> live_claim" where
  "live_claim_of c = \<lparr>lc_agent = cl_agent c, lc_path = cl_path c, lc_exclusive = cl_exclusive c, lc_reason = cl_reason c,
     lc_expires_ts = cl_expires_ts c\<rparr>"

definition coordination_status :: "ts \<Rightarrow> clock \<Rightarrow> ts \<Rightarrow> cstore \<Rightarrow> coord_status" where
  "coordination_status grace clk window s =
     \<lparr>st_active_agents = list_active (clk 0) window s,
      st_live_claims = map live_claim_of (sort_key cl_created_ts (filter (live (clk 1)) (c_claims s))),
      st_recent_completed = recent_completed 10 s, st_recent_activity = recent_activity_all 30 s,
      st_server_now = clk 2, st_parked_grace_seconds = grace\<rparr>"

subsection \<open>The instruction inbox\<close>

definition send_instruction :: "clock \<Rightarrow> string \<Rightarrow> string \<Rightarrow> string \<Rightarrow> cstore \<Rightarrow> int \<times> cstore" where
  "send_instruction clk issuer target txt s =
     (let i = sql_next_id in_id (c_instructions s) in
      (i, audit (clk 1) issuer ''instruct'' (JObj [(''target'', JStr target), (''id'', JNum (of_int i)), (''text'', JStr txt)])
        (s\<lparr>c_instructions := c_instructions s @ [\<lparr>in_id = i, in_target = target, in_issuer = issuer, in_text = txt,
             in_status = ''pending'', in_result = None, in_created_ts = clk 0, in_acked_ts = None\<rparr>]\<rparr>)))"

definition instruction_of :: "instr_row \<Rightarrow> instruction" where
  "instruction_of r = \<lparr>iv_id = in_id r, iv_target = in_target r, iv_issuer = in_issuer r, iv_text = in_text r,
     iv_status = in_status r, iv_result = (case in_result r of None \<Rightarrow> '''' | Some x \<Rightarrow> x),
     iv_created_ts = in_created_ts r, iv_acked_ts = (case in_acked_ts r of None \<Rightarrow> 0 | Some x \<Rightarrow> x)\<rparr>"

definition pending_instructions :: "string \<Rightarrow> cstore \<Rightarrow> instruction list" where
  "pending_instructions agent s = map instruction_of
     (sort_key in_created_ts (filter (\<lambda>r. in_status r = ''pending'' \<and> in_target r = agent) (c_instructions s)))"

definition recent_instructions :: "string \<Rightarrow> int \<Rightarrow> cstore \<Rightarrow> instruction list" where
  "recent_instructions agent limit s = map instruction_of
     (sql_limit (if limit \<le> 0 then 10 else limit)
       (sort_key (\<lambda>r. - in_created_ts r) (filter (\<lambda>r. in_target r = agent) (c_instructions s))))"

definition instruction_status :: "int \<Rightarrow> cstore \<Rightarrow> string" where
  "instruction_status i s = (case find (\<lambda>r. in_id r = i) (c_instructions s) of None \<Rightarrow> '''' | Some r \<Rightarrow> in_status r)"

definition ack_instruction :: "clock \<Rightarrow> int \<Rightarrow> string \<Rightarrow> string \<Rightarrow> cstore \<Rightarrow> bool \<times> cstore" where
  "ack_instruction clk i agent result s =
     (let p = (\<lambda>r. in_id r = i \<and> in_target r = agent \<and> in_status r = ''pending'');
          n = sql_affected p (c_instructions s);
          s1 = s\<lparr>c_instructions := sql_update p (\<lambda>r. r\<lparr>in_status := ''done'', in_result := Some result,
                   in_acked_ts := Some (clk 0)\<rparr>) (c_instructions s)\<rparr> in
      (0 < n, if 0 < n then audit (clk 1) agent ''ack'' (JObj [(''id'', JNum (of_int i)), (''summary'', JStr result)]) s1 else s1))"

end
