(* ===== verification/Coord_Properties.thy ===== *)
theory Coord_Properties
  imports Coord
begin

section \<open>The coordination store: properties\<close>

text \<open>
  \<open>coord_step\<close> has one rule per method of the store that writes, and one for what subscribers do to
  its bus. The properties are those of the lease broker (what a claim grants, that exclusive leases exclude each other, what
  release and reaping free), of the agent table (identity and posture survive re-registration), of the inbox (an
  instruction is acknowledged once, by its target) and of the store as a whole.
\<close>

subsection \<open>Frames\<close>

lemma audit_frame [simp]:
  "c_agents (audit t a x d s) = c_agents s" "c_claims (audit t a x d s) = c_claims s"
  "c_completed (audit t a x d s) = c_completed s" "c_instructions (audit t a x d s) = c_instructions s"
  "c_bus (audit t a x d s) = publish (c_bus s)"
  by (simp_all add: audit_def)

lemma update_agent_frame [simp]:
  "c_claims (update_agent n f s) = c_claims s" "c_completed (update_agent n f s) = c_completed s"
  "c_instructions (update_agent n f s) = c_instructions s" "c_bus (update_agent n f s) = c_bus s"
  "c_agents (update_agent n f s) = sql_update (\<lambda>a. ag_name a = n) f (c_agents s)"
  by (simp_all add: update_agent_def)

lemma upsert_agent_frame [simp]:
  "c_claims (upsert_agent n a b c d e f g s) = c_claims s" "c_completed (upsert_agent n a b c d e f g s) = c_completed s"
  "c_instructions (upsert_agent n a b c d e f g s) = c_instructions s" "c_bus (upsert_agent n a b c d e f g s) = c_bus s"
  by (simp_all add: upsert_agent_def)

lemma release_where_frame [simp]:
  "c_agents (snd (release_where n p s)) = c_agents s" "c_completed (snd (release_where n p s)) = c_completed s"
  "c_instructions (snd (release_where n p s)) = c_instructions s" "c_bus (snd (release_where n p s)) = c_bus s"
  by (simp_all add: release_where_def Let_def)

lemma release_loop_frame [simp]:
  "c_agents (snd (release_loop n name ps k s)) = c_agents s" "c_completed (snd (release_loop n name ps k s)) = c_completed s"
  "c_instructions (snd (release_loop n name ps k s)) = c_instructions s" "c_bus (snd (release_loop n name ps k s)) = c_bus s"
  by (induction ps arbitrary: k s) (simp_all add: case_prod_unfold Let_def)

lemma release_claims_frame [simp]:
  "c_agents (snd (release_claims clk name ps s)) = c_agents s" "c_instructions (snd (release_claims clk name ps s)) = c_instructions s"
  "c_bus (snd (release_claims clk name ps s)) = publish (c_bus s)"
  by (simp_all add: release_claims_def Let_def case_prod_unfold)

lemma claim_paths_frame [simp]:
  "c_instructions (snd (claim_paths g clk name ps ttl ex why s)) = c_instructions s"
  "c_bus (snd (claim_paths g clk name ps ttl ex why s)) = publish (c_bus s)"
  "c_agents (snd (claim_paths g clk name ps ttl ex why s)) = c_agents (heartbeat (clk 1) name s)"
  by (simp_all add: claim_paths_def Let_def case_prod_unfold heartbeat_def)

lemma send_instruction_frame [simp]:
  "c_agents (snd (send_instruction clk i t x s)) = c_agents s" "c_claims (snd (send_instruction clk i t x s)) = c_claims s"
  "c_bus (snd (send_instruction clk i t x s)) = publish (c_bus s)"
  by (simp_all add: send_instruction_def Let_def)

lemma ack_instruction_frame [simp]:
  "c_agents (snd (ack_instruction clk i a r s)) = c_agents s" "c_claims (snd (ack_instruction clk i a r s)) = c_claims s"
  by (simp_all add: ack_instruction_def Let_def)

lemma mark_done_frame [simp]:
  "c_agents (mark_done clk n x ps s) = c_agents s" "c_claims (mark_done clk n x ps s) = c_claims s"
  "c_instructions (mark_done clk n x ps s) = c_instructions s" "c_bus (mark_done clk n x ps s) = publish (c_bus s)"
  by (simp_all add: mark_done_def)

lemma despawn_frame [simp]:
  "c_instructions (snd (despawn clk n s)) = c_instructions s"
  "c_agents (snd (despawn clk n s)) = sql_delete (\<lambda>a. ag_name a = n) (c_agents s)"
  "c_claims (snd (despawn clk n s)) = c_claims (snd (release_where (clk 0) (\<lambda>c. cl_agent c = n) s))"
  by (simp_all add: despawn_def Let_def)

subsection \<open>The store as a transition system\<close>

datatype event =
    Register string
  | Spawn string
  | Despawn string
  | RecordPrincipal string
  | Heartbeat string
  | SetStatus string string
  | ClaimPaths ts ts
  | ReleaseClaims string
  | ReapAbsentClaims
  | MarkDone string
  | SendInstruction string
  | AckInstruction int string
  | AuditEvent
  | BusEvent

inductive coord_step :: "event \<Rightarrow> cstore \<Rightarrow> cstore \<Rightarrow> bool" where
  \<comment> \<open>a claim's label has its grace period and its time\<close>
  register: "coord_step (Register name) s (register clk name program model tsk session role s)"
| spawn: "coord_step (Spawn (parent @ ''/'' @ child)) s (snd (spawn clk parent child role program model tsk s))"
| despawn: "coord_step (Despawn name) s (snd (despawn clk name s))"
| record_principal: "coord_step (RecordPrincipal name) s (record_principal name owner s)"
| heartbeat: "coord_step (Heartbeat name) s (heartbeat t name s)"
| set_status: "coord_step (SetStatus name st) s (set_status t name st s)"
| claim: "coord_step (ClaimPaths grace (clk 0)) s (snd (claim_paths grace clk name paths ttl exclusive reason s))"
| release: "coord_step (ReleaseClaims name) s (snd (release_claims clk name paths s))"
| reap: "coord_step ReapAbsentClaims s (snd (reap_absent_claims clk present s))"
| mark_done: "coord_step (MarkDone name) s (mark_done clk name summary paths s)"
| send: "coord_step (SendInstruction target) s (snd (send_instruction clk iss target x s))"
| ack: "coord_step (AckInstruction i agent) s (snd (ack_instruction clk i agent result s))"
| audit: "coord_step AuditEvent s (audit t name action detail s)"
| set_bus: "coord_step BusEvent s (set_bus (Some new_bus) s)"
| bus: "c_bus s = Some b \<Longrightarrow> bus_step b b' \<Longrightarrow> coord_step BusEvent s (s\<lparr>c_bus := Some b'\<rparr>)"

definition coord_run :: "(event \<Rightarrow> bool) \<Rightarrow> cstore \<Rightarrow> cstore \<Rightarrow> bool" where
  \<comment> \<open>a sequence of calls whose events satisfy \<open>ok\<close>\<close>
  "coord_run ok = (\<lambda>s s'. \<exists>e. ok e \<and> coord_step e s s')\<^sup>*\<^sup>*"

lemma coord_run_induct:
  assumes "coord_run ok s s'" and "P s" and "\<And>e s s'. ok e \<Longrightarrow> coord_step e s s' \<Longrightarrow> P s \<Longrightarrow> P s'"
  shows "P s'"
  using assms(1) unfolding coord_run_def by (induction rule: rtranclp_induct) (auto intro: assms(2,3))

text \<open>Reaping is a sequence of releases, so an invariant that releases keep is one that it keeps.\<close>

lemma reap_absent_claims_induct:
  assumes "\<And>clk name s. P s \<Longrightarrow> P (snd (release_claims clk name [] s))" and "P s"
  shows "P (snd (reap_absent_claims clk present s))"
proof -
  have "P (snd (reap_absent_loop clk pr hs s))" if "P s" for clk pr hs s
    using that by (induction hs arbitrary: clk s) (simp_all add: case_prod_unfold Let_def assms(1))
  then show ?thesis using assms(2) by (simp add: reap_absent_claims_def split: option.splits)
qed

definition wf_bus_opt :: "bus option \<Rightarrow> bool" where
  "wf_bus_opt bo = (case bo of None \<Rightarrow> True | Some b \<Rightarrow> wf_bus b)"

definition wf_cstore :: "cstore \<Rightarrow> bool" where
  "wf_cstore s \<longleftrightarrow> distinct (map ag_name (c_agents s)) \<and> claim_table.keyed (c_claims s) \<and>
     instr_table.keyed (c_instructions s) \<and> wf_bus_opt (c_bus s)"

lemma wf_bus_opt_simps [simp]: "wf_bus_opt None" "wf_bus_opt (Some b) = wf_bus b"
  by (simp_all add: wf_bus_opt_def)

lemma wf_bus_opt_publish [simp]: "wf_bus_opt bo \<Longrightarrow> wf_bus_opt (publish bo)"
  by (cases bo) (auto simp: publish_def dest: wf_publish [unfolded publish_def] split: option.splits)

lemma keyed_release_where [simp]: "claim_table.keyed (c_claims s) \<Longrightarrow> claim_table.keyed (c_claims (snd (release_where n p s)))"
  by (simp add: release_where_def Let_def claim_table.keyed_update)

lemma keyed_release_claims [simp]:
  assumes "claim_table.keyed (c_claims s)"
  shows "claim_table.keyed (c_claims (snd (release_claims clk name ps s)))"
proof -
  have "claim_table.keyed (c_claims (snd (release_loop n name ps k s)))" if "claim_table.keyed (c_claims s)" for n k s
    using that by (induction ps arbitrary: k s) (simp_all add: case_prod_unfold Let_def)
  then show ?thesis using assms by (simp add: release_claims_def Let_def case_prod_unfold)
qed

lemma keyed_insert_claim: "claim_table.keyed rows \<Longrightarrow> claim_table.keyed (insert_claim name p ex why n e rows)"
  using claim_table.keyed_ins [of rows "\<lparr>cl_id = 0, cl_agent = name, cl_path = p, cl_exclusive = ex, cl_reason = why,
      cl_created_ts = n, cl_expires_ts = e, cl_released_ts = None\<rparr>"] by (simp add: insert_claim_def)

lemma keyed_claim_loop:
  "claim_table.keyed rows \<Longrightarrow> claim_table.keyed (snd (snd (claim_loop g n name ex why e active ps (gr, cfs, rows))))"
  by (induction ps arbitrary: gr cfs rows) (simp_all add: keyed_insert_claim split: prod.split)

lemma keyed_claim_paths [simp]:
  "claim_table.keyed (c_claims s) \<Longrightarrow> claim_table.keyed (c_claims (snd (claim_paths g clk name ps ttl ex why s)))"
  by (simp add: claim_paths_def Let_def case_prod_unfold heartbeat_def keyed_claim_loop)

lemma distinct_upsert [simp]:
  "distinct (map ag_name (c_agents s)) \<Longrightarrow> distinct (map ag_name (c_agents (upsert_agent n a b c d e f g s)))"
  by (auto simp: upsert_agent_def sql_update_map)

lemma wf_release_claims [simp]: "wf_cstore s \<Longrightarrow> wf_cstore (snd (release_claims clk name ps s))"
  by (simp add: wf_cstore_def)

lemma keyed_send: "instr_table.keyed (c_instructions s) \<Longrightarrow> instr_table.keyed (c_instructions (snd (send_instruction clk i t x s)))"
  using instr_table.keyed_ins [of "c_instructions s" "\<lparr>in_id = 0, in_target = t, in_issuer = i, in_text = x,
      in_status = ''pending'', in_result = None, in_created_ts = clk 0, in_acked_ts = None\<rparr>"]
  by (simp add: send_instruction_def Let_def)

lemma wf_coord_step: "coord_step e s s' \<Longrightarrow> wf_cstore s \<Longrightarrow> wf_cstore s'"
proof (induction rule: coord_step.induct)
  case (reap s clk present)
  then show ?case by (rule reap_absent_claims_induct [rotated]) simp
next
  case (send target s clk iss x)
  then show ?case using keyed_send by (simp add: wf_cstore_def)
next
  case (ack i agent s clk result)
  then show ?case
    by (auto simp: wf_cstore_def ack_instruction_def Let_def instr_table.keyed_update)
next
  case (despawn name s clk)
  then show ?case
    by (auto simp: wf_cstore_def despawn_def Let_def sql_delete_def distinct_map_filter)
next
  case (bus s b c)
  then show ?case using wf_bus_step by (simp add: wf_cstore_def)
qed (auto simp: wf_cstore_def register_def spawn_def Let_def record_principal_def heartbeat_def set_status_def sql_update_map
       set_bus_def wf_new_bus)

lemma wf_empty_cstore: "wf_cstore empty_cstore"
  by (simp add: wf_cstore_def empty_cstore_def)

interpretation coord_machine: invariant_machine "\<lambda>s. s = empty_cstore" "\<lambda>s s'. \<exists>e. coord_step e s s'" wf_cstore
  by unfold_locales (auto simp: wf_empty_cstore intro: wf_coord_step)

subsection \<open>What a claim grants\<close>

definition rival :: "string \<Rightarrow> string \<Rightarrow> active_claim \<Rightarrow> bool" where
  "rival name p c \<longleftrightarrow> act_agent c \<noteq> name \<and> act_exclusive c \<and> paths_overlap p (act_path c)"

definition conflict_with :: "string \<Rightarrow> active_claim \<Rightarrow> conflict" where
  "conflict_with p c = \<lparr>cf_path = p, cf_held_by = act_agent c, cf_their_path = act_path c, cf_reason = act_reason c\<rparr>"

definition parked :: "ts \<Rightarrow> ts \<Rightarrow> cstore \<Rightarrow> string \<Rightarrow> bool" where
  \<comment> \<open>the agent has been awaiting approval for longer than the grace period\<close>
  "parked grace n s name = (case agent_by_name name s of None \<Rightarrow> False
     | Some a \<Rightarrow> ag_status a = ''awaiting_approval'' \<and> n - ag_status_since a > grace)"

definition blocks :: "ts \<Rightarrow> ts \<Rightarrow> cstore \<Rightarrow> string \<Rightarrow> string \<Rightarrow> claim_row \<Rightarrow> bool" where
  \<comment> \<open>the row is a live exclusive lease of another agent on an overlapping path, and its holder is not parked\<close>
  "blocks grace n s name p c \<longleftrightarrow> live n c \<and> cl_exclusive c \<and> cl_agent c \<noteq> name \<and> paths_overlap p (cl_path c) \<and>
     \<not> parked grace n s (cl_agent c)"

lemma enforcing_active_claim: "enforcing grace (active_claim_of s c) n \<longleftrightarrow> \<not> parked grace n s (cl_agent c)"
  by (simp add: enforcing_def active_claim_of_def parked_def split: option.splits)

lemma rival_active_claim:
  "rival name p (active_claim_of s c) \<longleftrightarrow> cl_agent c \<noteq> name \<and> cl_exclusive c \<and> paths_overlap p (cl_path c)"
  by (simp add: rival_def active_claim_of_def)

lemma check_path_eq:
  "check_path g n name ex p cs bl cfs =
     (bl \<or> ex \<and> (\<exists>c\<in>set cs. rival name p c \<and> enforcing g c n), cfs @ map (conflict_with p) (filter (rival name p) cs))"
  by (induction cs arbitrary: bl cfs) (auto simp: rival_def conflict_with_def)

lemma claim_loop_eq:
  "claim_loop g n name ex why e cs ps (gr, cfs, rows) =
     (let ok = filter (\<lambda>p. \<not> (ex \<and> (\<exists>c\<in>set cs. rival name p c \<and> enforcing g c n))) ps in
      (gr @ ok, cfs @ concat (map (\<lambda>p. map (conflict_with p) (filter (rival name p) cs)) ps),
       fold (\<lambda>p. insert_claim name p ex why n e) ok rows))"
  by (induction ps arbitrary: gr cfs rows) (auto simp: check_path_eq Let_def)

lemma fold_insert_claim:
  "\<exists>new. fold (\<lambda>p. insert_claim name p ex why n e) ps rows = rows @ new \<and> map cl_path new = ps \<and>
     (\<forall>c\<in>set new. cl_agent c = name \<and> cl_exclusive c = ex \<and> cl_reason c = why \<and> cl_created_ts c = n \<and>
        cl_expires_ts c = e \<and> cl_released_ts c = None)"
proof (induction ps arbitrary: rows)
  case (Cons p ps)
  obtain c where c: "insert_claim name p ex why n e rows = rows @ [c]" "cl_path c = p" "cl_agent c = name" "cl_exclusive c = ex"
      "cl_reason c = why" "cl_created_ts c = n" "cl_expires_ts c = e" "cl_released_ts c = None"
    by (simp add: insert_claim_def)
  obtain new where "fold (\<lambda>p. insert_claim name p ex why n e) ps (rows @ [c]) = (rows @ [c]) @ new" "map cl_path new = ps"
      "\<forall>c\<in>set new. cl_agent c = name \<and> cl_exclusive c = ex \<and> cl_reason c = why \<and> cl_created_ts c = n \<and>
        cl_expires_ts c = e \<and> cl_released_ts c = None"
    using Cons.IH [of "rows @ [c]"] by blast
  then show ?case using c by (intro exI [of _ "c # new"]) simp
qed simp

lemma set_active_claims: "set (active_claims n s) = active_claim_of s ` {c \<in> set (c_claims s). live n c}"
  by (auto simp: active_claims_def)

lemma blocked_iff:
  "(\<exists>c\<in>set (active_claims n s). rival name p c \<and> enforcing g c n) \<longleftrightarrow> (\<exists>c\<in>set (c_claims s). blocks g n s name p c)"
  by (auto simp: set_active_claims rival_active_claim enforcing_active_claim blocks_def)

lemma claim_paths_outcome:
  assumes "claim_paths grace clk name paths ttl exclusive reason s = (r, s')"
  shows "res_granted r = filter (\<lambda>p. \<not> (exclusive \<and> (\<exists>c\<in>set (c_claims s). blocks grace (clk 0) s name p c))) paths \<and>
    set (res_conflicts r) = {conflict_with p (active_claim_of s c) | p c. p \<in> set paths \<and> c \<in> set (c_claims s) \<and>
       live (clk 0) c \<and> cl_exclusive c \<and> cl_agent c \<noteq> name \<and> paths_overlap p (cl_path c)} \<and>
    (\<exists>new. c_claims s' = c_claims s @ new \<and> map cl_path new = res_granted r \<and>
       (\<forall>c\<in>set new. cl_agent c = name \<and> cl_exclusive c = exclusive \<and> cl_reason c = reason \<and> cl_created_ts c = clk 0 \<and>
          cl_expires_ts c = clk 0 + ttl \<and> cl_released_ts c = None))"
proof -
  let ?ok = "filter (\<lambda>p. \<not> (exclusive \<and> (\<exists>c\<in>set (c_claims s). blocks grace (clk 0) s name p c))) paths"
  have r: "res_granted r = ?ok"
    "res_conflicts r = concat (map (\<lambda>p. map (conflict_with p) (filter (rival name p) (active_claims (clk 0) s))) paths)"
    "c_claims s' = fold (\<lambda>p. insert_claim name p exclusive reason (clk 0) (clk 0 + ttl)) ?ok (c_claims s)"
    using assms by (auto simp: claim_paths_def claim_loop_eq Let_def blocked_iff heartbeat_def)
  have "set (res_conflicts r) = {conflict_with p (active_claim_of s c) | p c. p \<in> set paths \<and> c \<in> set (c_claims s) \<and>
       live (clk 0) c \<and> cl_exclusive c \<and> cl_agent c \<noteq> name \<and> paths_overlap p (cl_path c)}" (is "_ = ?C")
  proof (rule set_eqI)
    fix x
    have "x \<in> set (res_conflicts r) \<longleftrightarrow>
        (\<exists>p\<in>set paths. \<exists>c\<in>set (c_claims s). live (clk 0) c \<and> rival name p (active_claim_of s c) \<and> x = conflict_with p (active_claim_of s c))"
      by (auto simp: r(2) set_active_claims)
    also have "\<dots> \<longleftrightarrow> x \<in> ?C" unfolding rival_active_claim by blast
    finally show "x \<in> set (res_conflicts r) \<longleftrightarrow> x \<in> ?C" .
  qed
  then show ?thesis using r fold_insert_claim [of name exclusive reason "clk 0" "clk 0 + ttl" ?ok "c_claims s"] by simp
qed

text \<open>
  C28. What a claim grants, exactly. A path is granted unless the request is exclusive and another agent that is not parked
  holds a live exclusive lease on an overlapping path; a lease row is added for each granted path and for nothing else; and the
  conflicts reported are all live exclusive leases of other agents on overlapping paths, those of parked holders included, also
  when the path is granted.
\<close>

theorem claim_paths_exact:
  assumes "claim_paths grace clk name paths ttl exclusive reason s = (r, s')"
  shows "res_granted r = filter (\<lambda>p. \<not> (exclusive \<and> (\<exists>c\<in>set (c_claims s). blocks grace (clk 0) s name p c))) paths \<and>
    set (res_conflicts r) = {conflict_with p (active_claim_of s c) | p c. p \<in> set paths \<and> c \<in> set (c_claims s) \<and>
       live (clk 0) c \<and> cl_exclusive c \<and> cl_agent c \<noteq> name \<and> paths_overlap p (cl_path c)} \<and>
    (\<exists>new. c_claims s' = c_claims s @ new \<and> map cl_path new = res_granted r \<and>
       (\<forall>c\<in>set new. cl_agent c = name \<and> cl_exclusive c = exclusive \<and> cl_reason c = reason \<and> cl_created_ts c = clk 0 \<and>
          cl_expires_ts c = clk 0 + ttl \<and> cl_released_ts c = None))"
  using assms by (rule claim_paths_outcome)

definition ex_lease :: cstore where
  \<comment> \<open>\<open>ann\<close> holds an exclusive lease on \<open>src\<close>\<close>
  "ex_lease = snd (claim_paths 300 (\<lambda>_. 10) ''ann'' [''src''] 60 True ''edit'' empty_cstore)"

lemma ex_lease_claims:
  "c_claims ex_lease = [\<lparr>cl_id = 1, cl_agent = ''ann'', cl_path = ''src'', cl_exclusive = True, cl_reason = ''edit'',
     cl_created_ts = 10, cl_expires_ts = 70, cl_released_ts = None\<rparr>]" "c_agents ex_lease = []"
  by (simp_all add: ex_lease_def claim_paths_def Let_def empty_cstore_def active_claims_def insert_claim_def heartbeat_def sql_next_id_def)

theorem claim_paths_exact_witness:
  "res_granted (fst (claim_paths 300 (\<lambda>_. 20) ''bob'' [''src/a'', ''doc''] 60 True ''x'' ex_lease)) = [''doc'']"
proof -
  obtain r s' where c: "claim_paths 300 (\<lambda>_. 20) ''bob'' [''src/a'', ''doc''] 60 True ''x'' ex_lease = (r, s')"
    by (metis prod.exhaust)
  have "res_granted r = filter (\<lambda>p. \<not> (True \<and> (\<exists>c\<in>set (c_claims ex_lease). blocks 300 20 ex_lease ''bob'' p c))) [''src/a'', ''doc'']"
    using claim_paths_exact [OF c] by (rule conjunct1)
  then show ?thesis
    by (simp add: c ex_lease_claims blocks_def live_def parked_def agent_by_name_def paths_overlap_def trim_slash_def
        trim_right_def has_prefix_def Let_def)
qed

subsection \<open>Exclusive leases exclude each other\<close>

lemma paths_overlap_sym: "paths_overlap a b = paths_overlap b a"
  by (auto simp: paths_overlap_def Let_def)

lemma release_where_live: "c \<in> set (c_claims (snd (release_where n p s))) \<Longrightarrow> cl_released_ts c = None \<Longrightarrow> c \<in> set (c_claims s)"
  by (auto simp: release_where_def Let_def elim!: in_sql_updateE split: if_splits)

lemma release_claims_live:
  assumes "c \<in> set (c_claims (snd (release_claims clk name ps s)))" and "cl_released_ts c = None"
  shows "c \<in> set (c_claims s)"
proof -
  have "c \<in> set (c_claims (snd (release_loop n name ps k s))) \<Longrightarrow> c \<in> set (c_claims s)" for n k s
    using assms(2) by (induction ps arbitrary: k s) (auto simp: case_prod_unfold Let_def dest: release_where_live)
  then show ?thesis using assms by (auto simp: release_claims_def Let_def case_prod_unfold dest: release_where_live split: if_splits)
qed

lemma claims_only_by_claim:
  assumes "coord_step e s s'" and "\<nexists>g n. e = ClaimPaths g n" and "c \<in> set (c_claims s')" and "cl_released_ts c = None"
  shows "c \<in> set (c_claims s)"
  using assms
proof (induction rule: coord_step.induct)
  case (reap s clk present)
  let ?P = "\<lambda>s'. \<forall>c\<in>set (c_claims s'). cl_released_ts c = None \<longrightarrow> c \<in> set (c_claims s)"
  have "?P (snd (reap_absent_claims clk present s))"
    by (rule reap_absent_claims_induct [where P = ?P]) (blast dest: release_claims_live)+
  with reap show ?case by blast
qed (auto simp: register_def spawn_def Let_def record_principal_def heartbeat_def set_status_def set_bus_def
      split: if_splits dest: release_claims_live release_where_live)

definition leases_exclusive :: "ts \<Rightarrow> cstore \<Rightarrow> bool" where
  "leases_exclusive t s \<longleftrightarrow> (\<forall>c\<in>set (c_claims s). \<forall>d\<in>set (c_claims s). live t c \<longrightarrow> live t d \<longrightarrow> cl_exclusive c \<longrightarrow>
     cl_exclusive d \<longrightarrow> cl_agent c \<noteq> cl_agent d \<longrightarrow> \<not> paths_overlap (cl_path c) (cl_path d))"

inductive lease_step :: "ts \<times> cstore \<Rightarrow> ts \<times> cstore \<Rightarrow> bool" where
  wait: "t \<le> t' \<Longrightarrow> lease_step (t, s) (t', s)"
| claim: "coord_step (ClaimPaths grace n) s s' \<Longrightarrow> t \<le> n \<Longrightarrow>
    \<forall>c\<in>set (c_claims s). live n c \<and> cl_exclusive c \<longrightarrow> \<not> parked grace n s (cl_agent c) \<Longrightarrow> lease_step (t, s) (n, s')"
| other: "coord_step e s s' \<Longrightarrow> \<nexists>g n. e = ClaimPaths g n \<Longrightarrow> lease_step (t, s) (t, s')"

lemma live_mono: "t \<le> t' \<Longrightarrow> live t' c \<Longrightarrow> live t c"
  by (simp add: live_def)

lemma leases_exclusive_claim:
  assumes "coord_step (ClaimPaths grace n) s s'" and "t \<le> n" and "leases_exclusive t s"
    and "\<forall>c\<in>set (c_claims s). live n c \<and> cl_exclusive c \<longrightarrow> \<not> parked grace n s (cl_agent c)"
  shows "leases_exclusive n s'"
proof -
  obtain clk name paths ttl ex why where n: "n = clk 0" and s': "s' = snd (claim_paths grace clk name paths ttl ex why s)"
    using assms(1) by (auto elim: coord_step.cases)
  obtain r where "claim_paths grace clk name paths ttl ex why s = (r, s')" using s' by (metis prod.collapse)
  from claim_paths_outcome [OF this] obtain new where
    g: "res_granted r = filter (\<lambda>p. \<not> (ex \<and> (\<exists>c\<in>set (c_claims s). blocks grace n s name p c))) paths"
    and rows: "c_claims s' = c_claims s @ new" "map cl_path new = res_granted r"
    and new: "\<forall>c\<in>set new. cl_agent c = name \<and> cl_exclusive c = ex" using n by auto
  have fresh: "\<not> paths_overlap (cl_path d) (cl_path c)"
    if d: "d \<in> set new" "cl_exclusive d" and c: "c \<in> set (c_claims s)" "live n c" "cl_exclusive c" "cl_agent c \<noteq> name" for c d
  proof -
    have "cl_path d \<in> set (res_granted r)" using d(1) by (simp add: rows(2) [symmetric])
    then have "\<not> blocks grace n s name (cl_path d) c" using g new d c(1) by auto
    then show ?thesis using c assms(4) by (auto simp: blocks_def)
  qed
  have old: "\<not> paths_overlap (cl_path c) (cl_path d)" if "c \<in> set (c_claims s)" "d \<in> set (c_claims s)" "live n c" "live n d"
    "cl_exclusive c" "cl_exclusive d" "cl_agent c \<noteq> cl_agent d" for c d
    using assms(3) that live_mono [OF assms(2)] unfolding leases_exclusive_def by blast
  show ?thesis
    unfolding leases_exclusive_def rows set_append
    using old fresh new paths_overlap_sym by (metis (no_types, lifting) Un_iff)
qed

definition lease_inv :: "ts \<times> cstore \<Rightarrow> bool" where
  "lease_inv ts_s = leases_exclusive (fst ts_s) (snd ts_s)"

lemma lease_inv_step: "lease_step x y \<Longrightarrow> lease_inv x \<Longrightarrow> lease_inv y"
proof (induction rule: lease_step.induct)
  case (wait t t' s)
  then show ?case unfolding lease_inv_def leases_exclusive_def fst_conv snd_conv using live_mono by blast
next
  case (claim grace n s s' t)
  then show ?case using leases_exclusive_claim by (simp add: lease_inv_def)
next
  case (other e s s' t)
  have "c \<in> set (c_claims s)" if "c \<in> set (c_claims s')" "live t c" for c
    using claims_only_by_claim [OF other(1,2)] that by (simp add: live_def)
  then show ?case using other(3) unfolding lease_inv_def leases_exclusive_def fst_conv snd_conv by blast
qed

interpretation lease_machine: invariant_machine "\<lambda>x. snd x = empty_cstore" lease_step lease_inv
  by unfold_locales (simp add: lease_inv_def leases_exclusive_def empty_cstore_def, rule lease_inv_step)

text \<open>
  C9. Exclusive path leases exclude each other. Start from the empty store and let any calls of the store happen in any order, with
  time passing in between, where no claim is made while the holder of a live exclusive lease is parked beyond its grace period.
  Then at every moment two live exclusive leases on overlapping paths belong to one agent.
\<close>

theorem leases_mutually_exclusive:
  assumes "lease_step\<^sup>*\<^sup>* (0, empty_cstore) (t, s)"
    and "c \<in> set (c_claims s)" and "d \<in> set (c_claims s)" and "live t c" and "live t d"
    and "cl_exclusive c" and "cl_exclusive d" and "paths_overlap (cl_path c) (cl_path d)"
  shows "cl_agent c = cl_agent d"
  using lease_machine.reachable_inv [OF _ assms(1)] assms(2-8) by (auto simp: lease_inv_def leases_exclusive_def)

theorem leases_mutually_exclusive_witness:
  "\<exists>s c. lease_step\<^sup>*\<^sup>* (0, empty_cstore) (20, s) \<and> c \<in> set (c_claims s) \<and> live 20 c \<and> cl_agent c = ''ann'' \<and>
     cl_agent c = cl_agent (hd (c_claims s))"
proof -
  let ?t = "snd (claim_paths 300 (\<lambda>_. 20) ''bob'' [''src/a''] 60 True ''x'' ex_lease)"
  have "lease_step (0, empty_cstore) (10, ex_lease)"
    using coord_step.claim [of 300 "\<lambda>_. 10" empty_cstore "''ann''" "[''src'']" 60 True "''edit''"]
    by (intro lease_step.claim) (auto simp: ex_lease_def empty_cstore_def)
  moreover have "lease_step (10, ex_lease) (20, ?t)"
    using coord_step.claim [of 300 "\<lambda>_. 20" ex_lease "''bob''" "[''src/a'']" 60 True "''x''"]
    by (intro lease_step.claim) (auto simp: ex_lease_claims parked_def agent_by_name_def)
  ultimately have run: "lease_step\<^sup>*\<^sup>* (0, empty_cstore) (20, ?t)"
    by (rule converse_rtranclp_into_rtranclp [OF _ r_into_rtranclp])
  let ?c = "hd (c_claims ex_lease)"
  obtain new where "c_claims ?t = c_claims ex_lease @ new"
    using claim_paths_outcome [OF prod.collapse [symmetric], of 300 "\<lambda>_. 20" "''bob''" "[''src/a'']" 60 True "''x''" ex_lease] by blast
  then have c: "?c \<in> set (c_claims ?t)" "hd (c_claims ?t) = ?c" "live 20 ?c" "cl_exclusive ?c" "cl_agent ?c = ''ann''"
    by (simp_all add: ex_lease_claims live_def)
  have "paths_overlap (cl_path ?c) (cl_path ?c)" by (simp add: paths_overlap_def)
  then have "cl_agent ?c = cl_agent (hd (c_claims ?t))"
    using leases_mutually_exclusive [OF run c(1) c(1) c(3) c(3) c(4) c(4)] c(2) by simp
  with run c show ?thesis by blast
qed

subsection \<open>Overlap is the ancestor relation of paths\<close>

lemma split_on_sep: "split_on c (a @ c # b) = split_on c a @ split_on c b"
proof (induction a)
  case (Cons x a)
  then show ?case using split_on_ne [of c a] by (cases "split_on c a") auto
qed simp

lemma join_Cons: "ws \<noteq> [] \<Longrightarrow> join sep (w # ws) = w @ sep @ join sep ws"
  by (cases ws) simp_all

lemma join_split_on: "join [c] (split_on c s) = s"
proof (induction s)
  case (Cons x s)
  obtain w ws where w: "split_on c s = w # ws" using split_on_ne by (metis list.exhaust)
  have "join [c] ((x # w) # ws) = x # join [c] (w # ws)" by (cases ws) simp_all
  then show ?case using Cons w by (auto simp: join_Cons)
qed simp

lemma join_append: "xs \<noteq> [] \<Longrightarrow> ys \<noteq> [] \<Longrightarrow> join sep (xs @ ys) = join sep xs @ sep @ join sep ys"
proof (induction xs)
  case (Cons x xs)
  then show ?case by (cases xs) (simp_all add: join_Cons)
qed simp

definition path_components :: "string \<Rightarrow> string list" where
  "path_components p = split_on (CHR ''/'') (trim_slash p)"

lemma below_iff:
  "(a = b \<or> has_prefix a (b @ [c])) \<longleftrightarrow> (\<exists>zs. split_on c a = split_on c b @ zs)"
proof
  assume "a = b \<or> has_prefix a (b @ [c])"
  then show "\<exists>zs. split_on c a = split_on c b @ zs" by (auto simp: has_prefix_iff split_on_sep)
next
  assume "\<exists>zs. split_on c a = split_on c b @ zs"
  then obtain zs where z: "split_on c a = split_on c b @ zs" by blast
  have a: "a = join [c] (split_on c b @ zs)" using join_split_on [of c a] z by simp
  show "a = b \<or> has_prefix a (b @ [c])"
  proof (cases "zs = []")
    case True
    then show ?thesis using a by (simp add: join_split_on)
  next
    case False
    then have "a = b @ [c] @ join [c] zs" using a by (simp add: join_append join_split_on)
    then show ?thesis by (simp add: has_prefix_iff)
  qed
qed

text \<open>
  Path overlap compares whole path components: two paths overlap exactly when the component list of one is an initial segment
  of the other's (equal, or one an ancestor directory of the other), trailing slashes aside. So \<^verbatim>\<open>src/ab\<close> never conflicts with
  \<^verbatim>\<open>src/a\<close>.
\<close>

theorem paths_overlap_components:
  "paths_overlap a b \<longleftrightarrow> (\<exists>zs. path_components a = path_components b @ zs \<or> path_components b = path_components a @ zs)"
proof -
  let ?a = "trim_slash a" and ?b = "trim_slash b"
  have "paths_overlap a b \<longleftrightarrow> (?a = ?b \<or> has_prefix ?a (?b @ ''/'')) \<or> (?b = ?a \<or> has_prefix ?b (?a @ ''/''))"
    by (auto simp: paths_overlap_def Let_def)
  then show ?thesis unfolding below_iff path_components_def by blast
qed

subsection \<open>Agents keep their identity\<close>

lemma agent_by_name_iff:
  assumes "distinct (map ag_name (c_agents s))"
  shows "agent_by_name n s = Some a \<longleftrightarrow> a \<in> set (c_agents s) \<and> ag_name a = n"
proof
  assume "agent_by_name n s = Some a"
  then show "a \<in> set (c_agents s) \<and> ag_name a = n"
    by (auto simp: agent_by_name_def find_Some_iff)
next
  assume a: "a \<in> set (c_agents s) \<and> ag_name a = n"
  then obtain b where b: "agent_by_name n s = Some b"
    by (cases "agent_by_name n s") (auto simp: agent_by_name_def find_None_iff)
  then have "b \<in> set (c_agents s) \<and> ag_name b = n" by (auto simp: agent_by_name_def find_Some_iff)
  with a assms have "a = b" by (auto simp: distinct_map dest: inj_onD)
  with b show "agent_by_name n s = Some a" by simp
qed

lemma find_sql_update:
  assumes "\<And>r. Q (f r) = Q r"
  shows "find Q (sql_update p f rows) = map_option (\<lambda>r. if p r then f r else r) (find Q rows)"
  by (induction rows) (auto simp: assms)

lemma agent_update:
  assumes "\<And>a. ag_name (f a) = ag_name a"
  shows "agent_by_name n (update_agent m f s) = map_option (\<lambda>a. if m = n then f a else a) (agent_by_name n s)"
proof -
  have "agent_by_name n (update_agent m f s) = map_option (\<lambda>a. if ag_name a = m then f a else a) (agent_by_name n s)"
    unfolding agent_by_name_def by (simp only: update_agent_frame) (rule find_sql_update, simp add: assms)
  also have "\<dots> = map_option (\<lambda>a. if m = n then f a else a) (agent_by_name n s)"
    by (rule map_option_cong) (auto simp: agent_by_name_def find_Some_iff)
  finally show ?thesis .
qed

lemma find_append: "find p (xs @ ys) = (case find p xs of None \<Rightarrow> find p ys | Some x \<Rightarrow> Some x)"
  by (induction xs) auto

lemma agent_upsert:
  assumes "agent_by_name n s = Some a"
  shows "agent_by_name n (upsert_agent t m pr mo tk se pa ro s) =
    Some (if m = n then a\<lparr>ag_program := pr, ag_model := mo, ag_task := tk, ag_session_id := se, ag_last_active_ts := t,
             ag_parent := (if pa \<noteq> '''' then pa else ag_parent a), ag_role := (if ro \<noteq> '''' then ro else ag_role a)\<rparr> else a)"
proof (cases "\<exists>a\<in>set (c_agents s). ag_name a = m")
  case True
  then show ?thesis using assms by (simp only: upsert_agent_def if_True) (simp add: agent_update)
next
  case False
  then have "m \<noteq> n" using assms by (auto simp: agent_by_name_def find_Some_iff)
  then show ?thesis using False assms by (simp add: upsert_agent_def agent_by_name_def find_append)
qed

lemma agent_record:
  "agent_by_name n (record_principal m owner s) =
     map_option (\<lambda>a. if owner \<noteq> '''' \<and> m = n \<and> ag_principal a = '''' then a\<lparr>ag_principal := owner\<rparr> else a) (agent_by_name n s)"
proof -
  have "agent_by_name n (record_principal m owner s) =
      map_option (\<lambda>a. if owner \<noteq> '''' \<and> ag_name a = m \<and> ag_principal a = '''' then a\<lparr>ag_principal := owner\<rparr> else a) (agent_by_name n s)"
    by (simp add: record_principal_def agent_by_name_def find_sql_update option.map_ident)
  also have "\<dots> = map_option (\<lambda>a. if owner \<noteq> '''' \<and> m = n \<and> ag_principal a = '''' then a\<lparr>ag_principal := owner\<rparr> else a) (agent_by_name n s)"
    by (rule map_option_cong) (auto simp: agent_by_name_def find_Some_iff)
  finally show ?thesis .
qed

lemma agents_cong: "c_agents s' = c_agents s \<Longrightarrow> agent_by_name n s' = agent_by_name n s"
  by (simp add: agent_by_name_def)

lemma find_filter_other: "(\<And>x. Q x \<Longrightarrow> p x) \<Longrightarrow> find Q (filter p xs) = find Q xs"
  by (induction xs) auto

lemma agent_delete: "n \<noteq> m \<Longrightarrow> agent_by_name n (snd (despawn clk m s)) = agent_by_name n s"
  by (simp add: agent_by_name_def sql_delete_def) (rule find_filter_other, simp)

lemma reap_agents: "c_agents (snd (reap_absent_claims clk present s)) = c_agents s"
  by (rule reap_absent_claims_induct) simp_all

lemma agents_set_bus: "c_agents (set_bus b s) = c_agents s" "c_agents (s\<lparr>c_bus := b'\<rparr>) = c_agents s"
  by (simp_all add: set_bus_def)

lemmas agent_frames = agents_cong [OF audit_frame(1)] agents_cong [OF release_claims_frame(1)]
  agents_cong [OF send_instruction_frame(1)] agents_cong [OF ack_instruction_frame(1)] agents_cong [OF mark_done_frame(1)]
  agents_cong [OF reap_agents] agents_cong [OF agents_set_bus(1)] agents_cong [OF agents_set_bus(2)]
  agents_cong [OF claim_paths_frame(3)]

definition identity_kept :: "agent \<Rightarrow> agent \<Rightarrow> bool" where
  "identity_kept a b \<longleftrightarrow> ag_name b = ag_name a \<and> ag_registered_ts b = ag_registered_ts a \<and>
     (ag_principal a \<noteq> '''' \<longrightarrow> ag_principal b = ag_principal a) \<and> (ag_role a \<noteq> '''' \<longrightarrow> ag_role b \<noteq> '''') \<and>
     (ag_parent a \<noteq> '''' \<longrightarrow> ag_parent b \<noteq> '''')"

lemma agent_step:
  assumes "coord_step e s s'" and "e \<noteq> Despawn n" and "agent_by_name n s = Some a"
  shows "\<exists>b. agent_by_name n s' = Some b \<and> identity_kept a b \<and>
    ((\<exists>st. e = SetStatus n st \<and> st \<noteq> ag_status a) \<or> ag_status b = ag_status a \<and> ag_status_since b = ag_status_since a)"
  using assms
proof (induction rule: coord_step.induct)
  case (despawn name s clk)
  then show ?case using agent_delete [of n name clk s] by (simp add: identity_kept_def)
qed (simp_all add: identity_kept_def agent_frames agent_record heartbeat_def set_status_def agent_update
       register_def spawn_def Let_def agent_upsert)

lemma identity_trans: "identity_kept a b \<Longrightarrow> identity_kept b c \<Longrightarrow> identity_kept a c"
  by (auto simp: identity_kept_def)

text \<open>
  An agent keeps its identity until it is despawned. Whatever the store is asked in between (re-registration,
  re-spawning, heartbeats, reaping, another claim of ownership), the row of a registered agent stays, with its registration time; its
  owning principal, once recorded, is never replaced; and a role or a parent once set is never erased.
\<close>

theorem agent_identity_kept:
  assumes "coord_run (\<lambda>e. e \<noteq> Despawn n) s s'" and "agent_by_name n s = Some a"
  shows "\<exists>b. agent_by_name n s' = Some b \<and> identity_kept a b"
  using assms(1)
proof (rule coord_run_induct)
  show "\<exists>b. agent_by_name n s = Some b \<and> identity_kept a b" using assms(2) by (simp add: identity_kept_def)
  fix e s s' assume "e \<noteq> Despawn n" "coord_step e s s'" "\<exists>b. agent_by_name n s = Some b \<and> identity_kept a b"
  then show "\<exists>b. agent_by_name n s' = Some b \<and> identity_kept a b" using agent_step identity_trans by metis
qed

definition ex_ann :: cstore where
  "ex_ann = record_principal ''ann'' ''team'' (register (\<lambda>_. 10) ''ann'' ''p'' ''m'' ''t'' ''s'' ''tester'' empty_cstore)"

lemma ex_ann_agent:
  "agent_by_name ''ann'' ex_ann = Some \<lparr>ag_name = ''ann'', ag_program = ''p'', ag_model = ''m'', ag_task = ''t'', ag_session_id = ''s'',
     ag_registered_ts = 10, ag_last_active_ts = 10, ag_parent = '''', ag_role = ''tester'', ag_status = ''working'',
     ag_status_since = 0, ag_principal = ''team''\<rparr>"
  by (simp add: ex_ann_def agent_by_name_def record_principal_def register_def upsert_agent_def empty_cstore_def audit_def)

theorem agent_identity_kept_witness:
  "\<exists>b. agent_by_name ''ann'' (record_principal ''ann'' ''thief'' (register (\<lambda>_. 20) ''ann'' ''p2'' ''m2'' ''t2'' ''s2'' '''' ex_ann)) = Some b \<and>
     ag_principal b = ''team'' \<and> ag_role b \<noteq> '''' \<and> ag_registered_ts b = 10"
proof -
  let ?s = "register (\<lambda>_. 20) ''ann'' ''p2'' ''m2'' ''t2'' ''s2'' '''' ex_ann"
  have "coord_run (\<lambda>e. e \<noteq> Despawn ''ann'') ex_ann (record_principal ''ann'' ''thief'' ?s)"
    unfolding coord_run_def
    by (rule converse_rtranclp_into_rtranclp [OF _ r_into_rtranclp])
       (use coord_step.register [of "''ann''" ex_ann] coord_step.record_principal [of "''ann''" ?s] in blast)+
  from agent_identity_kept [OF this ex_ann_agent] show ?thesis by (auto simp: identity_kept_def)
qed

subsection \<open>Parked agents\<close>

definition awaiting :: string where
  "awaiting = ''awaiting_approval''"

definition stays_parked :: "string \<Rightarrow> event \<Rightarrow> bool" where
  "stays_parked n e \<longleftrightarrow> e \<noteq> Despawn n \<and> (\<forall>st. e = SetStatus n st \<longrightarrow> st = awaiting)"

text \<open>
  How long an agent has been parked is measured from the moment it began to wait. From then on, however often it repeats the
  status, heartbeats or re-registers, its leases stop blocking exactly when more than the grace period has passed since that first
  moment; and they block again as soon as it reports any other status.
\<close>

theorem parked_since_first_wait:
  assumes "agent_by_name n s = Some a" and "ag_status a \<noteq> awaiting"
    and "coord_run (stays_parked n) (set_status t0 n awaiting s) s'"
  shows "(parked grace u s' n \<longleftrightarrow> u - t0 > grace) \<and> (st \<noteq> awaiting \<longrightarrow> \<not> parked grace u (set_status t1 n st s') n)"
proof -
  let ?P = "\<lambda>s. \<exists>b. agent_by_name n s = Some b \<and> ag_status b = awaiting \<and> ag_status_since b = t0"
  have "?P s'"
    using assms(3)
  proof (rule coord_run_induct)
    show "?P (set_status t0 n awaiting s)" using assms(1,2) by (simp add: set_status_def agent_update)
    fix e s s' assume "stays_parked n e" "coord_step e s s'" "?P s"
    then show "?P s'" using agent_step [of e s s' n] unfolding stays_parked_def by metis
  qed
  then obtain b where b: "agent_by_name n s' = Some b" "ag_status b = awaiting" "ag_status_since b = t0" by blast
  then show ?thesis by (simp add: parked_def set_status_def agent_update awaiting_def)
qed

theorem parked_since_first_wait_witness:
  "parked 300 400 (set_status 90 ''ann'' awaiting (set_status 50 ''ann'' awaiting ex_ann)) ''ann''"
proof -
  have "coord_run (stays_parked ''ann'') (set_status 50 ''ann'' awaiting ex_ann)
      (set_status 90 ''ann'' awaiting (set_status 50 ''ann'' awaiting ex_ann))"
    unfolding coord_run_def by (rule r_into_rtranclp) (use coord_step.set_status stays_parked_def in blast)
  from parked_since_first_wait [OF ex_ann_agent _ this] show ?thesis by (simp add: awaiting_def)
qed

subsection \<open>Releasing and reaping leases\<close>

definition unreleased :: "claim_row \<Rightarrow> bool" where
  "unreleased c \<longleftrightarrow> cl_released_ts c = None"

lemma release_where_exact:
  "filter unreleased (c_claims (snd (release_where n p s))) = filter (\<lambda>c. unreleased c \<and> \<not> p c) (c_claims s)"
  "fst (release_where n p s) = length (filter (\<lambda>c. unreleased c \<and> p c) (c_claims s))"
proof -
  have "filter unreleased (sql_update (\<lambda>c. p c \<and> cl_released_ts c = None) (\<lambda>c. c\<lparr>cl_released_ts := Some n\<rparr>) rows) =
      filter (\<lambda>c. unreleased c \<and> \<not> p c) rows" for rows
    by (induction rows) (auto simp: unreleased_def)
  then show "filter unreleased (c_claims (snd (release_where n p s))) = filter (\<lambda>c. unreleased c \<and> \<not> p c) (c_claims s)"
    by (simp add: release_where_def Let_def)
  show "fst (release_where n p s) = length (filter (\<lambda>c. unreleased c \<and> p c) (c_claims s))"
    by (simp add: release_where_def Let_def sql_affected_def unreleased_def conj_commute)
qed

lemma filter_split: "length (filter (\<lambda>c. u c \<and> (p c \<or> q c)) xs) =
    length (filter (\<lambda>c. u c \<and> p c) xs) + length (filter (\<lambda>c. u c \<and> \<not> p c \<and> q c) xs)"
  by (induction xs) auto

lemma filter_two: "filter (\<lambda>c. u c \<and> q c) xs = filter q (filter u xs)"
  by (simp add: conj_commute)

lemma release_loop_spec:
  "filter unreleased (c_claims (snd (release_loop n name ps k s))) =
     filter (\<lambda>c. unreleased c \<and> \<not> (cl_agent c = name \<and> cl_path c \<in> set ps)) (c_claims s) \<and>
   fst (release_loop n name ps k s) =
     k + length (filter (\<lambda>c. unreleased c \<and> cl_agent c = name \<and> cl_path c \<in> set ps) (c_claims s))"
proof (induction ps arbitrary: k s)
  case (Cons p ps)
  let ?q = "\<lambda>c. cl_agent c = name \<and> cl_path c = p"
  let ?s = "snd (release_where n ?q s)" and ?k = "fst (release_where n ?q s)"
  have step: "release_loop n name (p # ps) k s = release_loop n name ps (k + ?k) ?s" by (simp add: case_prod_unfold Let_def)
  have later: "filter (\<lambda>c. unreleased c \<and> r c) (c_claims ?s) = filter (\<lambda>c. unreleased c \<and> \<not> ?q c \<and> r c) (c_claims s)" for r
    unfolding filter_two [of unreleased] release_where_exact(1) by (simp add: conj_ac)
  note IH = Cons.IH [of "k + ?k" ?s]
  have len: "length (filter (\<lambda>c. unreleased c \<and> cl_agent c = name \<and> cl_path c \<in> set (p # ps)) (c_claims s)) =
      length (filter (\<lambda>c. unreleased c \<and> (?q c \<or> cl_agent c = name \<and> cl_path c \<in> set ps)) (c_claims s))"
    by (rule arg_cong [where f = length], rule filter_cong) auto
  have "fst (release_loop n name (p # ps) k s) =
      k + ?k + length (filter (\<lambda>c. unreleased c \<and> \<not> ?q c \<and> cl_agent c = name \<and> cl_path c \<in> set ps) (c_claims s))"
    by (simp only: step conjunct2 [OF IH] later)
  moreover have "?k + length (filter (\<lambda>c. unreleased c \<and> \<not> ?q c \<and> cl_agent c = name \<and> cl_path c \<in> set ps) (c_claims s)) =
      length (filter (\<lambda>c. unreleased c \<and> cl_agent c = name \<and> cl_path c \<in> set (p # ps)) (c_claims s))"
    unfolding len filter_split release_where_exact(2) ..
  moreover have "filter unreleased (c_claims (snd (release_loop n name (p # ps) k s))) =
      filter (\<lambda>c. unreleased c \<and> \<not> (cl_agent c = name \<and> cl_path c \<in> set (p # ps))) (c_claims s)"
    unfolding step conjunct1 [OF IH] later by (rule filter_cong) auto
  ultimately show ?case by (simp only: add.assoc)
qed simp

lemmas release_loop_exact = conjunct1 [OF release_loop_spec] conjunct2 [OF release_loop_spec]

definition freed :: "string \<Rightarrow> string list \<Rightarrow> claim_row \<Rightarrow> bool" where
  "freed name paths c \<longleftrightarrow> unreleased c \<and> cl_agent c = name \<and> (paths = [] \<or> cl_path c \<in> set paths)"

lemma release_claims_exact:
  "filter unreleased (c_claims (snd (release_claims clk name paths s))) =
     filter (\<lambda>c. unreleased c \<and> \<not> freed name paths c) (c_claims s)"
  "fst (release_claims clk name paths s) = length (filter (freed name paths) (c_claims s))"
proof -
  have eq: "filter (\<lambda>c. unreleased c \<and> \<not> freed name paths c) (c_claims s) =
      filter (\<lambda>c. unreleased c \<and> \<not> (cl_agent c = name \<and> (paths = [] \<or> cl_path c \<in> set paths))) (c_claims s)"
    by (rule filter_cong) (auto simp: freed_def)
  show "filter unreleased (c_claims (snd (release_claims clk name paths s))) =
     filter (\<lambda>c. unreleased c \<and> \<not> freed name paths c) (c_claims s)"
    unfolding eq by (cases "paths = []")
      (simp_all add: release_claims_def Let_def case_prod_unfold release_where_exact release_loop_exact)
  show "fst (release_claims clk name paths s) = length (filter (freed name paths) (c_claims s))"
  proof -
    have "filter (freed name paths) (c_claims s) =
        filter (\<lambda>c. unreleased c \<and> cl_agent c = name \<and> (paths = [] \<or> cl_path c \<in> set paths)) (c_claims s)"
      by (rule filter_cong) (auto simp: freed_def)
    then show ?thesis by (cases "paths = []")
      (simp_all add: release_claims_def Let_def case_prod_unfold release_where_exact release_loop_exact)
  qed
qed

lemma reap_absent_loop_names: "fst (reap_absent_loop clk pr hs s) = filter (\<lambda>h. \<not> pr h) hs"
  by (induction hs arbitrary: clk s) (simp_all add: case_prod_unfold Let_def)

lemma reap_absent_loop_rows:
  "filter unreleased (c_claims (snd (reap_absent_loop clk pr hs s))) =
     filter (\<lambda>c. unreleased c \<and> (pr (cl_agent c) \<or> cl_agent c \<notin> set hs)) (c_claims s)"
proof (induction hs arbitrary: clk s)
  case (Cons h hs)
  let ?s = "snd (release_claims clk h [] s)"
  have later: "filter (\<lambda>c. unreleased c \<and> r c) (c_claims ?s) = filter (\<lambda>c. unreleased c \<and> cl_agent c \<noteq> h \<and> r c) (c_claims s)" for r
  proof -
    have "filter (\<lambda>c. unreleased c \<and> \<not> freed h [] c) (c_claims s) = filter (\<lambda>c. unreleased c \<and> cl_agent c \<noteq> h) (c_claims s)"
      by (rule filter_cong) (auto simp: freed_def)
    then show ?thesis unfolding filter_two [of unreleased] release_claims_exact(1) by (simp add: conj_ac)
  qed
  show ?case
  proof (cases "pr h")
    case True
    then show ?thesis using Cons.IH by (auto intro: filter_cong)
  next
    case False
    then have "snd (reap_absent_loop clk pr (h # hs) s) = snd (reap_absent_loop (\<lambda>i. clk (i + 2)) pr hs ?s)"
      by (simp add: case_prod_unfold Let_def)
    then show ?thesis unfolding Cons.IH later by (simp only: Cons.IH later) (rule filter_cong, use False in auto)
  qed
qed simp

text \<open>
  What release and reaping free, exactly. A release frees the unreleased leases of the agent on the named paths (all of them when none
  is named), leaves every other lease held, and returns their number. Reaping with no presence information changes nothing; otherwise the
  agents it names are the holders of live leases that are not present, each once and in order, and afterwards the live leases
  are exactly those of present agents.
\<close>

theorem leases_freed_exact:
  "(case release_claims clk name paths s of (k, s') \<Rightarrow>
      k = length (filter (freed name paths) (c_claims s)) \<and>
      filter unreleased (c_claims s') = filter (\<lambda>c. unreleased c \<and> \<not> freed name paths c) (c_claims s)) \<and>
   reap_absent_claims clk None s = ([], s) \<and>
   (case reap_absent_claims clk (Some pr) s of (reaped, s') \<Rightarrow>
      reaped = filter (\<lambda>h. \<not> pr h) (live_claim_holders (clk 0) s) \<and> distinct reaped \<and>
      set reaped = {cl_agent c | c. c \<in> set (c_claims s) \<and> live (clk 0) c \<and> \<not> pr (cl_agent c)} \<and>
      filter (live (clk 0)) (c_claims s') = filter (\<lambda>c. live (clk 0) c \<and> pr (cl_agent c)) (c_claims s) \<and>
      c_agents s' = c_agents s)"
proof -
  obtain reaped s' where r: "reap_absent_claims clk (Some pr) s = (reaped, s')" by (metis prod.exhaust)
  have hs: "set (live_claim_holders (clk 0) s) = cl_agent ` {c \<in> set (c_claims s). live (clk 0) c}"
    "distinct (live_claim_holders (clk 0) s)" by (auto simp: live_claim_holders_def)
  have 1: "reaped = filter (\<lambda>h. \<not> pr h) (live_claim_holders (clk 0) s)"
    using reap_absent_loop_names r by (simp add: reap_absent_claims_def) (metis fst_conv)
  have 2: "filter unreleased (c_claims s') =
      filter (\<lambda>c. unreleased c \<and> (pr (cl_agent c) \<or> cl_agent c \<notin> set (live_claim_holders (clk 0) s))) (c_claims s)"
    using reap_absent_loop_rows r by (simp add: reap_absent_claims_def) (metis snd_conv)
  have live: "filter (live t) rows = filter (\<lambda>c. cl_expires_ts c > t) (filter unreleased rows)" for t rows
    unfolding filter_filter by (rule filter_cong) (auto simp: live_def unreleased_def)
  have "filter (live (clk 0)) (c_claims s') = filter (\<lambda>c. live (clk 0) c \<and> pr (cl_agent c)) (c_claims s)"
    unfolding live 2 filter_filter by (rule filter_cong) (auto simp: hs live_def unreleased_def)
  moreover have "c_agents s' = c_agents s" using reap_agents [of clk "Some pr" s] r by simp
  moreover have "set reaped = {cl_agent c | c. c \<in> set (c_claims s) \<and> live (clk 0) c \<and> \<not> pr (cl_agent c)}"
    unfolding 1 by (auto simp: hs)
  ultimately show ?thesis
    using release_claims_exact [of clk name paths s] 1 hs(2) r by (simp add: case_prod_unfold reap_absent_claims_def)
qed

subsection \<open>Instructions are acknowledged once\<close>

lemma done_row_stays:
  assumes "coord_step e s s'" and "r \<in> set (c_instructions s)" and "in_status r \<noteq> ''pending''"
  shows "r \<in> set (c_instructions s')"
  using assms
proof (induction rule: coord_step.induct)
  case (reap s clk present)
  have "c_instructions (snd (reap_absent_claims clk present s)) = c_instructions s"
    by (rule reap_absent_claims_induct) simp_all
  with reap show ?case by simp
next
  case (ack i agent s clk result)
  then show ?case by (force simp: ack_instruction_def Let_def set_sql_update)
qed (auto simp: register_def spawn_def Let_def record_principal_def heartbeat_def set_status_def set_bus_def send_instruction_def)

text \<open>
  An instruction is acknowledged once, and only by its target. On a store reached by any calls, acknowledging instruction \<open>i\<close> as
  \<open>agent\<close> succeeds exactly when a pending row \<open>i\<close> is addressed to that agent; it then marks that row done, with the result and
  the time, and no other row changes; and after any further calls the row still says so, its status reads \<^verbatim>\<open>done\<close>,
  and no acknowledgement of it succeeds again.
\<close>

theorem ack_exactly_once:
  assumes "coord_run (\<lambda>_. True) empty_cstore s" and "ack_instruction clk i agent result s = (ok, s')"
  shows "(ok \<longleftrightarrow> (\<exists>r\<in>set (c_instructions s). in_id r = i \<and> in_target r = agent \<and> in_status r = ''pending'')) \<and>
         c_instructions s' = map (\<lambda>r. if ok \<and> in_id r = i
           then r\<lparr>in_status := ''done'', in_result := Some result, in_acked_ts := Some (clk 0)\<rparr> else r) (c_instructions s) \<and>
         (ok \<and> coord_run (\<lambda>_. True) s' s'' \<longrightarrow> instruction_status i s'' = ''done'' \<and>
           (\<exists>r\<in>set (c_instructions s''). in_id r = i \<and> in_result r = Some result \<and> in_acked_ts r = Some (clk 0)) \<and>
           \<not> fst (ack_instruction clk' i agent' result' s''))"
proof (intro conjI impI)
  let ?p = "\<lambda>r. in_id r = i \<and> in_target r = agent \<and> in_status r = ''pending''"
  let ?f = "\<lambda>r. r\<lparr>in_status := ''done'', in_result := Some result, in_acked_ts := Some (clk 0)\<rparr>"
  have wf: "wf_cstore s'" if "coord_run (\<lambda>_. True) s s'" "wf_cstore s" for s s'
    using that coord_run_induct [of "\<lambda>_. True" s s' wf_cstore] wf_coord_step by blast
  have wfs: "wf_cstore s" using wf [OF assms(1) wf_empty_cstore] .
  then have k: "instr_table.keyed (c_instructions s)" by (simp add: wf_cstore_def)
  have ok: "ok \<longleftrightarrow> (\<exists>r\<in>set (c_instructions s). ?p r)"
    using assms(2) by (auto simp: ack_instruction_def Let_def sql_affected_pos)
  then show "ok \<longleftrightarrow> (\<exists>r\<in>set (c_instructions s). ?p r)" .
  have rows: "c_instructions s' = sql_update ?p ?f (c_instructions s)"
    using assms(2) by (auto simp: ack_instruction_def Let_def)
  show "c_instructions s' = map (\<lambda>r. if ok \<and> in_id r = i then ?f r else r) (c_instructions s)"
    unfolding rows sql_update_def using ok instr_table.keyed_eq [OF k] by (intro map_cong) (auto 4 3)
  assume "ok \<and> coord_run (\<lambda>_. True) s' s''"
  then have ok_True: "ok" and run: "coord_run (\<lambda>_. True) s' s''" by blast+
  from ok_True ok obtain r where r: "r \<in> set (c_instructions s)" "?p r" by blast
  then have in': "?f r \<in> set (c_instructions s')" by (force simp: rows set_sql_update)
  have "coord_step (AckInstruction i agent) s s'" using coord_step.ack [of i agent s clk result] assms(2) by simp
  then have "wf_cstore s''" using wf [OF run] wf_coord_step wfs by blast
  then have k'': "instr_table.keyed (c_instructions s'')" by (simp add: wf_cstore_def)
  have in'': "?f r \<in> set (c_instructions s'')"
    using run by (rule coord_run_induct) (auto intro: in' done_row_stays)
  have only: "x = ?f r" if "x \<in> set (c_instructions s'')" "in_id x = i" for x
    using instr_table.keyed_eq [OF k'' that(1) in''] that(2) r(2) by simp
  have "\<exists>y. find (\<lambda>x. in_id x = i) (c_instructions s'') = Some y"
    using in'' r(2) by (auto simp: find_None_iff simp flip: not_None_eq)
  then obtain y where y: "find (\<lambda>x. in_id x = i) (c_instructions s'') = Some y" by blast
  then have "y = ?f r" using only by (auto simp: find_Some_iff)
  with y show "instruction_status i s'' = ''done''" by (simp add: instruction_status_def)
  show "\<exists>r\<in>set (c_instructions s''). in_id r = i \<and> in_result r = Some result \<and> in_acked_ts r = Some (clk 0)"
    using in'' r(2) by (intro bexI [of _ "?f r"]) simp_all
  show "\<not> fst (ack_instruction clk' i agent' result' s'')"
    using only by (force simp: ack_instruction_def Let_def sql_affected_pos)
qed

theorem ack_exactly_once_witness:
  "let s = snd (send_instruction (\<lambda>_. 5) ''boss'' ''ann'' ''go'' empty_cstore);
       s' = snd (ack_instruction (\<lambda>_. 6) 1 ''ann'' ''ok'' s) in
   instruction_status 1 s' = ''done'' \<and> \<not> fst (ack_instruction (\<lambda>_. 7) 1 ''ann'' ''again'' s')"
proof -
  let ?s = "snd (send_instruction (\<lambda>_. 5) ''boss'' ''ann'' ''go'' empty_cstore)"
  have run: "coord_run (\<lambda>_. True) empty_cstore ?s"
    unfolding coord_run_def by (rule r_into_rtranclp) (use coord_step.send in blast)
  obtain ok s' where a: "ack_instruction (\<lambda>_. 6) 1 ''ann'' ''ok'' ?s = (ok, s')" by (metis prod.exhaust)
  have "\<exists>r\<in>set (c_instructions ?s). in_id r = 1 \<and> in_target r = ''ann'' \<and> in_status r = ''pending''"
    by (simp add: send_instruction_def Let_def empty_cstore_def sql_next_id_def)
  then have "ok" using ack_exactly_once [OF run a] by blast
  moreover have "coord_run (\<lambda>_. True) s' s'" by (simp add: coord_run_def)
  ultimately show ?thesis using ack_exactly_once [OF run a] a by (simp add: Let_def)
qed

end
