(* ===== verification/Canonical.thy ===== *)
theory Canonical
  imports Prelude
begin

section \<open>Canonical JSON (internal/ledger/canonical.go)\<close>

text \<open>
  The byte forms the ledger hashes. A decoded JSON document is a \<open>jval\<close>: a number is its literal (\<^verbatim>\<open>json.Number\<close>) or, when it was
  decoded without \<^verbatim>\<open>UseNumber\<close>, a float; an object is the list of its fields, whose order \<^verbatim>\<open>json.Marshal\<close> ignores because it sorts
  keys. The encoder and the decoders of \<^verbatim>\<open>encoding/json\<close> are arguments (\<open>enc\<close>, \<open>dec\<close>); the pruning between them is the source's.
\<close>

datatype jval =
    NullV
  | StrV string
  | BoolV bool
  | NumV string
  | FloatV real
  | ArrV "jval list"
  | ObjV "(string \<times> jval) list"

fun prune_empty :: "jval \<Rightarrow> jval \<times> bool" where
  "prune_empty NullV = (NullV, True)"
| "prune_empty (StrV s) = (StrV s, s = '''')"
| "prune_empty (BoolV b) = (BoolV b, \<not> b)"
| "prune_empty (NumV l) = (NumV l, False)"
| "prune_empty (FloatV x) = (FloatV x, x = 0)"
| "prune_empty (ArrV vs) =
     (let out = map fst (filter (\<lambda>r. \<not> snd r) (map prune_empty vs)) in (ArrV out, out = []))"
| "prune_empty (ObjV fs) =
     (let out = map (\<lambda>(k, p, _). (k, p)) (filter (\<lambda>(k, p, empty). \<not> empty) (map (\<lambda>(k, v). (k, prune_empty v)) fs)) in
      (ObjV out, out = []))"

fun prune_empty_v2 :: "jval \<Rightarrow> jval \<times> bool" where
  "prune_empty_v2 NullV = (NullV, True)"
| "prune_empty_v2 (StrV s) = (StrV s, s = '''')"
| "prune_empty_v2 (BoolV b) = (BoolV b, \<not> b)"
| "prune_empty_v2 (NumV l) = (NumV l, l = ''0'')"
| "prune_empty_v2 (FloatV x) = (FloatV x, x = 0)"
| "prune_empty_v2 (ArrV vs) = (let out = map (\<lambda>v. fst (prune_empty_v2 v)) vs in (ArrV out, out = []))"
| "prune_empty_v2 (ObjV fs) =
     (let out = map (\<lambda>(k, p, _). (k, p)) (filter (\<lambda>(k, p, empty). \<not> empty) (map (\<lambda>(k, v). (k, prune_empty_v2 v)) fs)) in
      (ObjV out, out = []))"

definition canonical_sparse_json :: "('v \<Rightarrow> string option) \<Rightarrow> (string \<Rightarrow> jval option) \<Rightarrow> (jval \<Rightarrow> string) \<Rightarrow> 'v \<Rightarrow> string option" where
  \<comment> \<open>\<open>mar\<close> marshals the value, \<open>dec\<close> decodes numbers as floats\<close>
  "canonical_sparse_json mar dec enc v =
     (case mar v of None \<Rightarrow> None | Some full \<Rightarrow>
        (case dec full of None \<Rightarrow> None | Some tree \<Rightarrow> Some (enc (fst (prune_empty tree)))))"

definition canonical_sparse_json_v2 :: "('v \<Rightarrow> string option) \<Rightarrow> (string \<Rightarrow> jval option) \<Rightarrow> (jval \<Rightarrow> string) \<Rightarrow> 'v \<Rightarrow> string option" where
  \<comment> \<open>\<open>dec\<close> keeps number literals\<close>
  "canonical_sparse_json_v2 mar dec enc v =
     (case mar v of None \<Rightarrow> None | Some full \<Rightarrow>
        (case dec full of None \<Rightarrow> None | Some tree \<Rightarrow> Some (enc (fst (prune_empty_v2 tree)))))"

definition canonical_full_json :: "(string \<Rightarrow> jval option) \<Rightarrow> (jval \<Rightarrow> string) \<Rightarrow> string \<Rightarrow> string option" where
  "canonical_full_json dec enc raw = (case dec raw of None \<Rightarrow> None | Some tree \<Rightarrow> Some (enc tree))"

subsection \<open>What the sparse forms identify\<close>

text \<open>
  \<open>grows v w\<close>: the document \<open>w\<close> is \<open>v\<close> with one more field somewhere, whose value is empty. That is what a later version of the
  writer's structs does to a row it reads back.
\<close>

inductive grows :: "jval \<Rightarrow> jval \<Rightarrow> bool" where
  field: "snd (prune_empty_v2 z) \<Longrightarrow> grows (ObjV (xs @ ys)) (ObjV (xs @ (k, z) # ys))"
| under: "grows v w \<Longrightarrow> grows (ObjV (xs @ (k, v) # ys)) (ObjV (xs @ (k, w) # ys))"
| elem: "grows v w \<Longrightarrow> grows (ArrV (xs @ v # ys)) (ArrV (xs @ w # ys))"

definition same_rows :: "jval \<Rightarrow> jval \<Rightarrow> bool" where
  "same_rows = (\<lambda>v w. grows v w \<or> grows w v)\<^sup>*\<^sup>*"

lemma prune_v2_grows: "grows v w \<Longrightarrow> prune_empty_v2 v = prune_empty_v2 w"
  by (induction rule: grows.induct) (auto simp: Let_def)

lemma same_rows_prune: "same_rows v w \<Longrightarrow> prune_empty_v2 v = prune_empty_v2 w"
  unfolding same_rows_def by (induction rule: rtranclp_induct) (auto dest: prune_v2_grows)

lemma same_rows_refl [simp]: "same_rows v v"
  by (simp add: same_rows_def)

lemma same_rows_trans [trans]: "same_rows u v \<Longrightarrow> same_rows v w \<Longrightarrow> same_rows u w"
  unfolding same_rows_def by (rule rtranclp_trans)

lemma same_rows_sym: "same_rows v w \<Longrightarrow> same_rows w v"
  unfolding same_rows_def by (induction rule: rtranclp_induct) (auto intro: converse_rtranclp_into_rtranclp)

lemma same_rows_map:
  assumes "same_rows v w" and "\<And>v w. grows v w \<Longrightarrow> grows (f v) (f w)"
  shows "same_rows (f v) (f w)"
  using assms(1) unfolding same_rows_def
proof (induction rule: rtranclp_induct)
  case (step u w)
  then show ?case using assms(2) by (metis (mono_tags, lifting) rtranclp.rtrancl_into_rtrancl)
qed simp

lemma same_rows_under: "same_rows v w \<Longrightarrow> same_rows (ObjV (xs @ (k, v) # ys)) (ObjV (xs @ (k, w) # ys))"
  by (rule same_rows_map [where f = "\<lambda>v. ObjV (xs @ (k, v) # ys)"]) (auto intro: grows.under)

lemma same_rows_elem: "same_rows v w \<Longrightarrow> same_rows (ArrV (xs @ v # ys)) (ArrV (xs @ w # ys))"
  by (rule same_rows_map [where f = "\<lambda>v. ArrV (xs @ v # ys)"]) (auto intro: grows.elem)

lemma same_rows_field: "snd (prune_empty_v2 z) \<Longrightarrow> same_rows (ObjV (xs @ (k, z) # ys)) (ObjV (xs @ ys))"
  unfolding same_rows_def by (rule r_into_rtranclp) (blast intro: grows.field)

lemma same_rows_elems: "(\<And>v. v \<in> set vs \<Longrightarrow> same_rows v (f v)) \<Longrightarrow> same_rows (ArrV (xs @ vs)) (ArrV (xs @ map f vs))"
proof (induction vs arbitrary: xs)
  case (Cons v vs)
  have "same_rows (ArrV (xs @ v # vs)) (ArrV (xs @ f v # vs))" using Cons.prems by (intro same_rows_elem) simp
  also have "same_rows (ArrV (xs @ f v # vs)) (ArrV (xs @ f v # map f vs))"
    using Cons.IH [of "xs @ [f v]"] Cons.prems by simp
  finally show ?case by simp
qed simp

lemma same_rows_pruned: "same_rows v (fst (prune_empty_v2 v))"
proof (induction v rule: prune_empty_v2.induct)
  case (6 vs)
  then have "same_rows (ArrV ([] @ vs)) (ArrV ([] @ map (\<lambda>v. fst (prune_empty_v2 v)) vs))" by (intro same_rows_elems)
  then show ?case by (simp add: Let_def)
next
  case (7 fs)
  define out where "out fs = map (\<lambda>(k, p, _). (k, p)) (filter (\<lambda>(k, p, empty). \<not> empty) (map (\<lambda>(k, v). (k, prune_empty_v2 v)) fs))"
    for fs :: "(string \<times> jval) list"
  have "same_rows (ObjV (xs @ fs)) (ObjV (xs @ out fs))" if "\<forall>(k, v)\<in>set fs. same_rows v (fst (prune_empty_v2 v))" for xs
    using that
  proof (induction fs arbitrary: xs)
    case (Cons f fs)
    obtain k v where f: "f = (k, v)" by (cases f)
    show ?case
    proof (cases "snd (prune_empty_v2 v)")
      case True
      then have "same_rows (ObjV (xs @ (k, v) # fs)) (ObjV (xs @ fs))" by (rule same_rows_field)
      also have "same_rows (ObjV (xs @ fs)) (ObjV (xs @ out fs))" using Cons by simp
      finally show ?thesis using True by (cases "prune_empty_v2 v") (simp add: out_def f)
    next
      case False
      have "same_rows (ObjV (xs @ (k, v) # fs)) (ObjV (xs @ (k, fst (prune_empty_v2 v)) # fs))"
        using Cons.prems f by (intro same_rows_under) simp
      also have "same_rows (ObjV (xs @ (k, fst (prune_empty_v2 v)) # fs)) (ObjV ((xs @ [(k, fst (prune_empty_v2 v))]) @ out fs))"
        using Cons.IH [of "xs @ [(k, fst (prune_empty_v2 v))]"] Cons.prems by simp
      finally show ?thesis using False by (simp add: out_def f case_prod_unfold)
    qed
  qed (simp add: out_def)
  from this [of "[]"] have "same_rows (ObjV fs) (ObjV (out fs))" using 7 by auto
  then show ?case by (simp add: out_def Let_def)
qed simp_all

text \<open>
  The second sparse form identifies exactly what a growing schema changes: two documents have the same pruned tree if and only if one
  becomes the other by adding and removing object fields with empty values, at any depth. So a column added later does not change
  the hash of an old row, and nothing else can change under it: no value, no number literal, no length of an array.
\<close>

theorem sparse_v2_identifies_schema_growth:
  "fst (prune_empty_v2 v) = fst (prune_empty_v2 w) \<longleftrightarrow> same_rows v w"
proof
  assume "fst (prune_empty_v2 v) = fst (prune_empty_v2 w)"
  then show "same_rows v w" using same_rows_pruned [of v] same_rows_pruned [of w] same_rows_sym same_rows_trans by metis
qed (simp add: same_rows_prune)

end
