(* ===== verification/Ledger.thy ===== *)
theory Ledger
  imports Canonical
begin

section \<open>Ledger entries (internal/ledger/entry.go, signer.go, scanuid.go, parse.go)\<close>

text \<open>
  The entry types, the hash of an entry, and the shape rule of each kind. A Go pointer is an \<open>option\<close>, a time is its
  nanoseconds. A refusal, which the source words as a string with \<^verbatim>\<open>""\<close> for none, is a \<open>problem option\<close>: one constructor per
  message, its arguments those of the message.

  The record \<open>lib\<close> gathers what the source takes from Go's standard library and the verifier of Sigstore bundles: SHA-256, Ed25519
  verification, \<^verbatim>\<open>encoding/json\<close>, gzip, time formatting. Its fields are parameters of the model; no property constrains them unless its statement says so.
\<close>

subsection \<open>Data\<close>

record pinned_workflow =
  pw_workflow :: string
  pw_ref :: string

record keyless_pin =
  kp_repo_id :: string
  kp_allow :: "pinned_workflow list"

record signer_change =
  sc_action :: string
  sc_keyid :: string
  sc_pubkey :: string
  sc_name :: string
  sc_reason :: string
  sc_keyless_pin :: "keyless_pin option"

record signer_key =
  sk_keyid :: string
  sk_pubkey :: string
  sk_name :: string

record checkpoint =
  cp_head :: string
  cp_entries :: int
  cp_through :: int
  cp_signers :: "signer_key list"

record adjudication =
  aj_adjudicates :: string
  aj_verdict :: string
  aj_by :: string
  aj_reason :: string

record review =
  \<comment> \<open>the fields of a review the ledger reads; \<open>rv_tiers\<close> are its findings' tiers\<close>
  rv_commit :: string
  rv_scope :: string
  rv_reviewer_model :: string
  rv_tiers :: "string list"

record scan_row =
  \<comment> \<open>the columns of the identity; \<open>sr_rest\<close> stands for the others, empty when they are all zero\<close>
  sr_scan_uid :: string
  sr_repo :: string
  sr_run_url :: string
  sr_scan_id :: int
  sr_commit :: string
  sr_corral_version :: string
  sr_substrate :: string
  sr_host :: string
  sr_rest :: string

record scan_bundle =
  bu_scan :: scan_row
  bu_files :: "string list"
  bu_mutants :: "string list"
  bu_calls :: "string list"
  bu_rest :: string

record entry =
  le_format :: string
  le_kind :: string
  le_pushed :: int
  le_scan_uid :: string
  le_prev :: string
  le_bundle :: scan_bundle
  le_retracts :: string
  le_reason :: string
  le_checkpoint :: "checkpoint option"
  le_review :: "review option"
  le_adjudication :: "adjudication option"
  le_signer :: "signer_change option"
  le_hash :: string
  le_keyid :: string
  le_signature :: string
  le_sigstore :: string
  le_raw :: "string option"
  le_file :: string

record cert_identity =
  ci_repo :: string
  ci_repo_id :: string
  ci_workflow :: string
  ci_build_signer :: string
  ci_ref :: string
  ci_commit :: string
  ci_trigger :: string
  ci_runner :: string

record lib =
  sha256 :: "string \<Rightarrow> string"
  ed25519_verify :: "string \<Rightarrow> string \<Rightarrow> string \<Rightarrow> bool"
  marshal_entry :: "entry \<Rightarrow> string option"
  unmarshal_entry :: "string \<Rightarrow> string + entry"
  marshal_tree :: "jval \<Rightarrow> string"
  decode_number :: "string \<Rightarrow> jval option"
  decode_float :: "string \<Rightarrow> jval option"
  gunzip :: "string \<Rightarrow> string + string"
  rfc3339nano :: "int \<Rightarrow> string"
  verify_bundle :: "string \<Rightarrow> string \<Rightarrow> string \<Rightarrow> string \<Rightarrow> string + cert_identity"

definition zero_scan_row :: scan_row where
  "zero_scan_row = \<lparr>sr_scan_uid = '''', sr_repo = '''', sr_run_url = '''', sr_scan_id = 0, sr_commit = '''',
     sr_corral_version = '''', sr_substrate = '''', sr_host = '''', sr_rest = ''''\<rparr>"

datatype problem =
    EditedAfterWritten | UidNotDerived | BrokenLink string string
  | FormatIsKeyless string | BundleOnKeyed string | KeylessFormat string | KeylessNotRoot | KeylessAlsoKeyed
  | KeylessNoBundle | NoLedgerRepo | KeylessBadHash string | NoSigstoreRoot | BundleRefused string
  | PinRefuses string string "(string \<times> string) option"
  | LegacyKeyId | NotASigner string | BadRootSignature | BadSignerSignature string string
  | MisplacedCheckpoint nat
  | RetractionIncomplete | CheckpointNoHead | ReviewMissing | ReviewIncomplete | AdjudicationMissing
  | AdjudicationNoFinding | AdjudicationVerdict string | AdjudicationIncomplete | UnknownKind string
  | SignerMissing | SignerAction string | SignerCarriesPin string | SignerPubKey | SignerKeyIdWrong string string
  | SignerUnnamed | SignerNoReason
  | PinNamesKey string | UnpinCarriesPin | UnpinNoReason | PinAllowsNothing | PinRepoId string
  | PinGlob string string | PinSpace string string | PinWorkflow string | PinRef string
  | CarriedSigner problem | CarriedTwice string
  | SignerNotByRoot | RegistersRoot | AlreadyRegistered string | RevokesRoot | RevokesUnknown string | NothingPinned
  | CheckpointNotRoot | CheckpointListsRoot
  | RetractsUnknown string | AdjudicatesUnknown

abbreviation kind_scan :: string where "kind_scan \<equiv> ''''"
abbreviation kind_retract :: string where "kind_retract \<equiv> ''retract''"
abbreviation kind_checkpoint :: string where "kind_checkpoint \<equiv> ''checkpoint''"
abbreviation kind_review :: string where "kind_review \<equiv> ''review''"
abbreviation kind_adjudication :: string where "kind_adjudication \<equiv> ''adjudication''"
abbreviation kind_signer :: string where "kind_signer \<equiv> ''signer''"

abbreviation file_format :: string where "file_format \<equiv> ''corral-ledger-5''"
abbreviation format6 :: string where "format6 \<equiv> ''corral-ledger-6''"
abbreviation format4 :: string where "format4 \<equiv> ''corral-ledger-4''"
abbreviation format3 :: string where "format3 \<equiv> ''corral-ledger-3''"
abbreviation format2 :: string where "format2 \<equiv> ''corral-ledger-2''"

abbreviation signer_register :: string where "signer_register \<equiv> ''register''"
abbreviation signer_revoke :: string where "signer_revoke \<equiv> ''revoke''"
abbreviation signer_pin :: string where "signer_pin \<equiv> ''pin-keyless''"
abbreviation signer_unpin :: string where "signer_unpin \<equiv> ''unpin-keyless''"

abbreviation legacy_root_keyid :: string where "legacy_root_keyid \<equiv> ''corral-certify''"
abbreviation keyid_sigstore :: string where "keyid_sigstore \<equiv> ''sigstore''"

definition is_scan :: "entry \<Rightarrow> bool" where
  "is_scan e = (le_kind e = kind_scan)"

definition known_format :: "string \<Rightarrow> bool" where
  "known_format f \<longleftrightarrow> f = format6 \<or> f = file_format \<or> f = format4 \<or> f = format3 \<or> f = format2"

definition key_id_is_hashed :: "string \<Rightarrow> bool" where
  "key_id_is_hashed f \<longleftrightarrow> f \<noteq> format3 \<and> f \<noteq> format2"

definition signed :: "entry \<Rightarrow> bool" where
  \<comment> \<open>\<^verbatim>\<open>e.Signature != "" || len(e.Sigstore) > 0\<close>\<close>
  "signed e \<longleftrightarrow> le_signature e \<noteq> '''' \<or> 0 < length (le_sigstore e)"

subsection \<open>Hexadecimal\<close>

definition hex_digits :: string where
  "hex_digits = ''0123456789abcdef''"

definition hex_encode :: "string \<Rightarrow> string" where
  "hex_encode bs = concat (map (\<lambda>c. let n = of_char c :: nat in [hex_digits ! (n div 16), hex_digits ! (n mod 16)]) bs)"

definition hex_val :: "char \<Rightarrow> nat option" where
  "hex_val c = (let n = of_char c :: nat in
     if 48 \<le> n \<and> n \<le> 57 then Some (n - 48)
     else if 97 \<le> n \<and> n \<le> 102 then Some (n - 87)
     else if 65 \<le> n \<and> n \<le> 70 then Some (n - 55) else None)"

fun hex_decode :: "string \<Rightarrow> string \<times> bool" where
  \<comment> \<open>\<^verbatim>\<open>hex.DecodeString\<close>: the bytes decoded before an error, and whether there was none\<close>
  "hex_decode [] = ([], True)"
| "hex_decode [c] = ([], False)"
| "hex_decode (c # d # s) =
     (case (hex_val c, hex_val d) of
        (Some a, Some b) \<Rightarrow> (let (bs, ok) = hex_decode s in (char_of (a * 16 + b) # bs, ok))
      | _ \<Rightarrow> ([], False))"

subsection \<open>The hash of an entry\<close>

definition canonical_entry_bytes :: "lib \<Rightarrow> string \<Rightarrow> bool \<Rightarrow> string option" where
  \<comment> \<open>JSON null decodes to a nil map, which deletes and marshals as null\<close>
  "canonical_entry_bytes L raw keep_key_id =
     (case decode_number L raw of
        Some (ObjV fs) \<Rightarrow>
          canonical_full_json (decode_number L) (marshal_tree L)
            (marshal_tree L (ObjV (filter (\<lambda>(k, _). k \<noteq> ''hash'' \<and> k \<noteq> ''signature'' \<and> k \<noteq> ''sigstore'' \<and>
                (k \<noteq> ''keyid'' \<or> keep_key_id)) fs)))
      | Some NullV \<Rightarrow> canonical_full_json (decode_number L) (marshal_tree L) (marshal_tree L NullV)
      | _ \<Rightarrow> None)"

definition entry_bytes :: "lib \<Rightarrow> entry \<Rightarrow> string option" where
  \<comment> \<open>the bytes \<^verbatim>\<open>EntryHash\<close> hashes\<close>
  "entry_bytes L e =
     (if le_format e = format2
      then canonical_sparse_json (marshal_entry L) (decode_float L) (marshal_tree L)
             (e\<lparr>le_hash := '''', le_keyid := '''', le_signature := '''', le_sigstore := '''', le_raw := None\<rparr>)
      else
        (case (case le_raw e of
                 Some raw \<Rightarrow> Some raw
               | None \<Rightarrow> marshal_entry L
                   (let e1 = e\<lparr>le_hash := '''', le_signature := '''', le_sigstore := ''''\<rparr> in
                    if key_id_is_hashed (le_format e) then e1 else e1\<lparr>le_keyid := ''''\<rparr>)) of
           None \<Rightarrow> None
         | Some raw \<Rightarrow> canonical_entry_bytes L raw (key_id_is_hashed (le_format e))))"

definition entry_hash :: "lib \<Rightarrow> entry \<Rightarrow> string option" where
  "entry_hash L e = map_option (\<lambda>js. hex_encode (sha256 L js)) (entry_bytes L e)"

definition scan_uid_fields :: "lib \<Rightarrow> scan_row \<Rightarrow> int \<Rightarrow> string list" where
  "scan_uid_fields L r t = [sr_repo r, sr_run_url r, sr_host r, sr_corral_version r, sr_commit r, sr_substrate r,
     itoa (sr_scan_id r), rfc3339nano L t]"

definition length_prefixed :: "string list \<Rightarrow> string" where
  \<comment> \<open>\<^verbatim>\<open>fmt.Fprintf(h, "%d:%s|", len(f), f)\<close> for each field\<close>
  "length_prefixed fs = concat (map (\<lambda>f. itoa (int (length f)) @ '':'' @ f @ ''|'') fs)"

definition scan_uid :: "lib \<Rightarrow> scan_row \<Rightarrow> int \<Rightarrow> string" where
  "scan_uid L r t = take 32 (hex_encode (sha256 L (length_prefixed (scan_uid_fields L r t))))"

definition gzip_magic :: string where
  "gzip_magic = [CHR 0x1F, CHR 0x8B]"

datatype parse_error = NotGzip string | NotJson string | BadFormat string

definition parse_entry :: "lib \<Rightarrow> string \<Rightarrow> string \<Rightarrow> parse_error + entry" where
  "parse_entry L name raw =
     (case (if has_prefix raw gzip_magic then gunzip L raw else Inr raw) of
        Inl err \<Rightarrow> Inl (NotGzip err)
      | Inr raw' \<Rightarrow>
          (case unmarshal_entry L raw' of
             Inl err \<Rightarrow> Inl (NotJson err)
           | Inr e \<Rightarrow> if \<not> known_format (le_format e) then Inl (BadFormat (le_format e))
                      else Inr (e\<lparr>le_raw := Some raw', le_file := name\<rparr>)))"

subsection \<open>Shape rules\<close>

fun cut_ref :: "string \<Rightarrow> string \<times> string \<times> bool" where
  "cut_ref [] = ([], [], False)"
| "cut_ref (c # s) = (if c = CHR ''#'' then ([], s, True) else let (h, i, ok) = cut_ref s in
      (c # h, i, ok))"

definition key_fingerprint :: "lib \<Rightarrow> string \<Rightarrow> string" where
  "key_fingerprint L pub = ''ed25519:'' @ take 16 (hex_encode (sha256 L pub))"

definition pin_glob_chars :: string where
  "pin_glob_chars = ''*?[]{}''"

definition contains_any :: "string \<Rightarrow> string \<Rightarrow> bool" where
  "contains_any s cs = list_ex (\<lambda>c. c \<in> set cs) s"

definition has_space :: "string \<Rightarrow> bool" where
  \<comment> \<open>\<^verbatim>\<open>strings.IndexFunc(s, unicode.IsSpace) >= 0\<close>\<close>
  "has_space s = list_ex (\<lambda>i. list_ex (has_prefix (drop i s)) space_runes) [0..<length s]"

definition pair_shape_problem :: "pinned_workflow \<Rightarrow> problem option" where
  "pair_shape_problem a =
     (if contains_any (pw_workflow a) pin_glob_chars \<or> contains_any (pw_ref a) pin_glob_chars
      then Some (PinGlob (pw_workflow a) (pw_ref a))
      else if has_space (pw_workflow a) \<or> has_space (pw_ref a) then Some (PinSpace (pw_workflow a) (pw_ref a))
      else if \<not> has_prefix (pw_workflow a) ''.github/workflows/'' \<or>
              \<not> (has_suffix (pw_workflow a) ''.yml'' \<or> has_suffix (pw_workflow a) ''.yaml'')
      then Some (PinWorkflow (pw_workflow a))
      else if \<not> has_prefix (pw_ref a) ''refs/'' then Some (PinRef (pw_ref a))
      else None)"

fun first_problem :: "('a \<Rightarrow> problem option) \<Rightarrow> 'a list \<Rightarrow> problem option" where
  "first_problem f [] = None"
| "first_problem f (x # xs) = (case f x of Some p \<Rightarrow> Some p | None \<Rightarrow> first_problem f xs)"

definition pin_shape_problem :: "signer_change \<Rightarrow> problem option" where
  "pin_shape_problem c =
     (if sc_keyid c \<noteq> '''' \<or> sc_pubkey c \<noteq> '''' then Some (PinNamesKey (sc_action c))
      else if sc_action c = signer_unpin
      then (if sc_keyless_pin c \<noteq> None then Some UnpinCarriesPin
            else if trim_space (sc_reason c) = '''' then Some UnpinNoReason else None)
      else (case sc_keyless_pin c of
              None \<Rightarrow> Some PinAllowsNothing
            | Some p \<Rightarrow>
                if kp_allow p = [] then Some PinAllowsNothing
                else if kp_repo_id p = '''' \<or>
                  trim_right (\<lambda>c. c \<in> set ''0123456789'') (dropWhile (\<lambda>c. c \<in> set ''0123456789'') (kp_repo_id p)) \<noteq> ''''
                then Some (PinRepoId (kp_repo_id p))
                else first_problem pair_shape_problem (kp_allow p)))"

definition signer_shape_problem :: "lib \<Rightarrow> signer_change option \<Rightarrow> problem option" where
  "signer_shape_problem L co =
     (case co of
        None \<Rightarrow> Some SignerMissing
      | Some c \<Rightarrow>
          if sc_action c = signer_pin \<or> sc_action c = signer_unpin then pin_shape_problem c
          else if sc_action c \<noteq> signer_register \<and> sc_action c \<noteq> signer_revoke then Some (SignerAction (sc_action c))
          else if sc_keyless_pin c \<noteq> None then Some (SignerCarriesPin (sc_action c))
          else let (raw, ok) = hex_decode (sc_pubkey c) in
            if \<not> ok \<or> length raw \<noteq> 32 then Some SignerPubKey
            else if sc_keyid c \<noteq> key_fingerprint L raw then Some (SignerKeyIdWrong (key_fingerprint L raw) (sc_keyid c))
            else if sc_action c = signer_register \<and> trim_space (sc_name c) = '''' then Some SignerUnnamed
            else if sc_action c = signer_revoke \<and> trim_space (sc_reason c) = '''' then Some SignerNoReason
            else None)"

fun checkpoint_signers_loop :: "lib \<Rightarrow> string list \<Rightarrow> signer_key list \<Rightarrow> problem option" where
  "checkpoint_signers_loop L seen [] = None"
| "checkpoint_signers_loop L seen (k # ks) =
     (case signer_shape_problem L (Some \<lparr>sc_action = signer_register, sc_keyid = sk_keyid k, sc_pubkey = sk_pubkey k,
              sc_name = sk_name k, sc_reason = '''', sc_keyless_pin = None\<rparr>) of
        Some p \<Rightarrow> Some (CarriedSigner p)
      | None \<Rightarrow> if sk_keyid k \<in> set seen then Some (CarriedTwice (sk_keyid k))
                else checkpoint_signers_loop L (sk_keyid k # seen) ks)"

definition checkpoint_signers_problem :: "lib \<Rightarrow> signer_key list \<Rightarrow> problem option" where
  "checkpoint_signers_problem L ks = checkpoint_signers_loop L [] ks"

definition entry_shape_problem :: "lib \<Rightarrow> entry \<Rightarrow> problem option" where
  "entry_shape_problem L e =
     (if le_kind e = kind_scan then None
      else if le_kind e = kind_retract
      then (if trim_space (le_retracts e) = '''' \<or> trim_space (le_reason e) = '''' then Some RetractionIncomplete else None)
      else if le_kind e = kind_checkpoint
      then (case le_checkpoint e of
              None \<Rightarrow> Some CheckpointNoHead
            | Some cp \<Rightarrow> if cp_head cp = '''' then Some CheckpointNoHead else checkpoint_signers_problem L (cp_signers cp))
      else if le_kind e = kind_review
      then (case le_review e of
              None \<Rightarrow> Some ReviewMissing
            | Some r \<Rightarrow> if trim_space (rv_commit r) = '''' \<or> trim_space (rv_scope r) = '''' then Some ReviewIncomplete else None)
      else if le_kind e = kind_adjudication
      then (case le_adjudication e of
              None \<Rightarrow> Some AdjudicationMissing
            | Some a \<Rightarrow>
                let (h, i, ok) = cut_ref (aj_adjudicates a) in
                if \<not> ok \<or> trim_space i = '''' then Some AdjudicationNoFinding
                else if aj_verdict a \<noteq> ''confirmed'' \<and> aj_verdict a \<noteq> ''refuted'' then Some (AdjudicationVerdict (aj_verdict a))
                else if trim_space (aj_by a) = '''' \<or> trim_space (aj_reason a) = '''' then Some AdjudicationIncomplete
                else None)
      else if le_kind e = kind_signer then signer_shape_problem L (le_signer e)
      else Some (UnknownKind (le_kind e)))"

end
