(* ===== verification/Ledger_Verify.thy ===== *)
theory Ledger_Verify
  imports Ledger
begin

section \<open>Verifying a ledger (internal/ledger/signers.go, keyless.go, level.go, verify.go)\<close>

text \<open>
  The walk behind every verb that reads a ledger: the set of keys that may sign at each point of the chain, the pin on keyless
  signing, the checks of one entry in the order of the source, and the level of a verified signature.
\<close>

subsection \<open>Who may sign\<close>

record signer_set =
  ss_root_id :: string
  ss_root_pub :: "string option"
  ss_active :: "string \<Rightarrow> signer_key option"
  ss_order :: "string list"
  ss_pin :: "keyless_pin option"
  ss_pin_file :: string
  ss_pin_checked :: bool

definition root_id_of :: "lib \<Rightarrow> entry list \<Rightarrow> string option \<Rightarrow> string" where
  "root_id_of L es pub =
     (case pub of
        Some k \<Rightarrow> key_fingerprint L k
      | None \<Rightarrow>
          (let signer_id = (case find (\<lambda>e. le_kind e = kind_signer) es of None \<Rightarrow> '''' | Some e \<Rightarrow> le_keyid e) in
           case es of
             [] \<Rightarrow> signer_id
           | e # _ \<Rightarrow>
               (case le_checkpoint e of
                  Some cp \<Rightarrow> if le_kind e = kind_checkpoint \<and> 0 < length (cp_signers cp) then le_keyid e else signer_id
                | None \<Rightarrow> signer_id)))"

definition new_signer_set :: "lib \<Rightarrow> entry list \<Rightarrow> string option \<Rightarrow> signer_set" where
  "new_signer_set L es pub =
     \<lparr>ss_root_id = root_id_of L es pub, ss_root_pub = pub, ss_active = Map.empty, ss_order = [],
      ss_pin = None, ss_pin_file = '''', ss_pin_checked = False\<rparr>"

definition is_root :: "signer_set \<Rightarrow> entry \<Rightarrow> bool" where
  "is_root s e =
     (if le_keyid e = legacy_root_keyid
      then le_format e = format4 \<or> le_format e = format3 \<or> le_format e = format2
      else ss_root_id s \<noteq> '''' \<and> le_keyid e = ss_root_id s)"

definition or_no_keyid :: "string \<Rightarrow> string" where
  "or_no_keyid i = (if trim_space i = '''' then ''a key it does not name'' else i)"

definition resolve :: "signer_set \<Rightarrow> entry \<Rightarrow> string \<times> string option \<times> problem option" where
  "resolve s e =
     (if le_signature e = '''' then ('''', None, None)
      else if le_format e = file_format \<and> le_keyid e = legacy_root_keyid then ('''', None, Some LegacyKeyId)
      else if is_root s e then (''root'', ss_root_pub s, None)
      else (case ss_active s (le_keyid e) of
              Some k \<Rightarrow>
                if ss_root_pub s = None then (sk_name k, None, None)
                else (sk_name k, Some (fst (hex_decode (sk_pubkey k))), None)
            | None \<Rightarrow>
                if ss_root_pub s = None then ('''', None, None)
                else ('''', None, Some (NotASigner (or_no_keyid (le_keyid e))))))"

definition change_problem :: "signer_set \<Rightarrow> entry \<Rightarrow> problem option" where
  \<comment> \<open>called only on a signer entry whose shape is good, so it carries a change\<close>
  "change_problem s e =
     (if le_signature e = '''' \<or> \<not> is_root s e then Some SignerNotByRoot
      else (case le_signer e of
              None \<Rightarrow> None
            | Some c \<Rightarrow>
                let active = (ss_active s (sc_keyid c) \<noteq> None) in
                if sc_action c = signer_register \<and> sc_keyid c = ss_root_id s then Some RegistersRoot
                else if sc_action c = signer_register \<and> active then Some (AlreadyRegistered (sc_keyid c))
                else if sc_action c = signer_revoke \<and> sc_keyid c = ss_root_id s then Some RevokesRoot
                else if sc_action c = signer_revoke \<and> \<not> active then Some (RevokesUnknown (sc_keyid c))
                else if sc_action c = signer_unpin \<and> ss_pin s = None then Some NothingPinned
                else None))"

definition apply_change :: "signer_change \<Rightarrow> string \<Rightarrow> signer_set \<Rightarrow> signer_set" where
  "apply_change c file s =
     (if sc_action c = signer_register
      then s\<lparr>ss_active := (ss_active s)(sc_keyid c \<mapsto> \<lparr>sk_keyid = sc_keyid c, sk_pubkey = sc_pubkey c, sk_name = sc_name c\<rparr>),
             ss_order := ss_order s @ [sc_keyid c]\<rparr>
      else if sc_action c = signer_revoke
      then s\<lparr>ss_active := (ss_active s)(sc_keyid c := None), ss_order := remove1 (sc_keyid c) (ss_order s)\<rparr>
      else if sc_action c = signer_pin
      then s\<lparr>ss_pin := sc_keyless_pin c, ss_pin_file := file, ss_pin_checked := (ss_root_pub s \<noteq> None)\<rparr>
      else if sc_action c = signer_unpin
      then s\<lparr>ss_pin := None, ss_pin_file := '''', ss_pin_checked := False\<rparr>
      else s)"

definition signer_list :: "signer_set \<Rightarrow> signer_key list" where
  "signer_list s = map (\<lambda>i. case ss_active s i of Some k \<Rightarrow> k | None \<Rightarrow> \<lparr>sk_keyid = '''', sk_pubkey = '''', sk_name = ''''\<rparr>) (ss_order s)"

definition seed_problem :: "signer_set \<Rightarrow> entry \<Rightarrow> problem option" where
  \<comment> \<open>called only on a checkpoint whose shape is good, so it carries one\<close>
  "seed_problem s e =
     (let ks = (case le_checkpoint e of None \<Rightarrow> [] | Some cp \<Rightarrow> cp_signers cp) in
      if ks = [] then None
      else if le_signature e = '''' \<or> \<not> is_root s e then Some CheckpointNotRoot
      else if list_ex (\<lambda>k. sk_keyid k = ss_root_id s) ks then Some CheckpointListsRoot
      else None)"

definition seed_set :: "signer_key list \<Rightarrow> signer_set \<Rightarrow> signer_set" where
  "seed_set ks s = fold (\<lambda>k s. s\<lparr>ss_active := (ss_active s)(sk_keyid k \<mapsto> k), ss_order := ss_order s @ [sk_keyid k]\<rparr>) ks s"

subsection \<open>Keyless entries and pins\<close>

record trust =
  tr_root_pub :: "string option"
  tr_repo :: string
  tr_sigstore_root :: "string option"

definition github_url :: "string \<Rightarrow> string" where
  "github_url repo = ''https://github.com/'' @ repo"

definition trim_suffix :: "string \<Rightarrow> string \<Rightarrow> string" where
  "trim_suffix s x = (if has_suffix s x then take (length s - length x) s else s)"

definition trim_prefix :: "string \<Rightarrow> string \<Rightarrow> string" where
  "trim_prefix s x = (if has_prefix s x then drop (length x) s else s)"

definition signed_by_run :: "cert_identity \<Rightarrow> string \<Rightarrow> string" where
  "signed_by_run i repo =
     (let (wf, ref) = (if ci_ref i = '''' then (ci_workflow i, ''(absent)'')
                       else (trim_suffix (ci_workflow i) (''@'' @ ci_ref i), ci_ref i));
          wf = trim_prefix wf (github_url repo @ ''/'');
          wf = (if wf = '''' then ''(absent)'' else wf) in
      wf @ ''@'' @ ref)"

definition pin_problem :: "keyless_pin \<Rightarrow> string \<Rightarrow> cert_identity \<Rightarrow> string \<Rightarrow> problem option" where
  "pin_problem pin pin_file i repo =
     (let pair_allowed = list_ex (\<lambda>a. ci_ref i \<noteq> '''' \<and> ci_ref i = pw_ref a \<and>
            ci_workflow i = github_url repo @ ''/'' @ pw_workflow a @ ''@'' @ pw_ref a) (kp_allow pin);
          id_matches = (ci_repo_id i \<noteq> '''' \<and> ci_repo_id i = kp_repo_id pin) in
      if pair_allowed \<and> id_matches then None
      else Some (PinRefuses (signed_by_run i repo) pin_file
        (if pair_allowed then Some (if ci_repo_id i = '''' then ''(absent)'' else ci_repo_id i, kp_repo_id pin) else None)))"

definition keyless_artifact :: "entry \<Rightarrow> string option" where
  "keyless_artifact e =
     (let (b, ok) = hex_decode (le_hash e) in if \<not> ok \<or> length b \<noteq> 32 then None else Some b)"

definition verify_keyless_identity :: "lib \<Rightarrow> string \<Rightarrow> string \<Rightarrow> string \<Rightarrow> string option \<Rightarrow> problem + cert_identity" where
  "verify_keyless_identity L bundle_json artifact repo sr =
     (if repo = '''' then Inl NoLedgerRepo
      else (case sr of
              None \<Rightarrow> Inl NoSigstoreRoot
            | Some r \<Rightarrow> (case verify_bundle L bundle_json artifact repo r of
                           Inl err \<Rightarrow> Inl (BundleRefused err)
                         | Inr i \<Rightarrow> Inr i)))"

definition keyless_shape_problem :: "entry \<Rightarrow> problem option" where
  "keyless_shape_problem e =
     (if le_format e \<noteq> format6 then Some (KeylessFormat (le_format e))
      else if le_kind e = kind_signer \<or> le_kind e = kind_checkpoint then Some KeylessNotRoot
      else if le_signature e \<noteq> '''' then Some KeylessAlsoKeyed
      else if length (le_sigstore e) = 0 then Some KeylessNoBundle
      else None)"

definition keyless_problem :: "lib \<Rightarrow> entry \<Rightarrow> trust \<Rightarrow> bool \<Rightarrow> problem option \<times> string \<times> bool \<times> cert_identity option" where
  "keyless_problem L e t integrity_only =
     (let keyless = (le_keyid e = keyid_sigstore) in
      if \<not> keyless \<and> le_format e = format6 then (Some (FormatIsKeyless (le_keyid e)), '''', False, None)
      else if \<not> keyless \<and> 0 < length (le_sigstore e) then (Some (BundleOnKeyed (le_keyid e)), '''', False, None)
      else if \<not> keyless then (None, '''', False, None)
      else if integrity_only then (keyless_shape_problem e, '''', False, None)
      else if tr_repo t = '''' then (Some NoLedgerRepo, '''', False, None)
      else (case keyless_shape_problem e of
              Some p \<Rightarrow> (Some p, '''', False, None)
            | None \<Rightarrow>
                (case keyless_artifact e of
                   None \<Rightarrow> (Some (KeylessBadHash (le_hash e)), '''', False, None)
                 | Some art \<Rightarrow>
                     (case verify_keyless_identity L (le_sigstore e) art (tr_repo t) (tr_sigstore_root t) of
                        Inl p \<Rightarrow> (Some p, '''', tr_sigstore_root t \<noteq> None, None)
                      | Inr i \<Rightarrow> (None, github_url (tr_repo t), True, Some i)))))"

subsection \<open>One entry's verdict\<close>

datatype sig_level =
  NoLevel | LevelUnsigned | LevelKeylessUnpinned | LevelKeylessPinned | LevelKeylessPinnedUnchecked | LevelKey

datatype entry_note =
    ChangeNote signer_change
  | CheckpointNote int int string
  | RetractNote string string
  | ReviewNote string string nat nat nat
  | AdjudicationNote string string string string
  | SparseFormNote
  | UnsignedNote
  | SelfReportedNote string

record chain_check =
  ck_file :: string
  ck_scan_uid :: string
  ck_hash :: string
  ck_commit :: string
  ck_hash_ok :: bool
  ck_link_ok :: bool
  ck_signed :: bool
  ck_sig_ok :: bool
  ck_sig_checked :: bool
  ck_keyless :: bool
  ck_keyid :: string
  ck_signer :: string
  ck_cert :: "cert_identity option"
  ck_level :: sig_level
  ck_problem :: "problem option"
  ck_genesis :: bool
  ck_kind :: string
  ck_note :: "entry_note list"

definition level_of :: "chain_check \<Rightarrow> bool \<Rightarrow> bool \<Rightarrow> sig_level" where
  "level_of c pinned pin_checked =
     (if ck_problem c \<noteq> None then NoLevel
      else if \<not> ck_signed c then LevelUnsigned
      else if \<not> ck_sig_checked c \<or> \<not> ck_sig_ok c then NoLevel
      else if ck_keyless c \<and> pinned \<and> pin_checked then LevelKeylessPinned
      else if ck_keyless c \<and> pinned then LevelKeylessPinnedUnchecked
      else if ck_keyless c then LevelKeylessUnpinned
      else LevelKey)"

fun level_sentence :: "sig_level \<Rightarrow> string" where
  "level_sentence LevelUnsigned = ''unsigned: nothing shows who wrote it''"
| "level_sentence LevelKeylessUnpinned = ''signed keylessly by a GitHub Actions workflow of this repository, on the ref it names; any branch could have signed, because no workflow is pinned''"
| "level_sentence LevelKeylessPinned = ''signed keylessly by the workflow and ref this ledger's root pinned''"
| "level_sentence LevelKeylessPinnedUnchecked = ''signed keylessly by the workflow and ref this ledger's pin names; the pin was not checked against a root key you named''"
| "level_sentence LevelKey = ''signed by a key this ledger's root holds or registered''"
| "level_sentence NoLevel = ''''"

definition review_counts :: "review \<Rightarrow> nat \<times> nat \<times> nat" where
  "review_counts r =
     (length (filter (\<lambda>t. t = ''REPRODUCED'') (rv_tiers r)), length (filter (\<lambda>t. t = ''CODE-READ'') (rv_tiers r)),
      length (filter (\<lambda>t. t \<noteq> ''REPRODUCED'' \<and> t \<noteq> ''CODE-READ'') (rv_tiers r)))"

definition short_ref :: "string \<Rightarrow> string" where
  "short_ref ref = (let (h, i, _) = cut_ref ref; h = take 12 h in if i = '''' then h else h @ ''#'' @ i)"

record walk_state =
  wk_set :: signer_set
  wk_prev_hash :: string
  wk_seen :: "string list"
  wk_seen_review :: "string list"
  wk_out :: "chain_check list"

definition uid_ok :: "lib \<Rightarrow> entry \<Rightarrow> bool" where
  "uid_ok L e =
     (if le_format e \<noteq> format2 \<and> is_scan e \<and> bu_scan (le_bundle e) \<noteq> zero_scan_row
      then le_scan_uid e = scan_uid L (bu_scan (le_bundle e)) (le_pushed e) \<and> sr_scan_uid (bu_scan (le_bundle e)) = le_scan_uid e
      else True)"

definition rule :: "bool \<Rightarrow> problem \<Rightarrow> problem option" where
  "rule broken p = (if broken then Some p else None)"

fun first_objection :: "problem option list \<Rightarrow> problem option" where
  "first_objection [] = None"
| "first_objection (r # rs) = (case r of Some p \<Rightarrow> Some p | None \<Rightarrow> first_objection rs)"

definition objection :: "lib \<Rightarrow> nat \<Rightarrow> entry \<Rightarrow> walk_state \<Rightarrow> chain_check \<Rightarrow> string \<Rightarrow> string option \<Rightarrow>
    problem option \<Rightarrow> problem option \<Rightarrow> problem option \<Rightarrow> problem option" where
  \<comment> \<open>the cases of the \<^verbatim>\<open>switch\<close> that set a Problem, in their order\<close>
  "objection L i e w c name key key_problem keyless_p pin_p =
     (let shape = entry_shape_problem L e;
          change = (if le_kind e = kind_signer \<and> shape = None then change_problem (wk_set w) e else None);
          seed = (if le_kind e = kind_checkpoint \<and> i = 0 \<and> shape = None then seed_problem (wk_set w) e else None);
          bad_sig = (le_signature e \<noteq> '''' \<and> key \<noteq> None \<and> \<not> ck_sig_ok c) in
      first_objection
        [rule (\<not> ck_hash_ok c) EditedAfterWritten,
         rule (\<not> uid_ok L e) UidNotDerived,
         rule (\<not> ck_link_ok c) (BrokenLink (take 12 (le_prev e)) (take 12 (wk_prev_hash w))),
         keyless_p,
         pin_p,
         rule (seed = Some CheckpointNotRoot) CheckpointNotRoot,
         key_problem,
         rule (bad_sig \<and> name = ''root'') BadRootSignature,
         rule bad_sig (BadSignerSignature name (le_keyid e)),
         rule (le_kind e = kind_checkpoint \<and> i \<noteq> 0) (MisplacedCheckpoint (i + 1)),
         shape,
         seed,
         change,
         rule (le_kind e = kind_retract \<and> le_retracts e \<notin> set (wk_seen w)) (RetractsUnknown (take 12 (le_retracts e))),
         rule (le_kind e = kind_adjudication \<and> (case le_adjudication e of None \<Rightarrow> False
            | Some a \<Rightarrow> fst (cut_ref (aj_adjudicates a)) \<notin> set (wk_seen_review w))) AdjudicatesUnknown])"

definition kind_notes :: "entry \<Rightarrow> entry_note list" where
  "kind_notes e =
     (if le_kind e = kind_signer then (case le_signer e of None \<Rightarrow> [] | Some sc \<Rightarrow> [ChangeNote sc])
      else if le_kind e = kind_checkpoint
      then (case le_checkpoint e of None \<Rightarrow> [] | Some cp \<Rightarrow> [CheckpointNote (cp_entries cp) (cp_through cp) (take 12 (cp_head cp))])
      else if le_kind e = kind_retract then [RetractNote (take 12 (le_retracts e)) (le_reason e)]
      else if le_kind e = kind_review
      then (case le_review e of None \<Rightarrow> []
            | Some r \<Rightarrow> [case review_counts r of (rep, cr, hy) \<Rightarrow> ReviewNote (rv_scope r) (rv_reviewer_model r) rep cr hy])
      else if le_kind e = kind_adjudication
      then (case le_adjudication e of None \<Rightarrow> []
            | Some a \<Rightarrow> [AdjudicationNote (aj_verdict a) (short_ref (aj_adjudicates a)) (aj_by a) (aj_reason a)])
      else [])"

definition note_entry :: "entry \<Rightarrow> chain_check \<Rightarrow> chain_check" where
  \<comment> \<open>the cases that set a Note: the entry has no Problem, so it carries its kind's payload\<close>
  "note_entry e c = c\<lparr>ck_note := kind_notes e,
     ck_commit := (case le_review e of None \<Rightarrow> ck_commit c | Some r \<Rightarrow> if le_kind e = kind_review then rv_commit r else ck_commit c)\<rparr>"

definition entry_verdict :: "lib \<Rightarrow> nat \<Rightarrow> entry \<Rightarrow> walk_state \<Rightarrow> chain_check \<Rightarrow> string \<Rightarrow> string option \<Rightarrow>
    problem option \<Rightarrow> problem option \<Rightarrow> problem option \<Rightarrow> chain_check" where
  "entry_verdict L i e w c name key key_problem keyless_p pin_p =
     (case objection L i e w c name key key_problem keyless_p pin_p of
        Some p \<Rightarrow> c\<lparr>ck_problem := Some p\<rparr>
      | None \<Rightarrow> note_entry e c)"

definition resolved :: "lib \<Rightarrow> trust \<Rightarrow> entry \<Rightarrow> signer_set \<Rightarrow> string \<times> string option \<times> problem option" where
  \<comment> \<open>the key of an entry that is not keyless\<close>
  "resolved L t e s = (if le_keyid e = keyid_sigstore then ('''', None, None) else resolve s e)"

definition base_check :: "lib \<Rightarrow> trust \<Rightarrow> bool \<Rightarrow> nat \<Rightarrow> entry \<Rightarrow> walk_state \<Rightarrow> chain_check" where
  \<comment> \<open>the verdict before the \<^verbatim>\<open>switch\<close>: hash, link and signature\<close>
  "base_check L t integrity_only i e w =
     (let keyless = (le_keyid e = keyid_sigstore);
          (keyless_p, signed_by, keyless_checked, cert) = keyless_problem L e t integrity_only;
          (name, key, key_problem) = resolved L t e (wk_set w) in
      \<lparr>ck_file = le_file e, ck_scan_uid = le_scan_uid e, ck_hash = le_hash e, ck_commit = sr_commit (bu_scan (le_bundle e)),
       ck_hash_ok = (entry_hash L e = Some (le_hash e)), ck_link_ok = (le_prev e = wk_prev_hash w), ck_signed = signed e,
       ck_sig_ok = (if keyless then keyless_p = None \<and> signed_by \<noteq> ''''
                    else (case key of None \<Rightarrow> False
                          | Some k \<Rightarrow> le_signature e \<noteq> '''' \<and>
                              ed25519_verify L k (fst (hex_decode (le_hash e))) (fst (hex_decode (le_signature e))))),
       ck_sig_checked = (if keyless then keyless_checked else le_signature e \<noteq> '''' \<and> key \<noteq> None),
       ck_keyless = keyless, ck_keyid = le_keyid e, ck_signer = (if keyless then signed_by else name),
       ck_cert = (if keyless then cert else None), ck_level = NoLevel, ck_problem = None, ck_genesis = (i = 0),
       ck_kind = le_kind e, ck_note = []\<rparr>)"

definition pin_verdict :: "trust \<Rightarrow> chain_check \<Rightarrow> problem option \<Rightarrow> signer_set \<Rightarrow> problem option \<times> bool \<times> bool" where
  \<comment> \<open>the pin in force judges a keyless entry whose bundle verified: problem, pinned, pin checked\<close>
  "pin_verdict t c keyless_p s =
     (case (ck_cert c, ss_pin s) of
        (Some cert, Some pin) \<Rightarrow>
          if ck_keyless c \<and> keyless_p = None
          then (let p = pin_problem pin (ss_pin_file s) cert (tr_repo t) in (p, p = None, ss_pin_checked s))
          else (None, False, False)
      | _ \<Rightarrow> (None, False, False))"

definition disclosures :: "entry \<Rightarrow> bool \<Rightarrow> chain_check \<Rightarrow> chain_check" where
  "disclosures e any_signed c =
     (let c = (if le_format e = format2 \<and> ck_problem c = None then c\<lparr>ck_note := ck_note c @ [SparseFormNote]\<rparr> else c);
          c = (if \<not> ck_signed c \<and> any_signed \<and> ck_problem c = None then c\<lparr>ck_note := ck_note c @ [UnsignedNote]\<rparr> else c) in
      if \<not> key_id_is_hashed (le_format e) \<and> ck_signed c \<and> ck_problem c = None
      then c\<lparr>ck_note := ck_note c @ [SelfReportedNote (le_format e)]\<rparr> else c)"

definition next_set :: "nat \<Rightarrow> entry \<Rightarrow> chain_check \<Rightarrow> signer_set \<Rightarrow> signer_set" where
  "next_set i e c s =
     (let s1 = (if le_kind e = kind_signer \<and> ck_problem c = None
                then (case le_signer e of None \<Rightarrow> s | Some sc \<Rightarrow> apply_change sc (le_file e) s) else s) in
      if le_kind e = kind_checkpoint \<and> i = 0 \<and> ck_problem c = None
      then (case le_checkpoint e of None \<Rightarrow> s1 | Some cp \<Rightarrow> seed_set (cp_signers cp) s1) else s1)"

definition check_entry :: "lib \<Rightarrow> trust \<Rightarrow> bool \<Rightarrow> bool \<Rightarrow> nat \<Rightarrow> entry \<Rightarrow> walk_state \<Rightarrow> chain_check" where
  "check_entry L t integrity_only any_signed i e w =
     (let c0 = base_check L t integrity_only i e w;
          keyless_p = fst (keyless_problem L e t integrity_only);
          (name, key, key_problem) = resolved L t e (wk_set w);
          (pin_p, pinned, pin_checked) = pin_verdict t c0 keyless_p (wk_set w);
          c1 = disclosures e any_signed (entry_verdict L i e w c0 name key key_problem keyless_p pin_p) in
      c1\<lparr>ck_level := level_of c1 pinned pin_checked\<rparr>)"

definition walk_entry :: "lib \<Rightarrow> trust \<Rightarrow> bool \<Rightarrow> bool \<Rightarrow> nat \<Rightarrow> entry \<Rightarrow> walk_state \<Rightarrow> walk_state" where
  "walk_entry L t integrity_only any_signed i e w =
     (let c = check_entry L t integrity_only any_signed i e w in
      \<lparr>wk_set = next_set i e c (wk_set w), wk_prev_hash = le_hash e, wk_seen = le_hash e # wk_seen w,
       wk_seen_review = (if le_kind e = kind_review then le_hash e # wk_seen_review w else wk_seen_review w),
       wk_out = wk_out w @ [c]\<rparr>)"

fun walk_loop :: "lib \<Rightarrow> trust \<Rightarrow> bool \<Rightarrow> bool \<Rightarrow> nat \<Rightarrow> entry list \<Rightarrow> walk_state \<Rightarrow> walk_state" where
  "walk_loop L t integrity_only any_signed i [] w = w"
| "walk_loop L t integrity_only any_signed i (e # es) w =
     walk_loop L t integrity_only any_signed (Suc i) es (walk_entry L t integrity_only any_signed i e w)"

definition walk_start :: "lib \<Rightarrow> trust \<Rightarrow> entry list \<Rightarrow> walk_state" where
  "walk_start L t es = \<lparr>wk_set = new_signer_set L es (tr_root_pub t), wk_prev_hash = '''', wk_seen = [], wk_seen_review = [], wk_out = []\<rparr>"

definition ledger_walk :: "lib \<Rightarrow> entry list \<Rightarrow> trust \<Rightarrow> bool \<Rightarrow> chain_check list \<times> signer_set" where
  "ledger_walk L es t integrity_only =
     (let w = walk_loop L t integrity_only (list_ex signed es) 0 es (walk_start L t es) in (wk_out w, wk_set w))"

definition verify_with_signers :: "lib \<Rightarrow> entry list \<Rightarrow> trust \<Rightarrow> chain_check list \<times> signer_set" where
  "verify_with_signers L es t = ledger_walk L es t False"

definition verify :: "lib \<Rightarrow> entry list \<Rightarrow> trust \<Rightarrow> chain_check list" where
  "verify L es t = fst (verify_with_signers L es t)"

definition verify_integrity :: "lib \<Rightarrow> entry list \<Rightarrow> chain_check list" where
  "verify_integrity L es = fst (ledger_walk L es \<lparr>tr_root_pub = None, tr_repo = '''', tr_sigstore_root = None\<rparr> True)"

end
