(* ===== verification/Ledger_Record.thy ===== *)
theory Ledger_Record
  imports Ledger_Verify
begin

section \<open>What a chain means (internal/ledger/rules.go, derive.go)\<close>

text \<open>
  Which entries stand after retractions, which adjudication counts, and the document a page may serve from a ledger's bytes. A Go
  map keyed by hash is a partial function; the entries of a directory are indexed by their place in the list sorted by file name.
  The summary figures of \<^verbatim>\<open>summary.go\<close>, computed from the bundles served, are not modelled.
\<close>

definition adjudications :: "entry list \<Rightarrow> string \<Rightarrow> adjudication option" where
  "adjudications es = fold (\<lambda>e m. case le_adjudication e of
       Some a \<Rightarrow> if le_kind e = kind_adjudication then m(aj_adjudicates a \<mapsto> a) else m
     | None \<Rightarrow> m) es Map.empty"

fun chain_has_signers_from :: "nat \<Rightarrow> entry list \<Rightarrow> bool" where
  "chain_has_signers_from i [] = False"
| "chain_has_signers_from i (e # es) =
     (if le_kind e = kind_signer then True
      else if i = 0 \<and> le_kind e = kind_checkpoint \<and> (case le_checkpoint e of None \<Rightarrow> False | Some cp \<Rightarrow> 0 < length (cp_signers cp))
      then True else chain_has_signers_from (Suc i) es)"

definition chain_has_signers :: "entry list \<Rightarrow> bool" where
  "chain_has_signers es = chain_has_signers_from 0 es"

fun retract_pass :: "entry list \<Rightarrow> string list \<Rightarrow> entry list \<Rightarrow> entry list" where
  \<comment> \<open>the reverse pass: entries newest first, hashes targeted so far, retractions in force so far\<close>
  "retract_pass [] targeted in_force = in_force"
| "retract_pass (e # es) targeted in_force =
     (if le_kind e \<noteq> kind_retract then retract_pass es targeted in_force
      else if le_hash e \<in> set targeted then retract_pass es targeted in_force
      else retract_pass es (le_retracts e # targeted) (in_force @ [e]))"

definition retracted :: "entry list \<Rightarrow> string \<Rightarrow> entry option" where
  "retracted es = fold (\<lambda>e m. m(le_retracts e \<mapsto> e)) (retract_pass (rev es) [] []) Map.empty"

definition live_entries :: "entry list \<Rightarrow> entry list" where
  "live_entries es =
     (let r = retracted es in
      filter (\<lambda>e. \<not> (r (le_hash e) \<noteq> None) \<and>
        \<not> (le_kind e = kind_adjudication \<and>
           (case le_adjudication e of
              None \<Rightarrow> False
            | Some a \<Rightarrow> let (h, _, ok) = cut_ref (aj_adjudicates a) in ok \<and> r h \<noteq> None))) es)"

definition scan_entries :: "entry list \<Rightarrow> entry list" where
  "scan_entries es = filter is_scan (live_entries es)"

subsection \<open>Ordering a directory by its links\<close>

definition by_hash :: "entry list \<Rightarrow> string \<Rightarrow> nat option" where
  \<comment> \<open>the first entry that claims the hash\<close>
  "by_hash es h = find (\<lambda>i. le_hash (es ! i) = h) [0..<length es]"

definition duplicate :: "entry list \<Rightarrow> nat \<Rightarrow> bool" where
  "duplicate es i = (by_hash es (le_hash (es ! i)) \<noteq> Some i)"

definition named_prev :: "entry list \<Rightarrow> string \<Rightarrow> bool" where
  "named_prev es h = list_ex (\<lambda>e. le_prev e \<noteq> '''' \<and> le_prev e = h) es"

lemma by_hash_lt: "by_hash es h = Some p \<Longrightarrow> p < length es"
proof -
  assume "by_hash es h = Some p"
  then obtain i where "i < length [0..<length es]" "p = [0..<length es] ! i" unfolding by_hash_def find_Some_iff by blast
  then show "p < length es" by simp
qed

function walk_back :: "entry list \<Rightarrow> nat list \<Rightarrow> nat \<Rightarrow> nat list" where
  \<comment> \<open>from entry \<open>i\<close> along the \<^verbatim>\<open>Prev\<close> links, newest first; \<open>seen\<close> stops a cycle\<close>
  "walk_back es seen i =
     i # (if le_prev (es ! i) = '''' then []
          else (case by_hash es (le_prev (es ! i)) of
                  None \<Rightarrow> []
                | Some p \<Rightarrow> if p \<in> set (i # seen) then [] else walk_back es (i # seen) p))"
  by pat_completeness auto

termination
proof (relation "measure (\<lambda>(es, seen, i). card ({..<length es} - set (i # seen)))")
  fix es :: "entry list" and seen i p
  assume p: "by_hash es (le_prev (es ! i)) = Some p" "p \<notin> set (i # seen)"
  then have "{..<length es} - set (p # i # seen) \<subset> {..<length es} - set (i # seen)" using by_hash_lt by auto
  then have "card ({..<length es} - set (p # i # seen)) < card ({..<length es} - set (i # seen))"
    by (rule psubset_card_mono [rotated]) simp
  then show "((es, i # seen, p), (es, seen, i)) \<in> measure (\<lambda>(es, seen, i). card ({..<length es} - set (i # seen)))" by simp
qed simp

declare walk_back.simps [simp del]

definition better_head :: "entry list \<Rightarrow> nat \<Rightarrow> nat list \<Rightarrow> (nat \<times> nat list) option \<Rightarrow> bool" where
  "better_head es i w best =
     (case best of
        None \<Rightarrow> True
      | Some (b, bw) \<Rightarrow> length w > length bw \<or>
          (length w = length bw \<and> (le_pushed (es ! i) > le_pushed (es ! b) \<or>
             (le_pushed (es ! i) = le_pushed (es ! b) \<and> le_file (es ! i) > le_file (es ! b)))))"

definition best_head :: "entry list \<Rightarrow> (nat \<times> nat list) option" where
  "best_head es = fold (\<lambda>i best.
      if duplicate es i \<or> named_prev es (le_hash (es ! i)) then best
      else (let w = walk_back es [] i in if better_head es i w best then Some (i, w) else best)) [0..<length es] None"

definition order_by_prev :: "entry list \<Rightarrow> entry list \<times> entry list" where
  "order_by_prev es =
     (let w = (case best_head es of None \<Rightarrow> [] | Some (_, w) \<Rightarrow> w) in
      (map (\<lambda>i. es ! i) (rev w),
       sort_key le_pushed (map (\<lambda>i. es ! i) (filter (\<lambda>i. i \<notin> set w) [0..<length es]))))"

subsection \<open>The document served\<close>

datatype status_problem =
    VerifyProblem problem
  | HashOrLink
  | UncheckedSignature
  | UnverifiedSignature
  | OffChain
  | Unparsed parse_error

datatype entry_state = Verified | UnsignedEntry | Failed status_problem

record entry_status =
  st_file :: string
  st_hash :: string
  st_kind :: string
  st_keyid :: string
  st_state :: entry_state
  st_signer :: string
  st_note :: "entry_note list"
  st_level :: sig_level
  st_workflow :: string
  st_trigger :: string

datatype ledger_refusal = DoesNotVerify string status_problem | OffSingleChain nat

record derived =
  dv_problem :: "ledger_refusal option"
  dv_root_keyid :: string
  dv_entries :: "entry_status list"
  dv_scans :: "scan_row list"
  dv_files :: "string list"
  dv_mutants :: "string list"
  dv_calls :: "string list"
  dv_reviews :: nat
  dv_adjudications :: "string \<Rightarrow> adjudication option"

definition status_of_check :: "chain_check \<Rightarrow> entry_status" where
  "status_of_check c =
     \<lparr>st_file = ck_file c, st_hash = ck_hash c, st_kind = ck_kind c, st_keyid = ck_keyid c,
      st_state = (case ck_problem c of
          Some p \<Rightarrow> Failed (VerifyProblem p)
        | None \<Rightarrow>
            if \<not> ck_hash_ok c \<or> \<not> ck_link_ok c then Failed HashOrLink
            else if \<not> ck_signed c then UnsignedEntry
            else if \<not> ck_sig_checked c then Failed UncheckedSignature
            else if \<not> ck_sig_ok c then Failed UnverifiedSignature
            else Verified),
      st_signer = ck_signer c, st_note = ck_note c, st_level = ck_level c,
      st_workflow = (case ck_cert c of None \<Rightarrow> '''' | Some i \<Rightarrow> ci_workflow i),
      st_trigger = (case ck_cert c of None \<Rightarrow> '''' | Some i \<Rightarrow> ci_trigger i)\<rparr>"

definition failed_status :: "string \<Rightarrow> string \<Rightarrow> string \<Rightarrow> string \<Rightarrow> status_problem \<Rightarrow> entry_status" where
  "failed_status file h kind keyid p =
     \<lparr>st_file = file, st_hash = h, st_kind = kind, st_keyid = keyid, st_state = Failed p, st_signer = '''', st_note = [],
      st_level = NoLevel, st_workflow = '''', st_trigger = ''''\<rparr>"

fun ledger_problem :: "entry_status list \<Rightarrow> nat \<Rightarrow> ledger_refusal option" where
  "ledger_problem [] off = (if 0 < off then Some (OffSingleChain off) else None)"
| "ledger_problem (e # es) off =
     (case st_state e of
        Failed p \<Rightarrow> if p \<noteq> OffChain then Some (DoesNotVerify (st_file e) p) else ledger_problem es off
      | _ \<Rightarrow> ledger_problem es off)"

definition trusted_entries :: "entry list \<Rightarrow> entry_status list \<Rightarrow> entry list" where
  \<comment> \<open>verified entries, and unsigned retractions\<close>
  "trusted_entries chain sts =
     map fst (filter (\<lambda>(e, st). st_state st = Verified \<or> (st_state st = UnsignedEntry \<and> le_kind e = kind_retract)) (zip chain sts))"

fun parse_all :: "lib \<Rightarrow> (string \<times> string) list \<Rightarrow> entry list \<times> entry_status list" where
  "parse_all L [] = ([], [])"
| "parse_all L ((name, raw) # rs) =
     (let (es, bad) = parse_all L rs in
      case parse_entry L name raw of
        Inl err \<Rightarrow> (es, failed_status name '''' '''' '''' (Unparsed err) # bad)
      | Inr e \<Rightarrow> (e # es, bad))"

definition derive :: "lib \<Rightarrow> (string \<times> string) list \<Rightarrow> trust \<Rightarrow> derived option" where
  \<comment> \<open>\<open>None\<close> is the error for two inputs of one name\<close>
  "derive L raw t =
     (if \<not> distinct (map fst raw) then None
      else
        (let d = \<lparr>dv_problem = None, dv_root_keyid = (case tr_root_pub t of
                     None \<Rightarrow> '''' | Some k \<Rightarrow> if length k = 32 then key_fingerprint L k else ''''),
                  dv_entries = [], dv_scans = [], dv_files = [], dv_mutants = [], dv_calls = [], dv_reviews = 0,
                  dv_adjudications = Map.empty\<rparr>;
             (parsed, unparsed) = parse_all L (sort_key fst raw);
             (chain, off) = order_by_prev parsed;
             sts = map status_of_check (verify L chain t) @
               map (\<lambda>e. failed_status (le_file e) (le_hash e) (le_kind e) (le_keyid e) OffChain) off @ unparsed;
             d = d\<lparr>dv_entries := sts\<rparr> in
         case ledger_problem sts (length off) of
           Some p \<Rightarrow> Some (d\<lparr>dv_problem := Some p\<rparr>)
         | None \<Rightarrow>
             (let trusted = trusted_entries chain (take (length chain) sts);
                  live = live_entries trusted;
                  served = map le_bundle (scan_entries trusted) in
              Some (d\<lparr>dv_reviews := length (filter (\<lambda>e. le_kind e = kind_review) live),
                      dv_scans := map bu_scan served, dv_files := concat (map bu_files served),
                      dv_mutants := concat (map bu_mutants served), dv_calls := concat (map bu_calls served),
                      dv_adjudications := adjudications live\<rparr>))))"

end
