(* ===== verification/Ledger_Properties.thy ===== *)
theory Ledger_Properties
  imports Ledger_Record
begin

section \<open>The ledger: properties\<close>

text \<open>
  What a reader may conclude from a chain that verifies: the head hash fixes every entry before it, a key or a pin is in
  force only because the root signed for it, and an entry called verified was checked against one of these.
\<close>

subsection \<open>Encodings\<close>

lemma hex_val_digit: "k < 16 \<Longrightarrow> hex_val (hex_digits ! k) = Some k"
proof -
  have "list_all (\<lambda>k. hex_val (hex_digits ! k) = Some k) [0..<16]" by code_simp
  then show "k < 16 \<Longrightarrow> ?thesis" by (simp add: list_all_iff)
qed

lemma hex_decode_encode [simp]: "hex_decode (hex_encode bs) = (bs, True)"
proof (induction bs)
  case (Cons c bs)
  let ?n = "of_char c :: nat"
  have "?n < 256" by (simp add: nat_of_char_less_256)
  then have n: "?n div 16 < 16" by (simp add: less_mult_imp_div_less)
  have "hex_encode (c # bs) = hex_digits ! (?n div 16) # hex_digits ! (?n mod 16) # hex_encode bs"
    by (simp add: hex_encode_def Let_def)
  moreover have "char_of (?n div 16 * 16 + ?n mod 16) = c" by simp
  ultimately show ?case using Cons n by (simp add: hex_val_digit)
qed (simp add: hex_encode_def)

lemma hex_encode_inj: "hex_encode a = hex_encode b \<Longrightarrow> a = b"
  using hex_decode_encode by (metis prod.inject)

lemma hex_encode_empty: "hex_encode a = [] \<longleftrightarrow> a = []"
  by (cases a) (simp_all add: hex_encode_def Let_def)

lemma itoa_inj_nat: "itoa (int m) = itoa (int n) \<Longrightarrow> m = n"
  using itoa_nat_inj by (simp add: itoa_def)

lemma no_colon: "CHR '':'' \<notin> set (itoa (int n))"
  using itoa_nat_no [of "CHR '':''"] by (simp add: itoa_def)

lemma cut_at:
  assumes "a @ c # x = b @ c # y" "c \<notin> set a" "c \<notin> set b"
  shows "a = b \<and> x = y"
proof -
  have tw: "takeWhile (\<lambda>z. z \<noteq> c) (a @ c # x) = a" if "c \<notin> set a" for a x
    using that by (auto simp: takeWhile_append)
  have "a = b" using tw [OF assms(2), of x] tw [OF assms(3), of y] assms(1) by simp
  then show ?thesis using assms(1) by simp
qed

lemma length_prefixed_inj: "length fs = length gs \<Longrightarrow> length_prefixed fs = length_prefixed gs \<Longrightarrow> fs = gs"
proof (induction fs gs rule: list_induct2)
  case (Cons f fs g gs)
  let ?r = "\<lambda>f fs. f @ CHR ''|'' # length_prefixed fs"
  have "itoa (int (length f)) @ CHR '':'' # ?r f fs = itoa (int (length g)) @ CHR '':'' # ?r g gs"
    using Cons.prems by (simp add: length_prefixed_def)
  from cut_at [OF this no_colon no_colon] have "length f = length g" "?r f fs = ?r g gs" using itoa_inj_nat by blast+
  then have "f = g" "length_prefixed fs = length_prefixed gs" by auto
  then show ?case using Cons.IH by simp
qed simp

lemma itoa_int_inj: "itoa i = itoa j \<Longrightarrow> i = j"
proof -
  assume eq: "itoa i = itoa j"
  have "CHR ''-'' \<notin> set (itoa_nat n)" for n by (rule itoa_nat_no) simp
  then have neg: "hd (itoa_nat n) \<noteq> CHR ''-''" for n by (metis hd_in_set itoa_nat_ne(1))
  show "i = j"
  proof (cases "i < 0"; cases "j < 0")
    assume "\<not> i < 0" "\<not> j < 0"
    then show ?thesis using eq itoa_nat_inj [of "nat i" "nat j"] by (simp add: itoa_def)
  next
    assume "i < 0" "j < 0"
    then show ?thesis using eq itoa_nat_inj [of "nat (- i)" "nat (- j)"] by (simp add: itoa_def)
  qed (use eq neg in \<open>auto simp: itoa_def dest: arg_cong [of _ _ hd]\<close>, metis list.sel(1))+
qed

text \<open>
  A scan's identity covers its fields without ambiguity: the bytes hashed for two scan rows and start times are the same only if the
  repository, run URL, host, version, commit, substrate, scan number and formatted time are all the same, whatever characters
  the fields contain.
\<close>

theorem scan_uid_unambiguous:
  "length_prefixed (scan_uid_fields L r t) = length_prefixed (scan_uid_fields L r' t') \<longleftrightarrow>
     sr_repo r = sr_repo r' \<and> sr_run_url r = sr_run_url r' \<and> sr_host r = sr_host r' \<and>
     sr_corral_version r = sr_corral_version r' \<and> sr_commit r = sr_commit r' \<and> sr_substrate r = sr_substrate r' \<and>
     sr_scan_id r = sr_scan_id r' \<and> rfc3339nano L t = rfc3339nano L t'"
proof
  assume "length_prefixed (scan_uid_fields L r t) = length_prefixed (scan_uid_fields L r' t')"
  then have "scan_uid_fields L r t = scan_uid_fields L r' t'"
    by (intro length_prefixed_inj) (simp_all add: scan_uid_fields_def)
  then show "sr_repo r = sr_repo r' \<and> sr_run_url r = sr_run_url r' \<and> sr_host r = sr_host r' \<and>
     sr_corral_version r = sr_corral_version r' \<and> sr_commit r = sr_commit r' \<and> sr_substrate r = sr_substrate r' \<and>
     sr_scan_id r = sr_scan_id r' \<and> rfc3339nano L t = rfc3339nano L t'"
    by (simp add: scan_uid_fields_def itoa_int_inj)
qed (simp add: scan_uid_fields_def)

subsection \<open>The walk, entry by entry\<close>

definition walk_to :: "lib \<Rightarrow> trust \<Rightarrow> bool \<Rightarrow> entry list \<Rightarrow> nat \<Rightarrow> walk_state" where
  \<comment> \<open>the state before entry \<open>i\<close>\<close>
  "walk_to L t io es i = walk_loop L t io (list_ex signed es) 0 (take i es) (walk_start L t es)"

lemma walk_loop_append: "walk_loop L t io a i (xs @ ys) w = walk_loop L t io a (i + length xs) ys (walk_loop L t io a i xs w)"
  by (induction xs arbitrary: i w) simp_all

lemma walk_to_0: "walk_to L t io es 0 = walk_start L t es"
  by (simp add: walk_to_def)

lemma walk_to_Suc:
  "i < length es \<Longrightarrow> walk_to L t io es (Suc i) = walk_entry L t io (list_ex signed es) i (es ! i) (walk_to L t io es i)"
  by (simp add: walk_to_def take_Suc_conv_app_nth walk_loop_append)

definition check_at :: "lib \<Rightarrow> trust \<Rightarrow> bool \<Rightarrow> entry list \<Rightarrow> nat \<Rightarrow> chain_check" where
  "check_at L t io es i = check_entry L t io (list_ex signed es) i (es ! i) (walk_to L t io es i)"

lemma walk_to_out: "i \<le> length es \<Longrightarrow> wk_out (walk_to L t io es i) = map (check_at L t io es) [0..<i]"
  by (induction i) (simp_all add: walk_to_0 walk_start_def walk_to_Suc walk_entry_def Let_def check_at_def)

lemma walk_to_prev:
  "i \<le> length es \<Longrightarrow> wk_prev_hash (walk_to L t io es i) = (if i = 0 then '''' else le_hash (es ! (i - 1)))"
  by (cases i) (simp_all add: walk_to_0 walk_start_def walk_to_Suc walk_entry_def Let_def)

lemma ledger_walk_eq:
  "ledger_walk L es t io = (map (check_at L t io es) [0..<length es], wk_set (walk_to L t io es (length es)))"
  using walk_to_out [of "length es" es L t io] by (simp add: ledger_walk_def Let_def walk_to_def)

text \<open>The \<^verbatim>\<open>switch\<close> writes only the problem, the note and a review's commit; a clean verdict passed every rule.\<close>

lemma first_objection_None: "first_objection rs = None \<longleftrightarrow> (\<forall>r\<in>set rs. r = None)"
  by (induction rs) (auto split: option.splits)

lemma entry_verdict_frame:
  "\<exists>n m. entry_verdict L i e w c name key kp kl pp =
     c\<lparr>ck_problem := (case objection L i e w c name key kp kl pp of None \<Rightarrow> ck_problem c | Some p \<Rightarrow> Some p),
       ck_note := n, ck_commit := m\<rparr>"
proof (cases "objection L i e w c name key kp kl pp")
  case None
  then show ?thesis
    by (simp add: entry_verdict_def note_entry_def, intro exI [of _ "kind_notes e"], intro exI) simp
next
  case (Some p)
  then show ?thesis
    by (simp add: entry_verdict_def, intro exI [of _ "ck_note c"] exI [of _ "ck_commit c"]) simp
qed

lemma disclosures_frame: "\<exists>n. disclosures e a c = c\<lparr>ck_note := n\<rparr>"
proof -
  have "\<exists>n. disclosures e a c = c\<lparr>ck_note := ck_note c @ n\<rparr>"
    by (simp add: disclosures_def Let_def) (metis append_Nil2 chain_check.surjective chain_check.update_convs(18))
  then show ?thesis by blast
qed

definition key_of :: "lib \<Rightarrow> trust \<Rightarrow> entry \<Rightarrow> signer_set \<Rightarrow> string option" where
  "key_of L t e s = fst (snd (resolved L t e s))"

definition objection_at :: "lib \<Rightarrow> trust \<Rightarrow> bool \<Rightarrow> nat \<Rightarrow> entry \<Rightarrow> walk_state \<Rightarrow> problem option" where
  "objection_at L t io i e w =
     (let c = base_check L t io i e w in
      objection L i e w c (fst (resolved L t e (wk_set w))) (key_of L t e (wk_set w)) (snd (snd (resolved L t e (wk_set w))))
        (fst (keyless_problem L e t io)) (fst (pin_verdict t c (fst (keyless_problem L e t io)) (wk_set w))))"

text \<open>A check is its base with the switch's problem, some note and commit, and the level of the result.\<close>

lemma check_entry_eq:
  "\<exists>n m. check_entry L t io a i e w =
     (let c = base_check L t io i e w; pv = pin_verdict t c (fst (keyless_problem L e t io)) (wk_set w);
          c' = c\<lparr>ck_problem := objection_at L t io i e w, ck_commit := m, ck_note := n\<rparr> in
      c'\<lparr>ck_level := level_of c' (fst (snd pv)) (snd (snd pv))\<rparr>)"
proof -
  let ?c = "base_check L t io i e w" and ?r = "resolved L t e (wk_set w)" and ?kl = "fst (keyless_problem L e t io)"
  let ?pv = "pin_verdict t ?c ?kl (wk_set w)"
  let ?v = "entry_verdict L i e w ?c (fst ?r) (fst (snd ?r)) (snd (snd ?r)) ?kl (fst ?pv)"
  have p0: "ck_problem ?c = None" by (simp add: base_check_def Let_def case_prod_unfold)
  obtain n m where v: "?v = ?c\<lparr>ck_problem := objection_at L t io i e w, ck_note := n, ck_commit := m\<rparr>"
    using entry_verdict_frame [of L i e w ?c "fst ?r" "fst (snd ?r)" "snd (snd ?r)" ?kl "fst ?pv"] p0
    by (auto simp: objection_at_def key_of_def Let_def split: option.splits)
  let ?d = "?c\<lparr>ck_problem := objection_at L t io i e w, ck_note := n, ck_commit := m\<rparr>"
  obtain n' where d: "disclosures e a ?d = ?d\<lparr>ck_note := n'\<rparr>" using disclosures_frame by blast
  have "check_entry L t io a i e w =
      (disclosures e a ?v)\<lparr>ck_level := level_of (disclosures e a ?v) (fst (snd ?pv)) (snd (snd ?pv))\<rparr>"
    by (simp add: check_entry_def Let_def case_prod_unfold)
  then show ?thesis unfolding v d by (intro exI [of _ n'] exI [of _ m]) (simp add: Let_def)
qed

lemma check_entry_simps:
  "ck_problem (check_entry L t io a i e w) = objection_at L t io i e w"
  "ck_hash_ok (check_entry L t io a i e w) = ck_hash_ok (base_check L t io i e w)"
  "ck_link_ok (check_entry L t io a i e w) = ck_link_ok (base_check L t io i e w)"
  "ck_signed (check_entry L t io a i e w) = ck_signed (base_check L t io i e w)"
  "ck_sig_ok (check_entry L t io a i e w) = ck_sig_ok (base_check L t io i e w)"
  "ck_sig_checked (check_entry L t io a i e w) = ck_sig_checked (base_check L t io i e w)"
  "ck_keyless (check_entry L t io a i e w) = ck_keyless (base_check L t io i e w)"
  "ck_cert (check_entry L t io a i e w) = ck_cert (base_check L t io i e w)"
  "ck_hash (check_entry L t io a i e w) = le_hash e" "ck_file (check_entry L t io a i e w) = le_file e"
  using check_entry_eq [of L t io a i e w] by (auto simp: Let_def base_check_def case_prod_unfold)

lemma level_of_cong:
  "ck_problem c = ck_problem d \<Longrightarrow> ck_signed c = ck_signed d \<Longrightarrow> ck_sig_checked c = ck_sig_checked d \<Longrightarrow>
   ck_sig_ok c = ck_sig_ok d \<Longrightarrow> ck_keyless c = ck_keyless d \<Longrightarrow> level_of c p q = level_of d p q"
  by (simp add: level_of_def)

lemma check_entry_level:
  "ck_level (check_entry L t io a i e w) =
     (let c = base_check L t io i e w; pv = pin_verdict t c (fst (keyless_problem L e t io)) (wk_set w) in
      level_of (c\<lparr>ck_problem := objection_at L t io i e w\<rparr>) (fst (snd pv)) (snd (snd pv)))"
  using check_entry_eq [of L t io a i e w] by (auto simp: Let_def intro!: level_of_cong)

lemma base_check_simps:
  "ck_hash_ok (base_check L t io i e w) \<longleftrightarrow> entry_hash L e = Some (le_hash e)"
  "ck_link_ok (base_check L t io i e w) \<longleftrightarrow> le_prev e = wk_prev_hash w"
  "ck_signed (base_check L t io i e w) = signed e"
  "ck_keyless (base_check L t io i e w) \<longleftrightarrow> le_keyid e = keyid_sigstore"
  "le_keyid e = keyid_sigstore \<Longrightarrow> ck_cert (base_check L t io i e w) = snd (snd (snd (keyless_problem L e t io)))"
  "le_keyid e = keyid_sigstore \<Longrightarrow> ck_sig_ok (base_check L t io i e w) \<longleftrightarrow>
     fst (keyless_problem L e t io) = None \<and> fst (snd (keyless_problem L e t io)) \<noteq> ''''"
  "le_keyid e = keyid_sigstore \<Longrightarrow> ck_sig_checked (base_check L t io i e w) = fst (snd (snd (keyless_problem L e t io)))"
  "le_keyid e \<noteq> keyid_sigstore \<Longrightarrow> ck_cert (base_check L t io i e w) = None"
  "le_keyid e \<noteq> keyid_sigstore \<Longrightarrow> ck_sig_checked (base_check L t io i e w) \<longleftrightarrow>
     le_signature e \<noteq> '''' \<and> key_of L t e (wk_set w) \<noteq> None"
  "le_keyid e \<noteq> keyid_sigstore \<Longrightarrow> ck_sig_ok (base_check L t io i e w) \<longleftrightarrow> (\<exists>k. key_of L t e (wk_set w) = Some k \<and>
     le_signature e \<noteq> '''' \<and> ed25519_verify L k (fst (hex_decode (le_hash e))) (fst (hex_decode (le_signature e))))"
  by (auto simp: base_check_def Let_def case_prod_unfold key_of_def split: option.splits)

lemma rule_None [simp]: "rule b p = None \<longleftrightarrow> \<not> b"
  by (simp add: rule_def)

text \<open>What a clean verdict says of its entry.\<close>

lemma cleanD:
  assumes "objection_at L t io i e w = None"
  shows "entry_hash L e = Some (le_hash e)" "uid_ok L e" "le_prev e = wk_prev_hash w"
    "fst (keyless_problem L e t io) = None" "snd (snd (resolved L t e (wk_set w))) = None"
    "fst (pin_verdict t (base_check L t io i e w) (fst (keyless_problem L e t io)) (wk_set w)) = None"
    "entry_shape_problem L e = None"
    "le_kind e = kind_signer \<Longrightarrow> change_problem (wk_set w) e = None"
    "le_kind e = kind_checkpoint \<Longrightarrow> i = 0 \<and> seed_problem (wk_set w) e = None"
    "le_signature e \<noteq> '''' \<Longrightarrow> key_of L t e (wk_set w) \<noteq> None \<Longrightarrow> ck_sig_ok (base_check L t io i e w)"
    "le_kind e = kind_retract \<Longrightarrow> le_retracts e \<in> set (wk_seen w)"
  using assms by (auto simp: objection_at_def objection_def Let_def first_objection_None base_check_simps
      simp del: first_objection.simps split: if_splits)

subsection \<open>The head fixes the chain\<close>

definition intact :: "lib \<Rightarrow> entry list \<Rightarrow> bool" where
  "intact L es \<longleftrightarrow> (\<forall>i<length es. entry_hash L (es ! i) = Some (le_hash (es ! i)) \<and>
     le_prev (es ! i) = (if i = 0 then '''' else le_hash (es ! (i - 1))))"

lemma intact_snoc:
  "intact L (es @ [e]) \<longleftrightarrow> intact L es \<and> entry_hash L e = Some (le_hash e) \<and>
     le_prev e = (if es = [] then '''' else le_hash (last es))"
proof -
  have "le_prev ((es @ [e]) ! i) = (if i = 0 then [] else le_hash ((es @ [e]) ! (i - 1))) \<longleftrightarrow>
      le_prev (es ! i) = (if i = 0 then [] else le_hash (es ! (i - 1)))" if "i < length es" for i
  proof -
    have "i - 1 < length es" using that by simp
    then show ?thesis using that by (simp only: nth_append if_True)
  qed
  then have "(\<forall>i<length es. entry_hash L ((es @ [e]) ! i) = Some (le_hash ((es @ [e]) ! i)) \<and>
      le_prev ((es @ [e]) ! i) = (if i = 0 then [] else le_hash ((es @ [e]) ! (i - 1)))) \<longleftrightarrow> intact L es"
    by (simp add: intact_def nth_append)
  moreover have "(es @ [e]) ! (length es - 1) = last es" if "es \<noteq> []"
    using that by (simp add: nth_append last_conv_nth)
  ultimately show ?thesis
    unfolding intact_def [of L "es @ [e]"] by (simp add: All_less_Suc conj_commute)
qed

lemma intact_walk: "\<forall>i<length es. ck_problem (check_at L t io es i) = None \<Longrightarrow> intact L es"
proof -
  assume c: "\<forall>i<length es. ck_problem (check_at L t io es i) = None"
  have "entry_hash L (es ! i) = Some (le_hash (es ! i)) \<and> le_prev (es ! i) = (if i = 0 then [] else le_hash (es ! (i - 1)))"
    if "i < length es" for i
  proof -
    have "objection_at L t io i (es ! i) (walk_to L t io es i) = None"
      using c that by (simp add: check_at_def check_entry_simps)
    from cleanD(1,3) [OF this] show ?thesis using walk_to_prev [of i es L t io] that by simp
  qed
  then show "intact L es" unfolding intact_def by blast
qed

lemma verify_eq: "verify L es t = map (check_at L t False es) [0..<length es]"
  by (simp add: verify_def verify_with_signers_def ledger_walk_eq)

lemma intact_verify: "\<forall>c\<in>set (verify L es t). ck_problem c = None \<Longrightarrow> intact L es"
  by (rule intact_walk [of es L t False]) (simp add: verify_eq)

lemma entry_hash_Some: "entry_hash L e = Some h \<longleftrightarrow> (\<exists>b. entry_bytes L e = Some b \<and> h = hex_encode (sha256 L b))"
  by (auto simp: entry_hash_def)

lemma same_head_same_bytes:
  assumes "intact L es" "intact L fs" "es \<noteq> []" "fs \<noteq> []" "le_hash (last es) = le_hash (last fs)"
    and prev: "\<forall>e\<in>set es \<union> set fs. \<forall>b. entry_bytes L e = Some b \<longrightarrow> le_prev e = P b"
    and sha: "\<forall>x. sha256 L x \<noteq> []"
    and free: "\<forall>e\<in>set es. \<forall>f\<in>set fs. entry_hash L e = entry_hash L f \<longrightarrow> entry_bytes L e = entry_bytes L f"
  shows "map (entry_bytes L) es = map (entry_bytes L) fs"
  using assms
proof (induction es arbitrary: fs rule: rev_induct)
  case (snoc e es)
  obtain fs' f where fs: "fs = fs' @ [f]" using snoc.prems(4) by (metis rev_exhaust)
  have ie: "intact L es" "entry_hash L e = Some (le_hash e)" "le_prev e = (if es = [] then '''' else le_hash (last es))"
    using snoc.prems(1) by (simp_all add: intact_snoc)
  have jf: "intact L fs'" "entry_hash L f = Some (le_hash f)" "le_prev f = (if fs' = [] then '''' else le_hash (last fs'))"
    using snoc.prems(2) by (simp_all add: fs intact_snoc)
  have "le_hash e = le_hash f" using snoc.prems(5) fs by simp
  then have same: "entry_bytes L e = entry_bytes L f" using snoc.prems(8) ie(2) jf(2) fs by simp
  have p: "le_prev e = le_prev f"
    using snoc.prems(6) same ie(2) jf(2) fs by (auto simp: entry_hash_Some)
  have ne: "le_hash x \<noteq> ''''" if "intact L xs" "x \<in> set xs" for x xs
    using that sha by (auto simp: intact_def in_set_conv_nth entry_hash_Some hex_encode_empty)
  show ?case
  proof (cases "es = []")
    case True
    then have "le_prev f = ''''" using ie(3) p by simp
    then have "fs' = []" using jf(3) ne [OF jf(1)] by (metis last_in_set)
    then show ?thesis using True same fs by simp
  next
    case False
    then have f': "fs' \<noteq> []" using p ie(3) jf(3) ne [OF ie(1)] by (metis last_in_set)
    then have "le_hash (last es) = le_hash (last fs')" using p False ie(3) jf(3) by simp
    then have "map (entry_bytes L) es = map (entry_bytes L) fs'"
      using snoc.IH [OF ie(1) jf(1) False f' _ _ sha] snoc.prems(6,8) fs by simp
    then show ?thesis using same fs by simp
  qed
next
  case Nil
  show ?case using Nil.prems(3) by simp
qed

subsection \<open>What the hashed bytes say of the entry before\<close>

text \<open>
  What the program encodes is a decoded document, or one with members and elements left out, at any depth. \<open>json_maps\<close> is what
  \<^verbatim>\<open>encoding/json\<close> documents of these: an object has a key once, and its encoding is read back as an object with the same text under
  \<^verbatim>\<open>prev\<close>.
\<close>

inductive trimmed :: "jval \<Rightarrow> jval \<Rightarrow> bool" where
  same: "trimmed v v"
| arr: "(\<And>v. v \<in> set vs \<Longrightarrow> trimmed v (g v)) \<Longrightarrow> trimmed (ArrV vs) (ArrV (map g (filter keep vs)))"
| obj: "(\<And>k v. (k, v) \<in> set fs \<Longrightarrow> trimmed v (g v)) \<Longrightarrow>
    trimmed (ObjV fs) (ObjV (map (\<lambda>(k, v). (k, g v)) (filter keep fs)))"

inductive_cases trimmed_strE: "trimmed (StrV s) w"
inductive_cases trimmed_objE: "trimmed (ObjV fs) w"

definition decoded :: "lib \<Rightarrow> jval \<Rightarrow> bool" where
  "decoded L v \<longleftrightarrow> (\<exists>js. decode_number L js = Some v \<or> decode_float L js = Some v)"

definition prev_member :: "(string \<times> jval) list \<Rightarrow> string" where
  "prev_member fs = (case map_of fs ''prev'' of Some (StrV s) \<Rightarrow> s | _ \<Rightarrow> '''')"

definition json_maps :: "lib \<Rightarrow> bool" where
  "json_maps L \<longleftrightarrow> (\<forall>v fs. decoded L v \<longrightarrow> trimmed v (ObjV fs) \<longrightarrow> distinct (map fst fs) \<and>
     (\<exists>gs. decode_number L (marshal_tree L (ObjV fs)) = Some (ObjV gs) \<and> prev_member gs = prev_member fs))"

lemma json_mapsD:
  assumes "json_maps L" "decoded L v" "trimmed v (ObjV fs)"
  shows "distinct (map fst fs)"
    and "\<exists>gs. decode_number L (marshal_tree L (ObjV fs)) = Some (ObjV gs) \<and> prev_member gs = prev_member fs"
  using assms by (auto simp: json_maps_def)

lemma pruned_obj:
  "fst (prune_empty (ObjV fs)) =
     ObjV (map (\<lambda>(k, v). (k, fst (prune_empty v))) (filter (\<lambda>(k, v). \<not> snd (prune_empty v)) fs))"
  by (induction fs) (auto simp: Let_def case_prod_unfold)

lemma pruned_arr:
  "fst (prune_empty (ArrV vs)) = ArrV (map (\<lambda>v. fst (prune_empty v)) (filter (\<lambda>v. \<not> snd (prune_empty v)) vs))"
  by (induction vs) (auto simp: Let_def)

lemma trimmed_prune: "trimmed v (fst (prune_empty v))"
proof (induction v rule: prune_empty.induct)
  case (6 vs)
  then show ?case unfolding pruned_arr by (intro trimmed.arr)
next
  case (7 fs)
  show ?case unfolding pruned_obj by (rule trimmed.obj) (use 7 in auto)
qed (simp_all add: trimmed.same)

lemma prev_member_filter:
  "keep ''prev'' \<Longrightarrow> prev_member (filter (\<lambda>(k, v). keep k) fs) = prev_member fs"
proof -
  assume "keep ''prev''"
  then have "map_of (filter (\<lambda>(k, v). keep k) fs) ''prev'' = map_of fs ''prev''" by (induction fs) auto
  then show ?thesis by (simp add: prev_member_def)
qed

lemma prev_member_prune:
  "distinct (map fst fs) \<Longrightarrow>
     prev_member (map (\<lambda>(k, v). (k, fst (prune_empty v))) (filter (\<lambda>(k, v). \<not> snd (prune_empty v)) fs)) = prev_member fs"
proof (induction fs)
  case (Cons f fs)
  obtain k v where f: "f = (k, v)" by (cases f)
  show ?case
  proof (cases "k = ''prev''")
    case True
    then have "map_of fs ''prev'' = None" using Cons.prems f by (auto simp: map_of_eq_None_iff)
    then have "prev_member fs = ''''" by (simp add: prev_member_def)
    with Cons show ?thesis by (cases v) (simp_all add: f True prev_member_def Let_def)
  next
    case False
    with Cons show ?thesis by (simp add: f prev_member_def)
  qed
qed simp

text \<open>
  The document an entry's hash is taken over, before canonicalisation, and whether the reader took the entry's \<open>prev\<close> from it: the text
  under the key \<^verbatim>\<open>prev\<close>, spelled so. (\<^verbatim>\<open>json.Unmarshal\<close> into a struct also takes a key that differs in case, and the last one when there
  are several; the hash keeps them apart and sorts them.)
\<close>

definition hashed_document :: "lib \<Rightarrow> entry \<Rightarrow> jval option" where
  "hashed_document L e =
     (if le_format e = format2
      then Option.bind (marshal_entry L (e\<lparr>le_hash := '''', le_keyid := '''', le_signature := '''', le_sigstore := '''', le_raw := None\<rparr>))
             (decode_float L)
      else Option.bind
        (case le_raw e of
           Some raw \<Rightarrow> Some raw
         | None \<Rightarrow> marshal_entry L
             (let e1 = e\<lparr>le_hash := '''', le_signature := '''', le_sigstore := ''''\<rparr> in
              if key_id_is_hashed (le_format e) then e1 else e1\<lparr>le_keyid := ''''\<rparr>))
        (decode_number L))"

definition reads_prev :: "lib \<Rightarrow> entry \<Rightarrow> bool" where
  "reads_prev L e \<longleftrightarrow> (\<exists>fs. hashed_document L e = Some (ObjV fs) \<and> prev_member fs = le_prev e)"

definition prev_of_bytes :: "lib \<Rightarrow> string \<Rightarrow> string" where
  "prev_of_bytes L b = (case decode_number L b of Some (ObjV gs) \<Rightarrow> prev_member gs | _ \<Rightarrow> '''')"

lemma full_json_prev:
  assumes "json_maps L" "decoded L v" "trimmed v (ObjV fs)"
    and "canonical_full_json (decode_number L) (marshal_tree L) (marshal_tree L (ObjV fs)) = Some b"
  shows "prev_of_bytes L b = prev_member fs"
proof -
  obtain gs where gs: "decode_number L (marshal_tree L (ObjV fs)) = Some (ObjV gs)" "prev_member gs = prev_member fs"
    using json_mapsD(2) [OF assms(1-3)] by blast
  then have b: "b = marshal_tree L (ObjV gs)" using assms(4) by (simp add: canonical_full_json_def)
  have "decoded L (ObjV gs)" using gs(1) by (auto simp: decoded_def)
  from json_mapsD(2) [OF assms(1) this trimmed.same] show ?thesis using gs(2) by (auto simp: b prev_of_bytes_def)
qed

lemma canonical_prev:
  assumes "json_maps L" "decode_number L raw = Some (ObjV fs)" "canonical_entry_bytes L raw keep = Some b"
  shows "prev_of_bytes L b = prev_member fs"
proof -
  let ?keep = "\<lambda>k. k \<noteq> ''hash'' \<and> k \<noteq> ''signature'' \<and> k \<noteq> ''sigstore'' \<and> (k \<noteq> ''keyid'' \<or> keep)"
  let ?fs = "filter (\<lambda>(k, v). ?keep k) fs"
  have d: "decoded L (ObjV fs)" using assms(2) by (auto simp: decoded_def)
  have "trimmed (ObjV fs) (ObjV (map (\<lambda>(k, v). (k, v)) ?fs))" by (rule trimmed.obj) (rule trimmed.same)
  then have "trimmed (ObjV fs) (ObjV ?fs)" by simp
  then have "prev_of_bytes L b = prev_member ?fs"
    by (rule full_json_prev [OF assms(1) d]) (use assms(2,3) in \<open>simp add: canonical_entry_bytes_def\<close>)
  also have "\<dots> = prev_member fs" by (rule prev_member_filter) simp
  finally show ?thesis .
qed

lemma sparse_prev:
  assumes "json_maps L" "decode_float L js = Some (ObjV fs)"
  shows "prev_of_bytes L (marshal_tree L (fst (prune_empty (ObjV fs)))) = prev_member fs"
proof -
  have d: "decoded L (ObjV fs)" using assms(2) by (auto simp: decoded_def)
  from json_mapsD(2) [OF assms(1) d trimmed_prune [of "ObjV fs", unfolded pruned_obj]] show ?thesis
    unfolding pruned_obj prev_member_prune [OF json_mapsD(1) [OF assms(1) d trimmed.same]] by (auto simp: prev_of_bytes_def)
qed

lemma entry_bytes_prev:
  assumes "json_maps L" "reads_prev L e" "entry_bytes L e = Some b"
  shows "le_prev e = prev_of_bytes L b"
proof -
  obtain fs where d: "hashed_document L e = Some (ObjV fs)" and fs: "prev_member fs = le_prev e"
    using assms(2) by (auto simp: reads_prev_def)
  show ?thesis
  proof (cases "le_format e = format2")
    case True
    then show ?thesis using d assms(3) sparse_prev [OF assms(1)]
      by (auto simp: hashed_document_def entry_bytes_def canonical_sparse_json_def bind_eq_Some_conv fs)
  next
    case False
    then show ?thesis using d assms(3) canonical_prev [OF assms(1)]
      by (auto simp: hashed_document_def entry_bytes_def bind_eq_Some_conv fs split: option.splits)
  qed
qed

text \<open>
  C6. The head hash fixes the whole chain. Let two non-empty chains verify without a problem, each under any trust, and end in
  the same hash. Then they have the same number of entries and, entry by entry, the same hashed bytes; otherwise two entries, one of each,
  exhibit a collision of the hash function, or an entry of one of them is ambiguous: the \<open>prev\<close> its reader took is not the text under
  \<^verbatim>\<open>prev\<close> in the document that is hashed. On the libraries it is assumed that SHA-256 returns no empty digest and that JSON objects are
  written and read as maps (\<open>json_maps\<close>).
\<close>

theorem chain_fixed_by_head:
  assumes "\<forall>c\<in>set (verify L es t). ck_problem c = None" and "\<forall>c\<in>set (verify L fs t'). ck_problem c = None"
    and "es \<noteq> []" and "fs \<noteq> []" and "le_hash (last es) = le_hash (last fs)"
    and "json_maps L" and "\<forall>x. sha256 L x \<noteq> []"
  shows "map (entry_bytes L) es = map (entry_bytes L) fs \<or>
    (\<exists>e\<in>set es. \<exists>f\<in>set fs. entry_bytes L e \<noteq> entry_bytes L f \<and> entry_hash L e = entry_hash L f) \<or>
    (\<exists>e\<in>set es \<union> set fs. \<not> reads_prev L e)"
proof (rule ccontr)
  assume no: "\<not> ?thesis"
  then have "\<forall>e\<in>set es \<union> set fs. \<forall>b. entry_bytes L e = Some b \<longrightarrow> le_prev e = prev_of_bytes L b"
    using entry_bytes_prev [OF assms(6)] by blast
  from same_head_same_bytes [OF intact_verify [OF assms(1)] intact_verify [OF assms(2)] assms(3-5) this assms(7)] no
  show False by blast
qed

text \<open>A toy library: a document is the text of its \<^verbatim>\<open>prev\<close> field, a digest is the text with a mark before it.\<close>

definition toy_lib :: lib where
  "toy_lib = \<lparr>sha256 = (\<lambda>x. CHR ''h'' # x), ed25519_verify = (\<lambda>k m s. s = k @ m), marshal_entry = (\<lambda>e. Some (le_prev e)),
     unmarshal_entry = (\<lambda>_. Inl ''''), marshal_tree = (\<lambda>v. case v of ObjV [(k, StrV s)] \<Rightarrow> s | _ \<Rightarrow> ''''),
     decode_number = (\<lambda>s. Some (ObjV [(''prev'', StrV s)])), decode_float = (\<lambda>s. Some (StrV s)),
     gunzip = (\<lambda>_. Inl ''''), rfc3339nano = (\<lambda>_. ''''), verify_bundle = (\<lambda>_ _ _ _. Inl '''')\<rparr>"

definition toy_entry :: "string \<Rightarrow> string \<Rightarrow> entry" where
  \<comment> \<open>an unsigned scan entry with no scan row, in file \<open>f\<close>, after the entry of hash \<open>p\<close>\<close>
  "toy_entry f p = \<lparr>le_format = file_format, le_kind = '''', le_pushed = 0, le_scan_uid = '''', le_prev = p,
     le_bundle = \<lparr>bu_scan = zero_scan_row, bu_files = [], bu_mutants = [], bu_calls = [], bu_rest = ''''\<rparr>,
     le_retracts = '''', le_reason = '''', le_checkpoint = None, le_review = None, le_adjudication = None, le_signer = None,
     le_hash = hex_encode (CHR ''h'' # p), le_keyid = '''', le_signature = '''', le_sigstore = '''', le_raw = None, le_file = f\<rparr>"

definition toy_chain :: "string \<Rightarrow> entry list" where
  "toy_chain f = [toy_entry f '''', toy_entry f (hex_encode ''h'')]"

definition no_trust :: trust where
  "no_trust = \<lparr>tr_root_pub = None, tr_repo = '''', tr_sigstore_root = None\<rparr>"

lemma toy_bytes: "entry_bytes toy_lib (toy_entry f p) = Some p"
  by (simp add: entry_bytes_def toy_lib_def toy_entry_def canonical_entry_bytes_def canonical_full_json_def key_id_is_hashed_def Let_def)

lemma toy_entry_simps [simp]:
  "le_kind (toy_entry f p) = ''''" "le_keyid (toy_entry f p) = ''''" "le_signature (toy_entry f p) = ''''"
  "le_sigstore (toy_entry f p) = ''''" "le_format (toy_entry f p) = file_format" "le_prev (toy_entry f p) = p"
  "le_hash (toy_entry f p) = hex_encode (CHR ''h'' # p)" "bu_scan (le_bundle (toy_entry f p)) = zero_scan_row"
  by (simp_all add: toy_entry_def)

lemma toy_clean: "wk_prev_hash w = p \<Longrightarrow> objection_at toy_lib no_trust False i (toy_entry f p) w = None"
proof -
  assume p: "wk_prev_hash w = p"
  let ?e = "toy_entry f p"
  have h: "entry_hash toy_lib ?e = Some (le_hash ?e)" by (simp add: entry_hash_def toy_bytes) (simp add: toy_lib_def)
  have kl: "keyless_problem toy_lib ?e no_trust False = (None, '''', False, None)" by (simp add: keyless_problem_def)
  have rs: "resolved toy_lib no_trust ?e (wk_set w) = ('''', None, None)" by (simp add: resolved_def resolve_def)
  have pv: "pin_verdict no_trust (base_check toy_lib no_trust False i ?e w) None (wk_set w) = (None, False, False)"
    by (simp add: pin_verdict_def base_check_simps)
  have "uid_ok toy_lib ?e" "entry_shape_problem toy_lib ?e = None" by (simp_all add: uid_ok_def entry_shape_problem_def)
  then show ?thesis using h p
    by (simp add: objection_at_def objection_def Let_def first_objection_None base_check_simps kl rs pv key_of_def
        del: first_objection.simps)
qed

lemma toy_verifies: "\<forall>c\<in>set (verify toy_lib (toy_chain f) no_trust). ck_problem c = None"
proof -
  have "ck_problem (check_at toy_lib no_trust False (toy_chain f) i) = None" if "i < 2" for i
  proof -
    have "i = 0 \<or> i = 1" using that by auto
    then obtain g p where e: "toy_chain f ! i = toy_entry g p" and p: "wk_prev_hash (walk_to toy_lib no_trust False (toy_chain f) i) = p"
      by (elim disjE) (simp_all add: toy_chain_def walk_to_prev)
    show ?thesis using toy_clean [OF p, of i g] e by (simp add: check_at_def check_entry_simps)
  qed
  then show ?thesis by (simp add: verify_eq toy_chain_def)
qed

lemma toy_decode: "decode_number toy_lib s = Some (ObjV [(''prev'', StrV s)])" "decode_float toy_lib s = Some (StrV s)"
  "marshal_tree toy_lib (ObjV []) = ''''" "marshal_tree toy_lib (ObjV [(k, StrV s)]) = s"
  by (simp_all add: toy_lib_def)

lemma toy_json: "json_maps toy_lib"
  unfolding json_maps_def
proof (intro allI impI)
  fix v fs assume d: "decoded toy_lib v" and t: "trimmed v (ObjV fs)"
  obtain s where "v = ObjV [(''prev'', StrV s)] \<or> v = StrV s" using d by (auto simp: decoded_def toy_decode)
  then have "fs = [] \<or> fs = [(''prev'', StrV s)]"
    using t by (auto elim!: trimmed_objE trimmed_strE split: if_splits)
  then show "distinct (map fst fs) \<and> (\<exists>gs. decode_number toy_lib (marshal_tree toy_lib (ObjV fs)) = Some (ObjV gs) \<and>
      prev_member gs = prev_member fs)"
    by (auto simp: toy_decode prev_member_def)
qed

theorem chain_fixed_by_head_witness:
  "map (entry_bytes toy_lib) (toy_chain ''a'') = map (entry_bytes toy_lib) (toy_chain ''b'')"
proof -
  have reads: "reads_prev toy_lib e" if "e \<in> set (toy_chain ''a'') \<union> set (toy_chain ''b'')" for e
  proof -
    have "\<exists>f p. e = toy_entry f p" using that by (simp add: toy_chain_def) blast
    then show ?thesis
      by (auto simp: reads_prev_def hashed_document_def toy_lib_def toy_entry_def key_id_is_hashed_def prev_member_def)
  qed
  have "le_prev e = b" if "e \<in> set (toy_chain ''a'') \<union> set (toy_chain ''b'')" "entry_bytes toy_lib e = Some b" for e b
  proof -
    have "\<exists>f p. e = toy_entry f p" using that(1) by (simp add: toy_chain_def) blast
    then show ?thesis using that(2) by (auto simp: toy_bytes)
  qed
  with chain_fixed_by_head [OF toy_verifies toy_verifies _ _ _ toy_json] reads show ?thesis
    by (simp add: toy_chain_def toy_bytes)
qed

end
