(* ===== verification/Ledger_Authority.thy ===== *)
theory Ledger_Authority
  imports Ledger_Properties
begin

section \<open>The ledger: who vouches for an entry\<close>

text \<open>
  The signer set of the walk is an invariant of the chain read so far: every key in it was put there by an entry the root signed, and
  the pin in force is that of the latest clean pin entry. From this follow the two statements a reader relies on: what \<^verbatim>\<open>verified\<close> means, and
  what the level of a keyless signature means.
\<close>

definition root_signed :: "lib \<Rightarrow> string \<Rightarrow> entry \<Rightarrow> bool" where
  "root_signed L pub e \<longleftrightarrow> le_signature e \<noteq> '''' \<and> entry_hash L e = Some (le_hash e) \<and>
     ed25519_verify L pub (fst (hex_decode (le_hash e))) (fst (hex_decode (le_signature e)))"

definition registers :: "entry \<Rightarrow> signer_key \<Rightarrow> bool" where
  "registers e k \<longleftrightarrow> le_kind e = kind_signer \<and> (\<exists>c. le_signer e = Some c \<and> sc_action c = signer_register \<and>
     k = \<lparr>sk_keyid = sc_keyid c, sk_pubkey = sc_pubkey c, sk_name = sc_name c\<rparr>)"

definition carries :: "entry \<Rightarrow> signer_key \<Rightarrow> bool" where
  "carries e k \<longleftrightarrow> le_kind e = kind_checkpoint \<and> (\<exists>cp. le_checkpoint e = Some cp \<and> k \<in> set (cp_signers cp))"

definition vouched :: "lib \<Rightarrow> string \<Rightarrow> entry list \<Rightarrow> nat \<Rightarrow> signer_key \<Rightarrow> bool" where
  \<comment> \<open>an entry before \<open>n\<close> that the root signed registers the key, or the genesis checkpoint, signed by the root, carries it\<close>
  "vouched L pub es n k \<longleftrightarrow> (\<exists>j<n. root_signed L pub (es ! j) \<and> (registers (es ! j) k \<or> j = 0 \<and> carries (es ! j) k))"

definition key_wf :: "lib \<Rightarrow> signer_key \<Rightarrow> bool" where
  "key_wf L k \<longleftrightarrow> snd (hex_decode (sk_pubkey k)) \<and> length (fst (hex_decode (sk_pubkey k))) = 32 \<and>
     sk_keyid k = key_fingerprint L (fst (hex_decode (sk_pubkey k)))"

definition keys_inv :: "lib \<Rightarrow> (signer_key \<Rightarrow> bool) \<Rightarrow> signer_set \<Rightarrow> bool" where
  "keys_inv L V s \<longleftrightarrow> distinct (ss_order s) \<and> set (ss_order s) = dom (ss_active s) \<and>
     (\<forall>i k. ss_active s i = Some k \<longrightarrow> sk_keyid k = i \<and> key_wf L k \<and> V k)"

subsection \<open>The set of keys\<close>

lemma keys_inv_mono: "keys_inv L V s \<Longrightarrow> (\<And>k. V k \<Longrightarrow> V' k) \<Longrightarrow> keys_inv L V' s"
  by (auto simp: keys_inv_def)

lemma keys_inv_add:
  assumes "keys_inv L V s" "key_wf L k" "V k" "ss_active s (sk_keyid k) = None"
  shows "keys_inv L V (s\<lparr>ss_active := (ss_active s)(sk_keyid k \<mapsto> k), ss_order := ss_order s @ [sk_keyid k]\<rparr>)"
  using assms by (auto simp: keys_inv_def)

lemma keys_inv_remove:
  assumes "keys_inv L V s"
  shows "keys_inv L V (s\<lparr>ss_active := (ss_active s)(i := None), ss_order := remove1 i (ss_order s)\<rparr>)"
  using assms by (auto simp: keys_inv_def)

lemma keys_inv_pin: "keys_inv L V (s\<lparr>ss_pin := p, ss_pin_file := f, ss_pin_checked := b\<rparr>) = keys_inv L V s"
  by (simp add: keys_inv_def)

lemma keys_inv_seed:
  assumes "keys_inv L V s" "\<forall>k\<in>set ks. key_wf L k \<and> V k" "distinct (map sk_keyid ks)"
    "\<forall>k\<in>set ks. ss_active s (sk_keyid k) = None"
  shows "keys_inv L V (seed_set ks s)"
  using assms unfolding seed_set_def
proof (induction ks arbitrary: s)
  case (Cons k ks)
  let ?s = "s\<lparr>ss_active := (ss_active s)(sk_keyid k \<mapsto> k), ss_order := ss_order s @ [sk_keyid k]\<rparr>"
  have "keys_inv L V ?s" using Cons.prems by (intro keys_inv_add) auto
  moreover have "\<forall>x\<in>set ks. ss_active ?s (sk_keyid x) = None"
  proof
    fix x assume x: "x \<in> set ks"
    then have "sk_keyid x \<in> sk_keyid ` set ks" by simp
    then have "sk_keyid x \<noteq> sk_keyid k" using Cons.prems(3) by auto
    then show "ss_active ?s (sk_keyid x) = None" using Cons.prems(4) x by simp
  qed
  moreover have "\<forall>k\<in>set ks. key_wf L k \<and> V k" "distinct (map sk_keyid ks)" using Cons.prems(2,3) by simp_all
  ultimately show ?case unfolding fold_Cons o_apply using Cons.IH [of ?s] by blast
qed simp

lemma signer_shape_key:
  assumes "signer_shape_problem L (Some c) = None" "sc_action c = signer_register \<or> sc_action c = signer_revoke"
  shows "key_wf L \<lparr>sk_keyid = sc_keyid c, sk_pubkey = sc_pubkey c, sk_name = n\<rparr>"
  using assms by (auto simp: signer_shape_problem_def key_wf_def case_prod_unfold Let_def split: if_splits)

lemma signer_shape_action:
  "signer_shape_problem L (Some c) = None \<Longrightarrow>
     sc_action c = signer_register \<or> sc_action c = signer_revoke \<or> sc_action c = signer_pin \<or> sc_action c = signer_unpin"
  by (auto simp: signer_shape_problem_def split: if_splits)

lemma pin_shape_some:
  assumes "signer_shape_problem L (Some c) = None" "sc_action c = signer_pin"
  shows "\<exists>p. sc_keyless_pin c = Some p"
  using assms by (auto simp: signer_shape_problem_def pin_shape_problem_def split: if_splits option.splits)

lemma checkpoint_signers_wf:
  assumes "checkpoint_signers_loop L seen ks = None"
  shows "(\<forall>k\<in>set ks. key_wf L k) \<and> distinct (map sk_keyid ks) \<and> set (map sk_keyid ks) \<inter> set seen = {}"
  using assms
proof (induction ks arbitrary: seen)
  case (Cons k ks)
  let ?c = "\<lparr>sc_action = signer_register, sc_keyid = sk_keyid k, sc_pubkey = sk_pubkey k, sc_name = sk_name k,
      sc_reason = '''', sc_keyless_pin = None\<rparr>"
  have "signer_shape_problem L (Some ?c) = None" and fresh: "sk_keyid k \<notin> set seen"
    and loop: "checkpoint_signers_loop L (sk_keyid k # seen) ks = None"
    using Cons.prems by (simp_all split: option.splits if_splits)
  then have "key_wf L \<lparr>sk_keyid = sk_keyid k, sk_pubkey = sk_pubkey k, sk_name = sk_name k\<rparr>"
    using signer_shape_key [of L ?c "sk_name k"] by simp
  then have "key_wf L k" by (simp add: key_wf_def)
  then show ?case using Cons.IH [OF loop] fresh by auto
qed simp

lemma next_set_frame [simp]:
  "ss_root_pub (next_set i e c s) = ss_root_pub s" "ss_root_id (next_set i e c s) = ss_root_id s"
proof -
  have "ss_root_pub (seed_set ks s) = ss_root_pub s \<and> ss_root_id (seed_set ks s) = ss_root_id s" for ks s
    unfolding seed_set_def by (induction ks arbitrary: s) simp_all
  then show "ss_root_pub (next_set i e c s) = ss_root_pub s" "ss_root_id (next_set i e c s) = ss_root_id s"
    by (auto simp: next_set_def Let_def apply_change_def split: option.splits)
qed

lemma walk_set_Suc:
  "i < length es \<Longrightarrow> wk_set (walk_to L t io es (Suc i)) =
     next_set i (es ! i) (check_at L t io es i) (wk_set (walk_to L t io es i))"
  by (simp add: walk_to_Suc walk_entry_def Let_def check_at_def)

lemma walk_root_pub: "i \<le> length es \<Longrightarrow> ss_root_pub (wk_set (walk_to L t io es i)) = tr_root_pub t"
  by (induction i) (simp_all add: walk_to_0 walk_start_def new_signer_set_def walk_set_Suc)

text \<open>A clean signer entry, or a clean genesis checkpoint that carries keys, was signed by the root.\<close>

lemma keyless_not_root:
  assumes "fst (keyless_problem L e t io) = None" "le_kind e = kind_signer \<or> le_kind e = kind_checkpoint"
  shows "le_keyid e \<noteq> keyid_sigstore"
  using assms by (auto simp: keyless_problem_def keyless_shape_problem_def Let_def split: if_splits option.splits)

lemma root_signedI:
  assumes clean: "objection_at L t io i e w = None" and kind: "le_kind e = kind_signer \<or> le_kind e = kind_checkpoint"
    and root: "le_signature e \<noteq> ''''" "is_root (wk_set w) e" and pub: "ss_root_pub (wk_set w) = Some pub"
  shows "root_signed L pub e"
proof -
  have nk: "le_keyid e \<noteq> keyid_sigstore" using keyless_not_root [OF cleanD(4) [OF clean] kind] .
  have "resolve (wk_set w) e = (''root'', Some pub, None) \<or> snd (snd (resolve (wk_set w) e)) \<noteq> None"
    using root pub by (simp add: resolve_def)
  then have k: "key_of L t e (wk_set w) = Some pub"
    using cleanD(5) [OF clean] nk by (auto simp: key_of_def resolved_def)
  have "ck_sig_ok (base_check L t io i e w)" by (rule cleanD(10) [OF clean root(1)]) (simp add: k)
  then show ?thesis using base_check_simps(10) [OF nk, of L t io i w] k cleanD(1) [OF clean] root(1)
    by (simp add: root_signed_def)
qed

lemma clean_signer:
  assumes clean: "objection_at L t io i e w = None" and kind: "le_kind e = kind_signer"
  obtains c where "le_signer e = Some c" "signer_shape_problem L (Some c) = None" "le_signature e \<noteq> ''''" "is_root (wk_set w) e"
    "sc_action c = signer_register \<Longrightarrow> ss_active (wk_set w) (sc_keyid c) = None"
proof -
  have "signer_shape_problem L (le_signer e) = None"
    using cleanD(7) [OF clean] kind by (simp add: entry_shape_problem_def)
  moreover from this obtain c where c: "le_signer e = Some c" by (cases "le_signer e") (simp_all add: signer_shape_problem_def)
  moreover have "change_problem (wk_set w) e = None" using cleanD(8) [OF clean kind] .
  ultimately show ?thesis using that [of c] by (auto simp: change_problem_def Let_def split: if_splits)
qed

lemma clean_checkpoint:
  assumes clean: "objection_at L t io i e w = None" and kind: "le_kind e = kind_checkpoint"
  obtains cp where "le_checkpoint e = Some cp" "i = 0" "\<forall>k\<in>set (cp_signers cp). key_wf L k" "distinct (map sk_keyid (cp_signers cp))"
    "cp_signers cp \<noteq> [] \<Longrightarrow> le_signature e \<noteq> '''' \<and> is_root (wk_set w) e"
proof -
  have shape: "entry_shape_problem L e = None" using cleanD(7) [OF clean] .
  then obtain cp where cp: "le_checkpoint e = Some cp" using kind by (cases "le_checkpoint e") (simp_all add: entry_shape_problem_def)
  then have "checkpoint_signers_loop L [] (cp_signers cp) = None"
    using shape kind by (simp add: entry_shape_problem_def checkpoint_signers_problem_def split: if_splits)
  from checkpoint_signers_wf [OF this] have "\<forall>k\<in>set (cp_signers cp). key_wf L k" "distinct (map sk_keyid (cp_signers cp))" by auto
  moreover have "i = 0" "seed_problem (wk_set w) e = None" using cleanD(9) [OF clean kind] by auto
  ultimately show ?thesis using that [of cp] cp by (auto simp: seed_problem_def Let_def split: if_splits)
qed

lemma keys_inv_walk:
  assumes "i \<le> length es"
  shows "keys_inv L (\<lambda>k. \<forall>pub. tr_root_pub t = Some pub \<longrightarrow> vouched L pub es i k) (wk_set (walk_to L t io es i))"
  using assms
proof (induction i)
  case 0
  show ?case by (simp add: walk_to_0 walk_start_def new_signer_set_def keys_inv_def)
next
  case (Suc i)
  let ?e = "es ! i" and ?w = "walk_to L t io es i" and ?s = "wk_set (walk_to L t io es i)"
  let ?V = "\<lambda>k. \<forall>pub. tr_root_pub t = Some pub \<longrightarrow> vouched L pub es (Suc i) k"
  have i: "i < length es" using Suc.prems by simp
  have old: "keys_inv L ?V ?s"
    by (rule keys_inv_mono [OF Suc.IH]) (use i in \<open>auto simp: vouched_def less_Suc_eq\<close>)
  have prob: "ck_problem (check_at L t io es i) = objection_at L t io i ?e ?w" by (simp add: check_at_def check_entry_simps)
  have pub: "ss_root_pub ?s = tr_root_pub t" using i by (simp add: walk_root_pub)
  show ?case
  proof (cases "objection_at L t io i ?e ?w = None \<and> (le_kind ?e = kind_signer \<or> le_kind ?e = kind_checkpoint)")
    case False
    then show ?thesis using old i by (auto simp: walk_set_Suc next_set_def prob)
  next
    case True
    then have clean: "objection_at L t io i ?e ?w = None" by blast
    from True consider (signer) "le_kind ?e = kind_signer" | (checkpoint) "le_kind ?e = kind_checkpoint" by blast
    then show ?thesis
    proof cases
      case signer
      obtain c where c: "le_signer ?e = Some c" "signer_shape_problem L (Some c) = None" "le_signature ?e \<noteq> ''''" "is_root ?s ?e"
        "sc_action c = signer_register \<Longrightarrow> ss_active ?s (sc_keyid c) = None"
        using clean_signer [OF clean signer] by blast
      have step: "wk_set (walk_to L t io es (Suc i)) = apply_change c (le_file ?e) ?s"
        using signer clean c(1) i by (simp add: walk_set_Suc next_set_def prob)
      have rs: "root_signed L pub ?e" if "tr_root_pub t = Some pub" for pub
        using root_signedI [OF clean _ c(3,4)] signer pub that by simp
      show ?thesis
      proof (cases "sc_action c = signer_register")
        case True
        let ?k = "\<lparr>sk_keyid = sc_keyid c, sk_pubkey = sc_pubkey c, sk_name = sc_name c\<rparr>"
        have "?V ?k" using rs c(1) signer True by (auto simp: vouched_def registers_def)
        then have "keys_inv L ?V (?s\<lparr>ss_active := (ss_active ?s)(sk_keyid ?k \<mapsto> ?k), ss_order := ss_order ?s @ [sk_keyid ?k]\<rparr>)"
          using signer_shape_key [OF c(2), of "sc_name c"] True c(5) by (intro keys_inv_add [OF old]) simp_all
        then show ?thesis using True by (simp add: step apply_change_def)
      next
        case False
        then show ?thesis using old keys_inv_remove [OF old] by (auto simp: step apply_change_def keys_inv_pin)
      qed
    next
      case checkpoint
      obtain cp where cp: "le_checkpoint ?e = Some cp" "i = 0" "\<forall>k\<in>set (cp_signers cp). key_wf L k" "distinct (map sk_keyid (cp_signers cp))"
        "cp_signers cp \<noteq> [] \<Longrightarrow> le_signature ?e \<noteq> '''' \<and> is_root ?s ?e"
        using clean_checkpoint [OF clean checkpoint] by blast
      have step: "wk_set (walk_to L t io es (Suc i)) = seed_set (cp_signers cp) ?s"
        using checkpoint clean cp(1,2) i prob by (simp add: walk_set_Suc next_set_def)
      have V: "?V k" if k: "k \<in> set (cp_signers cp)" for k
      proof (intro allI impI)
        fix pub assume p: "tr_root_pub t = Some pub"
        have "cp_signers cp \<noteq> []" using k by auto
        then have "le_signature ?e \<noteq> ''''" "is_root ?s ?e" using cp(5) by blast+
        then have "root_signed L pub ?e" using root_signedI [OF clean] checkpoint pub p by simp
        then show "vouched L pub es (Suc i) k" using cp(1,2) checkpoint k by (auto simp: vouched_def carries_def)
      qed
      have "ss_active ?s = Map.empty" using cp(2) by (simp add: walk_to_0 walk_start_def new_signer_set_def)
      then show ?thesis using keys_inv_seed [OF old] cp(3,4) V unfolding step by simp
    qed
  qed
qed

lemma walk_active:
  assumes "i \<le> length es" and "ss_active (wk_set (walk_to L t io es i)) x = Some k"
  shows "sk_keyid k = x" "key_wf L k" "tr_root_pub t = Some pub \<Longrightarrow> vouched L pub es i k"
  using keys_inv_walk [OF assms(1), of L t io] assms(2) by (auto simp: keys_inv_def)

text \<open>
  C7. No key enters the signer set but by the root's hand. Read a chain under a root key. Every key the walk holds at the head is a
  32-byte key named by its own fingerprint (so the signature check cannot be handed a key of a wrong length), no two of them share a
  name, and for each there is an entry of the chain whose hash matches its bytes and carries a signature that verifies under the
  root key, which registers exactly this key or is the genesis checkpoint that carries it. An entry that does not check clean never
  moves the set.
\<close>

theorem signer_set_vouched:
  assumes "tr_root_pub t = Some pub" and "verify_with_signers L es t = (cs, s)"
  shows "(\<forall>k\<in>set (signer_list s). key_wf L k \<and> vouched L pub es (length es) k) \<and> distinct (map sk_keyid (signer_list s)) \<and>
    (\<forall>x k. ss_active s x = Some k \<longrightarrow> sk_keyid k = x \<and> k \<in> set (signer_list s))"
proof -
  have s: "s = wk_set (walk_to L t False es (length es))"
    using assms(2) by (simp add: verify_with_signers_def ledger_walk_eq)
  have inv: "distinct (ss_order s)" "set (ss_order s) = dom (ss_active s)"
    "\<And>x k. ss_active s x = Some k \<Longrightarrow> sk_keyid k = x \<and> key_wf L k \<and> vouched L pub es (length es) k"
    using keys_inv_walk [of "length es" es L t False] assms(1) by (auto simp: s keys_inv_def)
  have list: "signer_list s = map (\<lambda>x. the (ss_active s x)) (ss_order s)"
    unfolding signer_list_def using inv(2) by (intro map_cong) (auto split: option.splits)
  have "map sk_keyid (signer_list s) = map (\<lambda>x. x) (ss_order s)"
    unfolding list map_map using inv(2,3) by (intro map_cong) fastforce+
  moreover have "key_wf L k \<and> vouched L pub es (length es) k" if k: "k \<in> set (signer_list s)" for k
  proof -
    obtain x where "x \<in> set (ss_order s)" "k = the (ss_active s x)" using k by (auto simp: list)
    then have "ss_active s x = Some k" using inv(2) by auto
    then show ?thesis using inv(3) by blast
  qed
  moreover have "k \<in> set (signer_list s)" if "ss_active s x = Some k" for x k
    using that inv(2) by (force simp: list)
  ultimately show ?thesis using inv(1,3) by auto
qed

subsection \<open>What \<^verbatim>\<open>verified\<close> means\<close>

definition keyless_genuine :: "lib \<Rightarrow> trust \<Rightarrow> entry \<Rightarrow> cert_identity \<Rightarrow> bool" where
  \<comment> \<open>the entry's bundle verifies, over its hash, for the repository and under the Sigstore root the reader named\<close>
  "keyless_genuine L t e i \<longleftrightarrow> tr_repo t \<noteq> '''' \<and> (\<exists>art r. keyless_artifact e = Some art \<and> tr_sigstore_root t = Some r \<and>
     verify_bundle L (le_sigstore e) art (tr_repo t) r = Inr i)"

lemma keyless_verified:
  assumes "le_keyid e = keyid_sigstore" "fst (keyless_problem L e t io) = None" "fst (snd (keyless_problem L e t io)) \<noteq> ''''"
  shows "\<exists>i. snd (snd (snd (keyless_problem L e t io))) = Some i \<and> keyless_genuine L t e i"
  using assms by (auto simp: keyless_problem_def keyless_genuine_def verify_keyless_identity_def Let_def
      split: if_splits option.splits sum.splits)

lemma ck_at:
  "ck_problem (check_at L t io es i) = objection_at L t io i (es ! i) (walk_to L t io es i)"
  "ck_signed (check_at L t io es i) = signed (es ! i)"
  "ck_sig_ok (check_at L t io es i) = ck_sig_ok (base_check L t io i (es ! i) (walk_to L t io es i))"
  "ck_sig_checked (check_at L t io es i) = ck_sig_checked (base_check L t io i (es ! i) (walk_to L t io es i))"
  by (simp_all add: check_at_def check_entry_simps base_check_simps)

text \<open>
  C2. What \<^verbatim>\<open>verified\<close> means. An entry whose status is verified matches its hash and its predecessor, and its signature was really
  checked: either it is keyless, and its Sigstore bundle verifies over its hash for the repository and root the reader named; or the reader
  named a root key, and the entry's Ed25519 signature verifies over its hash under that root key or under a key that an earlier
  entry signed by the root vouches for, whose fingerprint is the entry's key id.
\<close>

theorem verified_entry_authentic:
  assumes "i < length es" and "st_state (status_of_check (verify L es t ! i)) = Verified"
  shows "entry_hash L (es ! i) = Some (le_hash (es ! i)) \<and>
    le_prev (es ! i) = (if i = 0 then '''' else le_hash (es ! (i - 1))) \<and>
    (if le_keyid (es ! i) = keyid_sigstore then \<exists>cert. keyless_genuine L t (es ! i) cert
     else \<exists>pub key. tr_root_pub t = Some pub \<and> le_signature (es ! i) \<noteq> '''' \<and>
       ed25519_verify L key (fst (hex_decode (le_hash (es ! i)))) (fst (hex_decode (le_signature (es ! i)))) \<and>
       (key = pub \<or> (\<exists>k. vouched L pub es i k \<and> key_wf L k \<and> sk_keyid k = le_keyid (es ! i) \<and>
          key = fst (hex_decode (sk_pubkey k)))))"
proof -
  let ?e = "es ! i" and ?w = "walk_to L t False es i"
  have c: "objection_at L t False i ?e ?w = None" "ck_sig_ok (base_check L t False i ?e ?w)"
    using assms by (auto simp: verify_eq status_of_check_def ck_at split: option.splits if_splits)
  have link: "le_prev ?e = (if i = 0 then '''' else le_hash (es ! (i - 1)))"
    using cleanD(3) [OF c(1)] walk_to_prev [of i es L t False] assms(1) by simp
  show ?thesis
  proof (cases "le_keyid ?e = keyid_sigstore")
    case True
    then have "\<exists>cert. keyless_genuine L t ?e cert"
      using c(2) keyless_verified [OF True, of L t False] by (auto simp: base_check_simps)
    then show ?thesis using cleanD(1) [OF c(1)] link True by simp
  next
    case False
    obtain key where key: "key_of L t ?e (wk_set ?w) = Some key" "le_signature ?e \<noteq> ''''"
      "ed25519_verify L key (fst (hex_decode (le_hash ?e))) (fst (hex_decode (le_signature ?e)))"
      using c(2) base_check_simps(10) [OF False] by blast
    have pub: "ss_root_pub (wk_set ?w) = tr_root_pub t" using assms(1) by (simp add: walk_root_pub)
    have "tr_root_pub t \<noteq> None \<and> (tr_root_pub t = Some key \<or>
        (\<exists>k. ss_active (wk_set ?w) (le_keyid ?e) = Some k \<and> key = fst (hex_decode (sk_pubkey k))))"
      using key(1) False pub by (auto simp: key_of_def resolved_def resolve_def split: if_splits option.splits)
    then obtain pub' where p: "tr_root_pub t = Some pub'" and "key = pub' \<or>
        (\<exists>k. ss_active (wk_set ?w) (le_keyid ?e) = Some k \<and> key = fst (hex_decode (sk_pubkey k)))" by auto
    moreover have "vouched L pub' es i k \<and> key_wf L k \<and> sk_keyid k = le_keyid ?e"
      if "ss_active (wk_set ?w) (le_keyid ?e) = Some k" for k
      using walk_active [OF _ that] assms(1) p by simp
    ultimately have "key = pub' \<or> (\<exists>k. vouched L pub' es i k \<and> key_wf L k \<and> sk_keyid k = le_keyid ?e \<and>
        key = fst (hex_decode (sk_pubkey k)))" by blast
    with p key show ?thesis using cleanD(1) [OF c(1)] link False by auto
  qed
qed

subsection \<open>A signed chain\<close>

definition toy_root :: string where
  "toy_root = ''r''"

definition toy_machine :: string where
  "toy_machine = replicate 32 CHR ''k''"

definition toy_sign :: "string \<Rightarrow> entry \<Rightarrow> entry" where
  \<comment> \<open>sign with a key of the toy library, whose signatures are the key and the hash\<close>
  "toy_sign key e = e\<lparr>le_keyid := key_fingerprint toy_lib key, le_signature := hex_encode (key @ fst (hex_decode (le_hash e)))\<rparr>"

definition signed_chain :: "entry list" where
  \<comment> \<open>the root registers a machine's key, then the machine signs a scan\<close>
  "signed_chain =
     [toy_sign toy_root ((toy_entry ''a'' '''')\<lparr>le_kind := kind_signer, le_signer := Some \<lparr>sc_action = signer_register,
        sc_keyid = key_fingerprint toy_lib toy_machine, sc_pubkey = hex_encode toy_machine, sc_name = ''ci'', sc_reason = '''',
        sc_keyless_pin = None\<rparr>\<rparr>),
      toy_sign toy_machine (toy_entry ''b'' (hex_encode ''h''))]"

definition toy_trust :: trust where
  "toy_trust = \<lparr>tr_root_pub = Some toy_root, tr_repo = '''', tr_sigstore_root = None\<rparr>"

lemma signed_chain_verified: "map (\<lambda>c. st_state (status_of_check c)) (verify toy_lib signed_chain toy_trust) = [Verified, Verified]"
  by code_simp

lemma signed_chain_signers: "map sk_name (signer_list (snd (verify_with_signers toy_lib signed_chain toy_trust))) = [''ci'']"
  by code_simp

theorem signer_set_vouched_witness:
  "\<exists>k. k \<in> set (signer_list (snd (verify_with_signers toy_lib signed_chain toy_trust))) \<and> sk_name k = ''ci'' \<and>
     vouched toy_lib toy_root signed_chain 2 k \<and> key_wf toy_lib k"
proof -
  obtain cs s where s: "verify_with_signers toy_lib signed_chain toy_trust = (cs, s)" by (metis prod.exhaust)
  have "map sk_name (signer_list s) = [''ci'']" using signed_chain_signers s by simp
  then obtain k where k: "k \<in> set (signer_list s)" "sk_name k = ''ci''" by (cases "signer_list s") auto
  have "tr_root_pub toy_trust = Some toy_root" "length signed_chain = 2" by (simp_all add: toy_trust_def signed_chain_def)
  from signer_set_vouched [OF this(1) s] this(2) k s show ?thesis by auto
qed

theorem verified_entry_authentic_witness:
  "\<exists>k. vouched toy_lib toy_root signed_chain 1 k \<and> sk_keyid k = key_fingerprint toy_lib toy_machine"
proof -
  have "length (verify toy_lib signed_chain toy_trust) = 2" by (simp add: verify_eq signed_chain_def)
  then have "st_state (status_of_check (verify toy_lib signed_chain toy_trust ! 1)) =
      map (\<lambda>c. st_state (status_of_check c)) (verify toy_lib signed_chain toy_trust) ! 1" by simp
  then have "st_state (status_of_check (verify toy_lib signed_chain toy_trust ! 1)) = Verified"
    unfolding signed_chain_verified by simp
  moreover have "1 < length signed_chain" by (simp add: signed_chain_def)
  ultimately have v: "if le_keyid (signed_chain ! 1) = keyid_sigstore then \<exists>cert. keyless_genuine toy_lib toy_trust (signed_chain ! 1) cert
     else \<exists>pub key. tr_root_pub toy_trust = Some pub \<and> le_signature (signed_chain ! 1) \<noteq> '''' \<and>
       ed25519_verify toy_lib key (fst (hex_decode (le_hash (signed_chain ! 1)))) (fst (hex_decode (le_signature (signed_chain ! 1)))) \<and>
       (key = pub \<or> (\<exists>k. vouched toy_lib pub signed_chain 1 k \<and> key_wf toy_lib k \<and> sk_keyid k = le_keyid (signed_chain ! 1) \<and>
          key = fst (hex_decode (sk_pubkey k))))"
    using verified_entry_authentic [of 1 signed_chain toy_lib toy_trust] by blast
  have e: "le_keyid (signed_chain ! 1) = key_fingerprint toy_lib toy_machine"
    "fst (hex_decode (le_hash (signed_chain ! 1))) = CHR ''h'' # hex_encode ''h''"
    "fst (hex_decode (le_signature (signed_chain ! 1))) = toy_machine @ CHR ''h'' # hex_encode ''h''"
    by (simp_all add: signed_chain_def toy_sign_def)
  have "le_keyid (signed_chain ! 1) \<noteq> keyid_sigstore" unfolding e by (simp add: key_fingerprint_def)
  with v obtain pub key where "tr_root_pub toy_trust = Some pub" "key @ CHR ''h'' # hex_encode ''h'' = toy_machine @ CHR ''h'' # hex_encode ''h''"
    "key = pub \<or> (\<exists>k. vouched toy_lib pub signed_chain 1 k \<and> sk_keyid k = le_keyid (signed_chain ! 1))"
    unfolding e by (auto simp: toy_lib_def)
  moreover have "toy_root \<noteq> toy_machine" by (simp add: toy_root_def toy_machine_def numeral_eq_Suc)
  ultimately show ?thesis by (auto simp: e toy_trust_def simp del: One_nat_def)
qed

subsection \<open>What the level of a keyless signature means\<close>

definition pin_move :: "lib \<Rightarrow> trust \<Rightarrow> bool \<Rightarrow> entry list \<Rightarrow> nat \<Rightarrow> signer_change \<Rightarrow> bool" where
  \<comment> \<open>entry \<open>m\<close> checks clean and pins or unpins\<close>
  "pin_move L t io es m c \<longleftrightarrow> ck_problem (check_at L t io es m) = None \<and> le_kind (es ! m) = kind_signer \<and>
     le_signer (es ! m) = Some c \<and> (sc_action c = signer_pin \<or> sc_action c = signer_unpin)"

definition pin_in_force :: "lib \<Rightarrow> trust \<Rightarrow> bool \<Rightarrow> entry list \<Rightarrow> nat \<Rightarrow> keyless_pin \<Rightarrow> bool" where
  \<comment> \<open>the latest entry before \<open>n\<close> that moves the pin sets it to \<open>p\<close>\<close>
  "pin_in_force L t io es n p \<longleftrightarrow> (\<exists>j<n. \<exists>c. pin_move L t io es j c \<and> sc_action c = signer_pin \<and> sc_keyless_pin c = Some p \<and>
     (\<forall>pub. tr_root_pub t = Some pub \<longrightarrow> root_signed L pub (es ! j)) \<and> (\<forall>m d. j < m \<and> m < n \<longrightarrow> \<not> pin_move L t io es m d))"

lemma pin_in_force_Suc_same:
  assumes "\<nexists>c. pin_move L t io es n c"
  shows "pin_in_force L t io es (Suc n) p = pin_in_force L t io es n p"
proof -
  have "(\<forall>m d. j < m \<and> m < Suc n \<longrightarrow> \<not> pin_move L t io es m d) \<longleftrightarrow> (\<forall>m d. j < m \<and> m < n \<longrightarrow> \<not> pin_move L t io es m d)" for j
    using assms by (auto simp: less_Suc_eq)
  then show ?thesis using assms by (simp add: pin_in_force_def Ex_less_Suc)
qed

lemma pin_in_force_Suc_move:
  assumes "pin_move L t io es n c" "\<forall>pub. tr_root_pub t = Some pub \<longrightarrow> root_signed L pub (es ! n)"
  shows "pin_in_force L t io es (Suc n) p \<longleftrightarrow> sc_action c = signer_pin \<and> sc_keyless_pin c = Some p"
proof -
  have "d = c" if "pin_move L t io es n d" for d using that assms(1) by (simp add: pin_move_def)
  then have here: "pin_move L t io es n d \<longleftrightarrow> d = c" for d using assms(1) by blast
  have "\<not> (\<forall>m d. j < m \<and> m < Suc n \<longrightarrow> \<not> pin_move L t io es m d)" if "j < n" for j using that assms(1) by blast
  moreover have "\<forall>m d. n < m \<and> m < Suc n \<longrightarrow> \<not> pin_move L t io es m d" by auto
  ultimately show ?thesis using assms(2) by (auto simp: pin_in_force_def Ex_less_Suc here)
qed

lemma apply_change_pin:
  "ss_pin (apply_change c f s) = (if sc_action c = signer_pin then sc_keyless_pin c
     else if sc_action c = signer_unpin then None else ss_pin s)"
  "ss_pin_checked (apply_change c f s) = (if sc_action c = signer_pin then ss_root_pub s \<noteq> None
     else if sc_action c = signer_unpin then False else ss_pin_checked s)"
  by (auto simp: apply_change_def)

lemma seed_set_pin: "ss_pin (seed_set ks s) = ss_pin s" "ss_pin_checked (seed_set ks s) = ss_pin_checked s"
proof -
  have "ss_pin (seed_set ks s) = ss_pin s \<and> ss_pin_checked (seed_set ks s) = ss_pin_checked s"
    unfolding seed_set_def by (induction ks arbitrary: s) simp_all
  then show "ss_pin (seed_set ks s) = ss_pin s" "ss_pin_checked (seed_set ks s) = ss_pin_checked s" by auto
qed

lemma walk_pin:
  assumes "n \<le> length es"
  shows "(\<forall>p. ss_pin (wk_set (walk_to L t io es n)) = Some p \<longleftrightarrow> pin_in_force L t io es n p) \<and>
    (ss_pin (wk_set (walk_to L t io es n)) \<noteq> None \<longrightarrow>
       (ss_pin_checked (wk_set (walk_to L t io es n)) \<longleftrightarrow> tr_root_pub t \<noteq> None))"
  using assms
proof (induction n)
  case 0
  show ?case by (simp add: walk_to_0 walk_start_def new_signer_set_def pin_in_force_def)
next
  case (Suc n)
  let ?e = "es ! n" and ?s = "wk_set (walk_to L t io es n)" and ?c = "check_at L t io es n"
  have n: "n < length es" using Suc.prems by simp
  note step = walk_set_Suc [OF n, of L t io]
  have pub: "ss_root_pub ?s = tr_root_pub t" using n by (simp add: walk_root_pub)
  show ?case
  proof (cases "\<exists>c. pin_move L t io es n c")
    case True
    then obtain c where c: "pin_move L t io es n c" by blast
    then have clean: "objection_at L t io n ?e (walk_to L t io es n) = None" and kind: "le_kind ?e = kind_signer"
      and sc: "le_signer ?e = Some c" and act: "sc_action c = signer_pin \<or> sc_action c = signer_unpin"
      by (auto simp: pin_move_def ck_at)
    obtain c' where "le_signer ?e = Some c'" "signer_shape_problem L (Some c') = None" "le_signature ?e \<noteq> ''''" "is_root ?s ?e"
      using clean_signer [OF clean kind] by blast
    then have rs: "\<forall>pub. tr_root_pub t = Some pub \<longrightarrow> root_signed L pub ?e"
      using root_signedI [OF clean] kind pub by simp
    have "wk_set (walk_to L t io es (Suc n)) = apply_change c (le_file ?e) ?s"
      using c kind sc by (simp add: step next_set_def pin_move_def)
    then show ?thesis using act pin_in_force_Suc_move [OF c rs] pub by (auto simp: apply_change_pin)
  next
    case False
    have same: "ss_pin (wk_set (walk_to L t io es (Suc n))) = ss_pin ?s \<and>
        ss_pin_checked (wk_set (walk_to L t io es (Suc n))) = ss_pin_checked ?s"
    proof (cases "le_kind ?e = kind_signer \<and> ck_problem ?c = None")
      case True
      then have "sc_action c \<noteq> signer_pin \<and> sc_action c \<noteq> signer_unpin" if "le_signer ?e = Some c" for c
        using False that by (auto simp: pin_move_def)
      then show ?thesis using True by (auto simp: step next_set_def apply_change_pin split: option.splits)
    next
      case False
      then show ?thesis by (auto simp: step next_set_def Let_def seed_set_pin split: option.splits)
    qed
    then show ?thesis using Suc.IH n pin_in_force_Suc_same [OF False] by simp
  qed
qed

text \<open>
  What the level of a keyless signature means. An entry levelled \<^verbatim>\<open>keyless-pinned\<close> was signed by a run whose certificate verified for the
  ledger's repository and has exactly a workflow and ref, and the repository id, of the pin in force at that entry; the pin comes from the
  latest clean entry before it that moves the pin; and the reader named a root key, under which that pin entry's signature
  verifies. The level \<^verbatim>\<open>keyless-pinned-unchecked\<close> says the same with no root key named, and \<^verbatim>\<open>keyless-unpinned\<close> says that the certificate
  verified and no pin is in force. A run outside the pin gets no level at all.
\<close>

theorem keyless_level_sound:
  assumes "i < length es" and "ck_level (verify L es t ! i) = l"
    and "l \<in> {LevelKeylessPinned, LevelKeylessPinnedUnchecked, LevelKeylessUnpinned}"
  shows "\<exists>cert. keyless_genuine L t (es ! i) cert \<and>
    (if l = LevelKeylessUnpinned then \<nexists>p. pin_in_force L t False es i p
     else (tr_root_pub t \<noteq> None \<longleftrightarrow> l = LevelKeylessPinned) \<and>
       (\<exists>p a. pin_in_force L t False es i p \<and> a \<in> set (kp_allow p) \<and> ci_ref cert \<noteq> '''' \<and> ci_ref cert = pw_ref a \<and>
          ci_workflow cert = github_url (tr_repo t) @ ''/'' @ pw_workflow a @ ''@'' @ pw_ref a \<and>
          ci_repo_id cert \<noteq> '''' \<and> ci_repo_id cert = kp_repo_id p))"
proof -
  let ?e = "es ! i" and ?w = "walk_to L t False es i"
  let ?s = "wk_set ?w" and ?c = "base_check L t False i ?e ?w" and ?k = "keyless_problem L ?e t False"
  let ?pv = "pin_verdict t ?c (fst ?k) ?s"
  have lev: "ck_level (check_at L t False es i) = level_of (?c\<lparr>ck_problem := objection_at L t False i ?e ?w\<rparr>) (fst (snd ?pv)) (snd (snd ?pv))"
    by (simp add: check_at_def check_entry_level Let_def)
  have "level_of (?c\<lparr>ck_problem := objection_at L t False i ?e ?w\<rparr>) (fst (snd ?pv)) (snd (snd ?pv)) = l"
    using assms(1,2) by (simp add: verify_eq lev)
  then have clean: "objection_at L t False i ?e ?w = None" and sig: "ck_sig_ok ?c" and kl: "ck_keyless ?c"
    and l: "l = (if fst (snd ?pv) \<and> snd (snd ?pv) then LevelKeylessPinned
      else if fst (snd ?pv) then LevelKeylessPinnedUnchecked else LevelKeylessUnpinned)"
    using assms(3) by (auto simp: level_of_def split: if_splits)
  have kid: "le_keyid ?e = keyid_sigstore" using kl by (simp add: base_check_simps)
  obtain cert where cert: "snd (snd (snd ?k)) = Some cert" "keyless_genuine L t ?e cert"
    using keyless_verified [OF kid cleanD(4) [OF clean]] sig by (auto simp: base_check_simps(6) [OF kid])
  have ckc: "ck_cert ?c = Some cert" using cert(1) by (simp add: base_check_simps(5) [OF kid])
  have pin: "(\<forall>p. ss_pin ?s = Some p \<longleftrightarrow> pin_in_force L t False es i p) \<and>
      (ss_pin ?s \<noteq> None \<longrightarrow> (ss_pin_checked ?s \<longleftrightarrow> tr_root_pub t \<noteq> None))"
    using assms(1) by (intro walk_pin) simp
  show ?thesis
  proof (cases "ss_pin ?s")
    case None
    then have "?pv = (None, False, False)" using ckc by (simp add: pin_verdict_def)
    then show ?thesis using l cert(2) pin None by auto
  next
    case (Some p)
    have pv: "?pv = (let q = pin_problem p (ss_pin_file ?s) cert (tr_repo t) in (q, q = None, ss_pin_checked ?s))"
      using ckc kl cleanD(4) [OF clean] Some by (simp add: pin_verdict_def)
    have ok: "pin_problem p (ss_pin_file ?s) cert (tr_repo t) = None"
      using cleanD(6) [OF clean] by (simp add: pv Let_def)
    then obtain a where "a \<in> set (kp_allow p) \<and> ci_ref cert \<noteq> '''' \<and> ci_ref cert = pw_ref a \<and>
        ci_workflow cert = github_url (tr_repo t) @ ''/'' @ pw_workflow a @ ''@'' @ pw_ref a" and
      "ci_repo_id cert \<noteq> '''' \<and> ci_repo_id cert = kp_repo_id p"
      by (auto simp: pin_problem_def list_ex_iff Let_def split: if_splits)
    moreover have "pin_in_force L t False es i p" using pin Some by blast
    ultimately have "\<exists>p a. pin_in_force L t False es i p \<and> a \<in> set (kp_allow p) \<and> ci_ref cert \<noteq> '''' \<and> ci_ref cert = pw_ref a \<and>
          ci_workflow cert = github_url (tr_repo t) @ ''/'' @ pw_workflow a @ ''@'' @ pw_ref a \<and>
          ci_repo_id cert \<noteq> '''' \<and> ci_repo_id cert = kp_repo_id p" by blast
    moreover have "l = (if tr_root_pub t \<noteq> None then LevelKeylessPinned else LevelKeylessPinnedUnchecked)"
      using l pin Some ok by (simp add: pv Let_def)
    ultimately show ?thesis using cert(2) by (intro exI [of _ cert] conjI) (simp_all only: if_split sig_level.distinct, auto)
  qed
qed

definition toy_cert :: cert_identity where
  "toy_cert = \<lparr>ci_repo = ''https://github.com/o/r'', ci_repo_id = ''7'',
     ci_workflow = ''https://github.com/o/r/.github/workflows/c.yml@refs/heads/main'', ci_build_signer = '''', ci_ref = ''refs/heads/main'',
     ci_commit = '''', ci_trigger = ''push'', ci_runner = ''''\<rparr>"

definition toy_keyless_lib :: lib where
  \<comment> \<open>32-byte digests, and a verifier of bundles that finds \<open>toy_cert\<close> in every one\<close>
  "toy_keyless_lib = toy_lib\<lparr>sha256 := (\<lambda>x. take 32 (x @ replicate 32 CHR ''0'')), verify_bundle := (\<lambda>_ _ _ _. Inr toy_cert)\<rparr>"

definition pinned_chain :: "entry list" where
  \<comment> \<open>the root pins a workflow, then a run of it signs a scan\<close>
  "pinned_chain =
     (let h0 = hex_encode (replicate 32 CHR ''0''); h1 = hex_encode (take 32 h0) in
      [(toy_entry ''a'' '''')\<lparr>le_hash := h0, le_kind := kind_signer, le_keyid := key_fingerprint toy_keyless_lib toy_root,
          le_signature := hex_encode (toy_root @ replicate 32 CHR ''0''),
          le_signer := Some \<lparr>sc_action = signer_pin, sc_keyid = '''', sc_pubkey = '''', sc_name = '''', sc_reason = '''',
            sc_keyless_pin = Some \<lparr>kp_repo_id = ''7'',
              kp_allow = [\<lparr>pw_workflow = ''.github/workflows/c.yml'', pw_ref = ''refs/heads/main''\<rparr>]\<rparr>\<rparr>\<rparr>,
       (toy_entry ''b'' h0)\<lparr>le_hash := h1, le_format := format6, le_keyid := keyid_sigstore, le_sigstore := ''bundle''\<rparr>])"

definition toy_keyless_trust :: trust where
  "toy_keyless_trust = \<lparr>tr_root_pub = Some toy_root, tr_repo = ''o/r'', tr_sigstore_root = Some ''fulcio''\<rparr>"

lemma pinned_chain_level: "map ck_level (verify toy_keyless_lib pinned_chain toy_keyless_trust) = [LevelKey, LevelKeylessPinned]"
  by code_simp

theorem keyless_level_sound_witness:
  "\<exists>cert p. keyless_genuine toy_keyless_lib toy_keyless_trust (pinned_chain ! 1) cert \<and>
     pin_in_force toy_keyless_lib toy_keyless_trust False pinned_chain 1 p \<and> ci_repo_id cert = kp_repo_id p"
proof -
  have "length (verify toy_keyless_lib pinned_chain toy_keyless_trust) = 2" by (simp add: verify_eq pinned_chain_def Let_def)
  then have "ck_level (verify toy_keyless_lib pinned_chain toy_keyless_trust ! 1) =
      map ck_level (verify toy_keyless_lib pinned_chain toy_keyless_trust) ! 1" by simp
  then have "ck_level (verify toy_keyless_lib pinned_chain toy_keyless_trust ! 1) = LevelKeylessPinned"
    unfolding pinned_chain_level by simp
  moreover have "1 < length pinned_chain" by (simp add: pinned_chain_def Let_def)
  ultimately obtain cert where c: "keyless_genuine toy_keyless_lib toy_keyless_trust (pinned_chain ! 1) cert"
    "if LevelKeylessPinned = LevelKeylessUnpinned then \<nexists>p. pin_in_force toy_keyless_lib toy_keyless_trust False pinned_chain 1 p
     else (tr_root_pub toy_keyless_trust \<noteq> None \<longleftrightarrow> LevelKeylessPinned = LevelKeylessPinned) \<and>
       (\<exists>p a. pin_in_force toy_keyless_lib toy_keyless_trust False pinned_chain 1 p \<and> a \<in> set (kp_allow p) \<and> ci_ref cert \<noteq> '''' \<and>
          ci_ref cert = pw_ref a \<and>
          ci_workflow cert = github_url (tr_repo toy_keyless_trust) @ ''/'' @ pw_workflow a @ ''@'' @ pw_ref a \<and>
          ci_repo_id cert \<noteq> '''' \<and> ci_repo_id cert = kp_repo_id p)"
    using keyless_level_sound [of 1 pinned_chain toy_keyless_lib toy_keyless_trust LevelKeylessPinned] by blast
  then show ?thesis by auto
qed

end
