(* ===== verification/Ledger_Rules.thy ===== *)
theory Ledger_Rules
  imports Ledger_Record
begin

section \<open>The ledger: what stands, in which order, and what is served\<close>

text \<open>
  The reverse pass over retractions computes the recursive rule it stands for; following \<^verbatim>\<open>Prev\<close> links recovers a chain from its
  files in any order; and the document derived from a ledger's bytes serves rows of verified entries of one intact chain only.
\<close>

subsection \<open>Retractions\<close>

function in_force :: "entry list \<Rightarrow> nat \<Rightarrow> bool" where
  \<comment> \<open>the rule: a retraction is in force unless a later retraction in force names it\<close>
  "in_force es i \<longleftrightarrow> i < length es \<and> le_kind (es ! i) = kind_retract \<and>
     \<not> (\<exists>j\<in>{i<..<length es}. in_force es j \<and> le_retracts (es ! j) = le_hash (es ! i))"
  by pat_completeness auto
termination by (relation "measure (\<lambda>(es, i). length es - i)") auto

declare in_force.simps [simp del]

lemma retract_pass_append: "retract_pass es tg fs = fs @ retract_pass es tg []"
proof (induction es arbitrary: tg fs)
  case (Cons e es)
  have 1: "retract_pass es t (fs @ [e]) = fs @ e # retract_pass es t []" for t using Cons.IH [of t "fs @ [e]"] by simp
  have 2: "retract_pass es t [e] = e # retract_pass es t []" for t using Cons.IH [of t "[e]"] by simp
  show ?case using 1 2 Cons.IH [of tg fs] by (simp only: retract_pass.simps append_Nil split: if_split) simp
qed simp

lemma in_force_drop:
  "i < length (e # es) \<Longrightarrow> i = Suc k \<Longrightarrow> in_force (e # es) i = in_force es k"
proof (induction "length es - k" arbitrary: i k rule: less_induct)
  case less
  have "(\<exists>j\<in>{i<..<length (e # es)}. in_force (e # es) j \<and> le_retracts ((e # es) ! j) = le_hash ((e # es) ! i)) \<longleftrightarrow>
      (\<exists>j\<in>{k<..<length es}. in_force es j \<and> le_retracts (es ! j) = le_hash (es ! k))" (is "?l \<longleftrightarrow> ?r")
  proof
    assume ?l
    then obtain j where j: "j \<in> {i<..<length (e # es)}" "in_force (e # es) j" "le_retracts ((e # es) ! j) = le_hash ((e # es) ! i)" by blast
    then obtain j' where j': "j = Suc j'" by (cases j) simp_all
    then have "in_force es j'" using less.hyps [of j' j] j less.prems by auto
    then show ?r using j j' less.prems by (intro bexI [of _ j']) auto
  next
    assume ?r
    then obtain j' where j: "j' \<in> {k<..<length es}" "in_force es j'" "le_retracts (es ! j') = le_hash (es ! k)" by blast
    then have "in_force (e # es) (Suc j')" using less.hyps [of j' "Suc j'"] less.prems by auto
    then show ?l using j less.prems by (intro bexI [of _ "Suc j'"]) auto
  qed
  then show ?case using less.prems in_force.simps [of "e # es" i] in_force.simps [of es k] by simp
qed

definition forced :: "entry list \<Rightarrow> entry list" where
  \<comment> \<open>the retractions in force, oldest first\<close>
  "forced es = map (\<lambda>i. es ! i) (filter (in_force es) [0..<length es])"

lemma forced_Cons:
  "forced (e # es) = (if le_kind e = kind_retract \<and> le_hash e \<notin> le_retracts ` set (forced es) then [e] else []) @ forced es"
proof -
  have "[0..<length (e # es)] = 0 # map Suc [0..<length es]" by (simp add: map_Suc_upt upt_conv_Cons del: upt_Suc)
  then have "filter (in_force (e # es)) [0..<length (e # es)] =
      (if in_force (e # es) 0 then [0] else []) @ filter (in_force (e # es)) (map Suc [0..<length es])" by simp
  moreover have "filter (in_force (e # es)) (map Suc [0..<length es]) = map Suc (filter (in_force es) [0..<length es])"
    unfolding filter_map o_def by (rule arg_cong [where f = "map Suc"], rule filter_cong) (use in_force_drop [of _ e es] in auto)
  moreover have "in_force (e # es) 0 \<longleftrightarrow> le_kind e = kind_retract \<and> le_hash e \<notin> le_retracts ` set (forced es)"
  proof -
    have "(\<exists>j\<in>{0<..<length (e # es)}. in_force (e # es) j \<and> le_retracts ((e # es) ! j) = le_hash e) \<longleftrightarrow>
        (\<exists>k<length es. in_force es k \<and> le_retracts (es ! k) = le_hash e)" (is "?l \<longleftrightarrow> ?r")
    proof
      assume ?l
      then obtain j where j: "0 < j" "j < length (e # es)" "in_force (e # es) j" "le_retracts ((e # es) ! j) = le_hash e" by auto
      then obtain k where "j = Suc k" using gr0_conv_Suc by blast
      then show ?r using j in_force_drop [of j e es k] by auto
    next
      assume ?r
      then obtain k where "k < length es" "in_force es k" "le_retracts (es ! k) = le_hash e" by blast
      then show ?l using in_force_drop [of "Suc k" e es k] by (intro bexI [of _ "Suc k"]) auto
    qed
    then show ?thesis using in_force.simps [of "e # es" 0] by (auto simp: forced_def image_iff)
  qed
  ultimately show ?thesis by (simp add: forced_def)
qed

lemma retract_pass_forced:
  "retract_pass (rev es @ xs) [] [] = rev (forced es) @ retract_pass xs (map le_retracts (forced es)) []"
proof (induction es arbitrary: xs)
  case (Cons e es)
  let ?tg = "map le_retracts (forced es)"
  have "retract_pass (rev (e # es) @ xs) [] [] = rev (forced es) @ retract_pass (e # xs) ?tg []"
    using Cons.IH [of "e # xs"] by simp
  also have "retract_pass (e # xs) ?tg [] = (if le_kind e = kind_retract \<and> le_hash e \<notin> le_retracts ` set (forced es)
      then e # retract_pass xs (le_retracts e # ?tg) [] else retract_pass xs ?tg [])"
    using retract_pass_append [of xs "le_retracts e # ?tg" "[e]"] by auto
  finally show ?case by (auto simp: forced_Cons)
qed (simp add: forced_def)

lemma retracted_fold: "fold (\<lambda>e m. m(le_retracts e \<mapsto> e)) (rev fs) m h =
    (case find (\<lambda>e. le_retracts e = h) fs of Some e \<Rightarrow> Some e | None \<Rightarrow> m h)"
  by (induction fs arbitrary: m) auto

text \<open>
  The one reverse pass computes the alternating rule. A retraction is in force unless a later retraction in force names it (so a
  retracted retraction gives its entry back, at any depth), and an entry counts as retracted exactly when a retraction in force names
  it; the retraction reported for it is the earliest one.
\<close>

theorem retracted_exact:
  "retracted es h = map_option (\<lambda>i. es ! i) (find (\<lambda>i. in_force es i \<and> le_retracts (es ! i) = h) [0..<length es])"
proof -
  have "retracted es h = find (\<lambda>e. le_retracts e = h) (forced es)"
    using retract_pass_forced [of es "[]"] retracted_fold [of "forced es" Map.empty h]
    by (simp add: retracted_def split: option.splits)
  also have "find (\<lambda>e. le_retracts e = h) (map (\<lambda>i. es ! i) (filter (in_force es) xs)) =
      map_option (\<lambda>i. es ! i) (find (\<lambda>i. in_force es i \<and> le_retracts (es ! i) = h) xs)" for xs
    by (induction xs) auto
  then have "find (\<lambda>e. le_retracts e = h) (forced es) =
      map_option (\<lambda>i. es ! i) (find (\<lambda>i. in_force es i \<and> le_retracts (es ! i) = h) [0..<length es])"
    by (simp add: forced_def)
  finally show ?thesis .
qed

end
