(* ===== verification/Ledger_Derive.thy ===== *)
theory Ledger_Derive
  imports Ledger_Properties Ledger_Record "HOL-Library.Multiset"
begin

section \<open>The ledger: order from the links, and what is served\<close>

text \<open>
  Following \<^verbatim>\<open>Prev\<close> links back from the head recovers a chain from its files in any order, and splits any directory into a chain and the rest;
  and the document derived from a ledger's bytes serves rows of the verified entries of one intact chain that holds every input, or
  nothing.
\<close>

subsection \<open>The walk back\<close>

lemma by_hash_hash: "by_hash es h = Some p \<Longrightarrow> le_hash (es ! p) = h"
  by (auto simp: by_hash_def find_Some_iff)

lemma walk_back_fresh:
  "i < length es \<Longrightarrow> i \<notin> set seen \<Longrightarrow>
     distinct (walk_back es seen i) \<and> set (walk_back es seen i) \<inter> set seen = {} \<and> set (walk_back es seen i) \<subseteq> {..<length es}"
proof (induction es seen i rule: walk_back.induct)
  case (1 es seen i)
  show ?case
  proof (cases "le_prev (es ! i) = '''' \<or> by_hash es (le_prev (es ! i)) = None")
    case True
    then show ?thesis using "1.prems" by (subst (1 2 3) walk_back.simps) auto
  next
    case False
    then obtain p where p: "le_prev (es ! i) \<noteq> ''''" "by_hash es (le_prev (es ! i)) = Some p" by auto
    show ?thesis
    proof (cases "p \<in> set (i # seen)")
      case True
      then show ?thesis using "1.prems" p by (subst (1 2 3) walk_back.simps) auto
    next
      case new: False
      have "walk_back es seen i = i # walk_back es (i # seen) p" using p new by (subst walk_back.simps) simp
      then show ?thesis using "1.IH" [OF p new by_hash_lt [OF p(2)] new] "1.prems" by auto
    qed
  qed
qed

lemma best_head_walk:
  assumes "best_head es = Some (i, w)"
  shows "distinct w \<and> set w \<subseteq> {..<length es}"
proof -
  let ?f = "\<lambda>i best. if duplicate es i \<or> named_prev es (le_hash (es ! i)) then best
      else (let w = walk_back es [] i in if better_head es i w best then Some (i, w) else best)"
  have "fold ?f is b = Some (i, w) \<Longrightarrow> (\<And>j. j \<in> set is \<Longrightarrow> j < length es) \<Longrightarrow>
      (\<And>i w. b = Some (i, w) \<Longrightarrow> distinct w \<and> set w \<subseteq> {..<length es}) \<Longrightarrow> distinct w \<and> set w \<subseteq> {..<length es}" for "is" b
  proof (induction "is" arbitrary: b)
    case (Cons j "is")
    have "?f j b = Some (i', w') \<Longrightarrow> distinct w' \<and> set w' \<subseteq> {..<length es}" for i' w'
      using Cons.prems(2) [of j] Cons.prems(3) walk_back_fresh [of j es "[]"] by (auto simp: Let_def split: if_splits)
    then show ?case using Cons.IH [of "?f j b"] Cons.prems by simp
  qed simp
  from this [of "[0..<length es]" None] show ?thesis using assms unfolding best_head_def by simp
qed

definition head_walk :: "entry list \<Rightarrow> nat list" where
  "head_walk es = (case best_head es of None \<Rightarrow> [] | Some (_, w) \<Rightarrow> w)"

lemma head_walk: "distinct (head_walk es)" "set (head_walk es) \<subseteq> {..<length es}"
proof -
  have "distinct (head_walk es) \<and> set (head_walk es) \<subseteq> {..<length es}"
  proof (cases "best_head es")
    case (Some iw)
    then show ?thesis using best_head_walk [of es "fst iw" "snd iw"] by (cases iw) (simp add: head_walk_def)
  qed (simp add: head_walk_def)
  then show "distinct (head_walk es)" "set (head_walk es) \<subseteq> {..<length es}" by simp_all
qed

lemma order_by_prev_head_walk:
  "order_by_prev es = (map (\<lambda>i. es ! i) (rev (head_walk es)),
     sort_key le_pushed (map (\<lambda>i. es ! i) (filter (\<lambda>i. i \<notin> set (head_walk es)) [0..<length es])))"
  by (simp add: order_by_prev_def head_walk_def)

lemma order_partition: "mset (fst (order_by_prev es)) + mset (snd (order_by_prev es)) = mset es"
proof -
  let ?w = "head_walk es" and ?n = "[0..<length es]"
  have "mset ?w = mset (filter (\<lambda>i. i \<in> set ?w) ?n)"
    using head_walk [of es] by (intro set_eq_iff_mset_eq_distinct [THEN iffD1]) auto
  then have "mset ?w + mset (filter (\<lambda>i. i \<notin> set ?w) ?n) = mset ?n"
    by (metis mset_filter multiset_partition)
  then have "image_mset (\<lambda>i. es ! i) (mset ?w) + image_mset (\<lambda>i. es ! i) (mset (filter (\<lambda>i. i \<notin> set ?w) ?n)) = image_mset (\<lambda>i. es ! i) (mset ?n)"
    by (metis image_mset_union)
  moreover have "image_mset (\<lambda>i. es ! i) (mset ?n) = mset es" by (metis map_nth mset_map)
  ultimately show ?thesis by (simp only: order_by_prev_head_walk fst_conv snd_conv mset_sort mset_map mset_rev)
qed

subsection \<open>A chain from its files in any order\<close>

definition linked :: "entry list \<Rightarrow> bool" where
  \<comment> \<open>a chain, oldest first, with hashes of its own\<close>
  "linked c \<longleftrightarrow> distinct (map le_hash c) \<and> (\<forall>e\<in>set c. le_hash e \<noteq> '''') \<and>
     (\<forall>i<length c. le_prev (c ! i) = (if i = 0 then '''' else le_hash (c ! (i - 1))))"

lemma by_hash_at: "distinct (map le_hash es) \<Longrightarrow> p < length es \<Longrightarrow> by_hash es (le_hash (es ! p)) = Some p"
  by (auto simp: by_hash_def find_Some_iff distinct_conv_nth intro!: exI [of _ p])

lemma walk_back_chain:
  assumes "linked c" and "distinct (map le_hash es)" and "set c \<subseteq> set es"
  shows "k < length c \<Longrightarrow> p < length es \<Longrightarrow> es ! p = c ! k \<Longrightarrow> (\<And>q. q \<in> set seen \<Longrightarrow> \<exists>k'>k. k' < length c \<and> es ! q = c ! k') \<Longrightarrow>
     map (\<lambda>i. es ! i) (walk_back es seen p) = rev (take (Suc k) c)"
proof (induction k arbitrary: p seen)
  case 0
  then have "le_prev (es ! p) = ''''" using assms(1) by (simp add: linked_def)
  then show ?case using 0 by (subst walk_back.simps) (simp add: take_Suc_conv_app_nth)
next
  case (Suc k)
  have h: "le_prev (es ! p) = le_hash (c ! k)" "le_hash (c ! k) \<noteq> ''''" using assms(1) Suc.prems by (simp_all add: linked_def)
  obtain p' where p': "p' < length es" "es ! p' = c ! k" using assms(3) Suc.prems(1) by (metis Suc_lessD in_set_conv_nth nth_mem subsetD)
  then have b: "by_hash es (le_prev (es ! p)) = Some p'" using by_hash_at [OF assms(2) p'(1)] h by simp
  have inj: "c ! k \<noteq> c ! k'" if "k < k'" "k' < length c" for k'
    using that assms(1) by (auto simp: linked_def distinct_map nth_eq_iff_index_eq)
  have later: "\<exists>k'>k. k' < length c \<and> es ! q = c ! k'" if q: "q \<in> set (p # seen)" for q
  proof (cases "q = p")
    case False
    then obtain k' where "k' > Suc k" "k' < length c" "es ! q = c ! k'" using q Suc.prems(4) [of q] by auto
    then show ?thesis using Suc_lessD by blast
  qed (use Suc.prems(1,3) in blast)
  then have new: "p' \<notin> set (p # seen)" using p'(2) inj by metis
  have "walk_back es seen p = p # walk_back es (p # seen) p'" using b h new by (subst walk_back.simps) simp
  moreover have "map (\<lambda>i. es ! i) (walk_back es (p # seen) p') = rev (take (Suc k) c)"
  proof (rule Suc.IH)
    show "\<exists>k'>k. k' < length c \<and> es ! q = c ! k'" if "q \<in> set (p # seen)" for q using that by (rule later)
  qed (use p' Suc.prems in simp_all)
  ultimately show ?case using Suc.prems(1,3) by (simp add: take_Suc_conv_app_nth)
qed

lemma fold_skip: "(\<And>x s. x \<in> set xs \<Longrightarrow> f x s = s) \<Longrightarrow> fold f xs s = s"
  by (induction xs arbitrary: s) auto

lemma best_head_unique:
  assumes "i < length es" and "\<And>j. j < length es \<Longrightarrow> duplicate es j \<or> named_prev es (le_hash (es ! j)) \<longleftrightarrow> j \<noteq> i"
  shows "best_head es = Some (i, walk_back es [] i)"
proof -
  have "[0..<length es] = [0..<i] @ i # [Suc i..<length es]"
    using assms(1) by (metis le_add_same_cancel1 less_imp_add_positive upt_add_eq_append upt_conv_Cons zero_le)
  moreover define f where "f = (\<lambda>i best. if duplicate es i \<or> named_prev es (le_hash (es ! i)) then best
      else (let w = walk_back es [] i in if better_head es i w best then Some (i, w) else best))"
  moreover have "fold f [0..<i] None = None" and "fold f [Suc i..<length es] s = s" for s
    using assms by (auto simp: f_def intro!: fold_skip)
  moreover have "f i None = Some (i, walk_back es [] i)"
    using assms by (simp add: f_def better_head_def Let_def)
  ultimately show ?thesis by (simp add: best_head_def)
qed

text \<open>
  C39. A ledger's order is in its links. Take a chain whose entries have hashes of their own and name their predecessors, and read its files
  back in any order at all: following the links returns the chain, oldest first, and nothing is left over. The order of the files, their names and
  their push times do not matter.
\<close>

theorem order_by_prev_recovers:
  assumes "linked c" and "mset es = mset c"
  shows "order_by_prev es = (c, [])"
proof (cases "c = []")
  case True
  then show ?thesis using assms by (simp add: order_by_prev_def best_head_def)
next
  case False
  let ?n = "length c"
  have set: "set es = set c" and len: "length es = ?n" using assms(2) by (metis set_mset_mset, metis size_mset)
  have dc: "distinct c" and dh: "distinct (map le_hash c)" using assms(1) by (simp_all add: linked_def distinct_map)
  have de: "distinct (map le_hash es)"
    using dh assms(2) by (metis distinct_map mset_eq_imp_distinct_iff set)
  obtain i where i: "i < length es" "es ! i = c ! (?n - 1)" using False set by (metis diff_less in_set_conv_nth length_greater_0_conv less_numeral_extra(1) nth_mem)
  have "duplicate es j \<or> named_prev es (le_hash (es ! j)) \<longleftrightarrow> j \<noteq> i" if j: "j < length es" for j
  proof -
    obtain k where k: "k < ?n" "es ! j = c ! k" using j set by (metis in_set_conv_nth nth_mem)
    have dup: "\<not> duplicate es j" using by_hash_at [OF de j] by (simp add: duplicate_def)
    show ?thesis
    proof (cases "k = ?n - 1")
      case True
      then have "j = i" using i j k de by (metis distinct_map nth_eq_iff_index_eq)
      moreover have "\<not> named_prev es (le_hash (c ! (?n - 1)))"
      proof
        assume "named_prev es (le_hash (c ! (?n - 1)))"
        then obtain e where e: "e \<in> set c" "le_prev e \<noteq> ''''" "le_prev e = le_hash (c ! (?n - 1))"
          by (auto simp: named_prev_def list_ex_iff set)
        from e(1) obtain m where "m < ?n" "e = c ! m" unfolding in_set_conv_nth by blast
        then have m: "m < ?n" "le_prev (c ! m) \<noteq> ''''" "le_prev (c ! m) = le_hash (c ! (?n - 1))" using e by simp_all
        moreover have "le_prev (c ! m) = (if m = 0 then '''' else le_hash (c ! (m - 1)))" using m(1) assms(1) by (simp add: linked_def)
        ultimately have "m \<noteq> 0" "le_hash (c ! (m - 1)) = le_hash (c ! (?n - 1))" by metis+
        moreover have "m - 1 < ?n" "?n - 1 < ?n" using m False by simp_all
        ultimately have "m - 1 = ?n - 1" using dh by (metis length_map nth_eq_iff_index_eq nth_map)
        then show False using m(1) \<open>m \<noteq> 0\<close> by simp
      qed
      ultimately show ?thesis using dup i by simp
    next
      case less: False
      then have "le_prev (c ! Suc k) = le_hash (c ! k)" "le_hash (c ! k) \<noteq> ''''" "c ! Suc k \<in> set es"
        using k assms(1) set by (simp_all add: linked_def)
      then have "named_prev es (le_hash (es ! j))" unfolding named_prev_def list_ex_iff k(2)
        by (intro bexI [of _ "c ! Suc k"]) simp_all
      moreover have "j \<noteq> i" using i k less dc False by (auto simp: nth_eq_iff_index_eq)
      ultimately show ?thesis by simp
    qed
  qed
  then have "best_head es = Some (i, walk_back es [] i)" by (intro best_head_unique [OF i(1)]) simp
  then have w: "head_walk es = walk_back es [] i" by (simp add: head_walk_def)
  have "map (\<lambda>i. es ! i) (walk_back es [] i) = rev (take (Suc (?n - 1)) c)"
    using False by (intro walk_back_chain [OF assms(1) de _ _ i]) (simp_all add: set)
  then have chain: "fst (order_by_prev es) = c" using False by (simp add: order_by_prev_head_walk w flip: rev_map)
  then have "mset (snd (order_by_prev es)) = {#}" using order_partition [of es] assms(2) by simp
  then show ?thesis using chain by (simp add: prod_eq_iff)
qed

lemma order_toy_linked: "linked [toy_entry ''b'' '''', toy_entry ''a'' (hex_encode ''h'')]"
  by code_simp

theorem order_by_prev_recovers_witness:
  "order_by_prev [toy_entry ''a'' (hex_encode ''h''), toy_entry ''b'' ''''] =
     ([toy_entry ''b'' '''', toy_entry ''a'' (hex_encode ''h'')], [])"
  by (rule order_by_prev_recovers [OF order_toy_linked]) simp

subsection \<open>The document served\<close>

lemma parse_all_length: "length (fst (parse_all L raw)) + length (snd (parse_all L raw)) = length raw"
  by (induction L raw rule: parse_all.induct) (auto split: sum.splits prod.splits)

lemma parse_all_ok: "snd (parse_all L raw) = [] \<Longrightarrow>
    map (\<lambda>(name, bs). parse_entry L name bs) raw = map Inr (fst (parse_all L raw))"
  by (induction L raw rule: parse_all.induct) (auto split: sum.splits prod.splits)

lemma ledger_problem_None:
  "ledger_problem sts off = None \<longleftrightarrow> off = 0 \<and> (\<forall>st\<in>set sts. \<forall>p. st_state st = Failed p \<longrightarrow> p = OffChain)"
  by (induction sts off rule: ledger_problem.induct) (auto split: entry_state.splits)

lemma parse_all_failed: "st \<in> set (snd (parse_all L raw)) \<Longrightarrow> \<exists>p. st_state st = Failed p \<and> p \<noteq> OffChain"
  by (induction L raw rule: parse_all.induct) (auto simp: failed_status_def split: sum.splits prod.splits)

lemma status_not_off: "st_state (status_of_check c) \<noteq> Failed OffChain"
  by (auto simp: status_of_check_def split: option.splits)

lemma status_clean:
  "(\<forall>p. st_state (status_of_check c) \<noteq> Failed p) \<Longrightarrow>
     ck_problem c = None \<and> st_state (status_of_check c) = (if ck_signed c then Verified else UnsignedEntry)"
  by (auto simp: status_of_check_def split: option.splits if_splits)

lemma check_at_signed: "ck_signed (check_at L t io es i) = signed (es ! i)"
  by (simp add: check_at_def check_entry_simps base_check_simps)

lemma filter_zip: "length xs = length ys \<Longrightarrow> (\<And>x y. (x, y) \<in> set (zip xs ys) \<Longrightarrow> P (x, y) \<longleftrightarrow> Q x) \<Longrightarrow> map fst (filter P (zip xs ys)) = filter Q xs"
  by (induction xs ys rule: list_induct2) simp_all

lemma trusted_entries_ok:
  assumes "\<forall>i<length chain. \<forall>p. st_state (status_of_check (check_at L t io chain i)) \<noteq> Failed p"
  shows "trusted_entries chain (map status_of_check (map (check_at L t io chain) [0..<length chain])) =
     filter (\<lambda>e. signed e \<or> le_kind e = kind_retract) chain"
proof -
  have "st_state st = Verified \<or> st_state st = UnsignedEntry \<and> le_kind e = kind_retract \<longleftrightarrow> signed e \<or> le_kind e = kind_retract"
    if zip: "(e, st) \<in> set (zip chain (map status_of_check (map (check_at L t io chain) [0..<length chain])))" for e st
  proof -
    obtain i where "i < length chain" "e = chain ! i" "st = status_of_check (check_at L t io chain i)"
      using zip by (auto simp: set_zip)
    then show ?thesis using status_clean [of "check_at L t io chain i"] assms by (simp add: check_at_signed)
  qed
  then show ?thesis unfolding trusted_entries_def by (intro filter_zip) auto
qed

definition trusted_of :: "entry list \<Rightarrow> entry list" where
  \<comment> \<open>the signed entries of a chain, and its unsigned retractions\<close>
  "trusted_of chain = filter (\<lambda>e. signed e \<or> le_kind e = kind_retract) chain"

lemma scan_entries_eq: "scan_entries es = filter (\<lambda>e. is_scan e \<and> retracted es (le_hash e) = None) es"
  by (auto simp: scan_entries_def live_entries_def Let_def is_scan_def intro!: filter_cong)

text \<open>
  C12. What is served comes from one intact chain, or nothing is served. If the derived document names a problem it carries no row, no
  review and no adjudication. If it names none, every input parsed, the entries form one chain whose hashes and links are intact and
  on which every signed entry is verified under the reader's trust; the scans, files, mutants and calls served are, in chain order, exactly those of the
  signed scan entries that no retraction in force names, and the adjudications those of the live signed entries.
\<close>

theorem derive_serves_one_chain:
  assumes "derive L raw t = Some d"
  shows "(dv_problem d \<noteq> None \<longrightarrow> dv_scans d = [] \<and> dv_files d = [] \<and> dv_mutants d = [] \<and> dv_calls d = [] \<and> dv_reviews d = 0 \<and>
        dv_adjudications d = Map.empty) \<and>
     (dv_problem d = None \<longrightarrow> (\<exists>chain. mset (map (\<lambda>(name, bs). parse_entry L name bs) raw) = mset (map Inr chain) \<and> intact L chain \<and>
        (\<forall>i<length chain. signed (chain ! i) \<longrightarrow> st_state (status_of_check (verify L chain t ! i)) = Verified) \<and>
        (let served = filter (\<lambda>e. signed e \<and> is_scan e \<and> retracted (trusted_of chain) (le_hash e) = None) chain in
         dv_scans d = map (\<lambda>e. bu_scan (le_bundle e)) served \<and> dv_files d = concat (map (\<lambda>e. bu_files (le_bundle e)) served) \<and>
         dv_mutants d = concat (map (\<lambda>e. bu_mutants (le_bundle e)) served) \<and> dv_calls d = concat (map (\<lambda>e. bu_calls (le_bundle e)) served)) \<and>
        dv_adjudications d = adjudications (live_entries (trusted_of chain))))"
proof -
  define parsed where "parsed = fst (parse_all L (sort_key fst raw))"
  define unparsed where "unparsed = snd (parse_all L (sort_key fst raw))"
  define chain where "chain = fst (order_by_prev parsed)"
  define off where "off = snd (order_by_prev parsed)"
  define sts where "sts = map status_of_check (verify L chain t) @
               map (\<lambda>e. failed_status (le_file e) (le_hash e) (le_kind e) (le_keyid e) OffChain) off @ unparsed"
  define trusted where "trusted = trusted_entries chain (take (length chain) sts)"
  have d: "d = (case ledger_problem sts (length off) of
      Some p \<Rightarrow> \<lparr>dv_problem = Some p, dv_root_keyid = dv_root_keyid d, dv_entries = sts, dv_scans = [], dv_files = [], dv_mutants = [],
        dv_calls = [], dv_reviews = 0, dv_adjudications = Map.empty\<rparr>
    | None \<Rightarrow> \<lparr>dv_problem = None, dv_root_keyid = dv_root_keyid d, dv_entries = sts,
        dv_scans = map (\<lambda>e. bu_scan (le_bundle e)) (scan_entries trusted), dv_files = concat (map (\<lambda>e. bu_files (le_bundle e)) (scan_entries trusted)),
        dv_mutants = concat (map (\<lambda>e. bu_mutants (le_bundle e)) (scan_entries trusted)),
        dv_calls = concat (map (\<lambda>e. bu_calls (le_bundle e)) (scan_entries trusted)),
        dv_reviews = length (filter (\<lambda>e. le_kind e = kind_review) (live_entries trusted)),
        dv_adjudications = adjudications (live_entries trusted)\<rparr>)"
    using assms
    by (auto simp: derive_def Let_def parsed_def unparsed_def chain_def off_def sts_def trusted_def o_def
        split: if_splits prod.splits option.splits)
  define rk where "rk = dv_root_keyid d"
  note d = d [folded rk_def]
  show ?thesis
  proof (cases "ledger_problem sts (length off)")
    case (Some p)
    then show ?thesis using d by simp
  next
    case None
    then have off: "off = []" and ok: "\<forall>st\<in>set sts. \<forall>p. st_state st = Failed p \<longrightarrow> p = OffChain" by (simp_all add: ledger_problem_None)
    have "unparsed = []"
    proof (rule ccontr)
      assume "unparsed \<noteq> []"
      then obtain st where "st \<in> set unparsed" by (metis last_in_set)
      then obtain p where "st_state st = Failed p" "p \<noteq> OffChain" using parse_all_failed unfolding unparsed_def by blast
      moreover have "st \<in> set sts" using \<open>st \<in> set unparsed\<close> by (simp add: sts_def)
      ultimately show False using ok by blast
    qed
    then have "map (\<lambda>(name, bs). parse_entry L name bs) (sort_key fst raw) = map Inr parsed"
      unfolding unparsed_def parsed_def by (rule parse_all_ok)
    then have "mset (map (\<lambda>(name, bs). parse_entry L name bs) raw) = mset (map Inr parsed)" by (metis mset_map mset_sort)
    moreover have "mset chain = mset parsed" using order_partition [of parsed] off by (simp add: chain_def off_def)
    ultimately have perm: "mset (map (\<lambda>(name, bs). parse_entry L name bs) raw) = mset (map Inr chain)" by simp
    have good: "st_state (status_of_check (check_at L t False chain i)) \<noteq> Failed p" if "i < length chain" for i p
      using ok status_not_off that unfolding sts_def verify_eq by fastforce
    then have clean: "ck_problem (check_at L t False chain i) = None" "signed (chain ! i) \<longrightarrow>
        st_state (status_of_check (check_at L t False chain i)) = Verified" if "i < length chain" for i
      using status_clean [of "check_at L t False chain i"] that by (auto simp: check_at_signed)
    have "intact L chain" using clean(1) by (intro intact_walk [of chain L t False]) simp
    have "take (length chain) sts = map status_of_check (verify L chain t)" by (simp add: sts_def verify_eq)
    then have tr: "trusted = trusted_of chain"
      using trusted_entries_ok [of chain L t False] good by (simp add: trusted_def verify_eq trusted_of_def)
    have served: "scan_entries trusted = filter (\<lambda>e. signed e \<and> is_scan e \<and> retracted (trusted_of chain) (le_hash e) = None) chain"
      by (auto simp: tr scan_entries_eq trusted_of_def filter_filter is_scan_def intro!: filter_cong)
    have "dv_problem d = None" using d None by simp
    moreover have "dv_scans d = map (\<lambda>e. bu_scan (le_bundle e)) (scan_entries trusted) \<and>
        dv_files d = concat (map (\<lambda>e. bu_files (le_bundle e)) (scan_entries trusted)) \<and>
        dv_mutants d = concat (map (\<lambda>e. bu_mutants (le_bundle e)) (scan_entries trusted)) \<and>
        dv_calls d = concat (map (\<lambda>e. bu_calls (le_bundle e)) (scan_entries trusted)) \<and>
        dv_adjudications d = adjudications (live_entries trusted)"
      using d None by simp
    ultimately show ?thesis
      using perm \<open>intact L chain\<close> clean(2) by (intro conjI impI exI [of _ chain]) (simp_all add: served [folded tr] tr [symmetric] verify_eq Let_def)
  qed
qed

definition derive_lib :: lib where
  \<comment> \<open>the toy library, reading the two entries of a signed chain: a root registration is not needed when the root signs both\<close>
  "derive_lib = toy_lib\<lparr>unmarshal_entry := (\<lambda>s.
     let e = toy_entry '''' s in Inr (e\<lparr>le_keyid := key_fingerprint toy_lib ''r'', le_signature := hex_encode (''r'' @ fst (hex_decode (le_hash e)))\<rparr>))\<rparr>"

definition derive_raw :: "(string \<times> string) list" where
  "derive_raw = [(''b'', hex_encode ''h''), (''a'', '''')]"

lemma derive_raw_served:
  "(case derive derive_lib derive_raw \<lparr>tr_root_pub = Some ''r'', tr_repo = '''', tr_sigstore_root = None\<rparr> of
      None \<Rightarrow> False | Some d \<Rightarrow> dv_problem d = None \<and> dv_scans d = [zero_scan_row, zero_scan_row])"
  by code_simp

theorem derive_serves_one_chain_witness:
  "\<exists>d chain. derive derive_lib derive_raw \<lparr>tr_root_pub = Some ''r'', tr_repo = '''', tr_sigstore_root = None\<rparr> = Some d \<and>
     dv_problem d = None \<and> length (dv_scans d) = 2 \<and> intact derive_lib chain \<and>
     mset (map (\<lambda>(name, bs). parse_entry derive_lib name bs) derive_raw) = mset (map Inr chain)"
proof -
  obtain d where d: "derive derive_lib derive_raw \<lparr>tr_root_pub = Some ''r'', tr_repo = '''', tr_sigstore_root = None\<rparr> = Some d"
      "dv_problem d = None" "dv_scans d = [zero_scan_row, zero_scan_row]"
    using derive_raw_served by (auto split: option.splits)
  from derive_serves_one_chain [OF d(1)] d(2) obtain chain where
    "mset (map (\<lambda>(name, bs). parse_entry derive_lib name bs) derive_raw) = mset (map Inr chain)" "intact derive_lib chain" by blast
  with d show ?thesis by (intro exI [of _ d] exI [of _ chain]) simp
qed

end
