(* ===== verification/Merkle_Properties.thy ===== *)
theory Merkle_Properties
  imports Merkle
begin

section \<open>The bit tricks walk the tree\<close>

text \<open>
  The sides the loop takes, read off the bits of the index and of the last index, are the sides of the recursion of RFC 6962; so an accepted proof is
  the audit path of the leaf, or exhibits a collision of the hash between an input of the loop and an input of the tree.
\<close>

subsection \<open>Bits of natural numbers\<close>

lemma nat_less_bits: "(x::nat) < 2 ^ s \<longleftrightarrow> (\<forall>j\<ge>s. \<not> bit x j)"
proof
  assume "\<forall>j\<ge>s. \<not> bit x j"
  then have "take_bit s x = x" by (auto simp: bit_eq_iff bit_take_bit_iff not_le)
  then show "x < 2 ^ s" by (simp add: take_bit_nat_eq_self_iff)
next
  assume "x < 2 ^ s"
  then have "take_bit s x = x" by (simp add: take_bit_nat_eq_self_iff)
  then show "\<forall>j\<ge>s. \<not> bit x j" by (metis bit_take_bit_iff not_le)
qed

lemma ones_count_0 [simp]: "ones_count 0 = 0"
  by (simp add: ones_count.simps)

lemma ones_count_mask: "ones_count (mask j) = j"
proof (induction j)
  case (Suc j)
  have "(1::nat) \<le> 2 ^ j" by simp
  then have "(mask (Suc j) :: nat) = Suc (2 * mask j)" unfolding mask_eq_exp_minus_1 power_Suc by linarith
  then show ?case using Suc by (subst ones_count.simps) simp
qed simp

lemma ones_count_add: "y < 2 ^ s \<Longrightarrow> ones_count (2 ^ s + y) = Suc (ones_count y)"
proof (induction s arbitrary: y)
  case 0
  then show ?case by (simp add: ones_count.simps)
next
  case (Suc s)
  have "ones_count (2 ^ Suc s + y) = (2 ^ Suc s + y) mod 2 + ones_count ((2 ^ Suc s + y) div 2)"
    by (subst ones_count.simps) simp
  also have "\<dots> = y mod 2 + ones_count (2 ^ s + y div 2)" by simp
  also have "\<dots> = y mod 2 + Suc (ones_count (y div 2))" using Suc by simp
  also have "\<dots> = Suc (ones_count y)" by (simp add: ones_count.simps [of y])
  finally show ?case .
qed

subsection \<open>The sides\<close>

definition inner_of :: "nat \<Rightarrow> nat \<Rightarrow> nat" where
  "inner_of m n = bits_len (m XOR (n - 1))"

definition sides :: "nat \<Rightarrow> nat \<Rightarrow> bool list" where
  \<comment> \<open>for each step of the loop, whether the proof's hash stands on the left\<close>
  "sides m n = map (\<lambda>i. inner_of m n \<le> i \<or> bit m i) [0..<inner_of m n + ones_count (drop_bit (inner_of m n) m)]"

lemma sides_one: "sides 0 1 = []"
  by (simp add: sides_def inner_of_def)

lemma sides_left:
  assumes "m < 2 ^ t" and "2 ^ t \<le> n - 1" and "n - 1 < 2 ^ Suc t"
  shows "sides m n = sides m (2 ^ t) @ [False]"
proof -
  have m: "\<not> bit m j" if "j \<ge> t" for j using assms(1) that by (simp add: nat_less_bits)
  have l: "bit (n - 1) t" "\<not> bit (n - 1) j" if "j > t" for j
  proof -
    show "bit (n - 1) t"
      using assms(2,3) nat_less_bits [of "n - 1" t] nat_less_bits [of "n - 1" "Suc t"] by (metis le_less_Suc_eq not_le not_less_eq_eq)
    have "\<forall>j\<ge>Suc t. \<not> bit (n - 1) j" using assms(3) by (simp only: nat_less_bits)
    then show "\<not> bit (n - 1) j" using that Suc_le_eq by blast
  qed
  have "\<not> m XOR (n - 1) < 2 ^ t" using m l(1) [of "Suc t"] by (auto simp: nat_less_bits bit_xor_iff)
  moreover have "m XOR (n - 1) < 2 ^ Suc t" unfolding nat_less_bits bit_xor_iff using m l(2) by (auto simp: Suc_le_eq)
  ultimately have inner: "inner_of m n = Suc t" by (simp add: inner_of_def bits_len_Suc not_less)
  have none: "drop_bit (Suc t) m = 0" by (rule bit_eqI) (use m in \<open>simp add: bit_drop_bit_eq\<close>)
  let ?i = "inner_of m (2 ^ t)"
  have x: "bit (m XOR (2 ^ t - 1)) j \<longleftrightarrow> j < t \<and> \<not> bit m j" for j
    using m [of j] unfolding mask_eq_exp_minus_1 [symmetric] by (auto simp: bit_xor_iff bit_mask_iff)
  have it: "?i \<le> t" unfolding inner_of_def bits_len_le nat_less_bits x by simp
  have "m XOR (2 ^ t - 1) < 2 ^ ?i" using bits_len_le [of "m XOR (2 ^ t - 1)" ?i] by (simp add: inner_of_def)
  then have ones: "bit m j" if "?i \<le> j" "j < t" for j using that unfolding nat_less_bits x by blast
  have "drop_bit ?i m = mask (t - ?i)"
    by (rule bit_eqI) (use m ones in \<open>auto simp: bit_drop_bit_eq bit_mask_iff less_diff_conv not_le [symmetric] add.commute\<close>)
  then have len: "?i + ones_count (drop_bit ?i m) = t" using it by (simp add: ones_count_mask)
  have "sides m (2 ^ t) = map (bit m) [0..<t]" unfolding sides_def len using ones by auto
  moreover have "sides m n = map (bit m) [0..<t] @ [False]" unfolding sides_def inner none using m by auto
  ultimately show ?thesis by simp
qed

lemma sides_right:
  assumes "2 ^ t \<le> m" and "m < n" and "n - 1 < 2 ^ Suc t"
  shows "sides m n = sides (m - 2 ^ t) (n - 2 ^ t) @ [True]"
proof -
  let ?m = "m - 2 ^ t" and ?l = "n - 2 ^ t - 1"
  have high: "bit x j \<longleftrightarrow> j = t \<or> bit (x - 2 ^ t) j" and low: "x - 2 ^ t < 2 ^ t" if "2 ^ t \<le> x" "x < 2 ^ Suc t" for x j :: nat
  proof -
    show low: "x - 2 ^ t < 2 ^ t" using that by simp
    then have "2 ^ t AND (x - 2 ^ t) = 0" by (intro bit_eqI) (auto simp: bit_and_iff bit_exp_iff nat_less_bits)
    then have "x = 2 ^ t OR (x - 2 ^ t)" using that(1) disjunctive_add_eq_or [of "2 ^ t" "x - 2 ^ t"] by simp
    then show "bit x j \<longleftrightarrow> j = t \<or> bit (x - 2 ^ t) j"
      by (metis bit_or_iff bit_exp_iff possible_bit_nat)
  qed
  have m: "bit m j \<longleftrightarrow> j = t \<or> bit ?m j" "?m < 2 ^ t" for j using high [of m j] low [of m] assms by auto
  have l: "bit (n - 1) j \<longleftrightarrow> j = t \<or> bit ?l j" "?l < 2 ^ t" for j
    using high [of "n - 1" j] low [of "n - 1"] assms by auto
  have mt: "\<not> bit ?m j" "\<not> bit ?l j" if "j \<ge> t" for j using m(2) l(2) that by (simp_all add: nat_less_bits)
  have "m XOR (n - 1) = ?m XOR ?l"
    by (rule bit_eqI) (use m(1) l(1) mt in \<open>auto simp: bit_xor_iff\<close>)
  then have inner: "inner_of m n = inner_of ?m (n - 2 ^ t)" by (simp add: inner_of_def)
  let ?i = "inner_of ?m (n - 2 ^ t)"
  have it: "?i \<le> t" using mt by (auto simp: inner_of_def bits_len_le nat_less_bits bit_xor_iff)
  have "drop_bit ?i m = 2 ^ (t - ?i) + drop_bit ?i ?m"
  proof -
    have "m = 2 ^ t + ?m" using assms(1) by simp
    then have "drop_bit ?i m = (2 ^ (t - ?i) * 2 ^ ?i + ?m) div 2 ^ ?i" using it by (metis drop_bit_eq_div le_add_diff_inverse2 power_add)
    then show ?thesis by (simp add: drop_bit_eq_div)
  qed
  moreover have "drop_bit ?i ?m < 2 ^ (t - ?i)" using mt(1) by (auto simp: nat_less_bits bit_drop_bit_eq)
  ultimately have "ones_count (drop_bit ?i m) = Suc (ones_count (drop_bit ?i ?m))" by (simp add: ones_count_add)
  moreover have "?i \<le> j \<or> bit m j \<longleftrightarrow> ?i \<le> j \<or> bit ?m j" for j using m(1) [of j] it by auto
  ultimately show ?thesis unfolding sides_def inner by simp
qed

subsection \<open>Climbing from a leaf\<close>

fun climb :: "(string \<Rightarrow> string) \<Rightarrow> string \<Rightarrow> (string \<times> bool) list \<Rightarrow> string" where
  "climb sha h [] = h"
| "climb sha h ((p, left) # ps) = climb sha (if left then merkle_node sha p h else merkle_node sha h p) ps"

fun climb_inputs :: "(string \<Rightarrow> string) \<Rightarrow> string \<Rightarrow> (string \<times> bool) list \<Rightarrow> string list" where
  \<comment> \<open>what the loop hashes\<close>
  "climb_inputs sha h [] = []"
| "climb_inputs sha h ((p, left) # ps) =
     (let x = CHR 0x01 # (if left then p @ h else h @ p) in x # climb_inputs sha (sha x) ps)"

function tree_inputs :: "(string \<Rightarrow> string) \<Rightarrow> string list \<Rightarrow> string list" where
  \<comment> \<open>what the nodes of the tree hash\<close>
  "tree_inputs sha D =
     (if length D \<le> 1 then []
      else (CHR 0x01 # tree_hash sha (take (split_point (length D)) D) @ tree_hash sha (drop (split_point (length D)) D)) #
        tree_inputs sha (take (split_point (length D)) D) @ tree_inputs sha (drop (split_point (length D)) D))"
  by pat_completeness auto
termination
proof (relation "measure (\<lambda>(sha, D). length D)")
  fix D :: "string list"
  assume "\<not> length D \<le> 1"
  then have "0 < split_point (length D) \<and> split_point (length D) < length D" by (intro split_point_bounds) simp
  then show "((sha, take (split_point (length D)) D), sha :: string \<Rightarrow> string, D) \<in> measure (\<lambda>(sha, D). length D)"
    and "((sha, drop (split_point (length D)) D), sha, D) \<in> measure (\<lambda>(sha, D). length D)" for sha
    by auto
qed simp

declare tree_inputs.simps [simp del]

lemma climb_snoc: "climb sha h (ps @ [(p, left)]) = (let c = climb sha h ps in if left then merkle_node sha p c else merkle_node sha c p)"
  by (induction sha h ps rule: climb.induct) (simp_all add: Let_def)

lemma climb_inputs_snoc:
  "climb_inputs sha h (ps @ [(p, left)]) = climb_inputs sha h ps @ [CHR 0x01 # (let c = climb sha h ps in if left then p @ c else c @ p)]"
  by (induction sha h ps rule: climb.induct) (auto simp: Let_def merkle_node_def)

lemma loop_climb:
  "inclusion_loop sha idx inner i ps h =
     (if \<forall>p\<in>set ps. length p = 32 then Inr (climb sha h (zip ps (map (\<lambda>j. inner \<le> j \<or> bit idx j) [i..<i + length ps]))) else Inl ProofNotHash)"
proof (induction ps arbitrary: i h)
  case (Cons p ps)
  have "drop_bit i idx AND 1 = 0 \<longleftrightarrow> \<not> bit idx i"
    by (simp add: and_one_eq bit_iff_odd_drop_bit even_iff_mod_2_eq_zero)
  moreover have "[i..<i + length (p # ps)] = i # [Suc i..<Suc i + length ps]" by (simp add: upt_conv_Cons del: upt_Suc)
  ultimately show ?case using Cons.IH by simp
qed simp

lemma split_sides:
  assumes "2 \<le> length D" and "m < length D"
  defines "k \<equiv> split_point (length D)"
  shows "m < k \<Longrightarrow> sides m (length D) = sides m (length (take k D)) @ [False] \<and> m < length (take k D)"
    and "\<not> m < k \<Longrightarrow> sides m (length D) = sides (m - k) (length (drop k D)) @ [True] \<and> m - k < length (drop k D)"
proof -
  obtain t where t: "k = 2 ^ t" "2 ^ t \<le> length D - 1" "length D - 1 < 2 ^ Suc t"
    using split_point_cases [OF assms(1)] unfolding k_def by blast
  have "k < length D" using split_point_bounds [OF assms(1)] by (simp add: k_def)
  then show "m < k \<Longrightarrow> sides m (length D) = sides m (length (take k D)) @ [False] \<and> m < length (take k D)"
    using sides_left [OF _ t(2,3), of m] by (simp add: t(1))
  show "\<not> m < k \<Longrightarrow> sides m (length D) = sides (m - k) (length (drop k D)) @ [True] \<and> m - k < length (drop k D)"
    using sides_right [OF _ assms(2) t(3)] assms(2) by (simp add: t(1))
qed

lemma length_one: "length D = 1 \<Longrightarrow> sides 0 (length D) = [] \<and> tree_hash sha D = D ! 0 \<and> audit_path sha D 0 = [] \<and> tree_inputs sha D = []"
  using sides_one by (cases D) (auto simp: tree_hash.simps audit_path.simps tree_inputs.simps)

lemma tree_hash_node:
  "2 \<le> length D \<Longrightarrow> tree_hash sha D =
     merkle_node sha (tree_hash sha (take (split_point (length D)) D)) (tree_hash sha (drop (split_point (length D)) D))"
  by (subst tree_hash.simps) auto

lemma climb_complete:
  "m < length D \<Longrightarrow> length (audit_path sha D m) = length (sides m (length D)) \<and>
     climb sha (D ! m) (zip (audit_path sha D m) (sides m (length D))) = tree_hash sha D"
proof (induction sha D m rule: audit_path.induct)
  case (1 sha D m)
  let ?k = "split_point (length D)"
  show ?case
  proof (cases "length D = 1")
    case True
    then show ?thesis using length_one [OF True, of sha] "1.prems" by simp
  next
    case False
    then have two: "2 \<le> length D" "\<not> length D \<le> 1" using "1.prems" by auto
    show ?thesis
    proof (cases "m < ?k")
      case True
      note s = split_sides(1) [OF two(1) "1.prems" True]
      have "audit_path sha D m = audit_path sha (take ?k D) m @ [tree_hash sha (drop ?k D)]" using two True by (subst audit_path.simps) simp
      then show ?thesis using "1.IH"(1) [OF two(2) True] s True by (simp add: climb_snoc Let_def tree_hash_node [OF two(1)])
    next
      case False
      note s = split_sides(2) [OF two(1) "1.prems" False]
      have "audit_path sha D m = audit_path sha (drop ?k D) (m - ?k) @ [tree_hash sha (take ?k D)]" using two False by (subst audit_path.simps) simp
      then show ?thesis using "1.IH"(2) [OF two(2) False] s False by (simp add: climb_snoc Let_def tree_hash_node [OF two(1)])
    qed
  qed
qed

lemma tree_hash_length:
  assumes "\<And>x. length (sha x) = 32" and "\<forall>d\<in>set D. length d = 32"
  shows "length (tree_hash sha D) = 32"
  using assms by (subst tree_hash.simps) (auto simp: merkle_node_def)

lemma tree_inputs_node:
  "2 \<le> length D \<Longrightarrow> tree_inputs sha D =
     (CHR 0x01 # tree_hash sha (take (split_point (length D)) D) @ tree_hash sha (drop (split_point (length D)) D)) #
        tree_inputs sha (take (split_point (length D)) D) @ tree_inputs sha (drop (split_point (length D)) D)"
  by (subst tree_inputs.simps) simp

lemma climb_sound:
  "\<forall>x. length (sha x) = 32 \<Longrightarrow> m < length D \<Longrightarrow> \<forall>d\<in>set D. length d = 32 \<Longrightarrow> length ps = length (sides m (length D)) \<Longrightarrow> \<forall>p\<in>set ps. length p = 32 \<Longrightarrow>
     climb sha leaf (zip ps (sides m (length D))) = tree_hash sha D \<Longrightarrow>
     \<forall>x\<in>set (climb_inputs sha leaf (zip ps (sides m (length D)))). \<forall>y\<in>set (tree_inputs sha D). sha x = sha y \<longrightarrow> x = y \<Longrightarrow>
     leaf = D ! m \<and> ps = audit_path sha D m"
proof (induction sha D m arbitrary: ps rule: audit_path.induct)
  case (1 sha D m)
  let ?k = "split_point (length D)"
  show ?case
  proof (cases "length D = 1")
    case True
    then show ?thesis using length_one [OF True, of sha] "1.prems" by simp
  next
    case False
    then have two: "2 \<le> length D" "\<not> length D \<le> 1" using "1.prems"(2) by auto
    let ?l = "tree_hash sha (take ?k D)" and ?r = "tree_hash sha (drop ?k D)"
    have len: "length ?l = 32" "length ?r = 32"
      using "1.prems"(1,3) by (auto intro!: tree_hash_length dest: in_set_takeD in_set_dropD)
    have d32: "\<forall>d\<in>set (take ?k D). length d = 32" "\<forall>d\<in>set (drop ?k D). length d = 32"
      using "1.prems"(3) by (auto dest: in_set_takeD in_set_dropD)
    note last = two(1) [THEN tree_hash_node, of sha] two(1) [THEN tree_inputs_node, of sha]
    show ?thesis
    proof (cases "m < ?k")
      case True
      note s = split_sides(1) [OF two(1) "1.prems"(2) True]
      then obtain qs p where ps: "ps = qs @ [p]" using "1.prems"(4) by (cases ps rule: rev_cases) auto
      have q: "length qs = length (sides m (length (take ?k D)))" using "1.prems"(4) s ps by simp
      let ?c = "climb sha leaf (zip qs (sides m (length (take ?k D))))"
      have z: "zip ps (sides m (length D)) = zip qs (sides m (length (take ?k D))) @ [(p, False)]" using s ps q by simp
      have "sha (CHR 0x01 # ?c @ p) = sha (CHR 0x01 # ?l @ ?r)"
        using "1.prems"(6) unfolding z last(1) by (simp add: climb_snoc merkle_node_def)
      moreover have "CHR 0x01 # ?c @ p \<in> set (climb_inputs sha leaf (zip ps (sides m (length D))))"
        unfolding z climb_inputs_snoc by (simp add: Let_def)
      ultimately have "CHR 0x01 # ?c @ p = CHR 0x01 # ?l @ ?r" using "1.prems"(7) unfolding last(2) by (meson list.set_intros(1))
      then have "?c @ p = ?l @ ?r" by simp
      moreover have "length p = length ?r" using "1.prems"(5) len ps by simp
      ultimately have "?c = ?l" "p = ?r" by simp_all
      have inputs: "\<forall>x\<in>set (climb_inputs sha leaf (zip qs (sides m (length (take ?k D))))). \<forall>y\<in>set (tree_inputs sha (take ?k D)).
          sha x = sha y \<longrightarrow> x = y"
        using "1.prems"(7) unfolding z climb_inputs_snoc last(2) by simp
      have "leaf = take ?k D ! m \<and> qs = audit_path sha (take ?k D) m"
        using s "1.prems"(5) ps \<open>?c = ?l\<close> "1.prems"(1) by (intro "1.IH"(1) [OF two(2) True _ _ d32(1) q _ _ inputs]) simp_all
      moreover have "audit_path sha D m = audit_path sha (take ?k D) m @ [?r]" using two True by (subst audit_path.simps) simp
      ultimately show ?thesis using ps \<open>p = ?r\<close> True by simp
    next
      case False
      note s = split_sides(2) [OF two(1) "1.prems"(2) False]
      then obtain qs p where ps: "ps = qs @ [p]" using "1.prems"(4) by (cases ps rule: rev_cases) auto
      have q: "length qs = length (sides (m - ?k) (length (drop ?k D)))" using "1.prems"(4) s ps by simp
      let ?c = "climb sha leaf (zip qs (sides (m - ?k) (length (drop ?k D))))"
      have z: "zip ps (sides m (length D)) = zip qs (sides (m - ?k) (length (drop ?k D))) @ [(p, True)]" using s ps q by simp
      have "sha (CHR 0x01 # p @ ?c) = sha (CHR 0x01 # ?l @ ?r)"
        using "1.prems"(6) unfolding z last(1) by (simp add: climb_snoc merkle_node_def)
      moreover have "CHR 0x01 # p @ ?c \<in> set (climb_inputs sha leaf (zip ps (sides m (length D))))"
        unfolding z climb_inputs_snoc by (simp add: Let_def)
      ultimately have "CHR 0x01 # p @ ?c = CHR 0x01 # ?l @ ?r" using "1.prems"(7) unfolding last(2) by (meson list.set_intros(1))
      then have "p @ ?c = ?l @ ?r" by simp
      moreover have "length p = length ?l" using "1.prems"(5) len ps by simp
      ultimately have "?c = ?r" "p = ?l" by simp_all
      have inputs: "\<forall>x\<in>set (climb_inputs sha leaf (zip qs (sides (m - ?k) (length (drop ?k D))))). \<forall>y\<in>set (tree_inputs sha (drop ?k D)).
          sha x = sha y \<longrightarrow> x = y"
        using "1.prems"(7) unfolding z climb_inputs_snoc last(2) by simp
      have "leaf = drop ?k D ! (m - ?k) \<and> qs = audit_path sha (drop ?k D) (m - ?k)"
        using s "1.prems"(5) ps \<open>?c = ?r\<close> "1.prems"(1) by (intro "1.IH"(2) [OF two(2) False _ _ d32(2) q _ _ inputs]) simp_all
      moreover have "audit_path sha D m = audit_path sha (drop ?k D) (m - ?k) @ [?l]" using two False by (subst audit_path.simps) simp
      ultimately show ?thesis using ps \<open>p = ?l\<close> False "1.prems"(2) by simp
    qed
  qed
qed

subsection \<open>The check\<close>

lemma verify_inclusion_climb:
  assumes "m < n" and "n < 2 ^ 63" and "length rh = 32"
  shows "verify_inclusion sha (int m) (int n) leaf ps rh = None \<longleftrightarrow>
     length ps = length (sides m n) \<and> (\<forall>p\<in>set ps. length p = 32) \<and> climb sha leaf (zip ps (sides m n)) = rh"
proof -
  let ?idx = "word_of_int (int m) :: 64 word" and ?lst = "word_of_int (int n - 1) :: 64 word"
  have w: "unat (word_of_int (int k) :: 64 word) = k" if "k < 2 ^ 63" for k
    using that by (simp add: unat_of_nat take_bit_nat_eq_self_iff)
  have "int n - 1 = int (n - 1)" using assms(1) by simp
  then have u: "unat ?idx = m" "unat ?lst = n - 1" using assms(1,2) w [of m] w [of "n - 1"] by simp_all
  then have inner: "len64 (?idx XOR ?lst) = inner_of m n" by (simp add: len64_def inner_of_def unsigned_xor_eq)
  have border: "ones_count64 (drop_bit i ?idx) = ones_count (drop_bit i m)" for i
    using assms(1,2) by (simp add: ones_count64_def unsigned_drop_bit_eq unat_of_nat take_bit_nat_eq_self)
  have bit: "bit ?idx j \<longleftrightarrow> bit m j" for j
  proof -
    have "bit (unat ?idx) j \<longleftrightarrow> bit ?idx j" unfolding bit_unsigned_iff by simp
    then show ?thesis unfolding u(1) by blast
  qed
  show ?thesis
    using assms unfolding verify_inclusion_def Let_def inner border loop_climb bit
    by (auto simp: sides_def)
qed

text \<open>
  C13. An inclusion proof is accepted exactly when it is the audit path of the leaf. Take a log of fewer than $2^{63}$ leaf hashes and its RFC 6962 root,
  and any index, leaf and proof. The code accepts the audit path of every leaf of the log at its own index; and whatever it
  accepts has an index inside the log, is the leaf at that index and carries its audit path, or exhibits two different inputs, one hashed by the check and
  one by the tree, with the same hash. The hash is any function with 32-byte values.
\<close>

theorem inclusion_exact:
  assumes "\<forall>x. length (sha x) = 32" and "\<forall>d\<in>set D. length d = 32" and "length D < 2 ^ 63"
  shows "(\<forall>m<length D. verify_inclusion sha (int m) (int (length D)) (D ! m) (audit_path sha D m) (tree_hash sha D) = None) \<and>
     (verify_inclusion sha index (int (length D)) leaf ps (tree_hash sha D) = None \<longrightarrow>
        0 \<le> index \<and> index < int (length D) \<and>
        (leaf = D ! nat index \<and> ps = audit_path sha D (nat index) \<or>
         (\<exists>x\<in>set (climb_inputs sha leaf (zip ps (sides (nat index) (length D)))). \<exists>y\<in>set (tree_inputs sha D). x \<noteq> y \<and> sha x = sha y)))"
proof (intro conjI impI allI)
  have root: "length (tree_hash sha D) = 32" using assms by (intro tree_hash_length) simp_all
  have path: "p \<in> set (audit_path sha E m) \<Longrightarrow> \<forall>d\<in>set E. length d = 32 \<Longrightarrow> length p = 32" for p E m
    using assms(1)
  proof (induction sha E m rule: audit_path.induct)
    case (1 sha E m)
    have t: "\<forall>d\<in>set (take k E). length d = 32" "\<forall>d\<in>set (drop k E). length d = 32" for k
      using "1.prems"(2) by (auto dest: in_set_takeD in_set_dropD)
    then have "length (tree_hash sha (take k E)) = 32" "length (tree_hash sha (drop k E)) = 32" for k
      using "1.prems"(3) by (simp_all add: tree_hash_length)
    then show ?case using "1.prems" "1.IH" t by (subst (asm) audit_path.simps) (auto split: if_splits)
  qed
  show "verify_inclusion sha (int m) (int (length D)) (D ! m) (audit_path sha D m) (tree_hash sha D) = None" if "m < length D" for m
    using climb_complete [OF that, of sha] path [of _ D m] assms(2) by (simp add: verify_inclusion_climb [OF that assms(3) root])
  assume ok: "verify_inclusion sha index (int (length D)) leaf ps (tree_hash sha D) = None"
  then show range: "0 \<le> index" "index < int (length D)" by (auto simp: verify_inclusion_def split: if_splits)
  then have i: "nat index < length D" "int (nat index) = index" by auto
  have c: "length ps = length (sides (nat index) (length D))" "\<forall>p\<in>set ps. length p = 32"
      "climb sha leaf (zip ps (sides (nat index) (length D))) = tree_hash sha D"
    using ok verify_inclusion_climb [OF i(1) assms(3) root] i(2) by auto
  show "leaf = D ! nat index \<and> ps = audit_path sha D (nat index) \<or>
      (\<exists>x\<in>set (climb_inputs sha leaf (zip ps (sides (nat index) (length D)))). \<exists>y\<in>set (tree_inputs sha D). x \<noteq> y \<and> sha x = sha y)"
    using climb_sound [OF assms(1) i(1) assms(2) c] by blast
qed

definition toy_digest :: "string \<Rightarrow> string" where
  "toy_digest s = take 32 (s @ replicate 32 CHR ''.'')"

definition toy_leaves :: "string list" where
  "toy_leaves = map (\<lambda>c. replicate 32 c) ''abc''"

theorem inclusion_exact_witness:
  "verify_inclusion toy_digest 2 3 (replicate 32 CHR ''c'') (audit_path toy_digest toy_leaves 2) (tree_hash toy_digest toy_leaves) = None \<and>
   verify_inclusion toy_digest 3 3 (replicate 32 CHR ''c'') (audit_path toy_digest toy_leaves 2) (tree_hash toy_digest toy_leaves) \<noteq> None"
proof -
  have d: "\<forall>x. length (toy_digest x) = 32" by (auto simp: toy_digest_def min_def)
  have l: "\<forall>d\<in>set toy_leaves. length d = 32" "length toy_leaves = 3" "toy_leaves ! 2 = replicate 32 CHR ''c''"
    by (simp_all add: toy_leaves_def)
  have n: "length toy_leaves < 2 ^ 63" using l(2) by simp
  note e = inclusion_exact [OF d l(1) n]
  show ?thesis using e [THEN conjunct1, rule_format, of 2] e [THEN conjunct2, of 3] l(2,3) by auto
qed

end
