(* ===== verification/Testmap.thy ===== *)
theory Testmap
  imports Prelude
begin

section \<open>Test selection by execution evidence (internal/testmap)\<close>

text \<open>
  The map of which test executes which file (\<^verbatim>\<open>testmap.go\<close>, \<^verbatim>\<open>from_evidence.go\<close>) and the data types the
  selection engine (\<^verbatim>\<open>select.go\<close>) reads. A Go map is the list of its entries, whose keys are distinct (\<open>wf_map\<close>); the code sorts what it
  collects from one, so the order of the entries does not show. A runner row is a record of optional functions, as in the code. A nil
  slice is told from an empty one only for \<^verbatim>\<open>Selection.Base\<close>; the operator's command is not nil. Counts and line numbers are \<open>int\<close>: they
  stay far below $2^{63}$. Error texts are constructors with their arguments.
\<close>

subsection \<open>The map\<close>

record line_range =
  lr_start :: int
  lr_end :: int

record tm_source =
  so_has_static :: bool
  so_has_statements :: bool
  so_static :: "line_range list"

record tm_node =
  nd_id :: string
  nd_grain :: string
  nd_unit :: string
  nd_files :: "string list"
  nd_err :: string

record tm_edge =
  ed_test :: string
  ed_source :: string
  ed_lines :: "line_range list"
  ed_executed :: int
  ed_loaded :: bool
  ed_uncounted :: string

record test_map =
  tm_schema :: int
  tm_lang :: string
  tm_runner :: string
  tm_command :: "string list"
  tm_scope :: "string list"
  tm_tree :: string
  tm_method :: string
  tm_of :: int
  tm_sources :: "(string \<times> tm_source) list"
  tm_tests :: "(string \<times> tm_node) list"
  tm_edges :: "tm_edge list"
  tm_note :: string

definition zero_node :: tm_node where
  "zero_node = \<lparr>nd_id = '''', nd_grain = '''', nd_unit = '''', nd_files = [], nd_err = ''''\<rparr>"

definition node_at :: "test_map \<Rightarrow> string \<Rightarrow> tm_node" where
  \<comment> \<open>\<^verbatim>\<open>m.Tests[id]\<close>: the zero node for an id the map does not hold\<close>
  "node_at m i = (case map_of (tm_tests m) i of None \<Rightarrow> zero_node | Some n \<Rightarrow> n)"

definition wf_map :: "test_map \<Rightarrow> bool" where
  "wf_map m \<longleftrightarrow> distinct (map fst (tm_sources m)) \<and> distinct (map fst (tm_tests m))"

abbreviation grain_unit :: string where "grain_unit \<equiv> ''unit''"
abbreviation grain_test :: string where "grain_test \<equiv> ''test''"
abbreviation method_unit_evidence :: string where "method_unit_evidence \<equiv> ''unit-evidence''"
abbreviation method_coverage_context :: string where "method_coverage_context \<equiv> ''coverage-context''"

definition is_zero_range :: "line_range \<Rightarrow> bool" where
  "is_zero_range r \<longleftrightarrow> lr_start r = 0 \<and> lr_end r = 0"

definition overlaps :: "line_range \<Rightarrow> line_range \<Rightarrow> bool" where
  "overlaps r o' \<longleftrightarrow> \<not> is_zero_range r \<and> \<not> is_zero_range o' \<and> lr_start r \<le> lr_end o' \<and> lr_start o' \<le> lr_end r"

definition edges_to :: "test_map \<Rightarrow> string \<Rightarrow> tm_edge list" where
  "edges_to m source = filter (\<lambda>e. ed_source e = source) (tm_edges m)"

definition unreported :: "test_map \<Rightarrow> string list" where
  "unreported m = sort (map fst (filter (\<lambda>(i, n). nd_err n \<noteq> '''') (tm_tests m)))"

record file_coverage =
  fc_tests :: "string \<Rightarrow> int option"
  fc_has_static :: bool
  fc_has_statements :: bool

definition coverage :: "test_map \<Rightarrow> string \<Rightarrow> file_coverage option" where
  "coverage m = fold (\<lambda>e out. case out (ed_source e) of
       None \<Rightarrow> out
     | Some fc \<Rightarrow> out(ed_source e \<mapsto> fc\<lparr>fc_tests := (fc_tests fc)(ed_test e \<mapsto>
           (case fc_tests fc (ed_test e) of None \<Rightarrow> 0 | Some k \<Rightarrow> k) + ed_executed e)\<rparr>)) (tm_edges m)
     (\<lambda>p. map_option (\<lambda>s. \<lparr>fc_tests = Map.empty, fc_has_static = so_has_static s, fc_has_statements = so_has_statements s\<rparr>)
        (map_of (tm_sources m) p))"

subsection \<open>From one coverage run\<close>

record file_evidence =
  fe_tests :: "(string \<times> line_range list) list"
  fe_static :: "line_range list"
  fe_has_statements :: bool

record evidence_doc =
  dc_of :: int
  dc_files :: "(string \<times> file_evidence) list"

definition range_lines :: "line_range list \<Rightarrow> int" where
  "range_lines rs = sum_list (map (\<lambda>r. lr_end r - lr_start r + 1) rs)"

definition put :: "string \<Rightarrow> 'v \<Rightarrow> (string \<times> 'v) list \<Rightarrow> (string \<times> 'v) list" where
  \<comment> \<open>\<^verbatim>\<open>m[k] = v\<close>\<close>
  "put k v kvs = (if k \<in> fst ` set kvs then map (\<lambda>(k', v'). if k' = k then (k', v) else (k', v')) kvs else kvs @ [(k, v)])"

definition add_evidence_test :: "(string \<Rightarrow> string) \<Rightarrow> string \<Rightarrow> string \<times> line_range list \<Rightarrow> test_map \<Rightarrow> test_map" where
  "add_evidence_test unit_of src t m =
     (let (i, rngs) = t;
          m1 = (if i \<in> fst ` set (tm_tests m) then m
                else m\<lparr>tm_tests := put i \<lparr>nd_id = i, nd_grain = grain_test, nd_unit = unit_of i, nd_files = [], nd_err = ''''\<rparr>
                         (tm_tests m)\<rparr>) in
      m1\<lparr>tm_edges := tm_edges m1 @ [\<lparr>ed_test = i, ed_source = src, ed_lines = rngs, ed_executed = range_lines rngs,
           ed_loaded = False, ed_uncounted = ''''\<rparr>]\<rparr>)"

definition add_evidence_file :: "(string \<Rightarrow> string option) \<Rightarrow> (string \<Rightarrow> string) \<Rightarrow> string \<times> file_evidence \<Rightarrow> test_map \<Rightarrow> test_map" where
  "add_evidence_file align unit_of pf m =
     (let (path, f) = pf in
      case align path of
        None \<Rightarrow> m
      | Some src \<Rightarrow> fold (add_evidence_test unit_of src) (fe_tests f)
          (m\<lparr>tm_sources := put src \<lparr>so_has_static = (0 < length (fe_static f)), so_has_statements = fe_has_statements f,
               so_static = fe_static f\<rparr> (tm_sources m)\<rparr>))"

definition sort_edges :: "tm_edge list \<Rightarrow> tm_edge list" where
  \<comment> \<open>\<^verbatim>\<open>sort.Slice\<close> by source, then test; edges that agree on both keep their order here, as no map the code builds has such\<close>
  "sort_edges = sort_key (\<lambda>e. (ed_source e, ed_test e))"

definition from_evidence :: "evidence_doc \<Rightarrow> (string \<Rightarrow> string option) \<Rightarrow> (string \<Rightarrow> string) \<Rightarrow> test_map" where
  "from_evidence doc align unit_of =
     (let m = fold (add_evidence_file align unit_of) (dc_files doc)
          \<lparr>tm_schema = 1, tm_lang = '''', tm_runner = '''', tm_command = [], tm_scope = [], tm_tree = '''',
           tm_method = method_coverage_context, tm_of = dc_of doc, tm_sources = [], tm_tests = [], tm_edges = [], tm_note = ''''\<rparr> in
      m\<lparr>tm_edges := sort_edges (tm_edges m)\<rparr>)"

end
