(* ===== verification/Testmap_Select.thy ===== *)
theory Testmap_Select
  imports Testmap
begin

section \<open>The selection engine (internal/testmap/select.go)\<close>

text \<open>
  From a map and a runner row to the tests that run and the command that runs them: \<^verbatim>\<open>Select\<close> and its two retries, \<^verbatim>\<open>ForSpan\<close>, which narrows a
  selection to the tests that reach a mutated span, and \<^verbatim>\<open>AuthoredTestCmd\<close>. The row's functions are the arguments they are in the
  code. On the hosts the program runs on the path separator is the slash, so \<^verbatim>\<open>filepath.ToSlash\<close> is the identity.
\<close>

record runner =
  rn_id :: string
  rn_collection_base :: "(string list \<Rightarrow> string \<Rightarrow> string list option) option"
  rn_tests_cmd :: "(string list \<Rightarrow> string list \<Rightarrow> string list option) option"
  rn_test_unit :: "(string \<Rightarrow> string) option"
  rn_units_cmd :: "(string list \<Rightarrow> string list \<Rightarrow> string list option) option"
  rn_units_coruns :: "(string list \<Rightarrow> string \<Rightarrow> bool) option"
  rn_unit_for_file :: "(string \<Rightarrow> string \<Rightarrow> string option) option"
  rn_carry_args :: "(string list \<Rightarrow> string list) option"

record selection =
  sl_base :: "string list option"
  sl_cmd :: "string list"
  sl_tests :: "string list"
  sl_method :: string
  sl_of :: int
  sl_lines :: "string \<Rightarrow> line_range list"
  sl_static :: "line_range list"
  sl_always :: "string list"

datatype select_error =
    NoGrain string
  | NoTestCommand string | NoUnitCommand string
  | NoUnitReported int string
  | NeverSaw string string | NeverMeasured int string string
  | EdgeWithoutNode string string | NodeGrain string string
  | LeavesNothing nat string
  | WouldAlsoRun string | LeftOutAsRed string
  | TooLong nat int
  | NoUnitToWiden nat string
  | RunnerRefusesTests nat | RunnerRefusesUnits "string list"
  | NoUnitForFile string | NoUnitHolds string | RunnerRefusesAuthored string

definition max_argv :: int where
  "max_argv = 32 * 1024"

definition max_command_bytes :: int where
  "max_command_bytes = 96 * 1024"

definition argv_len :: "string list \<Rightarrow> int" where
  "argv_len args = sum_list (map (\<lambda>a. int (length a) + 1) args)"

definition to_slash :: "string \<Rightarrow> string" where
  "to_slash p = p"

definition sorted_keys :: "string list \<Rightarrow> string list" where
  \<comment> \<open>the keys of a set built from the list, sorted\<close>
  "sorted_keys xs = sort (remdups xs)"

definition grain_of :: "test_map \<Rightarrow> select_error + string" where
  "grain_of m =
     (if tm_method m = method_coverage_context then Inr grain_test
      else if tm_method m = method_unit_evidence then Inr grain_unit
      else Inl (NoGrain (tm_method m)))"

definition can_run :: "runner \<Rightarrow> string \<Rightarrow> select_error option" where
  "can_run r grain =
     (if grain = grain_test \<and> rn_tests_cmd r = None then Some (NoTestCommand (rn_id r))
      else if grain = grain_unit \<and> rn_units_cmd r = None then Some (NoUnitCommand (rn_id r))
      else None)"

definition some_unit_reported :: "test_map \<Rightarrow> select_error option" where
  "some_unit_reported m =
     (if length (unreported m) < length (tm_tests m) then None
      else Some (NoUnitReported (int (length (tm_tests m))) (tm_note m)))"

subsection \<open>Which nodes run\<close>

record pick =
  \<comment> \<open>the loop variables of \<^verbatim>\<open>selectedIDs\<close>\<close>
  pk_seen :: "string list"
  pk_ids :: "string list"
  pk_edges :: nat
  pk_dropped :: nat
  pk_lines :: "string \<Rightarrow> line_range list"

definition selecting :: "string \<Rightarrow> tm_edge \<Rightarrow> bool" where
  \<comment> \<open>the edge does not pass the \<^verbatim>\<open>continue\<close>\<close>
  "selecting grain e \<longleftrightarrow> \<not> (grain = grain_unit \<and> ed_executed e = 0 \<and> \<not> ed_loaded e \<and> ed_uncounted e = '''')"

definition pick_edge :: "string \<Rightarrow> string list \<Rightarrow> tm_edge \<Rightarrow> pick \<Rightarrow> pick" where
  "pick_edge grain drop_edges e p =
     (if \<not> selecting grain e then p
      else if ed_test e \<in> set drop_edges
      then (if ed_test e \<notin> set (pk_seen p)
            then p\<lparr>pk_seen := ed_test e # pk_seen p, pk_dropped := Suc (pk_dropped p)\<rparr> else p)
      else
        (let p1 = (if ed_test e \<notin> set (pk_seen p)
                   then p\<lparr>pk_seen := ed_test e # pk_seen p, pk_ids := pk_ids p @ [ed_test e], pk_edges := Suc (pk_edges p)\<rparr> else p) in
         if grain = grain_test \<and> 0 < length (ed_lines e)
         then p1\<lparr>pk_lines := (pk_lines p1)(ed_test e := pk_lines p1 (ed_test e) @ ed_lines e)\<rparr> else p1))"

fun edge_loop :: "test_map \<Rightarrow> string \<Rightarrow> string \<Rightarrow> string list \<Rightarrow> tm_edge list \<Rightarrow> pick \<Rightarrow> select_error + pick" where
  "edge_loop m grain want drop_edges [] p = Inr p"
| "edge_loop m grain want drop_edges (e # es) p =
     (case map_of (tm_tests m) (ed_test e) of
        None \<Rightarrow> Inl (EdgeWithoutNode (ed_test e) want)
      | Some n \<Rightarrow>
          if nd_grain n \<noteq> grain then Inl (NodeGrain (ed_test e) (nd_grain n))
          else edge_loop m grain want drop_edges es (pick_edge grain drop_edges e p))"

definition add_unreported :: "string list \<Rightarrow> string \<Rightarrow> pick \<Rightarrow> pick" where
  "add_unreported exclude i p =
     (if i \<notin> set (pk_seen p) \<and> i \<notin> set exclude
      then p\<lparr>pk_seen := i # pk_seen p, pk_ids := pk_ids p @ [i]\<rparr> else p)"

definition selected_ids :: "test_map \<Rightarrow> string \<Rightarrow> string \<Rightarrow> string list \<Rightarrow> string list \<Rightarrow>
    select_error + string list \<times> (string \<Rightarrow> line_range list)" where
  "selected_ids m grain want exclude drop_edges =
     (case edge_loop m grain want drop_edges (edges_to m want)
         \<lparr>pk_seen = [], pk_ids = [], pk_edges = 0, pk_dropped = 0, pk_lines = (\<lambda>_. [])\<rparr> of
        Inl err \<Rightarrow> Inl err
      | Inr p \<Rightarrow>
          (let q = fold (add_unreported exclude) (unreported m) p in
           if 0 < pk_dropped q \<and> pk_edges q = 0 then Inl (LeavesNothing (pk_dropped q) want)
           else Inr (pk_ids q, pk_lines q)))"

definition uncovered :: "test_map \<Rightarrow> string list \<times> string list" where
  "uncovered m =
     (case grain_of m of
        Inl _ \<Rightarrow> ([], [])
      | Inr grain \<Rightarrow>
          (let asked = filter (\<lambda>(p, src). so_has_statements src \<and> \<not> so_has_static src) (tm_sources m);
               ids = (\<lambda>p. case selected_ids m grain p [] [] of Inl _ \<Rightarrow> None | Inr (is, _) \<Rightarrow> Some is) in
           (sort (map fst (filter (\<lambda>(p, _). case ids p of None \<Rightarrow> False | Some is \<Rightarrow> length is = 0) asked)),
            sort (map fst (filter (\<lambda>(p, _). case ids p of None \<Rightarrow> False | Some is \<Rightarrow> length is \<noteq> 0 \<and>
               length is = length (unreported m)) asked)))))"

subsection \<open>The command\<close>

definition coruns_unnamed :: "test_map \<Rightarrow> runner \<Rightarrow> string list \<Rightarrow> string option" where
  "coruns_unnamed m r units =
     (case rn_units_coruns r of
        None \<Rightarrow> None
      | Some coruns \<Rightarrow>
          find (coruns units) (sort (map fst (filter (\<lambda>(i, n). nd_grain n = grain_unit \<and> i \<notin> set units) (tm_tests m)))))"

lemma find_SomeD: "find p xs = Some x \<Longrightarrow> x \<in> set xs \<and> p x"
  by (auto simp: find_Some_iff)

lemma coruns_unnamedD:
  assumes "coruns_unnamed m r units = Some other"
  shows "\<exists>n. (other, n) \<in> set (tm_tests m) \<and> nd_grain n = grain_unit" and "other \<notin> set units"
    and "\<exists>f. rn_units_coruns r = Some f \<and> f units other"
  using assms unfolding coruns_unnamed_def by (fastforce split: option.splits dest: find_SomeD)+

lemma coruns_unnamed_listed:
  "coruns_unnamed m r units = Some other \<Longrightarrow> other \<in> fst ` set (tm_tests m) \<and> other \<notin> set units"
  using coruns_unnamedD [of m r units other] by force

function close_units :: "test_map \<Rightarrow> runner \<Rightarrow> bool \<Rightarrow> string list \<Rightarrow> string list \<Rightarrow> select_error + string list" where
  \<comment> \<open>the loop of \<^verbatim>\<open>unitsCmd\<close>\<close>
  "close_units m r closing exclude units =
     (case coruns_unnamed m r units of
        None \<Rightarrow> Inr units
      | Some other \<Rightarrow>
          if \<not> closing then Inl (WouldAlsoRun other)
          else if other \<in> set exclude then Inl (LeftOutAsRed other)
          else close_units m r closing exclude (sort (units @ [other])))"
  by pat_completeness auto

termination
proof (relation "measure (\<lambda>(m, r, closing, exclude, units). card (fst ` set (tm_tests m) - set units))")
  fix m r closing exclude and units :: "string list" and other
  assume "coruns_unnamed m r units = Some other"
  then have "fst ` set (tm_tests m) - set (units @ [other]) \<subset> fst ` set (tm_tests m) - set units"
    using coruns_unnamed_listed by auto
  then have "card (fst ` set (tm_tests m) - set (units @ [other])) < card (fst ` set (tm_tests m) - set units)"
    by (rule psubset_card_mono [rotated]) simp
  then show "((m, r, closing, exclude, sort (units @ [other])), (m, r, closing, exclude, units))
      \<in> measure (\<lambda>(m, r, closing, exclude, units). card (fst ` set (tm_tests m) - set units))" by simp
qed simp

declare close_units.simps [simp del]

definition units_cmd :: "test_map \<Rightarrow> runner \<Rightarrow> string list \<Rightarrow> string list \<Rightarrow> bool \<Rightarrow> string list \<Rightarrow>
    select_error + string list \<times> string list" where
  "units_cmd m r argv units closing exclude =
     (case close_units m r closing exclude units of
        Inl err \<Rightarrow> Inl err
      | Inr us \<Rightarrow>
          if argv_len us > max_command_bytes then Inl (TooLong (length us) (argv_len us))
          else (case (case rn_units_cmd r of None \<Rightarrow> None | Some f \<Rightarrow> f argv us) of
                  None \<Rightarrow> Inl (RunnerRefusesUnits us)
                | Some cmd \<Rightarrow> Inr (cmd, us)))"

fun widen_loop :: "test_map \<Rightarrow> nat \<Rightarrow> string list \<Rightarrow> string list \<Rightarrow> select_error + string list" where
  "widen_loop m n [] us = Inr (sorted_keys us)"
| "widen_loop m n (i # ids) us =
     (let u = nd_unit (node_at m i) in
      if u = '''' then Inl (NoUnitToWiden n i) else widen_loop m n ids (us @ [u]))"

definition widen_by_node :: "test_map \<Rightarrow> string list \<Rightarrow> select_error + string list" where
  "widen_by_node m ids = widen_loop m (length ids) ids []"

definition as_slice :: "string list option \<Rightarrow> string list" where
  \<comment> \<open>a nil slice passed on as a slice\<close>
  "as_slice b = (case b of None \<Rightarrow> [] | Some xs \<Rightarrow> xs)"

subsection \<open>Select\<close>

definition run_tests :: "runner \<Rightarrow> selection \<Rightarrow> string list \<Rightarrow> select_error + selection" where
  "run_tests r sel ids =
     (case (case rn_tests_cmd r of None \<Rightarrow> None | Some f \<Rightarrow> f (as_slice (sl_base sel)) ids) of
        None \<Rightarrow> Inl (RunnerRefusesTests (length ids))
      | Some cmd \<Rightarrow> Inr (sel\<lparr>sl_tests := ids, sl_cmd := cmd\<rparr>))"

definition select_tests :: "test_map \<Rightarrow> runner \<Rightarrow> selection \<Rightarrow> string list \<Rightarrow> select_error + selection" where
  \<comment> \<open>the end of \<^verbatim>\<open>selectWithout\<close> at test grain\<close>
  "select_tests m r sel ids =
     (let sel = sel\<lparr>sl_always := sl_always sel @ filter (\<lambda>i. nd_err (node_at m i) \<noteq> '''') ids\<rparr> in
      if argv_len ids > max_argv
      then (case widen_by_node m ids of
              Inl err \<Rightarrow> Inl err
            | Inr us \<Rightarrow>
                if argv_len us > max_command_bytes then Inl (TooLong (length us) (argv_len us))
                else run_tests r (sel\<lparr>sl_lines := (\<lambda>_. []), sl_static := [], sl_always := []\<rparr>) us)
      else run_tests r sel ids)"

definition select_units :: "test_map \<Rightarrow> runner \<Rightarrow> selection \<Rightarrow> string list \<Rightarrow> string list \<Rightarrow> select_error + selection" where
  \<comment> \<open>the end of \<^verbatim>\<open>selectWithout\<close> at unit grain\<close>
  "select_units m r sel exclude ids =
     (case units_cmd m r (as_slice (sl_base sel)) ids True exclude of
        Inl err \<Rightarrow> Inl err
      | Inr (cmd, us) \<Rightarrow> Inr (sel\<lparr>sl_tests := us, sl_cmd := cmd\<rparr>))"

definition select_measured :: "test_map \<Rightarrow> runner \<Rightarrow> string list \<Rightarrow> string \<Rightarrow> string \<Rightarrow> string \<Rightarrow> tm_source \<Rightarrow> string list \<Rightarrow> bool \<Rightarrow>
    select_error + selection" where
  \<comment> \<open>the part of \<^verbatim>\<open>selectWithout\<close> after the file was found\<close>
  "select_measured m r test_cmd repo_root grain want src exclude evidence =
     (let base = (case rn_collection_base r of None \<Rightarrow> Some test_cmd | Some f \<Rightarrow> f test_cmd repo_root);
          sel = \<lparr>sl_base = base, sl_cmd = [], sl_tests = [], sl_method = tm_method m, sl_of = tm_of m, sl_lines = (\<lambda>_. []),
                 sl_static = (if grain = grain_test \<and> 0 < length (so_static src) then so_static src else []), sl_always = []\<rparr> in
      case selected_ids m grain want exclude (if evidence then exclude else []) of
        Inl err \<Rightarrow> Inl err
      | Inr (ids, lines) \<Rightarrow>
          (let sel = sel\<lparr>sl_lines := lines\<rparr> in
           if length ids = 0 then Inr sel
           else if grain = grain_unit then select_units m r sel exclude (sort ids)
           else select_tests m r sel (sort ids)))"

definition select_without :: "test_map \<Rightarrow> runner \<Rightarrow> string list \<Rightarrow> string \<Rightarrow> string \<Rightarrow> string \<Rightarrow> string list \<Rightarrow> bool \<Rightarrow>
    select_error + selection" where
  "select_without m r test_cmd repo_root code_path test_path exclude evidence =
     (case grain_of m of
        Inl err \<Rightarrow> Inl err
      | Inr grain \<Rightarrow>
          (case can_run r grain of
             Some err \<Rightarrow> Inl err
           | None \<Rightarrow>
               (case (if grain = grain_unit then some_unit_reported m else None) of
                  Some err \<Rightarrow> Inl err
                | None \<Rightarrow>
                    (let want = to_slash code_path; want_test = to_slash test_path in
                     case map_of (tm_sources m) want of
                       None \<Rightarrow>
                         if map_of (tm_sources m) want_test = None \<or> want_test = '''' then Inl (NeverSaw code_path test_path)
                         else Inl (NeverMeasured (int (length (tm_sources m))) code_path test_path)
                     | Some src \<Rightarrow> select_measured m r test_cmd repo_root grain want src exclude evidence))))"

definition select_excluding :: "test_map \<Rightarrow> runner \<Rightarrow> string list \<Rightarrow> string \<Rightarrow> string \<Rightarrow> string \<Rightarrow> string list \<Rightarrow> select_error + selection" where
  "select_excluding m r test_cmd repo_root code_path test_path exclude =
     select_without m r test_cmd repo_root code_path test_path exclude False"

definition select_leaving_out :: "test_map \<Rightarrow> runner \<Rightarrow> string list \<Rightarrow> string \<Rightarrow> string \<Rightarrow> string \<Rightarrow> string list \<Rightarrow> select_error + selection" where
  "select_leaving_out m r test_cmd repo_root code_path test_path exclude =
     select_without m r test_cmd repo_root code_path test_path exclude True"

definition select :: "test_map \<Rightarrow> runner \<Rightarrow> string list \<Rightarrow> string \<Rightarrow> string \<Rightarrow> string \<Rightarrow> select_error + selection" where
  "select m r test_cmd repo_root code_path test_path = select_excluding m r test_cmd repo_root code_path test_path []"

subsection \<open>Reading a selection\<close>

definition unreported_in :: "test_map \<Rightarrow> selection \<Rightarrow> nat" where
  "unreported_in m sel = length (filter (\<lambda>i. case map_of (tm_tests m) i of None \<Rightarrow> False | Some n \<Rightarrow> nd_err n \<noteq> '''') (sl_tests sel))"

definition first_unreported_reason :: "test_map \<Rightarrow> selection \<Rightarrow> string" where
  "first_unreported_reason m sel =
     (case find (\<lambda>i. case map_of (tm_tests m) i of None \<Rightarrow> False | Some n \<Rightarrow> nd_err n \<noteq> '''') (sl_tests sel) of
        None \<Rightarrow> '''' | Some i \<Rightarrow> nd_err (node_at m i))"

definition ran_red_in :: "test_map \<Rightarrow> selection \<Rightarrow> (tm_node \<Rightarrow> bool) \<Rightarrow> string list" where
  "ran_red_in m sel red = filter (\<lambda>i. case map_of (tm_tests m) i of None \<Rightarrow> False | Some n \<Rightarrow> nd_err n \<noteq> '''' \<and> red n) (sl_tests sel)"

definition narrowable_by_line :: "selection \<Rightarrow> bool" where
  \<comment> \<open>with no lines, or no tests, the loop finds nothing\<close>
  "narrowable_by_line s = list_ex (\<lambda>t. 0 < length (sl_lines s t)) (sl_tests s)"

datatype span_rule = RuleLines | RuleStatic | RuleUnreached | RuleFile

definition span_reach :: "selection \<Rightarrow> line_range \<Rightarrow> string \<Rightarrow> int" where
  "span_reach sel spn i = sum_list (map (\<lambda>r.
      let lo = max (lr_start r) (lr_start spn); hi = min (lr_end r) (lr_end spn) in if lo \<le> hi then hi - lo + 1 else 0) (sl_lines sel i))"

definition sort_by_span_coverage :: "string list \<Rightarrow> selection \<Rightarrow> line_range \<Rightarrow> string list" where
  \<comment> \<open>the comparison is a total order on distinct ids: more lines first, then the smaller id\<close>
  "sort_by_span_coverage ids sel spn = sort_key (\<lambda>i. (- span_reach sel spn i, i)) ids"

definition add_always :: "string list \<Rightarrow> string list \<Rightarrow> string list" where
  "add_always always ids = fold (\<lambda>i ids. if i \<notin> set ids then ids @ [i] else ids) always ids"

definition for_span :: "selection \<Rightarrow> runner \<Rightarrow> line_range \<Rightarrow> string list \<times> string list \<times> span_rule" where
  "for_span sel r spn =
     (let file = (\<lambda>ru. (sl_cmd sel, sl_tests sel, ru)) in
      if is_zero_range spn \<or> \<not> narrowable_by_line sel then file RuleFile
      else if list_ex (\<lambda>s. overlaps s spn) (sl_static sel) then file RuleStatic
      else
        (let ids = filter (\<lambda>i. list_ex (\<lambda>rg. overlaps rg spn) (sl_lines sel i)) (sl_tests sel) in
         if length ids = 0 then file RuleUnreached
         else
           (let ids = add_always (sl_always sel) (sort_by_span_coverage ids sel spn) in
            if argv_len ids > max_argv \<and> rn_test_unit r = None then file RuleFile
            else
              (let ids = (case rn_test_unit r of
                     Some unit_of \<Rightarrow> if argv_len ids > max_argv then sorted_keys (map unit_of ids) else ids
                   | None \<Rightarrow> ids) in
               if sl_base sel = None \<and> length (sl_cmd sel) < length (sl_tests sel) then file RuleFile
               else
                 (let base = (case sl_base sel of
                        Some b \<Rightarrow> b | None \<Rightarrow> take (length (sl_cmd sel) - length (sl_tests sel)) (sl_cmd sel)) in
                  case (case rn_tests_cmd r of None \<Rightarrow> None | Some f \<Rightarrow> f base ids) of
                    None \<Rightarrow> file RuleFile
                  | Some out \<Rightarrow> (out, ids, RuleLines))))))"

subsection \<open>The authored test\<close>

definition authored_test_cmd :: "test_map \<Rightarrow> selection \<Rightarrow> runner \<Rightarrow> string list \<Rightarrow> string \<Rightarrow> string \<Rightarrow> select_error + string list" where
  "authored_test_cmd m sel r test_cmd repo_root authored =
     (case grain_of m of
        Inl err \<Rightarrow> Inl err
      | Inr grain \<Rightarrow>
          (case can_run r grain of
             Some err \<Rightarrow> Inl err
           | None \<Rightarrow>
               if grain = grain_unit
               then (case rn_unit_for_file r of
                       None \<Rightarrow> Inl (NoUnitForFile authored)
                     | Some f \<Rightarrow>
                         (case f repo_root authored of
                            None \<Rightarrow> Inl (NoUnitHolds authored)
                          | Some u \<Rightarrow>
                              (let units = (if u \<in> set (sl_tests sel) then sl_tests sel else sl_tests sel @ [u]) in
                               case units_cmd m r test_cmd (sort units) False [] of
                                 Inl err \<Rightarrow> Inl err
                               | Inr (cmd, _) \<Rightarrow> Inr cmd)))
               else
                 (let base = (if length (sl_tests sel) = 0
                              then (case sl_base sel of None \<Rightarrow> test_cmd | Some b \<Rightarrow> b) else sl_cmd sel) in
                  case (case rn_tests_cmd r of None \<Rightarrow> None | Some f \<Rightarrow> f base [authored]) of
                    None \<Rightarrow> Inl (RunnerRefusesAuthored authored)
                  | Some out \<Rightarrow> Inr (out @ (case rn_carry_args r of None \<Rightarrow> [] | Some f \<Rightarrow> f test_cmd)))))"

definition with_authored_test :: "test_map \<Rightarrow> selection \<Rightarrow> runner \<Rightarrow> string list \<Rightarrow> string \<Rightarrow> string \<Rightarrow> string list option" where
  "with_authored_test m sel r test_cmd repo_root authored =
     (case authored_test_cmd m sel r test_cmd repo_root authored of Inl _ \<Rightarrow> None | Inr cmd \<Rightarrow> Some cmd)"

end
