(* ===== verification/Testmap_Properties.thy ===== *)
theory Testmap_Properties
  imports Testmap_Select
begin

section \<open>What a selection runs\<close>

text \<open>
  The set of nodes the two loops of \<^verbatim>\<open>selectedIDs\<close> collect, the closure over units a command would also run, and from them: a unit
  selection is exactly the evidence, the unreported units and what the command drags in; no command exceeds what one shell argument
  carries; narrowing to a span loses no test that reaches it; and the summary of uncovered files agrees with the engine.
\<close>

subsection \<open>The nodes collected\<close>

definition evidence_nodes :: "test_map \<Rightarrow> string \<Rightarrow> string \<Rightarrow> string set" where
  \<comment> \<open>the nodes with an edge to the file that selects\<close>
  "evidence_nodes m grain want = ed_test ` {e \<in> set (tm_edges m). ed_source e = want \<and> selecting grain e}"

lemma edge_loop_Inr:
  "edge_loop m g want dr es p = Inr q \<longleftrightarrow>
     (\<forall>e\<in>set es. \<exists>n. map_of (tm_tests m) (ed_test e) = Some n \<and> nd_grain n = g) \<and> q = fold (pick_edge g dr) es p"
  by (induction es arbitrary: p) (auto split: option.splits)

definition pick_inv :: "string list \<Rightarrow> pick \<Rightarrow> bool" where
  "pick_inv dr p \<longleftrightarrow> distinct (pk_ids p) \<and> set (pk_ids p) = set (pk_seen p) - set dr \<and> (pk_edges p = 0 \<longleftrightarrow> pk_ids p = []) \<and>
     (pk_dropped p = 0 \<longleftrightarrow> set (pk_seen p) \<inter> set dr = {})"

lemma pick_edge_inv: "pick_inv dr p \<Longrightarrow> pick_inv dr (pick_edge g dr e p)"
  by (auto simp: pick_inv_def pick_edge_def Let_def)

lemma pick_edge_seen: "set (pk_seen (pick_edge g dr e p)) = set (pk_seen p) \<union> (if selecting g e then {ed_test e} else {})"
  by (auto simp: pick_edge_def Let_def)

lemma pick_edge_lines:
  "pk_lines (pick_edge g dr e p) i = pk_lines p i @
     (if i = ed_test e \<and> g = grain_test \<and> i \<notin> set dr then ed_lines e else [])"
  by (auto simp: pick_edge_def selecting_def Let_def)

lemma fold_pick_edge:
  "pick_inv dr p \<Longrightarrow> pick_inv dr (fold (pick_edge g dr) es p) \<and>
     set (pk_seen (fold (pick_edge g dr) es p)) = set (pk_seen p) \<union> ed_test ` {e \<in> set es. selecting g e} \<and>
     pk_lines (fold (pick_edge g dr) es p) i = pk_lines p i @
       concat (map ed_lines (filter (\<lambda>e. ed_test e = i \<and> g = grain_test \<and> i \<notin> set dr) es))"
proof (induction es arbitrary: p)
  case (Cons e es)
  show ?case using Cons.IH [OF pick_edge_inv [OF Cons.prems], of g e]
    by (auto simp: pick_edge_seen pick_edge_lines)
qed simp

lemma fold_add_unreported:
  assumes "distinct (pk_ids p)" and "set (pk_ids p) \<subseteq> set (pk_seen p)"
  shows "distinct (pk_ids (fold (add_unreported ex) us p)) \<and>
     set (pk_ids (fold (add_unreported ex) us p)) = set (pk_ids p) \<union> (set us - set (pk_seen p) - set ex) \<and>
     pk_lines (fold (add_unreported ex) us p) = pk_lines p \<and> pk_edges (fold (add_unreported ex) us p) = pk_edges p \<and>
     pk_dropped (fold (add_unreported ex) us p) = pk_dropped p"
  using assms
proof (induction us arbitrary: p)
  case (Cons u us)
  have "distinct (pk_ids (add_unreported ex u p))" "set (pk_ids (add_unreported ex u p)) \<subseteq> set (pk_seen (add_unreported ex u p))"
    using Cons.prems by (auto simp: add_unreported_def)
  from Cons.IH [OF this] show ?case by (auto simp: add_unreported_def)
qed simp

lemma set_unreported: "set (unreported m) = {i. \<exists>n. (i, n) \<in> set (tm_tests m) \<and> nd_err n \<noteq> ''''}"
  by (force simp: unreported_def)

definition chosen :: "test_map \<Rightarrow> string \<Rightarrow> string \<Rightarrow> string list \<Rightarrow> string list \<Rightarrow> string set" where
  "chosen m grain want ex dr = (evidence_nodes m grain want - set dr) \<union> (set (unreported m) - set ex)"

definition lines_of :: "test_map \<Rightarrow> string \<Rightarrow> string \<Rightarrow> line_range list" where
  \<comment> \<open>the lines of the file that the map says the test executed\<close>
  "lines_of m want i = concat (map ed_lines (filter (\<lambda>e. ed_source e = want \<and> ed_test e = i) (tm_edges m)))"

lemma selected_ids_Inr:
  assumes "selected_ids m g want ex dr = Inr (ids, lines)" and "set dr \<subseteq> set ex"
  shows "distinct ids" and "set ids = chosen m g want ex dr"
    and "lines = (\<lambda>i. if g = grain_test \<and> i \<notin> set dr then lines_of m want i else [])"
    and "\<forall>e\<in>set (tm_edges m). ed_source e = want \<longrightarrow> (\<exists>n. map_of (tm_tests m) (ed_test e) = Some n \<and> nd_grain n = g)"
proof -
  let ?start = "\<lparr>pk_seen = [], pk_ids = [], pk_edges = 0, pk_dropped = 0, pk_lines = (\<lambda>_. [])\<rparr> :: pick"
  let ?p = "fold (pick_edge g dr) (edges_to m want) ?start"
  let ?q = "fold (add_unreported ex) (unreported m) ?p"
  have p0: "pick_inv dr ?start" by (simp add: pick_inv_def)
  note p = fold_pick_edge [OF p0, of g "edges_to m want"]
  obtain p1 where p1: "edge_loop m g want dr (edges_to m want) ?start = Inr p1"
    using assms(1) by (cases "edge_loop m g want dr (edges_to m want) ?start") (simp_all add: selected_ids_def)
  then have ok: "\<forall>e\<in>set (edges_to m want). \<exists>n. map_of (tm_tests m) (ed_test e) = Some n \<and> nd_grain n = g" and "p1 = ?p"
    by (simp_all add: edge_loop_Inr)
  then have q: "ids = pk_ids ?q" "lines = pk_lines ?q"
    using assms(1) p1 by (auto simp: selected_ids_def Let_def split: if_splits)
  have "pick_inv dr ?p" using p by (rule conjunct1)
  then have inv: "distinct (pk_ids ?p)" "set (pk_ids ?p) = set (pk_seen ?p) - set dr" by (simp_all add: pick_inv_def)
  then have "set (pk_ids ?p) \<subseteq> set (pk_seen ?p)" by blast
  note u = fold_add_unreported [OF inv(1) this, of ex "unreported m"]
  have seen: "set (pk_seen ?p) = evidence_nodes m g want" using p by (auto simp: evidence_nodes_def edges_to_def)
  show "distinct ids" using u q by simp
  show "set ids = chosen m g want ex dr" using u q inv(2) seen assms(2) by (auto simp: chosen_def)
  show "lines = (\<lambda>i. if g = grain_test \<and> i \<notin> set dr then lines_of m want i else [])"
    using u q p by (auto simp: lines_of_def edges_to_def)
  show "\<forall>e\<in>set (tm_edges m). ed_source e = want \<longrightarrow> (\<exists>n. map_of (tm_tests m) (ed_test e) = Some n \<and> nd_grain n = g)"
    using ok by (simp add: edges_to_def)
qed

lemma selected_ids_refuses:
  assumes "\<forall>e\<in>set (tm_edges m). ed_source e = want \<longrightarrow> (\<exists>n. map_of (tm_tests m) (ed_test e) = Some n \<and> nd_grain n = g)"
  shows "\<exists>x. selected_ids m g want ex [] = Inr x"
proof -
  let ?start = "\<lparr>pk_seen = [], pk_ids = [], pk_edges = 0, pk_dropped = 0, pk_lines = (\<lambda>_. [])\<rparr> :: pick"
  let ?p = "fold (pick_edge g []) (edges_to m want) ?start"
  have "pick_inv [] ?start" by (simp add: pick_inv_def)
  then have "pick_inv [] ?p" using fold_pick_edge [of "[]" ?start g "edges_to m want"] by blast
  then have p: "distinct (pk_ids ?p)" "set (pk_ids ?p) \<subseteq> set (pk_seen ?p)" "pk_dropped ?p = 0" by (auto simp: pick_inv_def)
  have "edge_loop m g want [] (edges_to m want) ?start = Inr ?p" using assms by (simp add: edge_loop_Inr edges_to_def)
  moreover have "pk_dropped (fold (add_unreported ex) (unreported m) ?p) = 0"
    using p fold_add_unreported [OF p(1,2), of ex "unreported m"] by simp
  ultimately show ?thesis by (simp add: selected_ids_def Let_def)
qed

subsection \<open>The closure over units a command would also run\<close>

lemma coruns_unnamed_None:
  "coruns_unnamed m r us = None \<longleftrightarrow>
     (\<forall>f. rn_units_coruns r = Some f \<longrightarrow> (\<forall>(i, n)\<in>set (tm_tests m). nd_grain n = grain_unit \<and> f us i \<longrightarrow> i \<in> set us))"
  unfolding coruns_unnamed_def by (cases "rn_units_coruns r") (auto simp: find_None_iff)

definition dragged_in :: "test_map \<Rightarrow> runner \<Rightarrow> string list \<Rightarrow> string list \<Rightarrow> string \<Rightarrow> bool" where
  \<comment> \<open>a listed unit, not left out, that a run of some of the units would also run\<close>
  "dragged_in m r ex us i \<longleftrightarrow> i \<notin> set ex \<and> (\<exists>n. (i, n) \<in> set (tm_tests m) \<and> nd_grain n = grain_unit) \<and>
     (\<exists>f ws. rn_units_coruns r = Some f \<and> set ws \<subseteq> set us \<and> i \<notin> set ws \<and> f ws i)"

lemma dragged_in_mono: "dragged_in m r ex us i \<Longrightarrow> set us \<subseteq> set vs \<Longrightarrow> dragged_in m r ex vs i"
  unfolding dragged_in_def by blast

lemma close_units_Inr:
  "close_units m r c ex us = Inr vs \<Longrightarrow>
     set us \<subseteq> set vs \<and> coruns_unnamed m r vs = None \<and> (distinct us \<longrightarrow> distinct vs) \<and> (sorted us \<longrightarrow> sorted vs) \<and>
     (\<forall>i\<in>set vs - set us. dragged_in m r ex vs i)"
proof (induction m r c ex us arbitrary: vs rule: close_units.induct)
  case (1 m r c ex us)
  show ?case
  proof (cases "coruns_unnamed m r us")
    case None
    then show ?thesis using "1.prems" by (simp add: close_units.simps)
  next
    case (Some i)
    then have c: "c" "i \<notin> set ex" and vs: "close_units m r c ex (sort (us @ [i])) = Inr vs"
      using "1.prems" by (auto simp: close_units.simps [of m r c ex us] split: if_splits)
    note IH = "1.IH" [OF Some _ c(2) vs] and i = coruns_unnamedD [OF Some]
    have "dragged_in m r ex us i" using i c unfolding dragged_in_def by blast
    moreover have sub: "set us \<subseteq> set vs" using IH c by auto
    ultimately have "dragged_in m r ex vs i" by (rule dragged_in_mono)
    then show ?thesis using IH i c sub by auto
  qed
qed

lemma units_cmd_Inr:
  assumes "units_cmd m r argv us c ex = Inr (cmd, vs)"
  shows "close_units m r c ex us = Inr vs" and "argv_len vs \<le> max_command_bytes"
    and "\<exists>f. rn_units_cmd r = Some f \<and> f argv vs = Some cmd"
  using assms by (auto simp: units_cmd_def split: sum.splits if_splits option.splits)

subsection \<open>The cases of a selection\<close>

definition start_selection :: "test_map \<Rightarrow> runner \<Rightarrow> string list \<Rightarrow> string \<Rightarrow> string \<Rightarrow> tm_source \<Rightarrow> (string \<Rightarrow> line_range list) \<Rightarrow> selection" where
  \<comment> \<open>the selection before any test is named\<close>
  "start_selection m r tc rd g src lines =
     \<lparr>sl_base = (case rn_collection_base r of None \<Rightarrow> Some tc | Some f \<Rightarrow> f tc rd), sl_cmd = [], sl_tests = [],
      sl_method = tm_method m, sl_of = tm_of m, sl_lines = lines,
      sl_static = (if g = grain_test then so_static src else []), sl_always = []\<rparr>"

lemma start_selection_simps [simp]:
  "sl_cmd (start_selection m r tc rd g src lines) = []" "sl_tests (start_selection m r tc rd g src lines) = []"
  "sl_lines (start_selection m r tc rd g src lines) = lines" "sl_always (start_selection m r tc rd g src lines) = []"
  "sl_static (start_selection m r tc rd g src lines) = (if g = grain_test then so_static src else [])"
  by (simp_all add: start_selection_def)

lemma select_without_Inr:
  assumes "select_without m r tc rd code test ex evidence = Inr sel"
  obtains g src ids lines where "grain_of m = Inr g" and "map_of (tm_sources m) code = Some src"
    and "selected_ids m g code ex (if evidence then ex else []) = Inr (ids, lines)"
    and "if ids = [] then sel = start_selection m r tc rd g src lines
         else if g = grain_unit then select_units m r (start_selection m r tc rd g src lines) ex (sort ids) = Inr sel
         else select_tests m r (start_selection m r tc rd g src lines) (sort ids) = Inr sel"
proof -
  from assms obtain g where g: "grain_of m = Inr g" by (auto simp: select_without_def split: sum.splits)
  then have can: "can_run r g = None" using assms by (auto simp: select_without_def split: option.splits)
  obtain src where src: "map_of (tm_sources m) code = Some src"
    using assms g can by (auto simp: select_without_def Let_def to_slash_def split: option.splits if_splits)
  have sel: "select_measured m r tc rd g code src ex evidence = Inr sel"
    using assms g can src by (auto simp: select_without_def Let_def to_slash_def split: option.splits if_splits)
  then obtain ids lines where ids: "selected_ids m g code ex (if evidence then ex else []) = Inr (ids, lines)"
    by (auto simp: select_measured_def Let_def split: sum.splits)
  have static: "(if g = grain_test \<and> 0 < length (so_static src) then so_static src else []) = (if g = grain_test then so_static src else [])"
    by auto
  show ?thesis
    by (rule that [OF g src ids]) (use sel ids static in \<open>simp add: select_measured_def start_selection_def Let_def split: if_splits\<close>)
qed

lemma argv_len_mono:
  assumes "distinct xs" and "distinct ys" and "set xs \<subseteq> set ys"
  shows "argv_len xs \<le> argv_len ys"
  using assms by (auto simp: argv_len_def sum_list_distinct_conv_sum_set intro!: sum_mono2)

subsection \<open>A unit selection is the evidence and what it drags in\<close>

lemma grain_of_unit [simp]: "tm_method m = method_unit_evidence \<Longrightarrow> grain_of m = Inr grain_unit"
  by (simp add: grain_of_def)

lemma grain_of_test [simp]: "tm_method m = method_coverage_context \<Longrightarrow> grain_of m = Inr grain_test"
  by (simp add: grain_of_def)

text \<open>
  C16. A unit selection runs exactly what it says. Let \<open>N\<close> be the units whose evidence says they executed the file, loaded it or could not
  count it, less those left out on purpose, together with every unreported unit that was not excluded. If \<open>N\<close> is empty nothing runs: the file
  is uncovered. Otherwise the units run contain \<open>N\<close>, are sorted and distinct, and everything else in them is a listed unit that a run of
  some of them would also run and that was not excluded; no listed unit outside them would be run by the command; and the command is
  the runner's command for exactly these units.
\<close>

theorem unit_selection_exact:
  assumes "tm_method m = method_unit_evidence"
    and "select_without m r tc rd code test ex evidence = Inr sel"
  shows "let N = chosen m grain_unit code ex (if evidence then ex else []) in
     (N = {} \<longrightarrow> sl_tests sel = [] \<and> sl_cmd sel = []) \<and>
     N \<subseteq> set (sl_tests sel) \<and> distinct (sl_tests sel) \<and> sorted (sl_tests sel) \<and>
     (\<forall>i\<in>set (sl_tests sel) - N. dragged_in m r ex (sl_tests sel) i) \<and>
     (N \<noteq> {} \<longrightarrow>
        (\<forall>f. rn_units_coruns r = Some f \<longrightarrow>
           (\<forall>(i, n)\<in>set (tm_tests m). nd_grain n = grain_unit \<and> f (sl_tests sel) i \<longrightarrow> i \<in> set (sl_tests sel))) \<and>
        (\<exists>f. rn_units_cmd r = Some f \<and> f (as_slice (sl_base sel)) (sl_tests sel) = Some (sl_cmd sel)))"
proof -
  from assms(2) obtain g src ids lines where g: "grain_of m = Inr g" and "map_of (tm_sources m) code = Some src"
    and ids': "selected_ids m g code ex (if evidence then ex else []) = Inr (ids, lines)"
    and sel': "if ids = [] then sel = start_selection m r tc rd g src lines
         else if g = grain_unit then select_units m r (start_selection m r tc rd g src lines) ex (sort ids) = Inr sel
         else select_tests m r (start_selection m r tc rd g src lines) (sort ids) = Inr sel" by (rule select_without_Inr)
  have g: "g = grain_unit" using g assms(1) by simp
  let ?s = "start_selection m r tc rd grain_unit src lines"
  note ids = ids' [unfolded g] and sel = sel' [unfolded g, simplified]
  note N = selected_ids_Inr(1,2) [OF ids]
  show ?thesis
  proof (cases "ids = []")
    case True
    then show ?thesis using sel N by (cases evidence) (simp_all add: Let_def)
  next
    case False
    then obtain cmd us where u: "units_cmd m r (as_slice (sl_base ?s)) (sort ids) True ex = Inr (cmd, us)"
        "sel = ?s\<lparr>sl_tests := us, sl_cmd := cmd\<rparr>"
      using sel by (auto simp: select_units_def split: sum.splits)
    note cl = close_units_Inr [OF units_cmd_Inr(1) [OF u(1)]]
    show ?thesis using False cl N units_cmd_Inr(3) [OF u(1)]
      by (cases evidence) (auto simp: u(2) coruns_unnamed_None Let_def)
  qed
qed

subsection \<open>What narrowing to a span keeps\<close>

lemma select_tests_Inr:
  assumes "select_tests m r s0 ids = Inr sel" and "sl_always s0 = []"
  obtains (plain) "argv_len ids \<le> max_argv" and "sl_tests sel = ids" and "sl_lines sel = sl_lines s0" and "sl_static sel = sl_static s0"
      and "sl_always sel = filter (\<lambda>i. nd_err (node_at m i) \<noteq> '''') ids"
    | (widened) us where "widen_by_node m ids = Inr us" and "argv_len us \<le> max_command_bytes" and "sl_tests sel = us" and "sl_lines sel = (\<lambda>_. [])"
  using assms by (auto simp: select_tests_def run_tests_def Let_def split: if_splits sum.splits option.splits)

lemma not_narrowable: "sl_lines sel = (\<lambda>_. []) \<Longrightarrow> for_span sel r spn = (sl_cmd sel, sl_tests sel, RuleFile)"
  by (simp add: for_span_def narrowable_by_line_def list_ex_iff)

lemma add_always_spec:
  "distinct ids \<Longrightarrow> distinct (add_always al ids) \<and> set (add_always al ids) = set ids \<union> set al"
  unfolding add_always_def by (induction al arbitrary: ids) auto

definition narrowed :: "selection \<Rightarrow> line_range \<Rightarrow> string list" where
  \<comment> \<open>the ids \<^verbatim>\<open>ForSpan\<close> narrows to, before it may widen them to their units\<close>
  "narrowed sel spn = add_always (sl_always sel) (sort_by_span_coverage
     (filter (\<lambda>i. list_ex (\<lambda>rg. overlaps rg spn) (sl_lines sel i)) (sl_tests sel)) sel spn)"

lemma narrowed_spec:
  assumes "distinct (sl_tests sel)" and "set (sl_always sel) \<subseteq> set (sl_tests sel)"
  shows "distinct (narrowed sel spn)"
    and "set (narrowed sel spn) = {i \<in> set (sl_tests sel). \<exists>rg\<in>set (sl_lines sel i). overlaps rg spn} \<union> set (sl_always sel)"
    and "argv_len (narrowed sel spn) \<le> argv_len (sl_tests sel)"
proof -
  let ?ids = "filter (\<lambda>i. list_ex (\<lambda>rg. overlaps rg spn) (sl_lines sel i)) (sl_tests sel)"
  have "distinct (sort_by_span_coverage ?ids sel spn)" using assms by (simp add: sort_by_span_coverage_def)
  note a = add_always_spec [OF this, of "sl_always sel"]
  show d: "distinct (narrowed sel spn)" using a by (simp add: narrowed_def)
  show s: "set (narrowed sel spn) = {i \<in> set (sl_tests sel). \<exists>rg\<in>set (sl_lines sel i). overlaps rg spn} \<union> set (sl_always sel)"
    using a by (auto simp: narrowed_def sort_by_span_coverage_def list_ex_iff)
  then show "argv_len (narrowed sel spn) \<le> argv_len (sl_tests sel)" using assms by (intro argv_len_mono [OF d]) auto
qed

lemma for_span_cases:
  assumes "distinct (sl_tests sel)" and "set (sl_always sel) \<subseteq> set (sl_tests sel)" and "argv_len (sl_tests sel) \<le> max_argv"
  shows "for_span sel r spn = (sl_cmd sel, sl_tests sel, snd (snd (for_span sel r spn))) \<and> snd (snd (for_span sel r spn)) \<noteq> RuleLines \<or>
     snd (for_span sel r spn) = (narrowed sel spn, RuleLines)"
proof -
  have "\<not> max_argv < argv_len (narrowed sel spn)" using narrowed_spec(3) [OF assms(1,2), of spn] assms(3) by simp
  then show ?thesis
    unfolding for_span_def narrowed_def [symmetric] Let_def by (auto split: option.splits)
qed

lemma widen_loop_Inr: "widen_loop m n ids us = Inr vs \<Longrightarrow> vs = sorted_keys (us @ map (\<lambda>i. nd_unit (node_at m i)) ids)"
  by (induction ids arbitrary: us) (fastforce simp: Let_def split: if_splits)+

lemma unit_selection_lines:
  assumes "tm_method m = method_unit_evidence" and "select_without m r tc rd code test ex evidence = Inr sel"
  shows "sl_lines sel = (\<lambda>_. [])" and "argv_len (sl_tests sel) \<le> max_command_bytes"
proof -
  from assms(2) obtain g src ids lines where g: "grain_of m = Inr g" and "map_of (tm_sources m) code = Some src"
    and ids: "selected_ids m g code ex (if evidence then ex else []) = Inr (ids, lines)"
    and sel: "if ids = [] then sel = start_selection m r tc rd g src lines
         else if g = grain_unit then select_units m r (start_selection m r tc rd g src lines) ex (sort ids) = Inr sel
         else select_tests m r (start_selection m r tc rd g src lines) (sort ids) = Inr sel" by (rule select_without_Inr)
  have g: "g = grain_unit" using g assms(1) by simp
  have "lines = (\<lambda>_. [])" using selected_ids_Inr(3) [OF ids] g by (cases evidence) simp_all
  then show "sl_lines sel = (\<lambda>_. [])" and "argv_len (sl_tests sel) \<le> max_command_bytes"
    using sel g units_cmd_Inr(2) by (auto simp: select_units_def argv_len_def max_command_bytes_def split: if_splits sum.splits)
qed

lemma test_selection_cases:
  assumes "tm_method m = method_coverage_context" and "select_without m r tc rd code test ex evidence = Inr sel"
  obtains (plain) "distinct (sl_tests sel)" and "set (sl_tests sel) = chosen m grain_test code ex (if evidence then ex else [])"
      and "argv_len (sl_tests sel) \<le> max_argv"
      and "sl_lines sel = (\<lambda>i. if i \<in> set (if evidence then ex else []) then [] else lines_of m code i)"
      and "sl_always sel = filter (\<lambda>i. nd_err (node_at m i) \<noteq> '''') (sl_tests sel)"
    | (widened) "sl_lines sel = (\<lambda>_. [])" and "argv_len (sl_tests sel) \<le> max_command_bytes"
      and "set (sl_tests sel) = (\<lambda>i. nd_unit (node_at m i)) ` chosen m grain_test code ex (if evidence then ex else [])"
proof -
  from assms(2) obtain g src ids lines where g: "grain_of m = Inr g" and "map_of (tm_sources m) code = Some src"
    and ids: "selected_ids m g code ex (if evidence then ex else []) = Inr (ids, lines)"
    and sel: "if ids = [] then sel = start_selection m r tc rd g src lines
         else if g = grain_unit then select_units m r (start_selection m r tc rd g src lines) ex (sort ids) = Inr sel
         else select_tests m r (start_selection m r tc rd g src lines) (sort ids) = Inr sel" by (rule select_without_Inr)
  have g: "g = grain_test" using g assms(1) by simp
  have sub: "set (if evidence then ex else []) \<subseteq> set ex" by auto
  note N = selected_ids_Inr(1-3) [OF ids sub, unfolded g]
  show thesis
  proof (cases "ids = []")
    case True
    then show thesis using sel N g by (intro plain) (auto simp: argv_len_def max_argv_def)
  next
    case False
    then have "select_tests m r (start_selection m r tc rd g src lines) (sort ids) = Inr sel" using sel g by simp
    then show thesis
    proof (cases rule: select_tests_Inr [OF _ start_selection_simps(4), consumes 1, case_names plain widened])
      case plain
      then show thesis using N by (intro that(1)) (auto simp: fun_eq_iff)
    next
      case (widened us)
      have "us = sorted_keys (map (\<lambda>i. nd_unit (node_at m i)) (sort ids))" using widen_loop_Inr widened(1) by (fastforce simp: widen_by_node_def)
      then have "set us = (\<lambda>i. nd_unit (node_at m i)) ` set ids" by (simp add: sorted_keys_def)
      then show thesis using N widened by (intro that(2)) auto
    qed
  qed
qed

text \<open>
  No command is longer than one shell argument carries. Whatever the grain, the exclusions and the retry, a selection the engine returns
  names at most 98,304 bytes of tests, and so does every narrowing of it to a span.
\<close>

theorem selection_bounded:
  assumes "select_without m r tc rd code test ex evidence = Inr sel"
  shows "argv_len (sl_tests sel) \<le> 98304 \<and> argv_len (fst (snd (for_span sel r spn))) \<le> 98304"
proof -
  from assms obtain g where "grain_of m = Inr g" by (rule select_without_Inr)
  then consider "tm_method m = method_unit_evidence" | "tm_method m = method_coverage_context"
    by (auto simp: grain_of_def split: if_splits)
  then show ?thesis
  proof cases
    case 1
    note u = unit_selection_lines [OF 1 assms]
    show ?thesis using u(2) not_narrowable [OF u(1), of r spn] by (simp add: max_command_bytes_def)
  next
    case 2
    then show ?thesis
    proof (cases rule: test_selection_cases [OF _ assms, consumes 1, case_names plain widened])
      case plain
      have al: "set (sl_always sel) \<subseteq> set (sl_tests sel)" using plain(5) by auto
      show ?thesis using for_span_cases [OF plain(1) al plain(3), of r spn] narrowed_spec(3) [OF plain(1) al, of spn] plain(3)
        by (auto simp: max_argv_def dest: arg_cong [where f = "\<lambda>x. fst (snd x)"])
    next
      case widened
      then show ?thesis using not_narrowable [OF widened(1), of r spn] by (simp add: max_command_bytes_def)
    qed
  qed
qed

subsection \<open>Narrowing keeps what reaches the span\<close>

lemma reaching_lines:
  "(\<exists>rg\<in>set (lines_of m code i). overlaps rg spn) \<longleftrightarrow>
     (\<exists>e\<in>set (tm_edges m). ed_source e = code \<and> ed_test e = i \<and> (\<exists>rg\<in>set (ed_lines e). overlaps rg spn))"
  by (auto simp: lines_of_def)

lemma for_span_unreached:
  assumes "snd (snd (for_span sel r spn)) = RuleUnreached" and "i \<in> set (sl_tests sel)" and "rg \<in> set (sl_lines sel i)"
  shows "\<not> overlaps rg spn"
proof (rule ccontr)
  assume "\<not> ?thesis"
  then have "filter (\<lambda>i. list_ex (\<lambda>rg. overlaps rg spn) (sl_lines sel i)) (sl_tests sel) \<noteq> []"
    using assms(2,3) by (auto simp: filter_empty_conv list_ex_iff)
  then have "snd (snd (for_span sel r spn)) \<noteq> RuleUnreached"
    by (simp add: for_span_def Let_def split: option.splits)
  with assms(1) show False by simp
qed

text \<open>
  C35. A mutant is never graded without a test that reaches it. Narrow a selection of tests to the span of a mutant. If the narrowing took
  place, the tests run are, each once, those of the selection whose recorded lines of the file overlap the span and those without
  line evidence of their own; otherwise the file's own selection runs unchanged. Either way every test whose recorded lines overlap
  the span runs, or the file it lives in does, and the label \<^verbatim>\<open>unreached\<close> is given only when the selection's lines can be read
  and none of them overlaps the span.
\<close>

theorem span_keeps_reaching:
  assumes "tm_method m = method_coverage_context" and "select m r tc rd code test = Inr sel"
    and "for_span sel r spn = (cmd, tests, ru)"
  shows "(ru = RuleLines \<longrightarrow> distinct tests \<and> set tests = {i \<in> set (sl_tests sel). nd_err (node_at m i) \<noteq> '''' \<or>
        (\<exists>e\<in>set (tm_edges m). ed_source e = code \<and> ed_test e = i \<and> (\<exists>rg\<in>set (ed_lines e). overlaps rg spn))}) \<and>
     (ru \<noteq> RuleLines \<longrightarrow> cmd = sl_cmd sel \<and> tests = sl_tests sel) \<and>
     (\<forall>e\<in>set (tm_edges m). ed_source e = code \<and> (\<exists>rg\<in>set (ed_lines e). overlaps rg spn) \<longrightarrow>
        ru \<noteq> RuleUnreached \<and> (ed_test e \<in> set tests \<or> nd_unit (node_at m (ed_test e)) \<in> set tests))"
proof -
  have edge: "ed_test e \<in> chosen m grain_test code [] []" if "e \<in> set (tm_edges m)" "ed_source e = code" for e
    using that by (auto simp: chosen_def evidence_nodes_def selecting_def)
  from assms(2) have "select_without m r tc rd code test [] False = Inr sel" by (simp add: select_def select_excluding_def)
  then show ?thesis
  proof (cases rule: test_selection_cases [OF assms(1), consumes 1, case_names plain widened])
    case plain
    have al: "set (sl_always sel) \<subseteq> set (sl_tests sel)" using plain(5) by auto
    have lines: "sl_lines sel = lines_of m code" using plain(4) by auto
    have narrow: "set (narrowed sel spn) = {i \<in> set (sl_tests sel). nd_err (node_at m i) \<noteq> '''' \<or>
        (\<exists>e\<in>set (tm_edges m). ed_source e = code \<and> ed_test e = i \<and> (\<exists>rg\<in>set (ed_lines e). overlaps rg spn))}"
      using narrowed_spec(2) [OF plain(1) al, of spn] plain(5) unfolding lines reaching_lines by auto
    have runs: "ed_test e \<in> set (sl_tests sel)" if "e \<in> set (tm_edges m)" "ed_source e = code" for e
      using edge [OF that] plain(2) by simp
    have label: "ru \<noteq> RuleUnreached" if "e \<in> set (tm_edges m)" "ed_source e = code" "rg \<in> set (ed_lines e)" "overlaps rg spn" for e rg
      using for_span_unreached [of sel r spn "ed_test e" rg] runs [OF that(1,2)] that assms(3) unfolding lines lines_of_def by auto
    from for_span_cases [OF plain(1) al plain(3), of r spn] show ?thesis
    proof
      assume "for_span sel r spn = (sl_cmd sel, sl_tests sel, snd (snd (for_span sel r spn))) \<and> snd (snd (for_span sel r spn)) \<noteq> RuleLines"
      then show ?thesis using assms(3) runs label by auto
    next
      assume "snd (for_span sel r spn) = (narrowed sel spn, RuleLines)"
      then have t: "tests = narrowed sel spn" "ru = RuleLines" using assms(3) by simp_all
      show ?thesis using t narrow narrowed_spec(1) [OF plain(1) al, of spn] runs by auto
    qed
  next
    case widened
    have "tests = sl_tests sel" "cmd = sl_cmd sel" "ru = RuleFile" using not_narrowable [OF widened(1), of r spn] assms(3) by auto
    then show ?thesis using edge widened(3) by auto
  qed
qed

subsection \<open>The summary of uncovered files\<close>

lemma chosen_empty_tests:
  assumes "select_without m r tc rd code test [] False = Inr sel" and "grain_of m = Inr g"
  shows "sl_tests sel = [] \<longleftrightarrow> chosen m g code [] [] = {}"
proof -
  have "tm_method m = method_unit_evidence \<and> g = grain_unit \<or> tm_method m = method_coverage_context \<and> g = grain_test"
    using assms(2) by (auto simp: grain_of_def split: if_splits)
  then show ?thesis
  proof (elim disjE conjE)
    assume u: "tm_method m = method_unit_evidence" "g = grain_unit"
    from assms(1) obtain g' src ids lines where g': "grain_of m = Inr g'" and "map_of (tm_sources m) code = Some src"
      and ids: "selected_ids m g' code [] (if False then [] else []) = Inr (ids, lines)"
      and sel: "if ids = [] then sel = start_selection m r tc rd g' src lines
           else if g' = grain_unit then select_units m r (start_selection m r tc rd g' src lines) [] (sort ids) = Inr sel
           else select_tests m r (start_selection m r tc rd g' src lines) (sort ids) = Inr sel" by (rule select_without_Inr)
    have "g' = grain_unit" using g' u by simp
    then have "sl_tests sel = [] \<longleftrightarrow> ids = []"
      using sel by (cases "ids = []") (auto simp: select_units_def split: sum.splits dest!: units_cmd_Inr(1) close_units_Inr)
    then show ?thesis using selected_ids_Inr(2) [OF ids] g' assms(2) by auto
  next
    assume "tm_method m = method_coverage_context" "g = grain_test"
    note t = this
    from t(1) assms(1) have "set (sl_tests sel) = chosen m grain_test code [] [] \<or>
        set (sl_tests sel) = (\<lambda>i. nd_unit (node_at m i)) ` chosen m grain_test code [] []"
      by (rule test_selection_cases) simp_all
    then show ?thesis using t(2) by (metis empty_is_image set_empty)
  qed
qed

lemma map_of_distinct: "distinct (map fst kvs) \<Longrightarrow> map_of kvs k = Some v \<longleftrightarrow> (k, v) \<in> set kvs"
  by (auto simp: map_of_eq_Some_iff)

lemma length_chosen:
  assumes "wf_map m" and "selected_ids m g p [] [] = Inr (ids, lines)"
  shows "length ids = length (unreported m) \<longleftrightarrow> evidence_nodes m g p \<subseteq> set (unreported m)"
proof -
  note ids = selected_ids_Inr(1,2) [OF assms(2)]
  have u: "distinct (unreported m)"
    using assms(1) by (simp add: wf_map_def unreported_def distinct_map_filter)
  have c: "set ids = evidence_nodes m g p \<union> set (unreported m)" using ids by (simp add: chosen_def)
  show ?thesis
  proof
    assume "length ids = length (unreported m)"
    then have "card (set ids) = card (set (unreported m))" using ids(1) u by (simp add: distinct_card)
    then have "set (unreported m) = set ids" using c by (intro card_subset_eq) (simp_all, metis List.finite_set finite_Un)
    then show "evidence_nodes m g p \<subseteq> set (unreported m)" using c by auto
  next
    assume "evidence_nodes m g p \<subseteq> set (unreported m)"
    then have "set ids = set (unreported m)" using c by auto
    then have "card (set ids) = card (set (unreported m))" by simp
    then show "length ids = length (unreported m)" using ids(1) u by (simp add: distinct_card)
  qed
qed

text \<open>
  The summary of a map and the grading agree. Take a measured file with executable statements and no import-time coverage, in a map
  with at least one node whose selection for the file succeeds. The summary lists the file as uncovered exactly when the selection runs no test at all, and as
  graded by unreported nodes only exactly when it runs some and no node that reported evidence selects the file.
\<close>

theorem uncovered_agrees:
  assumes "wf_map m" and "map_of (tm_sources m) p = Some src" and "so_has_statements src" and "\<not> so_has_static src"
    and "select m r tc rd p test = Inr sel"
  shows "(p \<in> set (fst (uncovered m)) \<longleftrightarrow> sl_tests sel = []) \<and>
     (p \<in> set (snd (uncovered m)) \<longleftrightarrow> sl_tests sel \<noteq> [] \<and>
        (\<forall>e\<in>set (tm_edges m). ed_source e = p \<and> (tm_method m = method_coverage_context \<or> ed_executed e \<noteq> 0 \<or> ed_loaded e \<or> ed_uncounted e \<noteq> '''')
           \<longrightarrow> nd_err (node_at m (ed_test e)) \<noteq> ''''))"
proof -
  from assms(5) have sel: "select_without m r tc rd p test [] False = Inr sel" by (simp add: select_def select_excluding_def)
  then obtain g ids lines where g: "grain_of m = Inr g" and ids: "selected_ids m g p [] [] = Inr (ids, lines)"
    by (rule select_without_Inr) simp
  note c = selected_ids_Inr(2) [OF ids]
  have src: "(p, src') \<in> set (tm_sources m) \<longleftrightarrow> src' = src" for src'
    using assms(1,2) map_of_distinct [of "tm_sources m" p src'] by (auto simp: wf_map_def)
  have 1: "p \<in> set (fst (uncovered m)) \<longleftrightarrow> ids = []"
    using g ids assms(3,4) by (force simp: uncovered_def Let_def src image_iff)
  have 2: "p \<in> set (snd (uncovered m)) \<longleftrightarrow> ids \<noteq> [] \<and> length ids = length (unreported m)"
    using g ids assms(3,4) by (force simp: uncovered_def Let_def src image_iff)
  have g': "g = grain_unit \<and> tm_method m = method_unit_evidence \<or> g = grain_test \<and> tm_method m = method_coverage_context"
    using g by (auto simp: grain_of_def split: if_splits)
  have node: "nd_err (node_at m (ed_test e)) \<noteq> '''' \<longleftrightarrow> ed_test e \<in> set (unreported m)"
    if e: "e \<in> set (tm_edges m)" "ed_source e = p" for e
  proof -
    obtain n where "map_of (tm_tests m) (ed_test e) = Some n" using selected_ids_Inr(4) [OF ids] e by auto
    moreover have "(ed_test e, n') \<in> set (tm_tests m) \<longleftrightarrow> map_of (tm_tests m) (ed_test e) = Some n'" for n'
      using assms(1) map_of_distinct [of "tm_tests m" "ed_test e" n'] by (simp add: wf_map_def)
    ultimately show ?thesis by (auto simp: set_unreported node_at_def)
  qed
  have "evidence_nodes m g p \<subseteq> set (unreported m) \<longleftrightarrow>
      (\<forall>e\<in>set (tm_edges m). ed_source e = p \<and> (tm_method m = method_coverage_context \<or> ed_executed e \<noteq> 0 \<or> ed_loaded e \<or> ed_uncounted e \<noteq> '''')
           \<longrightarrow> nd_err (node_at m (ed_test e)) \<noteq> '''')"
    using g' node by (auto simp: evidence_nodes_def selecting_def)
  then show ?thesis
    using 1 2 c length_chosen [OF assms(1) ids] chosen_empty_tests [OF sel g] by auto
qed

subsection \<open>Small maps\<close>

definition ex_node :: "string \<Rightarrow> string \<Rightarrow> string \<Rightarrow> string \<times> tm_node" where
  "ex_node grain i err = (i, \<lparr>nd_id = i, nd_grain = grain, nd_unit = (if grain = grain_unit then '''' else i @ ''.py''), nd_files = [], nd_err = err\<rparr>)"

definition ex_edge :: "string \<Rightarrow> string \<Rightarrow> line_range list \<Rightarrow> int \<Rightarrow> tm_edge" where
  "ex_edge t src rs n = \<lparr>ed_test = t, ed_source = src, ed_lines = rs, ed_executed = n, ed_loaded = False, ed_uncounted = ''''\<rparr>"

definition ex_map :: "string \<Rightarrow> (string \<times> tm_node) list \<Rightarrow> tm_edge list \<Rightarrow> test_map" where
  "ex_map method tests edges = \<lparr>tm_schema = 1, tm_lang = ''go'', tm_runner = ''go'', tm_command = [''t''], tm_scope = [], tm_tree = '''',
     tm_method = method, tm_of = 3, tm_sources = [(''f'', \<lparr>so_has_static = False, so_has_statements = True, so_static = []\<rparr>),
        (''g'', \<lparr>so_has_static = False, so_has_statements = True, so_static = []\<rparr>)],
     tm_tests = tests, tm_edges = edges, tm_note = ''''\<rparr>"

definition ex_units :: test_map where
  \<comment> \<open>\<open>a\<close> executes the file and a run of \<open>a\<close> also runs \<open>c\<close>; \<open>b\<close> reported nothing; \<open>d\<close> measured it and executed none of it\<close>
  "ex_units = ex_map method_unit_evidence
     [ex_node grain_unit ''a'' '''', ex_node grain_unit ''b'' ''timed out'', ex_node grain_unit ''c'' '''', ex_node grain_unit ''d'' '''']
     [ex_edge ''a'' ''f'' [] 4, ex_edge ''d'' ''f'' [] 0]"

definition ex_tests :: test_map where
  \<comment> \<open>\<open>s\<close> executes lines 1 to 3, \<open>t\<close> lines 5 to 6, \<open>u\<close> failed in the evidence run\<close>
  "ex_tests = ex_map method_coverage_context
     [ex_node grain_test ''s'' '''', ex_node grain_test ''t'' '''', ex_node grain_test ''u'' ''failed'']
     [ex_edge ''s'' ''f'' [\<lparr>lr_start = 1, lr_end = 3\<rparr>] 3, ex_edge ''t'' ''f'' [\<lparr>lr_start = 5, lr_end = 6\<rparr>] 2]"

definition ex_runner :: runner where
  "ex_runner = \<lparr>rn_id = ''go'', rn_collection_base = None, rn_tests_cmd = Some (\<lambda>b ids. Some (b @ ids)), rn_test_unit = None,
     rn_units_cmd = Some (\<lambda>b us. Some (b @ us)), rn_units_coruns = Some (\<lambda>us i. i = ''c'' \<and> ''a'' \<in> set us),
     rn_unit_for_file = None, rn_carry_args = None\<rparr>"

definition tests_of :: "select_error + selection \<Rightarrow> string list option" where
  "tests_of x = (case x of Inl _ \<Rightarrow> None | Inr s \<Rightarrow> Some (sl_tests s))"

lemma tests_ofD: "tests_of x = Some ts \<Longrightarrow> \<exists>s. x = Inr s \<and> sl_tests s = ts"
  by (auto simp: tests_of_def split: sum.splits)

lemma ex_units_selection: "tests_of (select_without ex_units ex_runner [''t''] '''' ''f'' '''' [] False) = Some [''a'', ''b'', ''c'']"
  by code_simp

lemma ex_units_chosen: "chosen ex_units grain_unit ''f'' [] [] = {''a'', ''b''}"
proof -
  have "map ed_test (filter (\<lambda>e. ed_source e = ''f'' \<and> selecting grain_unit e) (tm_edges ex_units)) = [''a'']" by code_simp
  then have "evidence_nodes ex_units grain_unit ''f'' = set [''a'']"
    unfolding evidence_nodes_def by (metis (no_types) set_map set_filter)
  moreover have "unreported ex_units = [''b'']" by code_simp
  ultimately show ?thesis by (auto simp: chosen_def)
qed

lemma ex_tests_narrowed:
  "(case select ex_tests ex_runner [''t''] '''' ''f'' '''' of Inl _ \<Rightarrow> False
     | Inr sel \<Rightarrow> for_span sel ex_runner \<lparr>lr_start = 6, lr_end = 6\<rparr> = ([''t'', ''t'', ''u''], [''t'', ''u''], RuleLines))"
  by code_simp

theorem unit_selection_exact_witness:
  "\<exists>sel. select_without ex_units ex_runner [''t''] '''' ''f'' '''' [] False = Inr sel \<and> sl_tests sel = [''a'', ''b'', ''c''] \<and>
     dragged_in ex_units ex_runner [] (sl_tests sel) ''c'' \<and> sl_cmd sel = [''t'', ''a'', ''b'', ''c'']"
proof -
  obtain sel where sel: "select_without ex_units ex_runner [''t''] '''' ''f'' '''' [] False = Inr sel" "sl_tests sel = [''a'', ''b'', ''c'']"
    using tests_ofD [OF ex_units_selection] by blast
  have m: "tm_method ex_units = method_unit_evidence" by (simp add: ex_units_def ex_map_def)
  have base: "as_slice (sl_base sel) = [''t'']"
    using sel(1) by (rule select_without_Inr) (auto simp: start_selection_def select_units_def select_tests_def run_tests_def Let_def
      ex_runner_def as_slice_def split: if_splits sum.splits option.splits)
  note u = unit_selection_exact [OF m sel(1), unfolded if_cancel ex_units_chosen Let_def]
  from u have "dragged_in ex_units ex_runner [] (sl_tests sel) ''c''" unfolding sel(2) by simp
  moreover from u have "sl_cmd sel = [''t'', ''a'', ''b'', ''c'']" unfolding sel(2) base by (simp add: ex_runner_def)
  ultimately show ?thesis using sel by blast
qed

theorem selection_bounded_witness:
  "\<exists>sel. select_without ex_units ex_runner [''t''] '''' ''f'' '''' [] False = Inr sel \<and> sl_tests sel = [''a'', ''b'', ''c''] \<and>
     argv_len (sl_tests sel) \<le> 98304"
  using tests_ofD [OF ex_units_selection] selection_bounded by blast

theorem span_keeps_reaching_witness:
  "\<exists>sel cmd tests. select ex_tests ex_runner [''t''] '''' ''f'' '''' = Inr sel \<and>
     for_span sel ex_runner \<lparr>lr_start = 6, lr_end = 6\<rparr> = (cmd, tests, RuleLines) \<and> distinct tests \<and> ''t'' \<in> set tests"
proof -
  obtain sel where sel: "select ex_tests ex_runner [''t''] '''' ''f'' '''' = Inr sel"
      "for_span sel ex_runner \<lparr>lr_start = 6, lr_end = 6\<rparr> = ([''t'', ''t'', ''u''], [''t'', ''u''], RuleLines)"
    using ex_tests_narrowed by (auto split: sum.splits)
  have m: "tm_method ex_tests = method_coverage_context" by (simp add: ex_tests_def ex_map_def)
  from span_keeps_reaching [OF m sel] have "distinct [''t'', ''u'']" by blast
  then show ?thesis using sel by auto
qed

theorem uncovered_agrees_witness:
  "\<exists>sel. select ex_units ex_runner [''t''] '''' ''f'' '''' = Inr sel \<and> ''f'' \<notin> set (fst (uncovered ex_units)) \<and> sl_tests sel \<noteq> []"
proof -
  obtain sel where sel: "select ex_units ex_runner [''t''] '''' ''f'' '''' = Inr sel" "sl_tests sel = [''a'', ''b'', ''c'']"
    using tests_ofD [OF ex_units_selection] by (auto simp: select_def select_excluding_def)
  have "wf_map ex_units" by (simp add: wf_map_def ex_units_def ex_map_def ex_node_def)
  moreover have "map_of (tm_sources ex_units) ''f'' = Some \<lparr>so_has_static = False, so_has_statements = True, so_static = []\<rparr>"
    by (simp add: ex_units_def ex_map_def)
  ultimately show ?thesis using uncovered_agrees [OF _ _ _ _ sel(1)] sel by auto
qed

end
