(* ===== verification/Mutant.thy ===== *)
theory Mutant
  imports Testmap
begin

section \<open>Mutants (internal/adequacy: score.go, dedupe.go, mutantset.go)\<close>

text \<open>
  A mutant is its hunk: a SEARCH anchor, its REPLACE, the lines of the original it occupies and the digest of the bytes it is an edit of.
  This theory holds the mutant, its application to a source (\<^verbatim>\<open>Mutant.Apply\<close>), the line span of a hunk, the identity that makes two
  mutants the same edit, and a recorded mutant set. The digest (SHA-256 in hexadecimal) is the parameter \<open>sha\<close>. Texts are byte
  strings; a Go map is the list of its entries. Error texts are constructors with their arguments.
\<close>

subsection \<open>Searching a string\<close>

fun str_index :: "string \<Rightarrow> string \<Rightarrow> nat option" where
  \<comment> \<open>\<^verbatim>\<open>strings.Index(s, p)\<close>; None for -1\<close>
  "str_index [] p = (if p = [] then Some 0 else None)"
| "str_index (c # s) p = (if has_prefix (c # s) p then Some 0 else map_option Suc (str_index s p))"

definition str_contains :: "string \<Rightarrow> string \<Rightarrow> bool" where
  "str_contains s p \<longleftrightarrow> str_index s p \<noteq> None"

definition occurs_at :: "string \<Rightarrow> string \<Rightarrow> nat \<Rightarrow> bool" where
  \<comment> \<open>the reference reading of an occurrence\<close>
  "occurs_at s p i \<longleftrightarrow> i \<le> length s \<and> has_prefix (drop i s) p"

abbreviation nl :: char where "nl \<equiv> CHR 0x0A"

definition newlines :: "string \<Rightarrow> nat" where
  \<comment> \<open>\<^verbatim>\<open>strings.Count(s, "\n")\<close>\<close>
  "newlines s = length (filter (\<lambda>c. c = nl) s)"

definition trim_suffix_nl :: "string \<Rightarrow> string" where
  \<comment> \<open>\<^verbatim>\<open>strings.TrimSuffix(s, "\n")\<close>\<close>
  "trim_suffix_nl s = (if has_suffix s [nl] then butlast s else s)"

subsection \<open>The mutant\<close>

record mutant =
  mu_id :: string
  mu_parent :: string
  mu_span :: line_range
  mu_search :: string
  mu_replace :: string

datatype apply_error =
    OtherSource string string string
  | ChangesNothing string
  | NoAnchor string
  | AnchorTwice string

definition is_whole_file :: "mutant \<Rightarrow> bool" where
  "is_whole_file m \<longleftrightarrow> mu_search m = []"

definition short_hex :: "string \<Rightarrow> string" where
  "short_hex h = (if length h \<le> 12 then h else take 12 h)"

definition apply_mutant :: "(string \<Rightarrow> string) \<Rightarrow> mutant \<Rightarrow> string \<Rightarrow> apply_error + string" where
  "apply_mutant sha m original =
     (if mu_parent m \<noteq> [] \<and> sha original \<noteq> mu_parent m
      then Inl (OtherSource (mu_id m) (short_hex (mu_parent m)) (short_hex (sha original)))
      else if is_whole_file m then Inr (mu_replace m)
      else if mu_search m = mu_replace m then Inl (ChangesNothing (mu_id m))
      else (case str_index original (mu_search m) of
              None \<Rightarrow> Inl (NoAnchor (mu_id m))
            | Some i \<Rightarrow>
                if str_contains (drop (i + 1) original) (mu_search m) then Inl (AnchorTwice (mu_id m))
                else Inr (take i original @ mu_replace m @ drop (i + length (mu_search m)) original)))"

subsection \<open>The lines of a hunk\<close>

definition zero_range :: line_range where
  "zero_range = \<lparr>lr_start = 0, lr_end = 0\<rparr>"

definition hunk_span :: "string \<Rightarrow> string \<Rightarrow> line_range" where
  "hunk_span original search =
     (if search = [] then zero_range
      else (case str_index original search of
              None \<Rightarrow> zero_range
            | Some i \<Rightarrow>
                (let start = int (newlines (take i original)) + 1;
                     finish = start + int (newlines (trim_suffix_nl search)) in
                 \<lparr>lr_start = start, lr_end = finish\<rparr>)))"

definition edit_span :: "string \<Rightarrow> string \<Rightarrow> string \<Rightarrow> line_range" where
  "edit_span original search replace =
     (let r = hunk_span original search in
      if \<not> is_zero_range r \<and> has_prefix search [nl] \<and> has_prefix replace [nl] \<and> lr_start r < lr_end r
      then r\<lparr>lr_start := lr_start r + 1\<rparr> else r)"

subsection \<open>The same edit\<close>

record mutant_identity =
  mi_span :: line_range
  mi_search :: string
  mi_replace :: string
  mi_parent :: string

definition identity_of :: "mutant \<Rightarrow> mutant_identity" where
  "identity_of m = \<lparr>mi_span = mu_span m, mi_search = mu_search m, mi_replace = mu_replace m, mi_parent = mu_parent m\<rparr>"

fun dedupe_loop :: "mutant_identity list \<Rightarrow> mutant list \<Rightarrow> nat \<Rightarrow> mutant list \<Rightarrow> mutant list \<times> nat" where
  "dedupe_loop seen kept collapsed [] = (kept, collapsed)"
| "dedupe_loop seen kept collapsed (m # ms) =
     (if identity_of m \<in> set seen then dedupe_loop seen kept (collapsed + 1) ms
      else dedupe_loop (identity_of m # seen) (kept @ [m]) collapsed ms)"

definition dedupe_mutants :: "mutant list \<Rightarrow> mutant list \<times> nat" where
  "dedupe_mutants ms = dedupe_loop [] [] 0 ms"

subsection \<open>A recorded mutant set\<close>

abbreviation mutant_set_format :: string where "mutant_set_format \<equiv> ''corral-mutants-2''"
abbreviation mutant_set_format_v1 :: string where "mutant_set_format_v1 \<equiv> ''corral-mutants-1''"

record recorded_mutant =
  rm_id :: string
  rm_span :: line_range
  rm_search :: string
  rm_replace :: string

record mutant_set_entry =
  me_parent :: string
  me_mutants :: "recorded_mutant list"

record mutant_set_file =
  mf_format :: string
  mf_files :: "(string \<times> mutant_set_entry) list"

record recorded_mutant_v1 =
  rv_id :: string
  rv_file :: string
  rv_span :: line_range

record mutant_set_entry_v1 =
  mv_parent :: string
  mv_mutants :: "recorded_mutant_v1 list"

record mutant_set_file_v1 =
  fv_format :: string
  fv_files :: "(string \<times> mutant_set_entry_v1) list"

definition upgrade_entry :: "mutant_set_entry_v1 \<Rightarrow> mutant_set_entry" where
  "upgrade_entry e = \<lparr>me_parent = mv_parent e,
     me_mutants = map (\<lambda>rm. \<lparr>rm_id = rv_id rm, rm_span = rv_span rm, rm_search = [], rm_replace = rv_file rm\<rparr>) (mv_mutants e)\<rparr>"

definition upgrade :: "mutant_set_file_v1 \<Rightarrow> mutant_set_file" where
  "upgrade v = \<lparr>mf_format = mutant_set_format_v1, mf_files = map (\<lambda>(p, e). (p, upgrade_entry e)) (fv_files v)\<rparr>"

datatype replay_error = NothingRecorded string | SourceChanged string string string

definition replayed :: "mutant_set_entry \<Rightarrow> recorded_mutant \<Rightarrow> mutant" where
  "replayed e rm = \<lparr>mu_id = rm_id rm, mu_parent = me_parent e, mu_span = rm_span rm, mu_search = rm_search rm, mu_replace = rm_replace rm\<rparr>"

definition mutants_for :: "(string \<Rightarrow> string) \<Rightarrow> mutant_set_file \<Rightarrow> string \<Rightarrow> string \<Rightarrow> replay_error + mutant list" where
  "mutants_for sha s path current =
     (case map_of (mf_files s) path of
        None \<Rightarrow> Inl (NothingRecorded path)
      | Some e \<Rightarrow>
          if sha current \<noteq> me_parent e then Inl (SourceChanged path (sha current) (me_parent e))
          else Inr (map (replayed e) (me_mutants e)))"

end
