(* ===== verification/Mutant_Properties.thy ===== *)
theory Mutant_Properties
  imports Mutant "HOL-Library.Sublist"
begin

section \<open>What applying a mutant and its span mean\<close>

text \<open>
  The first lemmas give \<^verbatim>\<open>strings.Index\<close> its reference reading; with them applying a mutant is the replacement of the one occurrence
  of its anchor, and the span of a hunk is shown to enclose every line the edit changes.
\<close>

subsection \<open>Index\<close>

lemma occurs_at_simps [simp]:
  "occurs_at s p 0 = has_prefix s p"
  "occurs_at (c # s) p (Suc i) = occurs_at s p i"
  by (auto simp: occurs_at_def)

lemma occurs_at_Nil [simp]: "occurs_at [] p i \<longleftrightarrow> i = 0 \<and> p = []"
  by (cases i) (auto simp: occurs_at_def has_prefix_def)

lemma occurs_at_iff: "occurs_at s p i \<longleftrightarrow> (\<exists>a b. s = a @ p @ b \<and> length a = i)"
proof
  assume "occurs_at s p i"
  then obtain b where b: "drop i s = p @ b" and "i \<le> length s" by (auto simp: occurs_at_def has_prefix_iff)
  then have "s = take i s @ p @ b \<and> length (take i s) = i" using append_take_drop_id [of i s] by simp
  then show "\<exists>a b. s = a @ p @ b \<and> length a = i" by blast
qed (auto simp: occurs_at_def)

lemma str_index_Some: "str_index s p = Some i \<longleftrightarrow> occurs_at s p i \<and> (\<forall>j<i. \<not> occurs_at s p j)"
proof (induction s p arbitrary: i rule: str_index.induct)
  case (1 p) then show ?case by auto
next
  case (2 c s p)
  show ?case
  proof (cases "has_prefix (c # s) p")
    case True then show ?thesis by (cases i) auto
  next
    case False
    show ?thesis
    proof (cases i)
      case 0 with False show ?thesis by auto
    next
      case (Suc k)
      have "(\<forall>j<Suc k. \<not> occurs_at (c # s) p j) \<longleftrightarrow> (\<forall>j<k. \<not> occurs_at s p j)"
        using False by (auto simp: All_less_Suc2)
      with 2 [OF False] Suc False show ?thesis by auto
    qed
  qed
qed

lemma str_index_None: "str_index s p = None \<longleftrightarrow> (\<forall>i. \<not> occurs_at s p i)"
proof -
  have "str_index s p = None \<longleftrightarrow> \<not> (\<exists>i. str_index s p = Some i)" by auto
  also have "\<dots> \<longleftrightarrow> \<not> (\<exists>i. occurs_at s p i)" by (simp add: str_index_Some exists_least_iff [of "occurs_at s p"])
  finally show ?thesis by simp
qed

lemma str_contains_iff: "str_contains s p \<longleftrightarrow> (\<exists>a b. s = a @ p @ b)"
  by (auto simp: str_contains_def str_index_None occurs_at_iff)

lemma occurs_at_drop: "i < length s \<Longrightarrow> occurs_at (drop (Suc i) s) p j \<longleftrightarrow> occurs_at s p (Suc i + j)"
  by (auto simp: occurs_at_def add.commute)

lemma splice: "occurs_at s p i \<Longrightarrow> s = take i s @ p @ drop (i + length p) s"
  by (metis append.assoc append_eq_conv_conj length_append occurs_at_iff)

subsection \<open>Applying\<close>

text \<open>
  C22. Applying a mutant succeeds exactly when the source is the one it was cut from (or none was recorded) and, for a hunk, the anchor
  differs from its replacement and occurs in the source at exactly one place, overlapping occurrences counted; the result is then the
  source with that one occurrence replaced. A whole-file mutant yields its recorded file.
\<close>

theorem apply_exact:
  "apply_mutant sha m original = Inr out \<longleftrightarrow>
     (mu_parent m = [] \<or> sha original = mu_parent m) \<and>
     (if mu_search m = [] then out = mu_replace m
      else mu_search m \<noteq> mu_replace m \<and>
        (\<exists>pre suf. original = pre @ mu_search m @ suf \<and> out = pre @ mu_replace m @ suf \<and>
           (\<forall>pre' suf'. original = pre' @ mu_search m @ suf' \<longrightarrow> pre' = pre)))"
proof (cases "(mu_parent m = [] \<or> sha original = mu_parent m) \<and> mu_search m \<noteq> [] \<and> mu_search m \<noteq> mu_replace m")
  case False
  then show ?thesis by (auto simp: apply_mutant_def is_whole_file_def)
next
  case True
  let ?p = "mu_search m"
  let ?R = "\<exists>pre suf. original = pre @ ?p @ suf \<and> out = pre @ mu_replace m @ suf \<and> (\<forall>pre' suf'. original = pre' @ ?p @ suf' \<longrightarrow> pre' = pre)"
  have R: "apply_mutant sha m original = Inr out \<longleftrightarrow> ?R"
  proof (cases "str_index original ?p")
    case None
    then have "\<not> str_contains original ?p" by (simp add: str_contains_def)
    then have "\<not> (\<exists>a b. original = a @ ?p @ b)" by (simp add: str_contains_iff)
    with None True show ?thesis by (auto simp: apply_mutant_def is_whole_file_def)
  next
    case (Some i)
    then have o: "occurs_at original ?p i" and first: "\<forall>j<i. \<not> occurs_at original ?p j" by (auto simp: str_index_Some)
    then have i: "i < length original" using True by (auto simp: occurs_at_iff)
    let ?pre = "take i original" and ?suf = "drop (i + length ?p) original"
    have orig: "original = ?pre @ ?p @ ?suf" using o by (rule splice)
    have again: "str_contains (drop (i + 1) original) ?p \<longleftrightarrow> (\<exists>j>i. occurs_at original ?p j)"
      using i by (auto simp: str_contains_def str_index_None occurs_at_drop less_iff_Suc_add)
    have uniq: "(\<exists>j>i. occurs_at original ?p j) \<longleftrightarrow> \<not> (\<forall>pre' suf'. original = pre' @ ?p @ suf' \<longrightarrow> pre' = ?pre)"
    proof
      assume "\<exists>j>i. occurs_at original ?p j"
      then obtain j a b where "i < j" "original = a @ ?p @ b" "length a = j" by (auto simp: occurs_at_iff)
      moreover from this i have "a \<noteq> ?pre" by (metis length_take min.absorb2 less_imp_le_nat nat_less_le)
      ultimately show "\<not> (\<forall>pre' suf'. original = pre' @ ?p @ suf' \<longrightarrow> pre' = ?pre)" by blast
    next
      assume "\<not> (\<forall>pre' suf'. original = pre' @ ?p @ suf' \<longrightarrow> pre' = ?pre)"
      then obtain a b where ab: "original = a @ ?p @ b" "a \<noteq> ?pre" by blast
      then have "occurs_at original ?p (length a)" by (auto simp: occurs_at_iff)
      moreover from ab have "length a \<noteq> i" by (metis append_eq_conv_conj)
      ultimately show "\<exists>j>i. occurs_at original ?p j" using first by (metis linorder_neqE_nat)
    qed
    have "apply_mutant sha m original = Inr out \<longleftrightarrow>
        \<not> (\<exists>j>i. occurs_at original ?p j) \<and> out = ?pre @ mu_replace m @ ?suf"
      using True Some again by (auto simp: apply_mutant_def is_whole_file_def)
    also have "\<dots> \<longleftrightarrow> ?R"
    proof
      assume "\<not> (\<exists>j>i. occurs_at original ?p j) \<and> out = ?pre @ mu_replace m @ ?suf"
      then show ?R using orig uniq by blast
    next
      assume ?R
      then obtain pre suf where ps: "original = pre @ ?p @ suf" "out = pre @ mu_replace m @ suf"
        "\<forall>pre' suf'. original = pre' @ ?p @ suf' \<longrightarrow> pre' = pre" by blast
      then have pre: "?pre = pre" using orig by blast
      then have suf: "?suf = suf" using ps(1) orig by (metis same_append_eq)
      have "\<forall>pre' suf'. original = pre' @ ?p @ suf' \<longrightarrow> pre' = ?pre" using ps(3) unfolding pre by blast
      then have "\<not> (\<exists>j>i. occurs_at original ?p j)" using uniq by blast
      then show "\<not> (\<exists>j>i. occurs_at original ?p j) \<and> out = ?pre @ mu_replace m @ ?suf"
        unfolding pre suf using ps(2) by blast
    qed
    finally show ?thesis .
  qed
  with True show ?thesis by auto
qed

definition ex_sha :: "string \<Rightarrow> string" where
  \<comment> \<open>a digest for the examples\<close>
  "ex_sha s = rev s"

definition ex_mutant :: mutant where
  "ex_mutant = \<lparr>mu_id = ''m1'', mu_parent = ''c+b+a'', mu_span = \<lparr>lr_start = 1, lr_end = 1\<rparr>, mu_search = ''+b'', mu_replace = ''-b''\<rparr>"

lemma apply_exact_witness:
  "apply_mutant ex_sha ex_mutant ''a+b+c'' = Inr ''a-b+c''"
proof -
  have "\<forall>pre' suf'. ''a+b+c'' = pre' @ ''+b'' @ suf' \<longrightarrow> pre' = ''a''"
  proof (intro allI impI)
    fix pre' suf' :: string
    assume "''a+b+c'' = pre' @ ''+b'' @ suf'"
    then show "pre' = ''a''" by (auto simp: Cons_eq_append_conv)
  qed
  then have "\<exists>pre suf. ''a+b+c'' = pre @ ''+b'' @ suf \<and> ''a-b+c'' = pre @ ''-b'' @ suf \<and>
      (\<forall>pre' suf'. ''a+b+c'' = pre' @ ''+b'' @ suf' \<longrightarrow> pre' = pre)"
    by (intro exI [of _ "''a''"] exI [of _ "''+c''"]) simp
  then show ?thesis unfolding apply_exact ex_mutant_def ex_sha_def mutant.simps by (subst if_not_P) (simp_all del: append.simps)
qed

subsection \<open>The lines an edit changes\<close>

lemma split_on_nonempty [simp]: "split_on c s \<noteq> []" "[] \<noteq> split_on c s"
  by (induction s) (auto split: list.splits)

lemma split_on_glue:
  "split_on c (a @ b) = butlast (split_on c a) @ (last (split_on c a) @ hd (split_on c b)) # tl (split_on c b)"
proof (induction a)
  case Nil then show ?case by simp
next
  case (Cons x a)
  obtain w ws where w: "split_on c a = w # ws" by (meson split_on_nonempty(1) neq_Nil_conv)
  with Cons show ?case by (cases ws) auto
qed

lemma split_on_mid: "split_on c (a @ c # b) = split_on c a @ split_on c b"
  by (simp add: split_on_glue [of c a "c # b"])

lemma length_split_on: "length (split_on nl s) = newlines s + 1"
  by (induction s) (auto simp: newlines_def split: list.splits)

lemma newlines_simps [simp]:
  "newlines [] = 0" "newlines (a @ b) = newlines a + newlines b" "newlines (c # s) = (if c = nl then 1 else 0) + newlines s"
  by (auto simp: newlines_def)

lemma has_suffix_iff: "has_suffix s p \<longleftrightarrow> (\<exists>t. s = t @ p)"
proof
  assume "has_suffix s p"
  then have "s = take (length s - length p) s @ p" by (metis append_take_drop_id has_suffix_def)
  then show "\<exists>t. s = t @ p" by blast
qed (auto simp: has_suffix_def)

lemma trim_suffix_nl_simps [simp]:
  "trim_suffix_nl (t @ [nl]) = t" "\<not> has_suffix s [nl] \<Longrightarrow> trim_suffix_nl s = s"
  by (auto simp: trim_suffix_nl_def has_suffix_iff)

lemma glue_end:
  \<comment> \<open>the lines of a text after its first part, when that part is replaced without joining a line to the next\<close>
  assumes "has_suffix s [nl] \<longrightarrow> s' = [] \<or> has_suffix s' [nl]"
  shows "\<exists>mid. split_on nl (s' @ b) = mid @ drop (newlines (trim_suffix_nl s) + 1) (split_on nl (s @ b)) \<and> (s' \<noteq> [] \<or> \<not> has_suffix s [nl] \<longrightarrow> mid \<noteq> [])"
proof (cases "has_suffix s [nl]")
  case True
  then obtain t where t: "s = t @ [nl]" by (auto simp: has_suffix_iff)
  show ?thesis
  proof (cases "s' = []")
    case True with t show ?thesis by (auto simp: split_on_mid length_split_on has_suffix_iff)
  next
    case False
    with assms True obtain t' where "s' = t' @ [nl]" by (auto simp: has_suffix_iff)
    with t show ?thesis by (auto simp: split_on_mid length_split_on)
  qed
next
  case False
  have "drop (newlines s + 1) (split_on nl (s @ b)) = tl (split_on nl b)"
    by (simp add: split_on_glue [of _ s] length_split_on drop_Cons')
  moreover have "\<exists>mid. split_on nl (s' @ b) = mid @ tl (split_on nl b) \<and> mid \<noteq> []"
    by (rule exI [of _ "butlast (split_on nl s') @ [last (split_on nl s') @ hd (split_on nl b)]"]) (simp add: split_on_glue [of _ s'])
  ultimately show ?thesis using False by simp
qed

lemma apply_hunk_parts:
  assumes "apply_mutant sha m original = Inr out" "mu_search m \<noteq> []"
  obtains pre suf where "original = pre @ mu_search m @ suf" "out = pre @ mu_replace m @ suf"
    "str_index original (mu_search m) = Some (length pre)"
proof -
  from assms obtain i where i: "str_index original (mu_search m) = Some i"
      "out = take i original @ mu_replace m @ drop (i + length (mu_search m)) original"
    by (auto simp: apply_mutant_def is_whole_file_def split: if_splits option.splits)
  then have o: "occurs_at original (mu_search m) i" by (simp add: str_index_Some)
  then have "length (take i original) = i" by (simp add: occurs_at_def)
  with that [of "take i original" "drop (i + length (mu_search m)) original"] splice [OF o] i show ?thesis by simp
qed

lemma hunk_span_at:
  "str_index (pre @ s @ suf) s = Some (length pre) \<Longrightarrow> s \<noteq> [] \<Longrightarrow>
     hunk_span (pre @ s @ suf) s = \<lparr>lr_start = int (newlines pre) + 1, lr_end = int (newlines pre) + 1 + int (newlines (trim_suffix_nl s))\<rparr>"
  by (simp add: hunk_span_def Let_def)

lemma newlines_trim_le: "newlines (trim_suffix_nl s) \<le> newlines s"
  by (cases "has_suffix s [nl]") (auto simp: has_suffix_iff)

lemma has_prefix_nl: "has_prefix s [nl] \<longleftrightarrow> (\<exists>t. s = nl # t)"
  by (auto simp: has_prefix_iff)

text \<open>
  When a hunk applies, its recorded span (\<^verbatim>\<open>EditSpan\<close>) is a range of lines of the original, and every line outside it is in
  the mutated file unchanged: the lines before the span, then what the edit made of the span, then the lines after it. Needed for the
  last part: an anchor that takes the newline of its last line puts one back.
\<close>

theorem edit_span_covers:
  assumes app: "apply_mutant sha m original = Inr out" and hunk: "mu_search m \<noteq> []"
    and joins: "has_suffix (mu_search m) [nl] \<longrightarrow> has_suffix (mu_replace m) [nl]"
  shows "let r = edit_span original (mu_search m) (mu_replace m); L = split_on nl original in
    1 \<le> lr_start r \<and> lr_start r \<le> lr_end r \<and> lr_end r \<le> int (length L) \<and>
    (\<exists>mid. split_on nl out = take (nat (lr_start r - 1)) L @ mid @ drop (nat (lr_end r)) L)"
proof -
  let ?s = "mu_search m" and ?r = "mu_replace m"
  obtain pre suf where o: "original = pre @ ?s @ suf" "out = pre @ ?r @ suf" and i: "str_index original ?s = Some (length pre)"
    using app hunk by (rule apply_hunk_parts)
  let ?k = "newlines (trim_suffix_nl ?s)"
  have h: "hunk_span original ?s = \<lparr>lr_start = int (newlines pre) + 1, lr_end = int (newlines pre) + 1 + int ?k\<rparr>"
    using i hunk unfolding o(1) by (rule hunk_span_at)
  have nz: "\<not> is_zero_range (hunk_span original ?s)" by (simp add: h is_zero_range_def)
  have len: "newlines pre + 1 + ?k \<le> length (split_on nl original)"
    using newlines_trim_le [of ?s] by (simp add: o length_split_on)
  show ?thesis
  proof (cases "has_prefix ?s [nl] \<and> has_prefix ?r [nl] \<and> 0 < ?k")
    case False
    then have e: "edit_span original ?s ?r = hunk_span original ?s" using nz by (auto simp: edit_span_def h)
    have nth: "nat (int (newlines pre) + 1 + int ?k) = newlines pre + (?k + 1)" by simp
    have "drop (newlines pre + (?k + 1)) (split_on nl original) = drop (?k + 1) (drop (newlines pre) (split_on nl original))" by (simp add: add.commute)
    also have "drop (newlines pre) (split_on nl original) = (last (split_on nl pre) @ hd (split_on nl (?s @ suf))) # tl (split_on nl (?s @ suf))"
      by (simp add: o split_on_glue [of nl pre] length_split_on)
    also have "drop (?k + 1) \<dots> = drop (?k + 1) (split_on nl (?s @ suf))" by (simp add: drop_Suc)
    finally have D: "drop (newlines pre + (?k + 1)) (split_on nl original) = drop (?k + 1) (split_on nl (?s @ suf))" .
    obtain mid where mid: "split_on nl (?r @ suf) = mid @ drop (?k + 1) (split_on nl (?s @ suf))" "mid \<noteq> []"
      using glue_end [of ?s ?r suf] joins by (auto simp: has_suffix_def)
    then obtain w ws where w: "mid = w # ws" by (meson neq_Nil_conv)
    have T: "take (newlines pre) (split_on nl original) = butlast (split_on nl pre)"
      by (simp add: o split_on_glue [of nl pre] length_split_on)
    have "split_on nl out = butlast (split_on nl pre) @ ((last (split_on nl pre) @ w) # ws) @ drop (?k + 1) (split_on nl (?s @ suf))"
      using mid w by (simp add: o split_on_glue [of nl pre "?r @ suf"])
    then have "\<exists>mid. split_on nl out = take (newlines pre) (split_on nl original) @ mid @ drop (newlines pre + (?k + 1)) (split_on nl original)"
      unfolding T D by blast
    then show ?thesis using len unfolding Let_def e h line_range.simps nth by simp
  next
    case True
    then obtain s' r' where c: "?s = nl # s'" "?r = nl # r'" by (auto simp: has_prefix_nl)
    have s': "s' \<noteq> []" using True c by (auto simp: trim_suffix_nl_def has_suffix_def)
    have trim: "trim_suffix_nl ?s = nl # trim_suffix_nl s'"
      using s' by (auto simp: c trim_suffix_nl_def has_suffix_def drop_Cons' Suc_diff_le)
    have e: "edit_span original ?s ?r = \<lparr>lr_start = int (newlines pre) + 2, lr_end = int (newlines pre) + 1 + int ?k\<rparr>"
      using True nz by (simp add: edit_span_def h)
    have L: "split_on nl original = split_on nl pre @ split_on nl (s' @ suf)" "split_on nl out = split_on nl pre @ split_on nl (r' @ suf)"
      by (simp_all add: o c split_on_mid)
    have "has_suffix s' [nl] \<longrightarrow> r' = [] \<or> has_suffix r' [nl]"
      using joins by (cases r' rule: rev_cases; cases s' rule: rev_cases) (auto simp: c has_suffix_def drop_Cons' Suc_diff_le)
    from glue_end [OF this] obtain mid where mid: "split_on nl (r' @ suf) = mid @ drop (newlines (trim_suffix_nl s') + 1) (split_on nl (s' @ suf))"
      by blast
    have "nat (int (newlines pre) + 2 - 1) = length (split_on nl pre)" by (simp add: length_split_on)
    moreover have "nat (int (newlines pre) + 1 + int ?k) = length (split_on nl pre) + (newlines (trim_suffix_nl s') + 1)"
      by (simp add: length_split_on trim)
    ultimately show ?thesis using len True by (auto simp: Let_def e L mid trim)
  qed
qed

definition ex_text :: string where "ex_text = [CHR ''a'', nl, CHR ''b'', nl, CHR ''c'']"

definition ex_edit :: mutant where
  "ex_edit = \<lparr>mu_id = ''m2'', mu_parent = [], mu_span = zero_range, mu_search = [CHR ''b'', nl], mu_replace = [CHR ''x'', nl]\<rparr>"

lemma edit_span_covers_witness:
  "let r = edit_span ex_text (mu_search ex_edit) (mu_replace ex_edit); L = split_on nl ex_text in
    1 \<le> lr_start r \<and> lr_start r \<le> lr_end r \<and> lr_end r \<le> int (length L) \<and>
    (\<exists>mid. split_on nl [CHR ''a'', nl, CHR ''x'', nl, CHR ''c''] = take (nat (lr_start r - 1)) L @ mid @ drop (nat (lr_end r)) L)"
  by (rule edit_span_covers [where sha = ex_sha]) code_simp+

lemma edit_span_misses_joined_line:
  \<comment> \<open>without that condition: the edit takes the newline of line 2, so line 3 changes, and the span is line 2 alone\<close>
  "apply_mutant ex_sha (ex_edit\<lparr>mu_replace := ''x''\<rparr>) ex_text = Inr [CHR ''a'', nl, CHR ''x'', CHR ''c''] \<and>
   edit_span ex_text (mu_search ex_edit) ''x'' = \<lparr>lr_start = 2, lr_end = 2\<rparr> \<and>
   split_on nl ex_text = [''a'', ''b'', ''c''] \<and> split_on nl [CHR ''a'', nl, CHR ''x'', CHR ''c''] = [''a'', ''xc'']"
  by code_simp

subsection \<open>The same edit is graded once\<close>

lemma dedupe_loop_spec:
  "dedupe_loop seen kept n ms = (kept', n') \<Longrightarrow> \<exists>new. kept' = kept @ new \<and> subseq new ms \<and> distinct (map identity_of new) \<and>
     set (map identity_of new) = identity_of ` set ms - set seen \<and> length new + n' = length ms + n"
proof (induction seen kept n ms arbitrary: kept' n' rule: dedupe_loop.induct)
  case (2 seen kept n m ms)
  show ?case
  proof (cases "identity_of m \<in> set seen")
    case True
    with 2(1) [OF True] 2(3) show ?thesis by (auto intro: list_emb_Cons)
  next
    case False
    with 2(2) [OF False] 2(3) obtain new where "kept' = kept @ m # new" "subseq new ms" "distinct (map identity_of new)"
      "set (map identity_of new) = identity_of ` set ms - insert (identity_of m) (set seen)" "length new + n' = length ms + n"
      by fastforce
    then show ?thesis using False by (intro exI [of _ "m # new"]) auto
  qed
qed auto

theorem dedupe_exact:
  "dedupe_mutants ms = (kept, n) \<Longrightarrow> subseq kept ms \<and> distinct (map identity_of kept) \<and>
     identity_of ` set kept = identity_of ` set ms \<and> length kept + n = length ms"
  unfolding dedupe_mutants_def by (drule dedupe_loop_spec) auto

lemma same_edit_same_file:
  "identity_of m = identity_of m' \<Longrightarrow> apply_mutant sha m original = Inr out \<Longrightarrow> apply_mutant sha m' original = Inr out"
  by (auto simp: identity_of_def apply_mutant_def is_whole_file_def split: if_splits option.splits)

subsection \<open>A replayed set\<close>

text \<open>
  Replaying a recorded set on a source gives the entry's mutants in their order, or refuses: every one of them applies to no other
  source than one with the same digest, and of an upgraded version-1 set every one yields the file that was recorded, byte for byte.
\<close>

theorem replayed_exam_fixed:
  assumes "mutants_for sha s path current = Inr ms" and "sha current \<noteq> []"
  shows "\<exists>e. map_of (mf_files s) path = Some e \<and> me_parent e = sha current \<and> map mu_id ms = map rm_id (me_mutants e) \<and>
    (\<forall>m\<in>set ms. \<forall>src out. apply_mutant sha m src = Inr out \<longrightarrow> sha src = sha current) \<and>
    (\<forall>v e'. s = upgrade v \<and> map_of (fv_files v) path = Some e' \<longrightarrow>
       map (\<lambda>m. apply_mutant sha m current) ms = map (\<lambda>rm. Inr (rv_file rm)) (mv_mutants e'))"
proof -
  from assms(1) obtain e where e: "map_of (mf_files s) path = Some e" "sha current = me_parent e" "ms = map (replayed e) (me_mutants e)"
    by (auto simp: mutants_for_def split: option.splits if_splits)
  have only: "sha src = sha current" if "m \<in> set ms" "apply_mutant sha m src = Inr out" for m src out
    using that e assms(2) by (auto simp: apply_mutant_def replayed_def split: if_splits)
  have up: "map (\<lambda>m. apply_mutant sha m current) ms = map (\<lambda>rm. Inr (rv_file rm)) (mv_mutants e')"
    if "s = upgrade v" "map_of (fv_files v) path = Some e'" for v e'
  proof -
    have "e = upgrade_entry e'" using that e(1) by (simp add: upgrade_def map_of_map)
    then show ?thesis using e by (simp add: upgrade_entry_def replayed_def apply_mutant_def is_whole_file_def)
  qed
  show ?thesis using e only up by (intro exI [of _ e]) (auto simp: replayed_def)
qed

lemma replayed_exam_fixed_witness:
  "\<exists>e. map_of (mf_files (upgrade \<lparr>fv_format = mutant_set_format_v1, fv_files = [(''a.py'', \<lparr>mv_parent = ''x'', mv_mutants = [\<lparr>rv_id = ''m1'', rv_file = ''y'', rv_span = zero_range\<rparr>]\<rparr>)]\<rparr>)) ''a.py'' = Some e \<and>
    me_parent e = ex_sha ''x''"
  using replayed_exam_fixed [where sha = ex_sha and path = "''a.py''" and current = "''x''"
      and s = "upgrade \<lparr>fv_format = mutant_set_format_v1, fv_files = [(''a.py'', \<lparr>mv_parent = ''x'', mv_mutants = [\<lparr>rv_id = ''m1'', rv_file = ''y'', rv_span = zero_range\<rparr>]\<rparr>)]\<rparr>"
      and ms = "[\<lparr>mu_id = ''m1'', mu_parent = ''x'', mu_span = zero_range, mu_search = [], mu_replace = ''y''\<rparr>]"]
  by (auto simp: ex_sha_def upgrade_def upgrade_entry_def mutants_for_def replayed_def)

end
