(* ===== verification/Mutant_Parse.thy ===== *)
theory Mutant_Parse
  imports Mutant_Properties
begin

section \<open>Reading mutants out of a model's response (internal/testgen: parse.go, parse_diag.go)\<close>

text \<open>
  The generator is a model; its response is text. This theory holds the parser that cuts the response into blocks, each block into a
  SEARCH/REPLACE hunk, and admits a hunk only as a proven single-point edit of the source (\<^verbatim>\<open>ProveHunk\<close>), with the account it keeps of
  every block it refuses. The lemmas show that every mutant it returns applies, that the account adds up, and that a response written in
  the requested format is read back as it was written.
\<close>

subsection \<open>Texts\<close>

definition search_head :: string where "search_head = ''<<<<<<< SEARCH''"
definition sr_divider :: string where "sr_divider = ''=======''"
definition replace_end :: string where "replace_end = ''>>>>>>> REPLACE''"
definition mutation_mark :: string where "mutation_mark = ''===MUTATION_''"

definition after_marker_line :: "string \<Rightarrow> string" where
  "after_marker_line s = (case str_index s [nl] of Some i \<Rightarrow> drop (i + 1) s | None \<Rightarrow> [])"

definition strip_leading :: "string \<Rightarrow> string" where
  "strip_leading s = join [nl] (map (dropWhile (\<lambda>c. c = CHR '' '' \<or> c = CHR 0x09)) (split_on nl s))"

function split_str :: "string \<Rightarrow> string \<Rightarrow> string list" where
  \<comment> \<open>\<^verbatim>\<open>strings.Split(s, sep)\<close> for a separator that is not empty\<close>
  "split_str sep s =
     (if sep = [] then [s]
      else case str_index s sep of None \<Rightarrow> [s] | Some i \<Rightarrow> take i s # split_str sep (drop (i + length sep) s))"
  by pat_completeness auto

termination
proof (relation "measure (\<lambda>(sep, s). length s)")
  fix sep s :: string and i
  assume "sep \<noteq> []" "str_index s sep = Some i"
  then obtain a b where "s = a @ sep @ b" "sep \<noteq> []" by (auto simp: str_index_Some occurs_at_iff)
  then have "s \<noteq> []" "0 < length sep" by auto
  then show "((sep, drop (i + length sep) s), (sep, s)) \<in> measure (\<lambda>(sep, s). length s)" by simp
qed simp

declare split_str.simps [simp del]

definition code_fence :: string where "code_fence = [CHR 0x60, CHR 0x60, CHR 0x60]"

function line_fence_index :: "string \<Rightarrow> nat \<Rightarrow> nat option" where
  "line_fence_index s i =
     (case str_index (drop i s) code_fence of
        None \<Rightarrow> None
      | Some rel \<Rightarrow>
          (let idx = i + rel in
           if idx = 0 \<or> s ! (idx - 1) = nl then Some idx else line_fence_index s (idx + length code_fence)))"
  by pat_completeness auto

termination
proof (relation "measure (\<lambda>(s, i). length s - i)")
  fix s :: string and i rel idx
  assume "str_index (drop i s) code_fence = Some rel" "idx = i + rel"
  then obtain a b where "drop i s = a @ code_fence @ b" by (auto simp: str_index_Some occurs_at_iff)
  then have "length (drop i s) \<ge> length code_fence" by simp
  then have "i < length s" by (simp add: code_fence_def)
  then show "((s, idx + length code_fence), (s, i)) \<in> measure (\<lambda>(s, i). length s - i)"
    using \<open>idx = i + rel\<close> by (simp add: code_fence_def)
qed simp

declare line_fence_index.simps [simp del]

definition extract_code :: "string \<Rightarrow> string" where
  "extract_code resp =
     (case line_fence_index resp 0 of
        None \<Rightarrow> trim_space resp
      | Some start \<Rightarrow>
          (let rest = after_marker_line (drop (start + 3) resp) in
           case line_fence_index rest 0 of
             None \<Rightarrow> trim_space rest
           | Some finish \<Rightarrow> trim_space (take finish rest)))"

subsection \<open>One hunk\<close>

datatype hunk_rejection = HunkNoOp | HunkAnchorNotFound | HunkAnchorNotUnique | HunkIntegrityFailed

definition prove_hunk :: "(string \<Rightarrow> string) \<Rightarrow> string \<Rightarrow> string \<Rightarrow> string \<Rightarrow> string \<Rightarrow> hunk_rejection + mutant" where
  "prove_hunk sha original ident search replace =
     (if search = [] \<or> search = replace then Inl HunkNoOp
      else if \<not> str_contains original search then Inl HunkAnchorNotFound
      else
        (let m = \<lparr>mu_id = ident, mu_parent = sha original, mu_span = zero_range, mu_search = search, mu_replace = replace\<rparr> in
         case apply_mutant sha m original of
           Inl e \<Rightarrow>
             (case str_index original search of
                Some i \<Rightarrow> if str_contains (drop (i + 1) original) search then Inl HunkAnchorNotUnique else Inl HunkIntegrityFailed
              | None \<Rightarrow> Inl HunkIntegrityFailed)
         | Inr out \<Rightarrow> Inr (m\<lparr>mu_span := edit_span original search replace\<rparr>)))"

definition parse_search_replace :: "string \<Rightarrow> (string \<times> string) option" where
  "parse_search_replace block =
     (case str_index block search_head of
        None \<Rightarrow> None
      | Some si \<Rightarrow>
          (let rest = after_marker_line (drop (si + length search_head) block) in
           case str_index rest (nl # sr_divider) of
             None \<Rightarrow> None
           | Some di \<Rightarrow>
               (let search = take di rest; rest2 = after_marker_line (drop (di + 1 + length sr_divider) rest) in
                case str_index rest2 (nl # replace_end) of
                  None \<Rightarrow> None
                | Some ri \<Rightarrow> Some (search, take ri rest2))))"

subsection \<open>The response\<close>

record parse_diag =
  pd_blocks :: nat
  pd_kept :: nat
  pd_malformed :: nat
  pd_no_op :: nat
  pd_anchor_not_found :: nat
  pd_anchor_not_unique :: nat
  pd_integrity_failed :: nat
  pd_whitespace_only :: nat

definition no_diag :: parse_diag where
  "no_diag = \<lparr>pd_blocks = 0, pd_kept = 0, pd_malformed = 0, pd_no_op = 0, pd_anchor_not_found = 0, pd_anchor_not_unique = 0,
     pd_integrity_failed = 0, pd_whitespace_only = 0\<rparr>"

definition parse_block :: "(string \<Rightarrow> string) \<Rightarrow> string \<Rightarrow> string \<Rightarrow> mutant list \<times> parse_diag \<Rightarrow> mutant list \<times> parse_diag" where
  "parse_block sha original p acc =
     (let out = fst acc; d = (snd acc)\<lparr>pd_blocks := pd_blocks (snd acc) + 1\<rparr>;
          malformed = (out, d\<lparr>pd_malformed := pd_malformed d + 1\<rparr>) in
      case str_index p ''==='' of
        None \<Rightarrow> malformed
      | Some close \<Rightarrow>
          (case parse_search_replace (drop (close + 3) p) of
             None \<Rightarrow> malformed
           | Some (search, replace) \<Rightarrow>
               (case prove_hunk sha original (''m'' @ itoa_nat (length out + 1)) search replace of
                  Inl HunkNoOp \<Rightarrow> (out, d\<lparr>pd_no_op := pd_no_op d + 1\<rparr>)
                | Inl HunkAnchorNotFound \<Rightarrow>
                    (out, d\<lparr>pd_anchor_not_found := pd_anchor_not_found d + 1,
                             pd_whitespace_only := pd_whitespace_only d +
                               (if strip_leading search \<noteq> [] \<and> str_contains (strip_leading original) (strip_leading search) then 1 else 0)\<rparr>)
                | Inl HunkAnchorNotUnique \<Rightarrow> (out, d\<lparr>pd_anchor_not_unique := pd_anchor_not_unique d + 1\<rparr>)
                | Inl HunkIntegrityFailed \<Rightarrow> (out, d\<lparr>pd_integrity_failed := pd_integrity_failed d + 1\<rparr>)
                | Inr m \<Rightarrow> (out @ [m], d\<lparr>pd_kept := pd_kept d + 1\<rparr>))))"

definition parse_mutants_diag :: "(string \<Rightarrow> string) \<Rightarrow> string \<Rightarrow> string \<Rightarrow> mutant list \<times> parse_diag" where
  "parse_mutants_diag sha resp original = fold (parse_block sha original) (tl (split_str mutation_mark resp)) ([], no_diag)"

definition parse_mutants :: "(string \<Rightarrow> string) \<Rightarrow> string \<Rightarrow> string \<Rightarrow> mutant list" where
  "parse_mutants sha resp original = fst (parse_mutants_diag sha resp original)"

datatype parse_reason = Malformed nat | NoOps nat | NotUnique nat | IntegrityRoundTrip nat | NotFound nat
datatype mutants_error = NoBlocks | NoneUsable nat "parse_reason list" nat

definition diag_error :: "parse_diag \<Rightarrow> mutants_error option" where
  "diag_error d =
     (if pd_kept d > 0 then None
      else if pd_blocks d = 0 then Some NoBlocks
      else Some (NoneUsable (pd_blocks d)
        ((if pd_malformed d > 0 then [Malformed (pd_malformed d)] else []) @
         (if pd_no_op d > 0 then [NoOps (pd_no_op d)] else []) @
         (if pd_anchor_not_unique d > 0 then [NotUnique (pd_anchor_not_unique d)] else []) @
         (if pd_integrity_failed d > 0 then [IntegrityRoundTrip (pd_integrity_failed d)] else []) @
         (if pd_anchor_not_found d > 0 then [NotFound (pd_anchor_not_found d)] else []))
        (pd_whitespace_only d)))"

definition parse_mutants_output :: "(string \<Rightarrow> string) \<Rightarrow> string \<Rightarrow> string \<Rightarrow> mutants_error + mutant list" where
  "parse_mutants_output sha raw original =
     (let (ms, d) = parse_mutants_diag sha raw original in
      case diag_error d of Some e \<Rightarrow> Inl e | None \<Rightarrow> Inr ms)"

subsection \<open>What is admitted\<close>

lemma str_contains_index: "str_contains s p \<Longrightarrow> \<exists>i. str_index s p = Some i"
  by (simp add: str_contains_def)

lemma prove_hunk_cases:
  "prove_hunk sha original ident s r =
     (if s = [] \<or> s = r then Inl HunkNoOp
      else case str_index original s of
        None \<Rightarrow> Inl HunkAnchorNotFound
      | Some i \<Rightarrow>
          if str_contains (drop (i + 1) original) s then Inl HunkAnchorNotUnique
          else Inr \<lparr>mu_id = ident, mu_parent = sha original, mu_span = edit_span original s r, mu_search = s, mu_replace = r\<rparr>)"
  by (auto simp: prove_hunk_def apply_mutant_def is_whole_file_def Let_def str_contains_def split: option.splits)

definition proven :: "(string \<Rightarrow> string) \<Rightarrow> string \<Rightarrow> mutant \<Rightarrow> bool" where
  \<comment> \<open>a single-point edit of exactly these bytes\<close>
  "proven sha original m \<longleftrightarrow> mu_parent m = sha original \<and> mu_search m \<noteq> [] \<and>
     mu_span m = edit_span original (mu_search m) (mu_replace m) \<and>
     (\<exists>out. apply_mutant sha m original = Inr out \<and> out \<noteq> original)"

lemma prove_hunk_proven:
  assumes "prove_hunk sha original ident s r = Inr m"
  shows "proven sha original m \<and> mu_id m = ident \<and> mu_search m = s \<and> mu_replace m = r"
proof -
  from assms obtain i where i: "str_index original s = Some i" "\<not> str_contains (drop (i + 1) original) s" "s \<noteq> []" "s \<noteq> r"
    and m: "m = \<lparr>mu_id = ident, mu_parent = sha original, mu_span = edit_span original s r, mu_search = s, mu_replace = r\<rparr>"
    by (auto simp: prove_hunk_cases split: if_splits option.splits)
  let ?out = "take i original @ r @ drop (i + length s) original"
  have a: "apply_mutant sha m original = Inr ?out" using i by (simp add: m apply_mutant_def is_whole_file_def)
  have "original = take i original @ s @ drop (i + length s) original" using i(1) by (intro splice) (simp add: str_index_Some)
  then have "?out \<noteq> original" using i(4) by (metis append_same_eq same_append_eq)
  with a i(3) show ?thesis by (auto simp: proven_def m)
qed

definition diag_total :: "parse_diag \<Rightarrow> nat" where
  "diag_total d = pd_kept d + pd_malformed d + pd_no_op d + pd_anchor_not_found d + pd_anchor_not_unique d + pd_integrity_failed d"

definition parse_inv :: "(string \<Rightarrow> string) \<Rightarrow> string \<Rightarrow> mutant list \<times> parse_diag \<Rightarrow> bool" where
  "parse_inv sha original acc \<longleftrightarrow>
     (let ms = fst acc; d = snd acc in
      (\<forall>m\<in>set ms. proven sha original m) \<and> map mu_id ms = map (\<lambda>i. ''m'' @ itoa_nat (i + 1)) [0..<length ms] \<and>
      pd_kept d = length ms \<and> pd_blocks d = diag_total d \<and> pd_integrity_failed d = 0 \<and> pd_whitespace_only d \<le> pd_anchor_not_found d)"

lemma parse_block_inv:
  assumes "parse_inv sha original acc"
  shows "parse_inv sha original (parse_block sha original p acc) \<and> pd_blocks (snd (parse_block sha original p acc)) = pd_blocks (snd acc) + 1"
proof (cases "str_index p ''==='' = None \<or> parse_search_replace (drop (the (str_index p ''==='') + 3) p) = None")
  case True
  then have "parse_block sha original p acc =
      (fst acc, (snd acc)\<lparr>pd_blocks := pd_blocks (snd acc) + 1, pd_malformed := pd_malformed (snd acc) + 1\<rparr>)"
    by (cases "str_index p ''===''") (auto simp: parse_block_def Let_def)
  with assms show ?thesis by (simp add: parse_inv_def diag_total_def Let_def)
next
  case False
  then obtain c s r where c: "str_index p ''==='' = Some c" "parse_search_replace (drop (c + 3) p) = Some (s, r)" by auto
  let ?id = "''m'' @ itoa_nat (length (fst acc) + 1)"
  show ?thesis
  proof (cases "prove_hunk sha original ?id s r")
    case (Inr m)
    with prove_hunk_proven [OF Inr] assms c show ?thesis by (auto simp: parse_block_def parse_inv_def diag_total_def Let_def)
  next
    case (Inl e)
    have "e \<noteq> HunkIntegrityFailed" using Inl by (auto simp: prove_hunk_cases split: if_splits option.splits)
    with assms c Inl show ?thesis by (cases e) (auto simp: parse_block_def parse_inv_def diag_total_def Let_def)
  qed
qed

lemma parse_fold_inv:
  "parse_inv sha original acc \<Longrightarrow> parse_inv sha original (fold (parse_block sha original) ps acc) \<and>
     pd_blocks (snd (fold (parse_block sha original) ps acc)) = pd_blocks (snd acc) + length ps"
proof (induction ps arbitrary: acc)
  case (Cons p ps)
  show ?case using parse_block_inv [OF Cons.prems, of p] Cons.IH [of "parse_block sha original p acc"] by simp
qed simp

text \<open>
  C26. Whatever a model answers, every mutant taken from the answer is a proven edit of the source it was asked about: it carries that
  source's digest and the span of its edit, and it applies there and changes it. Their ids are m1, m2, ... in order; the account names
  every block of the answer under exactly one outcome, never under a failed integrity check, and counts as indentation slips only
  anchors it did not find.
\<close>

theorem parsed_mutants_proven:
  "case parse_mutants_diag sha resp original of (ms, d) \<Rightarrow>
     list_all (proven sha original) ms \<and> map mu_id ms = map (\<lambda>i. ''m'' @ itoa_nat (i + 1)) [0..<length ms] \<and>
     pd_kept d = length ms \<and> pd_blocks d = length (split_str mutation_mark resp) - 1 \<and> pd_blocks d = diag_total d \<and>
     pd_integrity_failed d = 0 \<and> pd_whitespace_only d \<le> pd_anchor_not_found d"
proof -
  have "parse_inv sha original ([], no_diag)" by (simp add: parse_inv_def no_diag_def diag_total_def)
  from parse_fold_inv [OF this, of "tl (split_str mutation_mark resp)"] show ?thesis
    by (auto simp: parse_mutants_diag_def parse_inv_def no_diag_def list_all_iff Let_def)
qed

lemma deletion_hunk_is_malformed:
  \<comment> \<open>the divider's own newline is consumed before the end marker is looked for after a newline: an empty REPLACE is never seen\<close>
  "parse_search_replace (search_head @ [nl] @ ''x'' @ [nl] @ sr_divider @ [nl] @ replace_end @ [nl]) = None \<and>
   parse_search_replace (search_head @ [nl] @ ''x'' @ [nl] @ sr_divider @ [nl] @ [nl] @ replace_end @ [nl]) = Some (''x'', [])"
  by code_simp

subsection \<open>The requested format is read back\<close>

definition borderless :: "string \<Rightarrow> bool" where
  \<comment> \<open>no proper end of the text is also its beginning, so two occurrences never overlap\<close>
  "borderless p \<longleftrightarrow> p \<noteq> [] \<and> (\<forall>k\<in>set [1..<length p]. take k p \<noteq> drop (length p - k) p)"

lemma index_at_first:
  assumes p: "borderless p" and no: "\<not> str_contains s p"
  shows "str_index (s @ p @ t) p = Some (length s)"
proof -
  have "\<not> occurs_at (s @ p @ t) p j" if j: "j < length s" for j
  proof
    assume "occurs_at (s @ p @ t) p j"
    then have occ: "take (length p) (drop j (s @ p @ t)) = p" by (simp add: occurs_at_def has_prefix_def)
    show False
    proof (cases "j + length p \<le> length s")
      case True
      then have "has_prefix (drop j s) p" using occ by (simp add: has_prefix_def)
      then have "occurs_at s p j" using j by (simp add: occurs_at_def)
      then show False using no by (auto simp: str_contains_iff occurs_at_iff)
    next
      case False
      let ?n = "length s - j"
      let ?k = "length p - ?n"
      have n: "0 < ?n" "?n < length p" using j False by auto
      have "p = drop j s @ take ?k p" using occ j False by simp
      then have "drop ?n p = take ?k p" by (metis append_eq_conv_conj length_drop)
      moreover have "?k \<in> set [1..<length p]" and e: "length p - ?k = ?n" using n by auto
      then have "take ?k p \<noteq> drop (length p - ?k) p" using p unfolding borderless_def by blast
      ultimately show False unfolding e by simp
    qed
  qed
  moreover have "occurs_at (s @ p @ t) p (length s)" by (auto simp: occurs_at_iff)
  ultimately show ?thesis by (simp add: str_index_Some)
qed

lemma index_skip: "hd p \<notin> set a \<Longrightarrow> p \<noteq> [] \<Longrightarrow> str_index (a @ b) p = map_option (\<lambda>i. length a + i) (str_index b p)"
proof (induction a)
  case (Cons c a)
  then have "\<not> has_prefix (c # a @ b) p" by (cases p) (auto simp: has_prefix_def)
  with Cons show ?case by (cases "str_index b p") auto
qed (cases "str_index b p"; simp)

lemma contains_split:
  assumes "c \<notin> set p" "str_contains (a @ c # b) p" "p \<noteq> []"
  shows "str_contains a p \<or> str_contains b p"
proof -
  obtain x y where xy: "a @ c # b = x @ p @ y" using assms(2) by (auto simp: str_contains_iff)
  then consider z where "x = a @ z" "c # b = z @ p @ y" | z where "a = x @ z" "z @ c # b = p @ y"
    by (auto simp: append_eq_append_conv2)
  then show ?thesis
  proof cases
    case 1
    then show ?thesis using assms(1,3) by (cases z; cases p) (auto simp: str_contains_iff)
  next
    case 2
    then obtain us where "z = p @ us \<or> z @ us = p \<and> c # b = us @ y" by (auto simp: append_eq_append_conv2)
    then have "\<exists>us. z = p @ us" using assms(1) by (cases us) auto
    then have "\<exists>us. a = x @ p @ us" using 2(1) by auto
    then show ?thesis unfolding str_contains_iff by blast
  qed
qed

lemma contains_letter: "str_contains s p \<Longrightarrow> set p \<subseteq> set s"
  by (auto simp: str_contains_iff)

lemma split_str_step:
  "borderless p \<Longrightarrow> \<not> str_contains s p \<Longrightarrow> split_str p (s @ p @ t) = s # split_str p t"
  by (subst split_str.simps) (simp add: index_at_first borderless_def del: append_assoc)

lemma split_str_last: "\<not> str_contains s p \<Longrightarrow> split_str p s = [s]"
  by (subst split_str.simps) (simp add: str_contains_def)

definition hunk_text :: "string \<times> string \<Rightarrow> string" where
  "hunk_text h = search_head @ nl # fst h @ nl # sr_divider @ nl # snd h @ nl # replace_end @ [nl]"

definition block_text :: "nat \<Rightarrow> string \<times> string \<Rightarrow> string" where
  "block_text k h = itoa_nat k @ ''==='' @ nl # hunk_text h"

fun print_hunks :: "nat \<Rightarrow> (string \<times> string) list \<Rightarrow> string" where
  \<comment> \<open>a response in the format the generator is asked for, its blocks numbered from k\<close>
  "print_hunks k [] = []"
| "print_hunks k (h # hs) = mutation_mark @ block_text k h @ print_hunks (k + 1) hs"

fun block_texts :: "nat \<Rightarrow> (string \<times> string) list \<Rightarrow> string list" where
  "block_texts k [] = []"
| "block_texts k (h # hs) = block_text k h # block_texts (k + 1) hs"

definition writable :: "string \<times> string \<Rightarrow> bool" where
  "writable h \<longleftrightarrow> \<not> str_contains (fst h) (nl # sr_divider) \<and> \<not> str_contains (snd h) (nl # replace_end) \<and>
     \<not> str_contains (fst h) mutation_mark \<and> \<not> str_contains (snd h) mutation_mark"

definition hunk_mutant :: "(string \<Rightarrow> string) \<Rightarrow> string \<Rightarrow> nat \<Rightarrow> string \<times> string \<Rightarrow> mutant" where
  "hunk_mutant sha original k h = \<lparr>mu_id = ''m'' @ itoa_nat k, mu_parent = sha original,
     mu_span = edit_span original (fst h) (snd h), mu_search = fst h, mu_replace = snd h\<rparr>"

definition single_point :: "string \<Rightarrow> string \<times> string \<Rightarrow> bool" where
  "single_point original h \<longleftrightarrow> fst h \<noteq> [] \<and> fst h \<noteq> snd h \<and> (\<exists>!i. occurs_at original (fst h) i)"

lemma borderless_markers: "borderless (nl # sr_divider)" "borderless (nl # replace_end)" "borderless mutation_mark"
  by code_simp+

lemma after_marker_nl [simp]: "after_marker_line (nl # s) = s"
  by (simp add: after_marker_line_def has_prefix_def)

lemma parse_hunk_text:
  assumes "writable h"
  shows "parse_search_replace (nl # hunk_text h) = Some h"
proof -
  obtain s r where h: "h = (s, r)" by force
  let ?t2 = "r @ (nl # replace_end) @ [nl]"
  let ?t1 = "s @ (nl # sr_divider) @ nl # ?t2"
  have e: "nl # hunk_text h = [nl] @ search_head @ nl # ?t1" by (simp add: hunk_text_def h)
  have 1: "str_index ([nl] @ search_head @ nl # ?t1) search_head = Some 1"
    by (subst index_skip) (auto simp: search_head_def has_prefix_def)
  have 2: "drop (1 + length search_head) ([nl] @ search_head @ nl # ?t1) = nl # ?t1" by simp
  have 3: "str_index ?t1 (nl # sr_divider) = Some (length s)"
    using assms by (intro index_at_first borderless_markers) (simp add: writable_def h)
  have 4: "drop (length s + 1 + length sr_divider) ?t1 = nl # ?t2" by simp
  have 5: "str_index ?t2 (nl # replace_end) = Some (length r)"
    using assms by (intro index_at_first borderless_markers) (simp add: writable_def h)
  show ?thesis
    unfolding parse_search_replace_def e 1 option.case 2 Let_def after_marker_nl 3 4 5 by (simp add: h)
qed

lemma block_text_markless: "writable h \<Longrightarrow> \<not> str_contains (block_text k h) mutation_mark"
proof
  assume w: "writable h" and c: "str_contains (block_text k h) mutation_mark"
  have nl: "nl \<notin> set mutation_mark" "mutation_mark \<noteq> []" by (auto simp: mutation_mark_def)
  have M: "\<not> str_contains s mutation_mark" if "CHR ''M'' \<notin> set s" for s
    using that contains_letter [of s mutation_mark] by (auto simp: mutation_mark_def)
  have "block_text k h = (itoa_nat k @ ''==='') @ nl # search_head @ nl # fst h @ nl # sr_divider @ nl # snd h @ nl # replace_end @ nl # []"
    by (simp add: block_text_def hunk_text_def)
  with c contains_split [OF nl(1) _ nl(2)]
  have "str_contains (itoa_nat k @ ''==='') mutation_mark \<or> str_contains search_head mutation_mark \<or> str_contains (fst h) mutation_mark \<or>
      str_contains sr_divider mutation_mark \<or> str_contains (snd h) mutation_mark \<or> str_contains replace_end mutation_mark \<or> str_contains [] mutation_mark"
    by metis
  moreover have "CHR ''M'' \<notin> set (itoa_nat k)" by (rule itoa_nat_no) simp
  ultimately show False using w by (auto simp: M writable_def search_head_def sr_divider_def replace_end_def)
qed

lemma split_print:
  "\<forall>h\<in>set hs. writable h \<Longrightarrow> \<not> str_contains pre mutation_mark \<Longrightarrow> split_str mutation_mark (pre @ print_hunks k hs) = pre # block_texts k hs"
proof (induction hs arbitrary: pre k)
  case Nil then show ?case by (simp add: split_str_last)
next
  case (Cons h hs)
  then show ?case by (simp add: split_str_step borderless_markers block_text_markless)
qed

lemma prove_hunk_single_point:
  "single_point original h \<Longrightarrow> prove_hunk sha original (''m'' @ itoa_nat k) (fst h) (snd h) = Inr (hunk_mutant sha original k h)"
proof -
  assume sp: "single_point original h"
  then obtain i where i: "occurs_at original (fst h) i" "\<And>j. occurs_at original (fst h) j \<Longrightarrow> j = i" unfolding single_point_def by blast
  then have "str_index original (fst h) = Some i" unfolding str_index_Some by (metis less_irrefl_nat)
  moreover have "\<not> str_contains (drop (i + 1) original) (fst h)"
  proof
    assume "str_contains (drop (i + 1) original) (fst h)"
    then obtain j where j: "occurs_at (drop (Suc i) original) (fst h) j" by (auto simp: str_contains_iff occurs_at_iff)
    obtain a b where "original = a @ fst h @ b" "length a = i" using i(1) unfolding occurs_at_iff by blast
    moreover have "fst h \<noteq> []" using sp unfolding single_point_def by blast
    ultimately have "i < length original" by simp
    with j have "occurs_at original (fst h) (Suc i + j)" by (simp add: occurs_at_drop)
    from i(2) [OF this] show False by simp
  qed
  ultimately show ?thesis using sp by (auto simp: prove_hunk_cases hunk_mutant_def single_point_def)
qed

lemma parse_block_text:
  assumes "writable h" "single_point original h"
  shows "parse_block sha original (block_text k h) (ms, d) =
    (ms @ [hunk_mutant sha original (length ms + 1) h], d\<lparr>pd_blocks := pd_blocks d + 1, pd_kept := pd_kept d + 1\<rparr>)"
proof -
  have "CHR ''='' \<notin> set (itoa_nat k)" by (rule itoa_nat_no) simp
  then have "str_index (block_text k h) ''==='' = Some (length (itoa_nat k))"
    unfolding block_text_def by (subst index_skip) (auto simp: has_prefix_def)
  moreover have "drop (length (itoa_nat k) + 3) (block_text k h) = nl # hunk_text h" by (simp add: block_text_def)
  ultimately show ?thesis
    using prove_hunk_single_point [OF assms(2), of sha "length ms + 1"] parse_hunk_text [OF assms(1)]
    by (cases h) (simp add: parse_block_def Let_def)
qed

fun hunk_mutants :: "(string \<Rightarrow> string) \<Rightarrow> string \<Rightarrow> nat \<Rightarrow> (string \<times> string) list \<Rightarrow> mutant list" where
  "hunk_mutants sha original k [] = []"
| "hunk_mutants sha original k (h # hs) = hunk_mutant sha original k h # hunk_mutants sha original (k + 1) hs"

lemma parse_block_texts:
  "\<forall>h\<in>set hs. writable h \<and> single_point original h \<Longrightarrow>
     \<exists>d'. fold (parse_block sha original) (block_texts k hs) (ms, d) = (ms @ hunk_mutants sha original (length ms + 1) hs, d') \<and>
       pd_kept d' = pd_kept d + length hs \<and> pd_blocks d' = pd_blocks d + length hs"
proof (induction hs arbitrary: k ms d)
  case (Cons h hs)
  let ?m = "hunk_mutant sha original (length ms + 1) h"
  from Cons.IH [of "k + 1" "ms @ [?m]"] Cons.prems show ?case by (fastforce simp: parse_block_text)
qed simp

text \<open>
  C30. A response in the requested format is read back: printing hunks that are single-point edits of the source and hold no marker
  line, after any text without a block marker, and parsing the result gives exactly those hunks, in order, as mutants m1, m2, ... of
  the source.
\<close>

theorem hunks_roundtrip:
  assumes "\<forall>h\<in>set hs. writable h \<and> single_point original h" and "\<not> str_contains pre mutation_mark" and "hs \<noteq> []"
  shows "parse_mutants_output sha (pre @ print_hunks 1 hs) original = Inr (hunk_mutants sha original 1 hs)"
proof -
  have "split_str mutation_mark (pre @ print_hunks 1 hs) = pre # block_texts 1 hs" using assms by (intro split_print) auto
  moreover obtain d' where "fold (parse_block sha original) (block_texts 1 hs) ([], no_diag) = (hunk_mutants sha original 1 hs, d')"
      "pd_kept d' = length hs"
    using parse_block_texts [of hs original sha 1 "[]" no_diag] assms(1) by (auto simp: no_diag_def)
  ultimately show ?thesis using assms(3) by (simp add: parse_mutants_output_def parse_mutants_diag_def diag_error_def)
qed

lemma hunks_roundtrip_witness:
  "parse_mutants_output ex_sha (''ok '' @ print_hunks 1 [(''b'', ''x'')]) ex_text = Inr (hunk_mutants ex_sha ex_text 1 [(''b'', ''x'')])"
proof (rule hunks_roundtrip)
  have "single_point ex_text (''b'', ''x'')"
    unfolding single_point_def by (auto simp: ex_text_def occurs_at_def has_prefix_def less_Suc_eq_le le_Suc_eq numeral_eq_Suc intro!: exI [of _ 2])
  moreover have "writable (''b'', ''x'')" by code_simp
  ultimately show "\<forall>h\<in>set [(''b'', ''x'')]. writable h \<and> single_point ex_text h" by simp
qed code_simp+

end
