(* ===== verification/Path.thy ===== *)
theory Path
  imports Prelude
begin

section \<open>Slash-separated paths (the \<^verbatim>\<open>path\<close> and \<^verbatim>\<open>path/filepath\<close> functions the source calls)\<close>

text \<open>
  On the hosts the program runs on the separator is the slash, so \<^verbatim>\<open>filepath\<close> and \<^verbatim>\<open>path\<close> agree and \<^verbatim>\<open>ToSlash\<close> and \<^verbatim>\<open>FromSlash\<close> are
  the identity. \<^verbatim>\<open>Clean\<close> is lexical; what depends on the disk is a parameter of the theories that use it.
\<close>

definition path_base :: "string \<Rightarrow> string" where
  \<comment> \<open>\<^verbatim>\<open>filepath.Base\<close>\<close>
  "path_base p =
     (if p = [] then ''.''
      else let t = trim_right (\<lambda>c. c = CHR ''/'') p in
        if t = [] then ''/'' else rev (takeWhile (\<lambda>c. c \<noteq> CHR ''/'') (rev t)))"

definition slash_elements :: "string \<Rightarrow> string list" where
  "slash_elements p = split_on (CHR ''/'') p"

fun clean_elems :: "bool \<Rightarrow> string list \<Rightarrow> string list \<Rightarrow> string list" where
  \<comment> \<open>\<^verbatim>\<open>Clean\<close>'s loop; what it has kept so far is held backwards\<close>
  "clean_elems rooted kept [] = rev kept"
| "clean_elems rooted kept (e # es) =
     (if e = [] \<or> e = ''.'' then clean_elems rooted kept es
      else if e = ''..'' then
        (case kept of
           [] \<Rightarrow> clean_elems rooted (if rooted then [] else [''..'']) es
         | k # ks \<Rightarrow> if k = ''..'' then clean_elems rooted (''..'' # kept) es else clean_elems rooted ks es)
      else clean_elems rooted (e # kept) es)"

definition is_abs :: "string \<Rightarrow> bool" where
  "is_abs p \<longleftrightarrow> has_prefix p ''/''"

definition clean_parts :: "string \<Rightarrow> string list" where
  "clean_parts p = clean_elems (is_abs p) [] (slash_elements p)"

definition clean_path :: "string \<Rightarrow> string" where
  "clean_path p =
     (if is_abs p then CHR ''/'' # join ''/'' (clean_parts p)
      else if clean_parts p = [] then ''.'' else join ''/'' (clean_parts p))"

definition path_join :: "string list \<Rightarrow> string" where
  "path_join es = (case dropWhile (\<lambda>e. e = []) es of [] \<Rightarrow> [] | l \<Rightarrow> clean_path (join ''/'' l))"

definition last_element :: "string \<Rightarrow> string" where
  \<comment> \<open>what follows the last slash\<close>
  "last_element p = rev (takeWhile (\<lambda>c. c \<noteq> CHR ''/'') (rev p))"

definition path_dir :: "string \<Rightarrow> string" where
  "path_dir p = clean_path (rev (dropWhile (\<lambda>c. c \<noteq> CHR ''/'') (rev p)))"

definition path_ext :: "string \<Rightarrow> string" where
  "path_ext p =
     (if CHR ''.'' \<in> set (last_element p)
      then CHR ''.'' # rev (takeWhile (\<lambda>c. c \<noteq> CHR ''.'') (rev (last_element p))) else [])"

definition cut_suffix :: "string \<Rightarrow> string \<Rightarrow> string" where
  \<comment> \<open>\<^verbatim>\<open>strings.TrimSuffix\<close>\<close>
  "cut_suffix s suf = (if has_suffix s suf then take (length s - length suf) s else s)"

subsection \<open>Elements\<close>

definition element :: "string \<Rightarrow> bool" where
  \<comment> \<open>a name a clean path can end in\<close>
  "element e \<longleftrightarrow> e \<noteq> [] \<and> e \<noteq> ''.'' \<and> e \<noteq> ''..'' \<and> CHR ''/'' \<notin> set e"

lemma split_on_no_sep: "w \<in> set (split_on c s) \<Longrightarrow> c \<notin> set w"
  by (induction s arbitrary: w) (auto split: if_splits list.splits)

lemma split_on_snoc: "c \<notin> set w \<Longrightarrow> split_on c (s @ c # w) = split_on c s @ [w]"
  by (induction s) (auto simp: split_on_plain split: list.splits)

lemma join_snoc: "xs \<noteq> [] \<Longrightarrow> join sep (xs @ [x]) = join sep xs @ sep @ x"
  by (induction sep xs rule: join.induct) auto

lemma clean_elems_append: "clean_elems rooted kept (es @ fs) = clean_elems rooted (rev (clean_elems rooted kept es)) fs"
  by (induction rooted kept es rule: clean_elems.induct) (auto split: list.splits)

lemma clean_elems_element: "element e \<Longrightarrow> clean_elems rooted kept [e] = rev kept @ [e]"
  by (simp add: element_def)

lemma clean_elems_members:
  "e \<in> set (clean_elems rooted kept es) \<Longrightarrow> e \<in> set kept \<or> e = ''..'' \<and> \<not> rooted \<or> e \<in> set es \<and> e \<noteq> [] \<and> e \<noteq> ''.'' \<and> e \<noteq> ''..''"
proof (induction rooted kept es rule: clean_elems.induct)
  case (2 rooted kept x es)
  show ?case
  proof (cases "x = [] \<or> x = ''.''")
    case True then show ?thesis using 2 by auto
  next
    case False
    show ?thesis
    proof (cases "x = ''..''")
      case dots: True
      show ?thesis
      proof (cases kept)
        case Nil then show ?thesis using 2 dots by (auto split: if_splits)
      next
        case (Cons k ks) then show ?thesis using 2 dots by (auto split: if_splits)
      qed
    next
      case False with \<open>\<not> (x = [] \<or> x = ''.'')\<close> show ?thesis using 2 by auto
    qed
  qed
qed simp

lemma clean_parts_no_slash: "e \<in> set (clean_parts p) \<Longrightarrow> CHR ''/'' \<notin> set e \<and> e \<noteq> []"
  unfolding clean_parts_def slash_elements_def by (drule clean_elems_members) (auto dest: split_on_no_sep)

lemma path_base_snoc: "e \<noteq> [] \<Longrightarrow> CHR ''/'' \<notin> set e \<Longrightarrow> path_base e = e"
  "e \<noteq> [] \<Longrightarrow> CHR ''/'' \<notin> set e \<Longrightarrow> path_base (s @ CHR ''/'' # e) = e"
proof -
  assume e: "e \<noteq> []" "CHR ''/'' \<notin> set e"
  then have l: "last e \<noteq> CHR ''/''" using last_in_set by fastforce
  have t: "takeWhile (\<lambda>c. c \<noteq> CHR ''/'') (rev e) = rev e" using e(2) by (auto simp: takeWhile_eq_all_conv)
  have tr: "trim_right (\<lambda>c. c = CHR ''/'') (x @ e) = x @ e" for x
    using e(1) l by (cases e rule: rev_cases) (auto simp: trim_right_def)
  show "path_base e = e" using e(1) tr [of "[]"] unfolding path_base_def Let_def by (simp only: append_Nil t) simp
  have "takeWhile (\<lambda>c. c \<noteq> CHR ''/'') (rev e @ CHR ''/'' # rev s) = rev e"
    by (subst takeWhile_append2) (use e(2) in auto)
  then have t': "rev (takeWhile (\<lambda>c. c \<noteq> CHR ''/'') (rev (s @ CHR ''/'' # e))) = e" by simp
  show "path_base (s @ CHR ''/'' # e) = e" using tr [of "s @ ''/''"] unfolding path_base_def Let_def by (simp add: t' del: rev_append)
qed

lemma path_base_clean:
  assumes "clean_parts p = es @ [e]"
  shows "path_base (clean_path p) = e"
proof -
  have e: "e \<noteq> []" "CHR ''/'' \<notin> set e" using clean_parts_no_slash [of e p] assms by auto
  show ?thesis
  proof (cases es)
    case Nil
    then show ?thesis using assms path_base_snoc [OF e] path_base_snoc(2) [OF e, of "[]"] by (simp add: clean_path_def)
  next
    case (Cons x xs)
    then have "join ''/'' (es @ [e]) = join ''/'' es @ CHR ''/'' # e" by (subst join_snoc) auto
    then show ?thesis using assms path_base_snoc(2) [OF e, of "join ''/'' es"] path_base_snoc(2) [OF e, of "CHR ''/'' # join ''/'' es"]
      by (simp add: clean_path_def)
  qed
qed

lemma path_base_join:
  assumes "element e"
  shows "path_base (path_join (es @ [e])) = e"
proof -
  have e: "e \<noteq> []" "CHR ''/'' \<notin> set e" using assms by (auto simp: element_def)
  obtain ds where ds: "dropWhile (\<lambda>e. e = []) (es @ [e]) = ds @ [e]"
    using e(1) by (cases "\<forall>x\<in>set es. x = []") (auto simp: dropWhile_append)
  have "\<exists>l. clean_parts (join ''/'' (ds @ [e])) = l @ [e]"
  proof (cases ds)
    case Nil
    have "split_on (CHR ''/'') e = [e]" using e(2) by (rule split_on_plain)
    then show ?thesis using Nil clean_elems_element [OF assms] by (simp add: clean_parts_def slash_elements_def del: clean_elems.simps)
  next
    case (Cons x xs)
    have "join ''/'' (ds @ [e]) = join ''/'' ds @ CHR ''/'' # e" using Cons by (subst join_snoc) auto
    then show ?thesis
      by (simp add: clean_parts_def slash_elements_def split_on_snoc [OF e(2)] clean_elems_append clean_elems_element [OF assms] del: clean_elems.simps)
  qed
  then show ?thesis using path_base_clean ds by (cases "ds @ [e]") (auto simp: path_join_def)
qed

lemma path_base_no_slash: "path_base p \<noteq> ''/'' \<Longrightarrow> CHR ''/'' \<notin> set (path_base p)"
  unfolding path_base_def Let_def by (auto split: if_splits dest: set_takeWhileD)

end
