(* ===== verification/Score.thy ===== *)
theory Score
  imports Mutant Path "HOL-Library.AList"
begin

section \<open>The mutation scorer (internal/adequacy/score.go)\<close>

text \<open>
  The scorer runs a test command on compliant code and then on each mutant of it, and reports which mutants the tests killed. It is the
  measurement the rest of the program signs. What runs the command, the jail, is outside: a \<open>world\<close> answers each run, and the answer may
  depend on which run it is (\<open>run_id\<close>), so that a command may pass once and fail the next time, time out, or find the file's own deadline
  passed. The world also says how long each run took, in which order Go iterates over a map, and in which order the concurrent gradings
  end. A world is one execution: what a run answered and how long it took in it, contention with concurrent runs included. Every statement is
  about an arbitrary world, so it holds under any contention; two executions under different concurrency are two worlds, and nothing is
  claimed of how their answers compare. Durations are nanoseconds. Formatted messages are constructors with their arguments.
\<close>

subsection \<open>Commands\<close>

type_synonym argv = "string list"

definition cmd_is_shell_wrapped :: "argv \<Rightarrow> bool" where
  "cmd_is_shell_wrapped cmd =
     (case cmd of [] \<Rightarrow> False
      | c # rest \<Rightarrow> path_base c \<in> {''sh'', ''bash'', ''zsh'', ''dash''} \<and> ''-c'' \<in> set rest)"

definition append_fail_fast :: "argv \<Rightarrow> argv \<Rightarrow> argv" where
  "append_fail_fast cmd args =
     (if cmd = [] \<or> args = [] \<or> cmd_is_shell_wrapped cmd then cmd
      else if \<exists>a\<in>set args. \<exists>c\<in>set cmd.
                let flag = takeWhile (\<lambda>x. x \<noteq> CHR ''='') a in c = flag \<or> has_prefix c (flag @ ''='') then cmd
      else cmd @ args)"

definition join_nul :: "argv \<Rightarrow> string" where
  "join_nul cmd = join [CHR 0x00] cmd"

definition last_lines :: "string \<Rightarrow> nat \<Rightarrow> string" where
  "last_lines s n =
     (let ls = split_on nl (trim_right (\<lambda>c. c = nl) s) in
      join [nl] (if length ls > n then drop (length ls - n) ls else ls))"

subsection \<open>The world a scoring run sees\<close>

datatype run_id =
    BaselineRun | CanaryRun | FailFastProbe | GateProbe nat | ProveRun string | ReachRun string
  | MutantGate nat nat | GradeRun nat | ReprobeRun nat
  | AloneRun nat | AloneBaseRun nat | RepeatRun nat | RepeatBaseRun nat

datatype jail_error = JailError (is_timeout: bool) (is_deadline: bool) (err_text: string)

record run_result =
  rr_passed :: bool
  rr_output :: string
  rr_error :: "jail_error option"
  rr_ctx_err :: "jail_error option"   \<comment> \<open>\<^verbatim>\<open>ctx.Err()\<close> of the file when the run returns\<close>

record world =
  w_run :: "run_id \<Rightarrow> int option \<Rightarrow> (string \<rightharpoonup> string) \<Rightarrow> argv \<Rightarrow> run_result"
  w_took :: "run_id \<Rightarrow> int"
  w_gate_took :: int
  w_confirm_took :: int
  w_verbose :: bool                   \<comment> \<open>the jail is a \<^verbatim>\<open>VerboseJail\<close>\<close>
  w_detailed :: bool                  \<comment> \<open>the jail is a \<^verbatim>\<open>DetailedJail\<close>\<close>
  w_map_order :: "(string \<times> argv) list \<Rightarrow> (string \<times> argv) list"
  w_schedule :: "nat list \<Rightarrow> nat list"

definition fair_world :: "world \<Rightarrow> bool" where
  \<comment> \<open>a map is iterated over all its entries, and every grading that was started ends\<close>
  "fair_world w \<longleftrightarrow> (\<forall>l. set (w_map_order w l) = set l) \<and> (\<forall>l. set (w_schedule w l) = set l)"

record exam =
  xm_base :: "string \<rightharpoonup> string"
  xm_path :: string
  xm_code :: string
  xm_cmd :: argv

definition run_on :: "world \<Rightarrow> exam \<Rightarrow> run_id \<Rightarrow> int option \<Rightarrow> string \<Rightarrow> argv \<Rightarrow> run_result" where
  "run_on w x rid budget code cmd = w_run w rid budget ((xm_base x)(xm_path x \<mapsto> code)) cmd"

definition canary_code :: string where "canary_code = ''!!!corral canary!!!''"

subsection \<open>Configuration and report\<close>

record failure_parser =
  fp_first :: "string \<Rightarrow> string"
  fp_flaky :: "(string \<Rightarrow> string list) option"

record mutant_command =
  mc_cmd :: argv
  mc_tests :: int
  mc_rule :: string

record score_config =
  sc_cap_floor :: int
  sc_mutant_timeout :: int
  sc_concurrency :: int
  sc_compile_check :: "argv list"
  sc_command_for :: "(mutant \<Rightarrow> mutant_command) option"
  sc_failure_parser :: "failure_parser option"
  sc_fail_fast :: "(argv \<Rightarrow> argv option) option"
  sc_kill_confirmer :: "(argv \<Rightarrow> string \<Rightarrow> argv option) option"

datatype kill_confirmation = NotConfirmed | KillConfirmedAlone | KillConfirmedRepeated | KillConfirmedReprobed | KillNotRepeated

record mutant_grading =
  mg_tests_run :: int
  mg_rule :: string
  mg_duration :: int
  mg_killed_by :: string
  mg_confirmation :: kill_confirmation
  mg_unrepeated_by :: string

definition zero_grading :: mutant_grading where
  "zero_grading = \<lparr>mg_tests_run = 0, mg_rule = [], mg_duration = 0, mg_killed_by = [], mg_confirmation = NotConfirmed, mg_unrepeated_by = []\<rparr>"

datatype invalid_reason = InvalidAnchor apply_error | GateTimeout int int argv | GateOutput string
datatype unmeasured_reason = FailsOnCompliant argv string | NeverReaches argv | KillUnstable argv
datatype gate_note = GateCannotRun argv jail_error | GateRejects argv string | GateSkippedOn nat
datatype fail_fast_note = AlreadyStops | ProbeError argv jail_error | ProbeRejected argv | NoFlag

datatype confirm_error = ConfirmApply apply_error | ConfirmRunError jail_error
datatype grade_error =
    FileCancelled jail_error | SuiteUnstable string int | MachineOverloaded string int | RunError jail_error
  | ConfirmFailed string confirm_error
datatype score_error =
    BaselineError jail_error | CanaryError jail_error | GateProbeCancelled jail_error
  | ProvingFailed argv jail_error | ReachFailed argv jail_error | GradeFailed grade_error

record report =
  rp_compliant_pass :: bool
  rp_canary_killed :: bool
  rp_baseline_output :: string
  rp_baseline_flaky :: "string list"
  rp_baseline_duration :: int
  rp_baseline_timed_out :: bool
  rp_fail_fast :: bool
  rp_duplicates :: nat
  rp_fail_fast_note :: "fail_fast_note option"
  rp_total :: nat
  rp_killed :: "string list"
  rp_survived :: "string list"
  rp_invalid :: "string list"
  rp_invalid_reasons :: "(string \<times> invalid_reason) list"
  rp_unmeasured :: "string list"
  rp_unmeasured_reasons :: "(string \<times> unmeasured_reason) list"
  rp_gate_note :: "gate_note list"
  rp_per_mutant :: "(string \<times> mutant_grading) list"
  rp_duration_median :: int
  rp_duration_max :: int
  rp_confirm_duration :: int

definition zero_report :: report where
  "zero_report = \<lparr>rp_compliant_pass = False, rp_canary_killed = False, rp_baseline_output = [], rp_baseline_flaky = [],
     rp_baseline_duration = 0, rp_baseline_timed_out = False, rp_fail_fast = False, rp_duplicates = 0, rp_fail_fast_note = None,
     rp_total = 0, rp_killed = [], rp_survived = [], rp_invalid = [], rp_invalid_reasons = [], rp_unmeasured = [],
     rp_unmeasured_reasons = [], rp_gate_note = [], rp_per_mutant = [], rp_duration_median = 0, rp_duration_max = 0, rp_confirm_duration = 0\<rparr>"

definition kill_rate :: "report \<Rightarrow> rat" where
  "kill_rate r = (if rp_total r = 0 \<or> \<not> rp_canary_killed r then 0 else of_nat (length (rp_killed r)) / of_nat (rp_total r))"

subsection \<open>Time limits\<close>

definition min_mutant_timeout :: int where "min_mutant_timeout = 30 * 1000000000"
definition max_mutant_timeout :: int where "max_mutant_timeout = 300 * 1000000000"
definition mutant_timeout_multiple :: int where "mutant_timeout_multiple = 3"

definition clamp_mutant_timeout :: "int \<Rightarrow> int" where
  "clamp_mutant_timeout base_dur =
     (let d = base_dur * mutant_timeout_multiple in
      if d < min_mutant_timeout then min_mutant_timeout
      else if d > max_mutant_timeout then max_mutant_timeout else d)"

definition clamp :: "score_config \<Rightarrow> int \<Rightarrow> int" where
  "clamp cfg d =
     (let x = d * mutant_timeout_multiple in
      if sc_cap_floor cfg > 0 \<and> x < sc_cap_floor cfg then sc_cap_floor cfg
      else if sc_cap_floor cfg > 0 \<and> x < min_mutant_timeout then x
      else clamp_mutant_timeout d)"

definition per_mutant_cap :: "score_config \<Rightarrow> int \<Rightarrow> int" where
  "per_mutant_cap cfg base_dur = (if sc_mutant_timeout cfg \<le> 0 then clamp cfg base_dur else sc_mutant_timeout cfg)"

definition cap_for :: "score_config \<Rightarrow> int \<Rightarrow> (string \<times> int) list \<Rightarrow> argv \<Rightarrow> int" where
  "cap_for cfg per_mutant baselines raw_cmd =
     (if sc_mutant_timeout cfg > 0 then sc_mutant_timeout cfg
      else case map_of baselines (join_nul raw_cmd) of Some d \<Rightarrow> clamp cfg d | None \<Rightarrow> per_mutant)"

subsection \<open>Fail-fast, the compile gate and the grading commands, proven on compliant code\<close>

definition fail_fast_cmd :: "argv option \<Rightarrow> argv \<Rightarrow> argv" where
  "fail_fast_cmd ff cmd = (case ff of None \<Rightarrow> cmd | Some args \<Rightarrow> append_fail_fast cmd args)"

definition probe_fail_fast :: "world \<Rightarrow> exam \<Rightarrow> score_config \<Rightarrow> int \<Rightarrow> mutant list \<Rightarrow> fail_fast_note option \<times> argv option" where
  "probe_fail_fast w x cfg per_mutant ms =
     (case sc_fail_fast cfg of
        None \<Rightarrow> (None, None)
      | Some f \<Rightarrow>
          if ms = [] then (None, None)
          else (case f (xm_cmd x) of
                  None \<Rightarrow> (Some NoFlag, None)
                | Some args \<Rightarrow>
                    (let probe = append_fail_fast (xm_cmd x) args in
                     if length probe = length (xm_cmd x) then (Some AlreadyStops, None)
                     else let r = run_on w x FailFastProbe (Some per_mutant) (xm_code x) probe in
                       case rr_error r of
                         Some e \<Rightarrow> (Some (ProbeError args e), None)
                       | None \<Rightarrow> if rr_passed r then (None, Some args) else (Some (ProbeRejected args), None))))"

definition verbose_output :: "world \<Rightarrow> run_result \<Rightarrow> string" where
  "verbose_output w r = (if w_verbose w then rr_output r else [])"

fun probe_gate :: "world \<Rightarrow> exam \<Rightarrow> nat \<Rightarrow> argv list \<Rightarrow> jail_error + gate_note option" where
  "probe_gate w x k [] = Inr None"
| "probe_gate w x k (cmd # cmds) =
     (let r = run_on w x (GateProbe k) None (xm_code x) cmd in
      case rr_error r of
        Some e \<Rightarrow> (case rr_ctx_err r of Some ce \<Rightarrow> Inl ce | None \<Rightarrow> Inr (Some (GateCannotRun cmd e)))
      | None \<Rightarrow>
          if \<not> rr_passed r then Inr (Some (GateRejects cmd (trim_space (last_lines (verbose_output w r) 6))))
          else probe_gate w x (k + 1) cmds)"

fun distinct_commands :: "(mutant \<Rightarrow> mutant_command) \<Rightarrow> string \<Rightarrow> (string \<times> argv) list \<Rightarrow> mutant list \<Rightarrow> (string \<times> argv) list" where
  "distinct_commands f shared acc [] = acc"
| "distinct_commands f shared acc (m # ms) =
     (let cmd = mc_cmd (f m) in
      if cmd = [] \<or> join_nul cmd = shared then distinct_commands f shared acc ms
      else distinct_commands f shared (AList.update (join_nul cmd) cmd acc) ms)"

record proven_commands =
  pv_baseline :: "(string \<times> int) list"
  pv_fails :: "(string \<times> string) list"
  pv_unreached :: "string list"

definition nothing_proven :: proven_commands where
  "nothing_proven = \<lparr>pv_baseline = [], pv_fails = [], pv_unreached = []\<rparr>"

fun prove_commands ::
  "world \<Rightarrow> exam \<Rightarrow> int \<Rightarrow> argv option \<Rightarrow> (string \<times> argv) list \<Rightarrow> proven_commands \<Rightarrow> score_error + proven_commands" where
  "prove_commands w x per_mutant ff [] pv = Inr pv"
| "prove_commands w x per_mutant ff ((key, cmd) # l) pv =
     (let r = run_on w x (ProveRun key) (Some per_mutant) (xm_code x) (fail_fast_cmd ff cmd);
          pv1 = pv\<lparr>pv_baseline := AList.update key (w_took w (ProveRun key)) (pv_baseline pv)\<rparr> in
      case rr_error r of
        Some e \<Rightarrow> Inl (ProvingFailed cmd e)
      | None \<Rightarrow>
          if \<not> rr_passed r then
            prove_commands w x per_mutant ff l
              (pv1\<lparr>pv_fails := AList.update key (trim_space (last_lines (verbose_output w r) 12)) (pv_fails pv)\<rparr>)
          else (let c = run_on w x (ReachRun key) (Some per_mutant) canary_code cmd in
            case rr_error c of
              Some e \<Rightarrow> if is_timeout e then prove_commands w x per_mutant ff l pv1 else Inl (ReachFailed cmd e)
            | None \<Rightarrow>
                if rr_passed c then prove_commands w x per_mutant ff l (pv1\<lparr>pv_unreached := key # pv_unreached pv\<rparr>)
                else prove_commands w x per_mutant ff l pv1))"

definition prove_all :: "world \<Rightarrow> exam \<Rightarrow> score_config \<Rightarrow> int \<Rightarrow> argv option \<Rightarrow> mutant list \<Rightarrow> score_error + proven_commands" where
  "prove_all w x cfg per_mutant ff ms =
     (case sc_command_for cfg of
        None \<Rightarrow> Inr nothing_proven
      | Some f \<Rightarrow> prove_commands w x per_mutant ff (w_map_order w (distinct_commands f (join_nul (xm_cmd x)) [] ms)) nothing_proven)"

subsection \<open>Duplicates\<close>

definition dedupe_key :: "score_config \<Rightarrow> mutant \<Rightarrow> mutant_identity \<times> string" where
  "dedupe_key cfg m =
     (identity_of m,
      case sc_command_for cfg of None \<Rightarrow> [] | Some f \<Rightarrow> if mc_cmd (f m) = [] then [] else join_nul (mc_cmd (f m)))"

fun reps :: "score_config \<Rightarrow> ((mutant_identity \<times> string) \<times> nat) list \<Rightarrow> nat \<Rightarrow> mutant list \<Rightarrow> nat list" where
  "reps cfg seen i [] = []"
| "reps cfg seen i (m # ms) =
     (case map_of seen (dedupe_key cfg m) of
        Some j \<Rightarrow> j # reps cfg seen (i + 1) ms
      | None \<Rightarrow> i # reps cfg ((dedupe_key cfg m, i) # seen) (i + 1) ms)"

definition rep_of :: "score_config \<Rightarrow> mutant list \<Rightarrow> nat list" where
  "rep_of cfg ms = reps cfg [] 0 ms"

definition representatives :: "nat list \<Rightarrow> nat list" where
  "representatives rs = filter (\<lambda>i. rs ! i = i) [0..<length rs]"

subsection \<open>Grading one mutant\<close>

record outcome =
  oc_killed :: bool
  oc_candidate :: bool
  oc_cmd :: argv
  oc_grade_cmd :: argv
  oc_err :: "grade_error option"
  oc_invalid :: bool
  oc_invalid_reason :: "invalid_reason option"
  oc_unmeasured :: bool
  oc_unmeasured_reason :: "unmeasured_reason option"
  oc_grading :: "mutant_grading option"
  oc_gate_skipped :: bool

definition zero_outcome :: outcome where
  "zero_outcome = \<lparr>oc_killed = False, oc_candidate = False, oc_cmd = [], oc_grade_cmd = [], oc_err = None, oc_invalid = False,
     oc_invalid_reason = None, oc_unmeasured = False, oc_unmeasured_reason = None, oc_grading = None, oc_gate_skipped = False\<rparr>"

record grading_plan =
  gp_per_mutant :: int
  gp_gate :: "argv list"
  gp_gate_cap :: int
  gp_gate_probe :: int
  gp_fail_fast :: "argv option"
  gp_proven :: proven_commands

datatype gate_result = GatePassed | GateUnrunnable | GateCancelled jail_error | GateInvalid invalid_reason

fun mutant_gate :: "world \<Rightarrow> exam \<Rightarrow> grading_plan \<Rightarrow> nat \<Rightarrow> string \<Rightarrow> nat \<Rightarrow> argv list \<Rightarrow> gate_result" where
  "mutant_gate w x p i code k [] = GatePassed"
| "mutant_gate w x p i code k (cmd # cmds) =
     (let r = run_on w x (MutantGate i k) (Some (gp_gate_cap p)) code cmd in
      case rr_error r of
        Some e \<Rightarrow>
          (case rr_ctx_err r of
             Some ce \<Rightarrow> GateCancelled ce
           | None \<Rightarrow>
               if is_timeout e \<or> is_deadline e then GateInvalid (GateTimeout (gp_gate_cap p) (gp_gate_probe p) cmd)
               else GateUnrunnable)
      | None \<Rightarrow>
          if \<not> rr_passed r then GateInvalid (GateOutput (trim_space (verbose_output w r)))
          else mutant_gate w x p i code (k + 1) cmds)"

definition grading_command :: "score_config \<Rightarrow> exam \<Rightarrow> mutant \<Rightarrow> argv" where
  "grading_command cfg x m =
     (case sc_command_for cfg of None \<Rightarrow> xm_cmd x | Some f \<Rightarrow> if mc_cmd (f m) \<noteq> [] then mc_cmd (f m) else xm_cmd x)"

definition initial_grading :: "score_config \<Rightarrow> mutant \<Rightarrow> mutant_grading" where
  "initial_grading cfg m =
     (case sc_command_for cfg of None \<Rightarrow> zero_grading
      | Some f \<Rightarrow> zero_grading\<lparr>mg_tests_run := mc_tests (f m), mg_rule := mc_rule (f m)\<rparr>)"

definition name_killer :: "world \<Rightarrow> score_config \<Rightarrow> bool" where
  "name_killer w cfg \<longleftrightarrow> sc_failure_parser cfg \<noteq> None \<and> w_detailed w"

definition first_failure :: "world \<Rightarrow> score_config \<Rightarrow> string \<Rightarrow> string" where
  "first_failure w cfg out =
     (case sc_failure_parser cfg of Some fp \<Rightarrow> if w_detailed w then fp_first fp out else [] | None \<Rightarrow> [])"

definition grade :: "world \<Rightarrow> exam \<Rightarrow> score_config \<Rightarrow> grading_plan \<Rightarrow> nat \<Rightarrow> mutant \<Rightarrow> string \<Rightarrow> outcome" where
  "grade w x cfg p i m code =
     (let cmd = grading_command cfg x m; g = initial_grading cfg m; key = join_nul cmd in
      case map_of (pv_fails (gp_proven p)) key of
        Some why \<Rightarrow> zero_outcome\<lparr>oc_unmeasured := True, oc_unmeasured_reason := Some (FailsOnCompliant cmd why), oc_grading := Some g\<rparr>
      | None \<Rightarrow>
          if key \<in> set (pv_unreached (gp_proven p)) then
            zero_outcome\<lparr>oc_unmeasured := True, oc_unmeasured_reason := Some (NeverReaches cmd), oc_grading := Some g\<rparr>
          else
            (let cap = cap_for cfg (gp_per_mutant p) (pv_baseline (gp_proven p)) cmd;
                 grade_cmd = fail_fast_cmd (gp_fail_fast p) cmd;
                 r = run_on w x (GradeRun i) (Some cap) code grade_cmd;
                 g1 = g\<lparr>mg_duration := w_took w (GradeRun i)\<rparr> in
             case rr_error r of
               Some e \<Rightarrow>
                 if \<not> is_timeout e then zero_outcome\<lparr>oc_err := Some (RunError e)\<rparr>
                 else (let b = run_on w x (ReprobeRun i) (Some cap) (xm_code x) grade_cmd in
                   case rr_error b of
                     None \<Rightarrow>
                       if rr_passed b then
                         zero_outcome\<lparr>oc_killed := True, oc_grading := Some (g1\<lparr>mg_confirmation := KillConfirmedReprobed\<rparr>)\<rparr>
                       else zero_outcome\<lparr>oc_err := Some (SuiteUnstable (mu_id m) cap)\<rparr>
                   | Some be \<Rightarrow>
                       if is_timeout be then zero_outcome\<lparr>oc_err := Some (MachineOverloaded (mu_id m) cap)\<rparr>
                       else zero_outcome\<lparr>oc_err := Some (RunError be)\<rparr>)
             | None \<Rightarrow>
                 (let failed = \<not> rr_passed r;
                      g2 = (if failed then g1\<lparr>mg_killed_by := first_failure w cfg (rr_output r)\<rparr> else g1) in
                  zero_outcome\<lparr>oc_killed := failed, oc_candidate := failed, oc_cmd := cmd, oc_grade_cmd := grade_cmd, oc_grading := Some g2\<rparr>)))"

definition score_one :: "world \<Rightarrow> (string \<Rightarrow> string) \<Rightarrow> exam \<Rightarrow> score_config \<Rightarrow> grading_plan \<Rightarrow> nat \<Rightarrow> mutant \<Rightarrow> outcome" where
  "score_one w sha x cfg p i m =
     (case apply_mutant sha m (xm_code x) of
        Inl e \<Rightarrow> zero_outcome\<lparr>oc_invalid := True, oc_invalid_reason := Some (InvalidAnchor e)\<rparr>
      | Inr code \<Rightarrow>
          (case mutant_gate w x p i code 0 (gp_gate p) of
             GateCancelled ce \<Rightarrow> zero_outcome\<lparr>oc_err := Some (FileCancelled ce)\<rparr>
           | GateInvalid reason \<Rightarrow> zero_outcome\<lparr>oc_invalid := True, oc_invalid_reason := Some reason\<rparr>
           | GatePassed \<Rightarrow> grade w x cfg p i m code
           | GateUnrunnable \<Rightarrow> (grade w x cfg p i m code)\<lparr>oc_gate_skipped := True\<rparr>))"

definition grade_schedule :: "world \<Rightarrow> score_config \<Rightarrow> nat list \<Rightarrow> nat list" where
  "grade_schedule w cfg rs =
     (if sc_concurrency cfg > 1 \<and> length rs > 1 then w_schedule w (representatives rs) else representatives rs)"

definition grade_all :: "world \<Rightarrow> (string \<Rightarrow> string) \<Rightarrow> exam \<Rightarrow> score_config \<Rightarrow> grading_plan \<Rightarrow> mutant list \<Rightarrow> nat list \<Rightarrow> outcome list" where
  "grade_all w sha x cfg p ms rs =
     fold (\<lambda>i os. os[i := score_one w sha x cfg p i (ms ! i)]) (grade_schedule w cfg rs) (replicate (length ms) zero_outcome)"

subsection \<open>Confirming a kill\<close>

definition confirm_run :: "world \<Rightarrow> exam \<Rightarrow> run_id \<Rightarrow> string \<Rightarrow> argv \<Rightarrow> int \<Rightarrow> jail_error + bool \<times> bool" where
  \<comment> \<open>(passed, timed out)\<close>
  "confirm_run w x rid code cmd budget =
     (let r = run_on w x rid (Some budget) code cmd in
      case rr_error r of
        None \<Rightarrow> Inr (rr_passed r, False)
      | Some e \<Rightarrow>
          (case rr_ctx_err r of
             Some ce \<Rightarrow> Inl ce
           | None \<Rightarrow> if is_timeout e \<or> is_deadline e then Inr (False, True) else Inl e))"

definition confirm_alone ::
  "world \<Rightarrow> exam \<Rightarrow> score_config \<Rightarrow> nat \<Rightarrow> outcome \<Rightarrow> string \<Rightarrow> int \<Rightarrow> string list \<Rightarrow> jail_error + bool \<times> string list" where
  \<comment> \<open>step A: the blamed test alone; whether it confirms, and the narrowed commands seen passing on compliant code\<close>
  "confirm_alone w x cfg i out code budget seen =
     (case (oc_grading out, sc_kill_confirmer cfg) of
        (Some g, Some f) \<Rightarrow>
          if \<not> name_killer w cfg \<or> mg_killed_by g = [] then Inr (False, seen)
          else (case f (oc_grade_cmd out) (mg_killed_by g) of
                  None \<Rightarrow> Inr (False, seen)
                | Some k \<Rightarrow>
                    (case confirm_run w x (AloneRun i) code k budget of
                       Inl e \<Rightarrow> Inl e
                     | Inr (passed, timed_out) \<Rightarrow>
                         if passed \<or> timed_out then Inr (False, seen)
                         else if join_nul k \<in> set seen then Inr (True, seen)
                         else (case confirm_run w x (AloneBaseRun i) (xm_code x) k budget of
                                 Inl e \<Rightarrow> Inl e
                               | Inr (cp, cto) \<Rightarrow> if cp \<and> \<not> cto then Inr (True, join_nul k # seen) else Inr (False, seen))))
      | _ \<Rightarrow> Inr (False, seen))"

definition with_grading :: "(mutant_grading \<Rightarrow> mutant_grading) \<Rightarrow> outcome \<Rightarrow> outcome" where
  "with_grading f out = out\<lparr>oc_grading := map_option f (oc_grading out)\<rparr>"

definition confirm_repeat :: "world \<Rightarrow> exam \<Rightarrow> nat \<Rightarrow> outcome \<Rightarrow> string \<Rightarrow> int \<Rightarrow> jail_error + outcome" where
  \<comment> \<open>step B: the grading command again\<close>
  "confirm_repeat w x i out code budget =
     (case confirm_run w x (RepeatRun i) code (oc_grade_cmd out) budget of
        Inl e \<Rightarrow> Inl e
      | Inr (True, _) \<Rightarrow>
          Inr (with_grading (\<lambda>g. g\<lparr>mg_unrepeated_by := mg_killed_by g, mg_killed_by := [], mg_confirmation := KillNotRepeated\<rparr>)
                 (out\<lparr>oc_killed := False\<rparr>))
      | Inr (False, _) \<Rightarrow>
          (case confirm_run w x (RepeatBaseRun i) (xm_code x) (oc_grade_cmd out) budget of
             Inl e \<Rightarrow> Inl e
           | Inr (cp, cto) \<Rightarrow>
               if cp \<and> \<not> cto then Inr (with_grading (\<lambda>g. g\<lparr>mg_confirmation := KillConfirmedRepeated\<rparr>) out)
               else Inr (with_grading (\<lambda>g. g\<lparr>mg_killed_by := []\<rparr>)
                      (out\<lparr>oc_killed := False, oc_unmeasured := True, oc_unmeasured_reason := Some (KillUnstable (oc_grade_cmd out))\<rparr>))))"

definition confirm_kill ::
  "world \<Rightarrow> (string \<Rightarrow> string) \<Rightarrow> exam \<Rightarrow> score_config \<Rightarrow> grading_plan \<Rightarrow> nat \<Rightarrow> mutant \<Rightarrow> outcome \<Rightarrow> string list
     \<Rightarrow> confirm_error + outcome \<times> string list" where
  "confirm_kill w sha x cfg p i m out seen =
     (case apply_mutant sha m (xm_code x) of
        Inl e \<Rightarrow> Inl (ConfirmApply e)
      | Inr code \<Rightarrow>
          (let budget = cap_for cfg (gp_per_mutant p) (pv_baseline (gp_proven p)) (oc_cmd out) in
           case confirm_alone w x cfg i out code budget seen of
             Inl e \<Rightarrow> Inl (ConfirmRunError e)
           | Inr (True, seen') \<Rightarrow> Inr (with_grading (\<lambda>g. g\<lparr>mg_confirmation := KillConfirmedAlone\<rparr>) out, seen')
           | Inr (False, seen') \<Rightarrow>
               (case confirm_repeat w x i out code budget of
                  Inl e \<Rightarrow> Inl (ConfirmRunError e)
                | Inr out' \<Rightarrow> Inr (out', seen'))))"

fun confirm_loop ::
  "world \<Rightarrow> (string \<Rightarrow> string) \<Rightarrow> exam \<Rightarrow> score_config \<Rightarrow> grading_plan \<Rightarrow> mutant list \<Rightarrow> nat list \<Rightarrow> outcome list \<Rightarrow> string list
     \<Rightarrow> outcome list" where
  \<comment> \<open>over the indices of the candidates that are graded themselves; stops at the first run that could not be made\<close>
  "confirm_loop w sha x cfg p ms [] os seen = os"
| "confirm_loop w sha x cfg p ms (i # is) os seen =
     (if \<not> oc_candidate (os ! i) then confirm_loop w sha x cfg p ms is os seen
      else case confirm_kill w sha x cfg p i (ms ! i) (os ! i) seen of
        Inl e \<Rightarrow> os[i := (os ! i)\<lparr>oc_err := Some (ConfirmFailed (mu_id (ms ! i)) e)\<rparr>]
      | Inr (out, seen') \<Rightarrow> confirm_loop w sha x cfg p ms is (os[i := out]) seen')"

definition grading_failed :: "outcome list \<Rightarrow> bool" where
  "grading_failed os \<longleftrightarrow> (\<exists>out\<in>set os. oc_err out \<noteq> None)"

definition candidates :: "nat list \<Rightarrow> outcome list \<Rightarrow> nat" where
  "candidates rs os = (if grading_failed os then 0 else length (filter (\<lambda>i. oc_candidate (os ! i)) (representatives rs)))"

definition confirm_all ::
  "world \<Rightarrow> (string \<Rightarrow> string) \<Rightarrow> exam \<Rightarrow> score_config \<Rightarrow> grading_plan \<Rightarrow> mutant list \<Rightarrow> nat list \<Rightarrow> outcome list \<Rightarrow> outcome list" where
  "confirm_all w sha x cfg p ms rs os =
     (if grading_failed os then os else confirm_loop w sha x cfg p ms (representatives rs) os [])"

definition inherit :: "nat list \<Rightarrow> outcome list \<Rightarrow> outcome list" where
  "inherit rs os = map (\<lambda>i. os ! (rs ! i)) [0..<length rs]"

subsection \<open>The report\<close>

definition mutant_spread :: "(string \<times> mutant_grading) list \<Rightarrow> int \<times> int" where
  "mutant_spread per =
     (let ds = sort (filter (\<lambda>d. d > 0) (map (mg_duration \<circ> snd) per)) in
      if ds = [] then (0, 0) else (ds ! (length ds div 2), last ds))"

definition recorded_reason :: "invalid_reason option \<Rightarrow> invalid_reason option" where
  \<comment> \<open>the empty text is no reason\<close>
  "recorded_reason r = (if r = Some (GateOutput []) then None else r)"

definition record_outcome :: "string \<Rightarrow> outcome \<Rightarrow> report \<Rightarrow> report" where
  "record_outcome ident out rep =
     (if oc_invalid out then
        rep\<lparr>rp_invalid := rp_invalid rep @ [ident],
            rp_invalid_reasons := (case recorded_reason (oc_invalid_reason out) of None \<Rightarrow> rp_invalid_reasons rep
               | Some r \<Rightarrow> AList.update ident r (rp_invalid_reasons rep))\<rparr>
      else
        (let rep1 = (case oc_grading out of None \<Rightarrow> rep
                     | Some g \<Rightarrow> rep\<lparr>rp_per_mutant := AList.update ident g (rp_per_mutant rep)\<rparr>) in
         if oc_unmeasured out then
           rep1\<lparr>rp_unmeasured := rp_unmeasured rep1 @ [ident],
                rp_unmeasured_reasons := (case oc_unmeasured_reason out of None \<Rightarrow> rp_unmeasured_reasons rep1
                   | Some r \<Rightarrow> AList.update ident r (rp_unmeasured_reasons rep1))\<rparr>
         else if oc_killed out then rep1\<lparr>rp_killed := rp_killed rep1 @ [ident]\<rparr>
         else rep1\<lparr>rp_survived := rp_survived rep1 @ [ident]\<rparr>))"

fun assemble :: "(mutant \<times> outcome) list \<Rightarrow> report \<Rightarrow> grade_error + report" where
  "assemble [] rep = Inr rep"
| "assemble ((m, out) # l) rep =
     (case oc_err out of Some e \<Rightarrow> Inl e | None \<Rightarrow> assemble l (record_outcome (mu_id m) out rep))"

definition finish_report :: "report \<Rightarrow> report" where
  "finish_report rep =
     rep\<lparr>rp_total := length (rp_killed rep) + length (rp_survived rep),
         rp_duration_median := fst (mutant_spread (rp_per_mutant rep)), rp_duration_max := snd (mutant_spread (rp_per_mutant rep))\<rparr>"

subsection \<open>Score\<close>

definition baseline_output :: "world \<Rightarrow> run_result \<Rightarrow> string" where
  "baseline_output w r = (if w_detailed w \<or> w_verbose w then rr_output r else [])"

definition baseline_flaky :: "score_config \<Rightarrow> bool \<Rightarrow> string \<Rightarrow> string list" where
  "baseline_flaky cfg passed out =
     (case sc_failure_parser cfg of
        None \<Rightarrow> []
      | Some fp \<Rightarrow> (case fp_flaky fp of Some f \<Rightarrow> if passed then f out else [] | None \<Rightarrow> []))"

definition canary_result :: "world \<Rightarrow> exam \<Rightarrow> jail_error + bool" where
  "canary_result w x =
     (let r = run_on w x CanaryRun None canary_code (xm_cmd x) in
      case rr_error r of
        Some e \<Rightarrow> if is_timeout e then Inr True else Inl e
      | None \<Rightarrow> Inr (\<not> rr_passed r))"

definition plan_grading ::
  "world \<Rightarrow> exam \<Rightarrow> score_config \<Rightarrow> mutant list \<Rightarrow> int \<Rightarrow> score_error + (fail_fast_note option \<times> gate_note option \<times> grading_plan)" where
  \<comment> \<open>the time limit, the fail-fast probe, the gate probe and the proof of every grading command\<close>
  "plan_grading w x cfg ms base_dur =
     (let per_mutant = per_mutant_cap cfg base_dur; (ff_note, ff) = probe_fail_fast w x cfg per_mutant ms in
      case (if sc_compile_check cfg = [] then Inr None else probe_gate w x 0 (sc_compile_check cfg)) of
        Inl e \<Rightarrow> Inl (GateProbeCancelled e)
      | Inr gate_note \<Rightarrow>
          (let gate_probe = (if sc_compile_check cfg = [] then 0 else w_gate_took w);
               gate_cap = max per_mutant (gate_probe * mutant_timeout_multiple);
               gate = (if gate_note = None then sc_compile_check cfg else []) in
           case prove_all w x cfg per_mutant ff ms of
             Inl e \<Rightarrow> Inl e
           | Inr proven \<Rightarrow>
               Inr (ff_note, gate_note,
                    \<lparr>gp_per_mutant = per_mutant, gp_gate = gate, gp_gate_cap = gate_cap, gp_gate_probe = gate_probe,
                     gp_fail_fast = ff, gp_proven = proven\<rparr>)))"

definition score_mutants ::
  "world \<Rightarrow> (string \<Rightarrow> string) \<Rightarrow> exam \<Rightarrow> score_config \<Rightarrow> mutant list \<Rightarrow> report \<Rightarrow> score_error + report" where
  \<comment> \<open>everything after the baseline and the canary\<close>
  "score_mutants w sha x cfg ms rep0 =
     (case plan_grading w x cfg ms (rp_baseline_duration rep0) of
        Inl e \<Rightarrow> Inl e
      | Inr (ff_note, gate_note, p) \<Rightarrow>
          (let rs = rep_of cfg ms;
               graded = grade_all w sha x cfg p ms rs;
               os = inherit rs (confirm_all w sha x cfg p ms rs graded);
               skipped = length (filter oc_gate_skipped os);
               rep1 = rep0\<lparr>rp_fail_fast := gp_fail_fast p \<noteq> None, rp_fail_fast_note := ff_note,
                 rp_duplicates := length (filter (\<lambda>i. rs ! i \<noteq> i) [0..<length rs]),
                 rp_confirm_duration := (if candidates rs graded > 0 then w_confirm_took w else 0),
                 rp_gate_note := (case gate_note of None \<Rightarrow> [] | Some n \<Rightarrow> [n]) @ (if skipped > 0 then [GateSkippedOn skipped] else [])\<rparr> in
           case assemble (zip ms os) rep1 of
             Inl e \<Rightarrow> Inl (GradeFailed e)
           | Inr rep \<Rightarrow> Inr (finish_report rep)))"

definition score :: "world \<Rightarrow> (string \<Rightarrow> string) \<Rightarrow> exam \<Rightarrow> score_config \<Rightarrow> mutant list \<Rightarrow> score_error + report" where
  "score w sha x cfg ms =
     (let r = run_on w x BaselineRun None (xm_code x) (xm_cmd x); out = baseline_output w r; took = w_took w BaselineRun in
      case rr_error r of
        Some e \<Rightarrow>
          if is_timeout e then
            Inr (zero_report\<lparr>rp_baseline_output := out, rp_baseline_duration := took, rp_baseline_timed_out := True\<rparr>)
          else Inl (BaselineError e)
      | None \<Rightarrow>
          (let rep = zero_report\<lparr>rp_compliant_pass := rr_passed r, rp_baseline_duration := took,
                       rp_baseline_flaky := baseline_flaky cfg (rr_passed r) out\<rparr> in
           if \<not> rr_passed r then Inr (rep\<lparr>rp_baseline_output := out\<rparr>)
           else if ms = [] then score_mutants w sha x cfg ms rep
           else (case canary_result w x of
                   Inl e \<Rightarrow> Inl (CanaryError e)
                 | Inr False \<Rightarrow> Inr rep
                 | Inr True \<Rightarrow> score_mutants w sha x cfg ms (rep\<lparr>rp_canary_killed := True\<rparr>))))"

end
