(* ===== verification/Score_Properties.thy ===== *)
theory Score_Properties
  imports Score
begin

section \<open>What a score means\<close>

text \<open>
  The verdict of each mutant is read off its final outcome. The lemmas follow an outcome from its grading run through confirmation and
  inheritance; the theorems say what a kill and a survivor rest on, that the report is a partition of the exam in its order, and that nothing
  is reported where nothing was measured.
\<close>

datatype verdict = Killed | Survived | Invalid | Unmeasured

definition verdict_of :: "outcome \<Rightarrow> verdict" where
  "verdict_of out = (if oc_invalid out then Invalid else if oc_unmeasured out then Unmeasured else if oc_killed out then Killed else Survived)"

definition final_outcomes :: "world \<Rightarrow> (string \<Rightarrow> string) \<Rightarrow> exam \<Rightarrow> score_config \<Rightarrow> grading_plan \<Rightarrow> mutant list \<Rightarrow> outcome list" where
  "final_outcomes w sha x cfg p ms =
     (let rs = rep_of cfg ms in inherit rs (confirm_all w sha x cfg p ms rs (grade_all w sha x cfg p ms rs)))"

definition verdicts :: "world \<Rightarrow> (string \<Rightarrow> string) \<Rightarrow> exam \<Rightarrow> score_config \<Rightarrow> mutant list \<Rightarrow> verdict list" where
  "verdicts w sha x cfg ms =
     (case plan_grading w x cfg ms (w_took w BaselineRun) of
        Inl _ \<Rightarrow> []
      | Inr (_, _, p) \<Rightarrow> map verdict_of (final_outcomes w sha x cfg p ms))"

subsection \<open>Grading in any order\<close>

lemma fold_list_update:
  "length (fold (\<lambda>i os. os[i := f i]) is xs) = length xs"
  "j < length xs \<Longrightarrow> fold (\<lambda>i os. os[i := f i]) is xs ! j = (if j \<in> set is then f j else xs ! j)"
  by (induction "is" arbitrary: xs) auto

lemma set_schedule: "fair_world w \<Longrightarrow> set (grade_schedule w cfg rs) = set (representatives rs)"
  by (simp add: grade_schedule_def fair_world_def)

lemma grade_all_eq:
  "fair_world w \<Longrightarrow> grade_all w sha x cfg p ms rs =
     map (\<lambda>i. if i \<in> set (representatives rs) then score_one w sha x cfg p i (ms ! i) else zero_outcome) [0..<length ms]"
  by (rule nth_equalityI) (auto simp: grade_all_def fold_list_update set_schedule)

subsection \<open>Representatives\<close>

lemma length_reps [simp]: "length (reps cfg seen i ms) = length ms"
  by (induction ms arbitrary: seen i) (auto split: option.splits)

lemma reps_spec:
  "(\<forall>k j. map_of seen k = Some j \<longrightarrow> j < i) \<Longrightarrow> n < length ms \<Longrightarrow>
     (case map_of seen (dedupe_key cfg (ms ! n)) of
        Some j \<Rightarrow> reps cfg seen i ms ! n = j
      | None \<Rightarrow> \<exists>q\<le>n. reps cfg seen i ms ! n = i + q \<and> dedupe_key cfg (ms ! q) = dedupe_key cfg (ms ! n) \<and>
          (\<forall>q'<q. dedupe_key cfg (ms ! q') \<noteq> dedupe_key cfg (ms ! n)))"
proof (induction ms arbitrary: seen i n)
  case (Cons m ms)
  show ?case
  proof (cases "map_of seen (dedupe_key cfg m)")
    case (Some j)
    have less: "\<forall>k j. map_of seen k = Some j \<longrightarrow> j < i + 1" using Cons.prems(1) by fastforce
    show ?thesis
    proof (cases n)
      case 0 with Some show ?thesis by simp
    next
      case (Suc n')
      show ?thesis
      proof (cases "map_of seen (dedupe_key cfg (ms ! n'))")
        case None
        with Cons.IH [OF less, of n'] Cons.prems Some Suc obtain q where q: "q \<le> n'" "reps cfg seen (i + 1) ms ! n' = Suc (i + q)"
            "dedupe_key cfg (ms ! q) = dedupe_key cfg (ms ! n')" "\<forall>q'<q. dedupe_key cfg (ms ! q') \<noteq> dedupe_key cfg (ms ! n')"
          by auto
        moreover from None Some have "dedupe_key cfg m \<noteq> dedupe_key cfg (ms ! n')" by auto
        ultimately show ?thesis using None Some Suc by (auto simp: All_less_Suc2 intro!: exI [of _ "Suc q"])
      qed (use Cons.IH [OF less, of n'] Cons.prems Some Suc in auto)
    qed
  next
    case None
    let ?seen = "(dedupe_key cfg m, i) # seen"
    have less: "\<forall>k j. map_of ?seen k = Some j \<longrightarrow> j < i + 1" using Cons.prems(1) by (auto intro: less_SucI)
    show ?thesis
    proof (cases n)
      case 0 with None show ?thesis by simp
    next
      case (Suc n')
      with Cons.IH [OF less, of n'] Cons.prems None show ?thesis
        by (auto split: option.splits if_splits simp: All_less_Suc2 intro!: exI [of _ "Suc _"])
    qed
  qed
qed simp

lemma length_rep_of [simp]: "length (rep_of cfg ms) = length ms"
  by (simp add: rep_of_def)

lemma rep_of_spec:
  assumes "n < length ms"
  shows "rep_of cfg ms ! n \<le> n" "dedupe_key cfg (ms ! (rep_of cfg ms ! n)) = dedupe_key cfg (ms ! n)"
    "q < rep_of cfg ms ! n \<Longrightarrow> dedupe_key cfg (ms ! q) \<noteq> dedupe_key cfg (ms ! n)"
  using reps_spec [of "[]" 0 n ms cfg] assms by (auto simp: rep_of_def)

lemma rep_of_same_key:
  assumes "i < length ms" "j < length ms" "dedupe_key cfg (ms ! i) = dedupe_key cfg (ms ! j)"
  shows "rep_of cfg ms ! i = rep_of cfg ms ! j"
  using rep_of_spec [OF assms(1), where cfg = cfg] rep_of_spec [OF assms(2), where cfg = cfg] assms(3) by (metis linorder_neqE_nat)

lemma rep_of_representative:
  assumes "n < length ms"
  shows "rep_of cfg ms ! n \<in> set (representatives (rep_of cfg ms))"
proof -
  have r: "rep_of cfg ms ! n < length ms" using rep_of_spec(1) [OF assms, of cfg] assms by simp
  then have "rep_of cfg ms ! (rep_of cfg ms ! n) = rep_of cfg ms ! n"
    using rep_of_same_key [OF r assms] rep_of_spec(2) [OF assms] by simp
  with r show ?thesis by (simp add: representatives_def)
qed

subsection \<open>What a run says\<close>

definition passes :: "world \<Rightarrow> exam \<Rightarrow> run_id \<Rightarrow> string \<Rightarrow> argv \<Rightarrow> bool" where
  "passes w x rid code cmd \<longleftrightarrow> (\<exists>b. rr_error (run_on w x rid b code cmd) = None \<and> rr_passed (run_on w x rid b code cmd))"

definition fails :: "world \<Rightarrow> exam \<Rightarrow> run_id \<Rightarrow> string \<Rightarrow> argv \<Rightarrow> bool" where
  "fails w x rid code cmd \<longleftrightarrow> (\<exists>b. rr_error (run_on w x rid b code cmd) = None \<and> \<not> rr_passed (run_on w x rid b code cmd))"

definition runs_out :: "world \<Rightarrow> exam \<Rightarrow> run_id \<Rightarrow> string \<Rightarrow> argv \<Rightarrow> bool" where
  "runs_out w x rid code cmd \<longleftrightarrow> (\<exists>b e. rr_error (run_on w x rid b code cmd) = Some e \<and> (is_timeout e \<or> is_deadline e))"

lemma confirm_run_spec:
  assumes "confirm_run w x rid code cmd b = Inr (p, t)"
  shows "p \<and> \<not> t \<and> passes w x rid code cmd \<or> \<not> p \<and> \<not> t \<and> fails w x rid code cmd \<or> \<not> p \<and> t \<and> runs_out w x rid code cmd"
  using assms unfolding confirm_run_def Let_def passes_def fails_def runs_out_def
  by (cases "rr_error (run_on w x rid (Some b) code cmd)") (auto split: option.splits if_splits)

definition seen_ok :: "world \<Rightarrow> exam \<Rightarrow> string list \<Rightarrow> bool" where
  "seen_ok w x seen \<longleftrightarrow> (\<forall>key\<in>set seen. \<exists>i k. join_nul k = key \<and> passes w x (AloneBaseRun i) (xm_code x) k)"

definition confirmed :: "world \<Rightarrow> exam \<Rightarrow> nat \<Rightarrow> string \<Rightarrow> argv \<Rightarrow> bool" where
  \<comment> \<open>one test alone tells the mutant from the original, or the grading command does so a second time\<close>
  "confirmed w x i code cmd \<longleftrightarrow>
     (\<exists>k k' i'. fails w x (AloneRun i) code k \<and> join_nul k' = join_nul k \<and> passes w x (AloneBaseRun i') (xm_code x) k') \<or>
     (fails w x (RepeatRun i) code cmd \<or> runs_out w x (RepeatRun i) code cmd) \<and> passes w x (RepeatBaseRun i) (xm_code x) cmd"

lemma confirm_alone_spec:
  assumes "confirm_alone w x cfg i out code b seen = Inr (ok, seen')" "seen_ok w x seen"
  shows "seen_ok w x seen' \<and> (ok \<longrightarrow> confirmed w x i code (oc_grade_cmd out))"
proof (cases "\<exists>g f k. oc_grading out = Some g \<and> sc_kill_confirmer cfg = Some f \<and> name_killer w cfg \<and> mg_killed_by g \<noteq> [] \<and> f (oc_grade_cmd out) (mg_killed_by g) = Some k")
  case False
  then have "ok = False \<and> seen' = seen"
    using assms(1) unfolding confirm_alone_def by (auto split: option.splits if_splits)
  with assms(2) show ?thesis by simp
next
  case True
  then obtain g f k where k: "oc_grading out = Some g" "sc_kill_confirmer cfg = Some f" "name_killer w cfg" "mg_killed_by g \<noteq> []"
    "f (oc_grade_cmd out) (mg_killed_by g) = Some k" by blast
  obtain p t where m: "confirm_run w x (AloneRun i) code k b = Inr (p, t)"
    using assms(1) k by (auto simp: confirm_alone_def split: sum.splits)
  show ?thesis
  proof (cases "p \<or> t")
    case True
    with assms k m show ?thesis by (auto simp: confirm_alone_def)
  next
    case False
    with confirm_run_spec [OF m] have f: "fails w x (AloneRun i) code k" by auto
    show ?thesis
    proof (cases "join_nul k \<in> set seen")
      case True
      with assms k m False have "ok \<and> seen' = seen" by (auto simp: confirm_alone_def)
      with True f assms(2) show ?thesis by (auto simp: seen_ok_def confirmed_def)
    next
      case new: False
      then obtain cp ct where c: "confirm_run w x (AloneBaseRun i) (xm_code x) k b = Inr (cp, ct)"
        using assms(1) k m False by (auto simp: confirm_alone_def split: sum.splits)
      with assms k m False new have "if cp \<and> \<not> ct then ok \<and> seen' = join_nul k # seen else \<not> ok \<and> seen' = seen"
        by (auto simp: confirm_alone_def split: if_splits)
      with confirm_run_spec [OF c] f assms(2) show ?thesis by (auto simp: seen_ok_def confirmed_def split: if_splits)
    qed
  qed
qed

definition fresh_candidate :: "outcome \<Rightarrow> bool" where
  "fresh_candidate out \<longleftrightarrow> oc_killed out \<and> oc_candidate out \<and> oc_err out = None \<and> \<not> oc_invalid out \<and> \<not> oc_unmeasured out"

lemma with_grading_simps [simp]:
  "oc_killed (with_grading f out) = oc_killed out" "oc_invalid (with_grading f out) = oc_invalid out"
  "oc_unmeasured (with_grading f out) = oc_unmeasured out" "oc_err (with_grading f out) = oc_err out"
  by (simp_all add: with_grading_def)

lemma confirm_kill_spec:
  assumes "confirm_kill w sha x cfg p i m out seen = Inr (out', seen')" "seen_ok w x seen" "fresh_candidate out"
  shows "seen_ok w x seen' \<and> (\<exists>code. apply_mutant sha m (xm_code x) = Inr code \<and>
     (verdict_of out' = Killed \<longrightarrow> confirmed w x i code (oc_grade_cmd out)) \<and>
     (verdict_of out' = Survived \<longrightarrow> passes w x (RepeatRun i) code (oc_grade_cmd out)))"
proof -
  let ?b = "cap_for cfg (gp_per_mutant p) (pv_baseline (gp_proven p)) (oc_cmd out)"
  obtain code where code: "apply_mutant sha m (xm_code x) = Inr code"
    using assms(1) by (auto simp: confirm_kill_def split: sum.splits)
  obtain ok seen'' where a: "confirm_alone w x cfg i out code ?b seen = Inr (ok, seen'')"
    using assms(1) code by (auto simp: confirm_kill_def Let_def split: sum.splits)
  note sa = confirm_alone_spec [OF a assms(2)]
  show ?thesis
  proof (cases ok)
    case True
    with assms code a have "out' = with_grading (\<lambda>g. g\<lparr>mg_confirmation := KillConfirmedAlone\<rparr>) out \<and> seen' = seen''"
      by (simp add: confirm_kill_def Let_def)
    with sa True code assms(3) show ?thesis by (auto simp: verdict_of_def fresh_candidate_def)
  next
    case False
    with assms code a have r: "confirm_repeat w x i out code ?b = Inr out'" "seen' = seen''"
      by (auto simp: confirm_kill_def Let_def split: sum.splits)
    obtain mp mt where m: "confirm_run w x (RepeatRun i) code (oc_grade_cmd out) ?b = Inr (mp, mt)"
      using r(1) by (auto simp: confirm_repeat_def split: sum.splits)
    show ?thesis
    proof (cases mp)
      case True
      with r(1) m have "verdict_of out' = Survived" using assms(3) by (auto simp: confirm_repeat_def verdict_of_def fresh_candidate_def)
      with confirm_run_spec [OF m] True sa r(2) code show ?thesis by auto
    next
      case mp: False
      then obtain cp ct where c: "confirm_run w x (RepeatBaseRun i) (xm_code x) (oc_grade_cmd out) ?b = Inr (cp, ct)"
        using r(1) m by (auto simp: confirm_repeat_def split: sum.splits)
      show ?thesis
      proof (cases "cp \<and> \<not> ct")
        case True
        with r(1) m mp c have "out' = with_grading (\<lambda>g. g\<lparr>mg_confirmation := KillConfirmedRepeated\<rparr>) out"
          by (auto simp: confirm_repeat_def)
        with confirm_run_spec [OF m] confirm_run_spec [OF c] mp True sa r(2) code assms(3) show ?thesis
          by (auto simp: verdict_of_def fresh_candidate_def confirmed_def)
      next
        case False
        with r(1) m mp c have "verdict_of out' = Unmeasured" using assms(3)
          by (auto simp: confirm_repeat_def verdict_of_def fresh_candidate_def)
        with sa r(2) code show ?thesis by auto
      qed
    qed
  qed
qed

subsection \<open>One mutant's outcome\<close>

definition grade_cmd_of :: "score_config \<Rightarrow> exam \<Rightarrow> grading_plan \<Rightarrow> mutant \<Rightarrow> argv" where
  "grade_cmd_of cfg x p m = fail_fast_cmd (gp_fail_fast p) (grading_command cfg x m)"

definition proven_ok :: "score_config \<Rightarrow> exam \<Rightarrow> grading_plan \<Rightarrow> mutant \<Rightarrow> bool" where
  "proven_ok cfg x p m \<longleftrightarrow> map_of (pv_fails (gp_proven p)) (join_nul (grading_command cfg x m)) = None \<and>
     join_nul (grading_command cfg x m) \<notin> set (pv_unreached (gp_proven p))"

definition graded_as :: "world \<Rightarrow> exam \<Rightarrow> score_config \<Rightarrow> grading_plan \<Rightarrow> nat \<Rightarrow> mutant \<Rightarrow> string \<Rightarrow> outcome \<Rightarrow> bool" where
  "graded_as w x cfg p i m code out \<longleftrightarrow>
     (let cmd = grade_cmd_of cfg x p m in
      (oc_candidate out \<longrightarrow> fresh_candidate out \<and> oc_grade_cmd out = cmd \<and> fails w x (GradeRun i) code cmd) \<and>
      (verdict_of out = Killed \<and> \<not> oc_candidate out \<longrightarrow> runs_out w x (GradeRun i) code cmd \<and> passes w x (ReprobeRun i) (xm_code x) cmd) \<and>
      (verdict_of out = Survived \<and> oc_err out = None \<longrightarrow> passes w x (GradeRun i) code cmd) \<and>
      (verdict_of out \<in> {Killed, Survived} \<and> oc_err out = None \<longrightarrow> proven_ok cfg x p m))"

lemma zero_outcome_simps [simp]:
  "oc_killed zero_outcome = False" "oc_candidate zero_outcome = False" "oc_err zero_outcome = None" "oc_invalid zero_outcome = False"
  "oc_unmeasured zero_outcome = False" "oc_gate_skipped zero_outcome = False" "oc_grading zero_outcome = None"
  by (simp_all add: zero_outcome_def)

lemma passesI: "rr_error (run_on w x rid b code cmd) = None \<Longrightarrow> rr_passed (run_on w x rid b code cmd) \<Longrightarrow> passes w x rid code cmd"
  by (auto simp: passes_def)
lemma failsI: "rr_error (run_on w x rid b code cmd) = None \<Longrightarrow> \<not> rr_passed (run_on w x rid b code cmd) \<Longrightarrow> fails w x rid code cmd"
  by (auto simp: fails_def)
lemma runs_outI: "rr_error (run_on w x rid b code cmd) = Some e \<Longrightarrow> is_timeout e \<or> is_deadline e \<Longrightarrow> runs_out w x rid code cmd"
  by (auto simp: runs_out_def)

lemma grade_spec: "graded_as w x cfg p i m code (grade w x cfg p i m code)"
proof (cases "proven_ok cfg x p m")
  case False
  then have "verdict_of (grade w x cfg p i m code) = Unmeasured \<and> \<not> oc_candidate (grade w x cfg p i m code)"
    by (cases "map_of (pv_fails (gp_proven p)) (join_nul (grading_command cfg x m))")
      (auto simp: proven_ok_def grade_def Let_def verdict_of_def)
  then show ?thesis by (simp add: graded_as_def)
next
  case True
  let ?cap = "cap_for cfg (gp_per_mutant p) (pv_baseline (gp_proven p)) (grading_command cfg x m)"
  let ?cmd = "grade_cmd_of cfg x p m"
  let ?r = "run_on w x (GradeRun i) (Some ?cap) code ?cmd" and ?b = "run_on w x (ReprobeRun i) (Some ?cap) (xm_code x) ?cmd"
  show ?thesis
  proof (cases "rr_error ?r")
    case None
    with True have g: "\<exists>g'. grade w x cfg p i m code = zero_outcome\<lparr>oc_killed := \<not> rr_passed ?r, oc_candidate := \<not> rr_passed ?r,
        oc_cmd := grading_command cfg x m, oc_grade_cmd := ?cmd, oc_grading := Some g'\<rparr>"
      unfolding grade_def proven_ok_def grade_cmd_of_def Let_def by (cases "rr_passed ?r") (auto simp: grade_cmd_of_def)
    then show ?thesis using None True passesI [OF None] failsI [OF None]
      by (auto simp: graded_as_def verdict_of_def fresh_candidate_def Let_def)
  next
    case (Some e)
    show ?thesis
    proof (cases "is_timeout e \<and> rr_error ?b = None \<and> rr_passed ?b")
      case killed: True
      with True Some have g: "\<exists>g'. grade w x cfg p i m code = zero_outcome\<lparr>oc_killed := True, oc_grading := Some g'\<rparr>"
        by (auto simp: grade_def proven_ok_def grade_cmd_of_def Let_def)
      then show ?thesis using killed True runs_outI [OF Some] passesI [of w x "ReprobeRun i" _ "xm_code x" ?cmd]
        by (auto simp: graded_as_def verdict_of_def Let_def)
    next
      case False
      with True Some have g: "\<exists>e'. grade w x cfg p i m code = zero_outcome\<lparr>oc_err := Some e'\<rparr>"
        by (auto simp: grade_def proven_ok_def grade_cmd_of_def Let_def split: option.splits)
      then show ?thesis by (auto simp: graded_as_def verdict_of_def)
    qed
  qed
qed

lemma score_one_spec:
  "(\<exists>code. apply_mutant sha m (xm_code x) = Inr code \<and> graded_as w x cfg p i m code (score_one w sha x cfg p i m)) \<or>
   \<not> oc_candidate (score_one w sha x cfg p i m) \<and> verdict_of (score_one w sha x cfg p i m) = Invalid \<or>
   \<not> oc_candidate (score_one w sha x cfg p i m) \<and> oc_err (score_one w sha x cfg p i m) \<noteq> None"
proof (cases "apply_mutant sha m (xm_code x)")
  case (Inl e) then show ?thesis by (simp add: score_one_def verdict_of_def)
next
  case (Inr code)
  have skip: "graded_as w x cfg p i m code (out\<lparr>oc_gate_skipped := True\<rparr>)" if "graded_as w x cfg p i m code out" for out
    using that by (simp add: graded_as_def verdict_of_def fresh_candidate_def Let_def)
  show ?thesis
    using Inr grade_spec [of w x cfg p i m code] skip
    by (cases "mutant_gate w x p i code 0 (gp_gate p)") (simp_all add: score_one_def verdict_of_def)
qed

subsection \<open>The confirmation pass\<close>

lemma length_confirm_loop [simp]: "length (confirm_loop w sha x cfg p ms is os seen) = length os"
  by (induction "is" arbitrary: os seen) (auto split: sum.splits)

lemma confirm_loop_spec:
  assumes "distinct is" "\<forall>i\<in>set is. i < length os \<and> (oc_candidate (os ! i) \<longrightarrow> fresh_candidate (os ! i))" "seen_ok w x seen"
    "\<not> grading_failed (confirm_loop w sha x cfg p ms is os seen)" "j < length os"
  shows "if j \<in> set is \<and> oc_candidate (os ! j)
    then \<exists>s s'. seen_ok w x s \<and> confirm_kill w sha x cfg p j (ms ! j) (os ! j) s = Inr (confirm_loop w sha x cfg p ms is os seen ! j, s')
    else confirm_loop w sha x cfg p ms is os seen ! j = os ! j"
  using assms
proof (induction "is" arbitrary: os seen)
  case (Cons i "is")
  show ?case
  proof (cases "oc_candidate (os ! i)")
    case False
    with Cons.IH [of os seen] Cons.prems show ?thesis by auto
  next
    case True
    show ?thesis
    proof (cases "confirm_kill w sha x cfg p i (ms ! i) (os ! i) seen")
      case (Inl e)
      then have "grading_failed (confirm_loop w sha x cfg p ms (i # is) os seen)"
        using True Cons.prems(2) by (auto simp: grading_failed_def intro!: bexI [OF _ set_update_memI])
      with Cons.prems(4) show ?thesis by contradiction
    next
      case (Inr r)
      then obtain out seen' where r: "confirm_kill w sha x cfg p i (ms ! i) (os ! i) seen = Inr (out, seen')" by (cases r) auto
      have ok: "seen_ok w x seen'" using confirm_kill_spec [OF r Cons.prems(3)] Cons.prems(2) True by auto
      have l: "confirm_loop w sha x cfg p ms (i # is) os seen = confirm_loop w sha x cfg p ms is (os[i := out]) seen'"
        using True r by simp
      have pre: "\<forall>q\<in>set is. q < length (os[i := out]) \<and> (oc_candidate (os[i := out] ! q) \<longrightarrow> fresh_candidate (os[i := out] ! q))"
        using Cons.prems(1,2) by (auto simp: nth_list_update)
      note IH = Cons.IH [OF _ pre ok, unfolded length_list_update, OF _ Cons.prems(4) [unfolded l] Cons.prems(5)]
      show ?thesis
      proof (cases "j = i")
        case True
        then have "j \<notin> set is" using Cons.prems(1) by simp
        with IH Cons.prems(1) l Cons.prems(5) True have "confirm_loop w sha x cfg p ms (i # is) os seen ! j = out" by auto
        with r Cons.prems(3) True \<open>oc_candidate (os ! i)\<close> show ?thesis by auto
      next
        case False
        with IH Cons.prems(1) show ?thesis unfolding l by auto
      qed
    qed
  qed
qed simp

lemma confirm_loop_other: "j \<notin> set is \<Longrightarrow> confirm_loop w sha x cfg p ms is os seen ! j = os ! j"
  by (induction "is" arbitrary: os seen) (auto split: sum.splits)

subsection \<open>The final outcomes\<close>

lemma length_grade_all [simp]: "length (grade_all w sha x cfg p ms rs) = length ms"
  by (simp add: grade_all_def fold_list_update)

lemma length_confirm_all [simp]: "length (confirm_all w sha x cfg p ms rs os) = length os"
  by (simp add: confirm_all_def)

lemma length_final [simp]: "length (final_outcomes w sha x cfg p ms) = length ms"
  by (simp add: final_outcomes_def inherit_def Let_def)

lemma representatives_rep: "i \<in> set (representatives rs) \<longleftrightarrow> i < length rs \<and> rs ! i = i"
  by (auto simp: representatives_def)

lemma distinct_representatives [simp]: "distinct (representatives rs)"
  by (simp add: representatives_def)

lemma final_nth:
  "i < length ms \<Longrightarrow> final_outcomes w sha x cfg p ms ! i =
     confirm_all w sha x cfg p ms (rep_of cfg ms) (grade_all w sha x cfg p ms (rep_of cfg ms)) ! (rep_of cfg ms ! i)"
  by (simp add: final_outcomes_def inherit_def Let_def)

lemma final_same_key:
  "i < length ms \<Longrightarrow> j < length ms \<Longrightarrow> dedupe_key cfg (ms ! i) = dedupe_key cfg (ms ! j) \<Longrightarrow>
     final_outcomes w sha x cfg p ms ! i = final_outcomes w sha x cfg p ms ! j"
  using rep_of_same_key [of i ms j cfg] by (simp add: final_nth)

lemma graded_nth:
  "fair_world w \<Longrightarrow> i \<in> set (representatives (rep_of cfg ms)) \<Longrightarrow>
     grade_all w sha x cfg p ms (rep_of cfg ms) ! i = score_one w sha x cfg p i (ms ! i)"
  by (simp add: grade_all_eq representatives_rep)

lemma final_no_error:
  assumes w: "fair_world w" and ok: "\<forall>out\<in>set (final_outcomes w sha x cfg p ms). oc_err out = None"
  shows "\<not> grading_failed (confirm_all w sha x cfg p ms (rep_of cfg ms) (grade_all w sha x cfg p ms (rep_of cfg ms)))"
proof
  let ?rs = "rep_of cfg ms"
  let ?res = "confirm_all w sha x cfg p ms ?rs (grade_all w sha x cfg p ms ?rs)"
  assume "grading_failed ?res"
  then obtain k where k: "k < length ms" "oc_err (?res ! k) \<noteq> None" by (auto simp: grading_failed_def in_set_conv_nth)
  show False
  proof (cases "?rs ! k = k")
    case True
    then have "oc_err (final_outcomes w sha x cfg p ms ! k) \<noteq> None" using k by (simp add: final_nth)
    with ok k(1) show False by (metis length_final nth_mem)
  next
    case False
    then have n: "k \<notin> set (representatives ?rs)" by (simp add: representatives_rep)
    then have "grade_all w sha x cfg p ms ?rs ! k = zero_outcome" using w k(1) by (simp add: grade_all_eq)
    then have "?res ! k = zero_outcome" using n by (simp add: confirm_all_def confirm_loop_other)
    with k(2) show False by simp
  qed
qed

lemma final_evidence:
  assumes w: "fair_world w" and ok: "\<forall>out\<in>set (final_outcomes w sha x cfg p ms). oc_err out = None" and i: "i < length ms"
    and r: "r = rep_of cfg ms ! i" and v: "verdict_of (final_outcomes w sha x cfg p ms ! i) \<in> {Killed, Survived}"
  shows "\<exists>code. apply_mutant sha (ms ! r) (xm_code x) = Inr code \<and> proven_ok cfg x p (ms ! r) \<and>
     (let cmd = grade_cmd_of cfg x p (ms ! r) in
      (verdict_of (final_outcomes w sha x cfg p ms ! i) = Killed \<longrightarrow>
         fails w x (GradeRun r) code cmd \<and> confirmed w x r code cmd \<or>
         runs_out w x (GradeRun r) code cmd \<and> passes w x (ReprobeRun r) (xm_code x) cmd) \<and>
      (verdict_of (final_outcomes w sha x cfg p ms ! i) = Survived \<longrightarrow>
         passes w x (GradeRun r) code cmd \<or> passes w x (RepeatRun r) code cmd))"
proof -
  let ?rs = "rep_of cfg ms"
  let ?os = "grade_all w sha x cfg p ms ?rs"
  let ?out = "score_one w sha x cfg p r (ms ! r)" and ?fin = "final_outcomes w sha x cfg p ms ! i"
  let ?cmd = "grade_cmd_of cfg x p (ms ! r)"
  have rep: "r \<in> set (representatives ?rs)" using rep_of_representative [OF i] r by simp
  then have rl: "r < length ms" by (simp add: representatives_rep)
  have nf: "\<not> grading_failed (confirm_all w sha x cfg p ms ?rs ?os)" using w ok by (rule final_no_error)
  then have nf0: "\<not> grading_failed ?os" by (auto simp: confirm_all_def split: if_splits)
  have fin: "?fin = confirm_loop w sha x cfg p ms (representatives ?rs) ?os [] ! r"
    using nf0 i r by (simp add: final_nth confirm_all_def)
  have osr: "?os ! r = ?out" using w rep by (rule graded_nth)
  have "?out \<in> set ?os" using osr rl by (metis length_grade_all nth_mem)
  then have err: "oc_err ?out = None" using nf0 by (auto simp: grading_failed_def)
  have fresh: "\<forall>q\<in>set (representatives ?rs). q < length ?os \<and> (oc_candidate (?os ! q) \<longrightarrow> fresh_candidate (?os ! q))"
  proof (intro ballI conjI impI)
    fix q assume q: "q \<in> set (representatives ?rs)" then show "q < length ?os" by (simp add: representatives_rep)
    assume "oc_candidate (?os ! q)"
    with score_one_spec [of sha "ms ! q" x w cfg p q] graded_nth [OF w q, of sha x p] show "fresh_candidate (?os ! q)"
      by (auto simp: graded_as_def Let_def)
  qed
  have s0: "seen_ok w x []" by (simp add: seen_ok_def)
  have step: "if oc_candidate ?out then \<exists>s s'. seen_ok w x s \<and> confirm_kill w sha x cfg p r (ms ! r) ?out s = Inr (?fin, s') else ?fin = ?out"
    using confirm_loop_spec [OF distinct_representatives fresh s0, of sha cfg p ms r] nf nf0 rl rep
    unfolding fin osr confirm_all_def by simp
  show ?thesis
  proof (cases "oc_candidate ?out")
    case True
    with score_one_spec [of sha "ms ! r" x w cfg p r] obtain code where
      c: "apply_mutant sha (ms ! r) (xm_code x) = Inr code" "graded_as w x cfg p r (ms ! r) code ?out" by auto
    then have g: "fresh_candidate ?out" "oc_grade_cmd ?out = ?cmd" "fails w x (GradeRun r) code ?cmd" "proven_ok cfg x p (ms ! r)"
      using True err by (auto simp: graded_as_def Let_def fresh_candidate_def verdict_of_def)
    from True step obtain s s' where "seen_ok w x s" "confirm_kill w sha x cfg p r (ms ! r) ?out s = Inr (?fin, s')" by auto
    from confirm_kill_spec [OF this(2,1) g(1)] g c(1) show ?thesis by (auto simp: Let_def)
  next
    case False
    with step have "?fin = ?out" by simp
    with v have vo: "verdict_of ?out \<in> {Killed, Survived}" by simp
    with score_one_spec [of sha "ms ! r" x w cfg p r] err obtain code where
      c: "apply_mutant sha (ms ! r) (xm_code x) = Inr code" "graded_as w x cfg p r (ms ! r) code ?out" by auto
    with False vo err \<open>?fin = ?out\<close> show ?thesis by (auto simp: graded_as_def Let_def)
  qed
qed

subsection \<open>The report\<close>

definition ids_with :: "verdict \<Rightarrow> mutant list \<Rightarrow> verdict list \<Rightarrow> string list" where
  "ids_with v ms vs = map (mu_id \<circ> fst) (filter (\<lambda>(m, v'). v' = v) (zip ms vs))"

lemma record_outcome_simps:
  "rp_killed (record_outcome k out rep) = rp_killed rep @ (if verdict_of out = Killed then [k] else [])"
  "rp_survived (record_outcome k out rep) = rp_survived rep @ (if verdict_of out = Survived then [k] else [])"
  "rp_invalid (record_outcome k out rep) = rp_invalid rep @ (if verdict_of out = Invalid then [k] else [])"
  "rp_unmeasured (record_outcome k out rep) = rp_unmeasured rep @ (if verdict_of out = Unmeasured then [k] else [])"
  "rp_canary_killed (record_outcome k out rep) = rp_canary_killed rep"
  "rp_compliant_pass (record_outcome k out rep) = rp_compliant_pass rep"
  "rp_fail_fast (record_outcome k out rep) = rp_fail_fast rep"
  "rp_duplicates (record_outcome k out rep) = rp_duplicates rep"
  by (auto simp: record_outcome_def verdict_of_def Let_def split: option.splits)

lemma assemble_spec:
  "assemble (zip ms os) rep0 = Inr rep \<Longrightarrow> length ms = length os \<Longrightarrow>
     (\<forall>out\<in>set os. oc_err out = None) \<and>
     rp_killed rep = rp_killed rep0 @ ids_with Killed ms (map verdict_of os) \<and>
     rp_survived rep = rp_survived rep0 @ ids_with Survived ms (map verdict_of os) \<and>
     rp_invalid rep = rp_invalid rep0 @ ids_with Invalid ms (map verdict_of os) \<and>
     rp_unmeasured rep = rp_unmeasured rep0 @ ids_with Unmeasured ms (map verdict_of os) \<and>
     rp_canary_killed rep = rp_canary_killed rep0 \<and> rp_compliant_pass rep = rp_compliant_pass rep0 \<and>
     rp_fail_fast rep = rp_fail_fast rep0 \<and> rp_duplicates rep = rp_duplicates rep0"
proof (induction ms arbitrary: os rep0)
  case (Cons m ms)
  then obtain out os' where os: "os = out # os'" by (cases os) auto
  with Cons.prems have e: "oc_err out = None" "assemble (zip ms os') (record_outcome (mu_id m) out rep0) = Inr rep" "length ms = length os'"
    by (auto split: option.splits)
  from Cons.IH [OF e(2,3)] e(1) show ?case by (auto simp: os record_outcome_simps ids_with_def)
qed (simp add: ids_with_def)

lemma finish_report_simps [simp]:
  "rp_killed (finish_report rep) = rp_killed rep" "rp_survived (finish_report rep) = rp_survived rep"
  "rp_invalid (finish_report rep) = rp_invalid rep" "rp_unmeasured (finish_report rep) = rp_unmeasured rep"
  "rp_canary_killed (finish_report rep) = rp_canary_killed rep" "rp_compliant_pass (finish_report rep) = rp_compliant_pass rep"
  "rp_fail_fast (finish_report rep) = rp_fail_fast rep" "rp_duplicates (finish_report rep) = rp_duplicates rep"
  "rp_total (finish_report rep) = length (rp_killed rep) + length (rp_survived rep)"
  by (simp_all add: finish_report_def)

lemma score_mutants_cases:
  assumes "score_mutants w sha x cfg ms rep0 = Inr rep"
  obtains n1 n2 p rep1 rep2 where "plan_grading w x cfg ms (rp_baseline_duration rep0) = Inr (n1, n2, p)"
    "assemble (zip ms (final_outcomes w sha x cfg p ms)) rep1 = Inr rep2" "rep = finish_report rep2"
    "rp_killed rep1 = rp_killed rep0" "rp_survived rep1 = rp_survived rep0" "rp_invalid rep1 = rp_invalid rep0"
    "rp_unmeasured rep1 = rp_unmeasured rep0" "rp_compliant_pass rep1 = rp_compliant_pass rep0"
    "rp_canary_killed rep1 = rp_canary_killed rep0" "rp_fail_fast rep1 = (gp_fail_fast p \<noteq> None)"
    "rp_duplicates rep1 = length (filter (\<lambda>i. rep_of cfg ms ! i \<noteq> i) [0..<length ms])"
proof -
  from assms obtain n1 n2 p where p: "plan_grading w x cfg ms (rp_baseline_duration rep0) = Inr (n1, n2, p)"
    by (auto simp: score_mutants_def split: sum.splits)
  define rep1 where "rep1 =
    (let rs = rep_of cfg ms; graded = grade_all w sha x cfg p ms rs; skipped = length (filter oc_gate_skipped (final_outcomes w sha x cfg p ms)) in
     rep0\<lparr>rp_fail_fast := gp_fail_fast p \<noteq> None, rp_fail_fast_note := n1,
       rp_duplicates := length (filter (\<lambda>i. rs ! i \<noteq> i) [0..<length rs]),
       rp_confirm_duration := (if candidates rs graded > 0 then w_confirm_took w else 0),
       rp_gate_note := (case n2 of None \<Rightarrow> [] | Some n \<Rightarrow> [n]) @ (if skipped > 0 then [GateSkippedOn skipped] else [])\<rparr>)"
  have "score_mutants w sha x cfg ms rep0 =
      (case assemble (zip ms (final_outcomes w sha x cfg p ms)) rep1 of Inl e \<Rightarrow> Inl (GradeFailed e) | Inr rep \<Rightarrow> Inr (finish_report rep))"
    unfolding score_mutants_def p rep1_def final_outcomes_def Let_def by simp
  with assms obtain rep2 where "assemble (zip ms (final_outcomes w sha x cfg p ms)) rep1 = Inr rep2" "rep = finish_report rep2"
    by (auto split: sum.splits)
  with p show thesis by (rule that) (simp_all add: rep1_def Let_def)
qed

lemma score_exam:
  assumes "score w sha x cfg ms = Inr rep" "rp_canary_killed rep"
  obtains n1 n2 p rep1 rep2 where "plan_grading w x cfg ms (w_took w BaselineRun) = Inr (n1, n2, p)"
    "assemble (zip ms (final_outcomes w sha x cfg p ms)) rep1 = Inr rep2" "rep = finish_report rep2"
    "rp_killed rep1 = []" "rp_survived rep1 = []" "rp_invalid rep1 = []" "rp_unmeasured rep1 = []" "rp_compliant_pass rep1"
    "rp_fail_fast rep1 = (gp_fail_fast p \<noteq> None)"
    "rp_duplicates rep1 = length (filter (\<lambda>i. rep_of cfg ms ! i \<noteq> i) [0..<length ms])"
    "passes w x BaselineRun (xm_code x) (xm_cmd x)" "canary_result w x = Inr True" "ms \<noteq> []"
proof -
  let ?r = "run_on w x BaselineRun None (xm_code x) (xm_cmd x)"
  define rep0 where "rep0 = zero_report\<lparr>rp_compliant_pass := rr_passed ?r, rp_baseline_duration := w_took w BaselineRun,
     rp_baseline_flaky := baseline_flaky cfg (rr_passed ?r) (baseline_output w ?r)\<rparr>"
  have z: "\<not> rp_canary_killed zero_report" by (simp add: zero_report_def)
  have ok: "rr_error ?r = None" "rr_passed ?r"
    using assms z by (auto simp: score_def Let_def split: option.splits if_splits)
  have s: "score w sha x cfg ms = (if ms = [] then score_mutants w sha x cfg ms rep0
      else case canary_result w x of Inl e \<Rightarrow> Inl (CanaryError e) | Inr False \<Rightarrow> Inr rep0
        | Inr True \<Rightarrow> score_mutants w sha x cfg ms (rep0\<lparr>rp_canary_killed := True\<rparr>))"
    by (cases "canary_result w x") (auto simp: score_def rep0_def Let_def ok split: bool.splits)
  have empty: "rp_killed rep0 = []" "rp_survived rep0 = []" "rp_invalid rep0 = []" "rp_unmeasured rep0 = []" "\<not> rp_canary_killed rep0"
      "rp_compliant_pass rep0" "rp_baseline_duration rep0 = w_took w BaselineRun"
    using ok by (simp_all add: rep0_def zero_report_def)
  have ms: "ms \<noteq> []"
  proof
    assume "ms = []"
    with assms(1) s have "score_mutants w sha x cfg ms rep0 = Inr rep" by simp
    then show False
    proof (rule score_mutants_cases)
      fix n1 n2 p rep1 rep2
      assume "assemble (zip ms (final_outcomes w sha x cfg p ms)) rep1 = Inr rep2" "rep = finish_report rep2" "rp_canary_killed rep1 = rp_canary_killed rep0"
      with assms(2) empty(5) \<open>ms = []\<close> show False by simp
    qed
  qed
  with assms s empty(5) have c: "canary_result w x = Inr True" and m: "score_mutants w sha x cfg ms (rep0\<lparr>rp_canary_killed := True\<rparr>) = Inr rep"
    by (auto split: sum.splits bool.splits)
  from m show thesis
  proof (rule score_mutants_cases)
    fix n1 n2 p rep1 rep2
    assume "plan_grading w x cfg ms (rp_baseline_duration (rep0\<lparr>rp_canary_killed := True\<rparr>)) = Inr (n1, n2, p)"
      "assemble (zip ms (final_outcomes w sha x cfg p ms)) rep1 = Inr rep2" "rep = finish_report rep2"
      "rp_killed rep1 = rp_killed (rep0\<lparr>rp_canary_killed := True\<rparr>)" "rp_survived rep1 = rp_survived (rep0\<lparr>rp_canary_killed := True\<rparr>)"
      "rp_invalid rep1 = rp_invalid (rep0\<lparr>rp_canary_killed := True\<rparr>)" "rp_unmeasured rep1 = rp_unmeasured (rep0\<lparr>rp_canary_killed := True\<rparr>)"
      "rp_compliant_pass rep1 = rp_compliant_pass (rep0\<lparr>rp_canary_killed := True\<rparr>)" "rp_fail_fast rep1 = (gp_fail_fast p \<noteq> None)"
      "rp_duplicates rep1 = length (filter (\<lambda>i. rep_of cfg ms ! i \<noteq> i) [0..<length ms])"
    then show thesis using that [of n1 n2 p rep1 rep2] empty c ms passesI [OF ok] by simp
  qed
qed

subsection \<open>What the plan has proven\<close>

definition grade_argv :: "world \<Rightarrow> exam \<Rightarrow> score_config \<Rightarrow> mutant \<Rightarrow> argv \<Rightarrow> bool" where
  \<comment> \<open>the mutant's own command, with a stop-at-first-failure argument only if compliant code was seen passing with it\<close>
  "grade_argv w x cfg m cmd \<longleftrightarrow> cmd = grading_command cfg x m \<or>
     (\<exists>args. cmd = append_fail_fast (grading_command cfg x m) args \<and>
        passes w x FailFastProbe (xm_code x) (append_fail_fast (xm_cmd x) args))"

lemma probe_fail_fast_spec:
  "probe_fail_fast w x cfg cap ms = (n, Some args) \<Longrightarrow> passes w x FailFastProbe (xm_code x) (append_fail_fast (xm_cmd x) args)"
  by (auto simp: probe_fail_fast_def passes_def Let_def split: option.splits if_splits)

lemma plan_parts:
  assumes "plan_grading w x cfg ms d = Inr (n1, n2, p)"
  shows "probe_fail_fast w x cfg (per_mutant_cap cfg d) ms = (n1, gp_fail_fast p)"
    "prove_all w x cfg (per_mutant_cap cfg d) (gp_fail_fast p) ms = Inr (gp_proven p)" "gp_per_mutant p = per_mutant_cap cfg d"
  using assms by (auto simp: plan_grading_def Let_def split: prod.splits sum.splits if_splits)

lemma plan_grade_argv:
  "plan_grading w x cfg ms d = Inr (n1, n2, p) \<Longrightarrow> grade_argv w x cfg m (grade_cmd_of cfg x p m)"
  using plan_parts(1) [of w x cfg ms d n1 n2 p] probe_fail_fast_spec
  by (cases "gp_fail_fast p") (fastforce simp: grade_argv_def grade_cmd_of_def fail_fast_cmd_def)+

lemma update_mem: "(k, v) \<in> set (AList.update k' v' al) \<Longrightarrow> (k, v) = (k', v') \<or> (k, v) \<in> set al"
  by (induction al) (auto split: if_splits)

lemma distinct_commands_keys:
  "\<forall>(k, c)\<in>set acc. join_nul c = k \<Longrightarrow> \<forall>(k, c)\<in>set (distinct_commands f shared acc ms). join_nul c = k"
proof (induction ms arbitrary: acc)
  case (Cons m ms)
  have "\<forall>(k, c)\<in>set (AList.update (join_nul (mc_cmd (f m))) (mc_cmd (f m)) acc). join_nul c = k"
    using Cons.prems by (auto dest!: update_mem)
  with Cons show ?case by (simp add: Let_def)
qed simp

lemma distinct_commands_dom:
  "fst ` set (distinct_commands f shared acc ms) =
     fst ` set acc \<union> {join_nul (mc_cmd (f m)) | m. m \<in> set ms \<and> mc_cmd (f m) \<noteq> [] \<and> join_nul (mc_cmd (f m)) \<noteq> shared}"
  by (induction ms arbitrary: acc) (auto simp: Let_def dom_update)

lemma prove_commands_spec:
  assumes "prove_commands w x cap ff l pv = Inr pv'"
  shows "dom (map_of (pv_fails pv)) \<subseteq> dom (map_of (pv_fails pv')) \<and> set (pv_unreached pv) \<subseteq> set (pv_unreached pv') \<and>
    (\<forall>(key, cmd)\<in>set l. map_of (pv_fails pv') key = None \<and> key \<notin> set (pv_unreached pv') \<longrightarrow>
       passes w x (ProveRun key) (xm_code x) (fail_fast_cmd ff cmd) \<and>
       (fails w x (ReachRun key) canary_code cmd \<or> runs_out w x (ReachRun key) canary_code cmd))"
  using assms
proof (induction l arbitrary: pv)
  case (Cons kc l)
  obtain key cmd where kc: "kc = (key, cmd)" by force
  let ?r = "run_on w x (ProveRun key) (Some cap) (xm_code x) (fail_fast_cmd ff cmd)"
  let ?c = "run_on w x (ReachRun key) (Some cap) canary_code cmd"
  have r: "rr_error ?r = None" using Cons.prems by (auto simp: kc Let_def split: option.splits)
  show ?case
  proof (cases "rr_passed ?r")
    case False
    let ?pv = "pv\<lparr>pv_baseline := AList.update key (w_took w (ProveRun key)) (pv_baseline pv),
        pv_fails := AList.update key (trim_space (last_lines (verbose_output w ?r) 12)) (pv_fails pv)\<rparr>"
    have "prove_commands w x cap ff l ?pv = Inr pv'" using Cons.prems r False by (simp add: kc Let_def)
    from Cons.IH [OF this] have IH: "insert key (dom (map_of (pv_fails pv))) \<subseteq> dom (map_of (pv_fails pv'))"
        "set (pv_unreached pv) \<subseteq> set (pv_unreached pv')"
        "\<forall>(key, cmd)\<in>set l. map_of (pv_fails pv') key = None \<and> key \<notin> set (pv_unreached pv') \<longrightarrow>
           passes w x (ProveRun key) (xm_code x) (fail_fast_cmd ff cmd) \<and>
           (fails w x (ReachRun key) canary_code cmd \<or> runs_out w x (ReachRun key) canary_code cmd)"
      by (simp_all add: dom_map_of_conv_image_fst dom_update)
    from IH(1) obtain y where "map_of (pv_fails pv') key = Some y" by blast
    with IH show ?thesis by (simp add: kc)
  next
    case True
    then have p: "passes w x (ProveRun key) (xm_code x) (fail_fast_cmd ff cmd)" using r by (rule passesI [rotated])
    let ?pv1 = "pv\<lparr>pv_baseline := AList.update key (w_took w (ProveRun key)) (pv_baseline pv)\<rparr>"
    show ?thesis
    proof (cases "rr_error ?c = None \<and> rr_passed ?c")
      case cp: True
      then have "prove_commands w x cap ff l (?pv1\<lparr>pv_unreached := key # pv_unreached pv\<rparr>) = Inr pv'"
        using Cons.prems r True by (simp add: kc Let_def)
      from Cons.IH [OF this] show ?thesis by (simp add: kc)
    next
      case False
      have "fails w x (ReachRun key) canary_code cmd \<or> runs_out w x (ReachRun key) canary_code cmd"
        and "prove_commands w x cap ff l ?pv1 = Inr pv'"
        using Cons.prems r True False failsI [of w x "ReachRun key" "Some cap" canary_code cmd] runs_outI [of w x "ReachRun key" "Some cap" canary_code cmd]
        by (auto simp: kc Let_def split: option.splits if_splits)
      with Cons.IH [OF this(2)] p show ?thesis by (simp add: kc)
    qed
  qed
qed simp

lemma proven_reach:
  assumes "fair_world w" "plan_grading w x cfg ms d = Inr (n1, n2, p)" "proven_ok cfg x p m" "m \<in> set ms"
    and key: "key = join_nul (grading_command cfg x m)" "key \<noteq> join_nul (xm_cmd x)"
  shows "\<exists>cmd. join_nul cmd = key \<and> passes w x (ProveRun key) (xm_code x) (fail_fast_cmd (gp_fail_fast p) cmd) \<and>
     (fails w x (ReachRun key) canary_code cmd \<or> runs_out w x (ReachRun key) canary_code cmd)"
proof -
  obtain f where f: "sc_command_for cfg = Some f" and c: "grading_command cfg x m = mc_cmd (f m)" "mc_cmd (f m) \<noteq> []"
    using key by (auto simp: grading_command_def split: option.splits if_splits)
  let ?l = "distinct_commands f (join_nul (xm_cmd x)) [] ms"
  have "key \<in> fst ` set ?l" using assms(4) key c by (auto simp: distinct_commands_dom)
  then obtain cmd where "(key, cmd) \<in> set ?l" by auto
  then have cmd: "(key, cmd) \<in> set (w_map_order w ?l)" "join_nul cmd = key"
    using assms(1) distinct_commands_keys [of "[]" f "join_nul (xm_cmd x)" ms] by (auto simp: fair_world_def)
  have "prove_commands w x (per_mutant_cap cfg d) (gp_fail_fast p) (w_map_order w ?l) nothing_proven = Inr (gp_proven p)"
    using plan_parts(2) [OF assms(2)] f by (simp add: prove_all_def)
  from prove_commands_spec [OF this] cmd assms(3) key(1) show ?thesis by (auto simp: proven_ok_def)
qed

subsection \<open>The claims\<close>

lemma ids_partition: "length ms = length vs \<Longrightarrow>
  length (ids_with Killed ms vs) + length (ids_with Survived ms vs) + length (ids_with Invalid ms vs) + length (ids_with Unmeasured ms vs) = length ms"
proof (induction ms vs rule: list_induct2)
  case (Cons m ms v vs)
  then show ?case by (cases v) (simp_all add: ids_with_def)
qed (simp add: ids_with_def)

text \<open>
  C8. When the canary died, the report is the exam: each mutant has exactly one verdict, the four lists hold the ids of the mutants with
  that verdict in the order of the exam, the denominator counts the killed and the survived alone, and two mutants that are the same edit
  graded by the same command have the same verdict although only the first of them was run.
\<close>

theorem report_is_partition:
  assumes "score w sha x cfg ms = Inr rep" "rp_canary_killed rep"
  shows "let vs = verdicts w sha x cfg ms in
    length vs = length ms \<and> rp_killed rep = ids_with Killed ms vs \<and> rp_survived rep = ids_with Survived ms vs \<and>
    rp_invalid rep = ids_with Invalid ms vs \<and> rp_unmeasured rep = ids_with Unmeasured ms vs \<and>
    rp_total rep = length (rp_killed rep) + length (rp_survived rep) \<and>
    rp_total rep + length (rp_invalid rep) + length (rp_unmeasured rep) = length ms \<and>
    (\<forall>i<length ms. \<forall>j<length ms. dedupe_key cfg (ms ! i) = dedupe_key cfg (ms ! j) \<longrightarrow> vs ! i = vs ! j) \<and>
    rp_duplicates rep = length (filter (\<lambda>i. \<exists>j<i. dedupe_key cfg (ms ! j) = dedupe_key cfg (ms ! i)) [0..<length ms])"
proof -
  obtain n1 n2 p rep1 rep2 where p: "plan_grading w x cfg ms (w_took w BaselineRun) = Inr (n1, n2, p)"
    and a: "assemble (zip ms (final_outcomes w sha x cfg p ms)) rep1 = Inr rep2" "rep = finish_report rep2"
      "rp_killed rep1 = []" "rp_survived rep1 = []" "rp_invalid rep1 = []" "rp_unmeasured rep1 = []"
      "rp_duplicates rep1 = length (filter (\<lambda>i. rep_of cfg ms ! i \<noteq> i) [0..<length ms])"
    using assms by (rule score_exam)
  let ?vs = "map verdict_of (final_outcomes w sha x cfg p ms)"
  have vs: "verdicts w sha x cfg ms = ?vs" by (simp add: verdicts_def p)
  have dup: "rep_of cfg ms ! i \<noteq> i \<longleftrightarrow> (\<exists>j<i. dedupe_key cfg (ms ! j) = dedupe_key cfg (ms ! i))" if "i < length ms" for i
  proof
    assume "rep_of cfg ms ! i \<noteq> i"
    then show "\<exists>j<i. dedupe_key cfg (ms ! j) = dedupe_key cfg (ms ! i)"
      using rep_of_spec(1,2) [OF that, where cfg = cfg] by (intro exI [of _ "rep_of cfg ms ! i"]) simp
  next
    assume "\<exists>j<i. dedupe_key cfg (ms ! j) = dedupe_key cfg (ms ! i)"
    then show "rep_of cfg ms ! i \<noteq> i" using rep_of_spec(3) [OF that, where cfg = cfg] by force
  qed
  have "filter (\<lambda>i. rep_of cfg ms ! i \<noteq> i) [0..<length ms] =
      filter (\<lambda>i. \<exists>j<i. dedupe_key cfg (ms ! j) = dedupe_key cfg (ms ! i)) [0..<length ms]"
    by (rule filter_cong) (simp_all add: dup del: ex_simps)
  moreover have same: "\<forall>i<length ms. \<forall>j<length ms. dedupe_key cfg (ms ! i) = dedupe_key cfg (ms ! j) \<longrightarrow> ?vs ! i = ?vs ! j"
  proof (intro allI impI)
    fix i j assume ij: "i < length ms" "j < length ms" "dedupe_key cfg (ms ! i) = dedupe_key cfg (ms ! j)"
    with final_same_key [OF this] show "?vs ! i = ?vs ! j" by simp
  qed
  ultimately show ?thesis
    unfolding vs Let_def using assemble_spec [OF a(1)] a ids_partition [of ms ?vs] by (intro conjI same) simp_all
qed

text \<open>
  C1. A kill is never one exit code. For every mutant with the verdict Killed there is a first mutant r of the same edit and command on
  whose code the grading run failed or ran out of time, and a second observation: the blamed test alone failed on the mutant and a
  command with the same words passed on compliant code, or the grading command again did not pass on the mutant and passed on compliant
  code, or, after a timeout, the grading command finished and passed on compliant code. A stop-at-first-failure argument is in the
  grading command only if compliant code was seen passing with it.
\<close>

theorem kills_confirmed:
  assumes "fair_world w" "score w sha x cfg ms = Inr rep" "rp_canary_killed rep"
    and "i < length ms" "verdicts w sha x cfg ms ! i = Killed"
  shows "\<exists>r code cmd. r \<le> i \<and> dedupe_key cfg (ms ! r) = dedupe_key cfg (ms ! i) \<and> apply_mutant sha (ms ! i) (xm_code x) = Inr code \<and>
     grade_argv w x cfg (ms ! r) cmd \<and>
     (fails w x (GradeRun r) code cmd \<and> confirmed w x r code cmd \<or>
      runs_out w x (GradeRun r) code cmd \<and> passes w x (ReprobeRun r) (xm_code x) cmd)"
proof -
  obtain n1 n2 p rep1 rep2 where p: "plan_grading w x cfg ms (w_took w BaselineRun) = Inr (n1, n2, p)"
    and a: "assemble (zip ms (final_outcomes w sha x cfg p ms)) rep1 = Inr rep2"
    using assms(2,3) by (rule score_exam)
  have ok: "\<forall>out\<in>set (final_outcomes w sha x cfg p ms). oc_err out = None" using assemble_spec [OF a] by simp
  have v: "verdict_of (final_outcomes w sha x cfg p ms ! i) = Killed" using assms(4,5) by (simp add: verdicts_def p)
  let ?r = "rep_of cfg ms ! i"
  note r = rep_of_spec [OF assms(4), where cfg = cfg]
  obtain code where c: "apply_mutant sha (ms ! ?r) (xm_code x) = Inr code"
    "fails w x (GradeRun ?r) code (grade_cmd_of cfg x p (ms ! ?r)) \<and> confirmed w x ?r code (grade_cmd_of cfg x p (ms ! ?r)) \<or>
     runs_out w x (GradeRun ?r) code (grade_cmd_of cfg x p (ms ! ?r)) \<and> passes w x (ReprobeRun ?r) (xm_code x) (grade_cmd_of cfg x p (ms ! ?r))"
    using final_evidence [OF assms(1) ok assms(4) refl] v by (auto simp: Let_def)
  have "identity_of (ms ! ?r) = identity_of (ms ! i)" using r(2) by (simp add: dedupe_key_def)
  then have "apply_mutant sha (ms ! i) (xm_code x) = Inr code" using c(1)
    by (auto simp: identity_of_def apply_mutant_def is_whole_file_def split: if_splits option.splits)
  with r c(2) plan_grade_argv [OF p] show ?thesis by blast
qed

text \<open>
  C11. A survivor's command reaches the file and its suite was seen passing on the mutant: the grading command passed on the mutant's code,
  and the command (or one with the same words) passed on compliant code and did not pass on source that cannot compile.
\<close>

theorem survivors_reached:
  assumes "fair_world w" "score w sha x cfg ms = Inr rep" "rp_canary_killed rep"
    and "i < length ms" "verdicts w sha x cfg ms ! i = Survived"
  shows "\<exists>r code cmd cmd'. r \<le> i \<and> dedupe_key cfg (ms ! r) = dedupe_key cfg (ms ! i) \<and> apply_mutant sha (ms ! i) (xm_code x) = Inr code \<and>
     grade_argv w x cfg (ms ! r) cmd \<and> (passes w x (GradeRun r) code cmd \<or> passes w x (RepeatRun r) code cmd) \<and>
     join_nul cmd' = join_nul (grading_command cfg x (ms ! r)) \<and>
     (\<exists>rid cmd''. cmd'' \<in> {cmd', fail_fast_cmd (snd (probe_fail_fast w x cfg (per_mutant_cap cfg (w_took w BaselineRun)) ms)) cmd'} \<and>
        passes w x rid (xm_code x) cmd'') \<and>
     (\<exists>rid. fails w x rid canary_code cmd' \<or> runs_out w x rid canary_code cmd')"
proof -
  obtain n1 n2 p rep1 rep2 where p: "plan_grading w x cfg ms (w_took w BaselineRun) = Inr (n1, n2, p)"
    and a: "assemble (zip ms (final_outcomes w sha x cfg p ms)) rep1 = Inr rep2"
    and base: "passes w x BaselineRun (xm_code x) (xm_cmd x)" and can: "canary_result w x = Inr True"
    using assms(2,3) by (rule score_exam)
  have ok: "\<forall>out\<in>set (final_outcomes w sha x cfg p ms). oc_err out = None" using assemble_spec [OF a] by simp
  have v: "verdict_of (final_outcomes w sha x cfg p ms ! i) = Survived" using assms(4,5) by (simp add: verdicts_def p)
  let ?r = "rep_of cfg ms ! i"
  let ?key = "join_nul (grading_command cfg x (ms ! ?r))"
  note r = rep_of_spec [OF assms(4), where cfg = cfg]
  obtain code where c: "apply_mutant sha (ms ! ?r) (xm_code x) = Inr code" "proven_ok cfg x p (ms ! ?r)"
    "passes w x (GradeRun ?r) code (grade_cmd_of cfg x p (ms ! ?r)) \<or> passes w x (RepeatRun ?r) code (grade_cmd_of cfg x p (ms ! ?r))"
    using final_evidence [OF assms(1) ok assms(4) refl] v by (auto simp: Let_def)
  have "identity_of (ms ! ?r) = identity_of (ms ! i)" using r(2) by (simp add: dedupe_key_def)
  then have code: "apply_mutant sha (ms ! i) (xm_code x) = Inr code" using c(1)
    by (auto simp: identity_of_def apply_mutant_def is_whole_file_def split: if_splits option.splits)
  have ff: "snd (probe_fail_fast w x cfg (per_mutant_cap cfg (w_took w BaselineRun)) ms) = gp_fail_fast p"
    using plan_parts(1) [OF p] by simp
  have "\<exists>cmd'. join_nul cmd' = ?key \<and> (\<exists>rid cmd''. cmd'' \<in> {cmd', fail_fast_cmd (gp_fail_fast p) cmd'} \<and> passes w x rid (xm_code x) cmd'') \<and>
      (\<exists>rid. fails w x rid canary_code cmd' \<or> runs_out w x rid canary_code cmd')"
  proof (cases "?key = join_nul (xm_cmd x)")
    case True
    have "fails w x CanaryRun canary_code (xm_cmd x) \<or> runs_out w x CanaryRun canary_code (xm_cmd x)"
      using can by (auto simp: canary_result_def Let_def fails_def runs_out_def split: option.splits if_splits)
    with True base show ?thesis by (intro exI [of _ "xm_cmd x"]) auto
  next
    case False
    have "ms ! ?r \<in> set ms" using r(1) assms(4) by simp
    from proven_reach [OF assms(1) p c(2) this refl False] show ?thesis by blast
  qed
  then show ?thesis unfolding ff using r(1,2) c(3) code plan_grade_argv [OF p] by blast
qed

text \<open>
  C33. Nothing is reported where nothing was measured: unless the compliant baseline finished and passed and the canary died, no mutant is
  listed under any verdict, the denominator is zero and so is the kill rate. The report says the baseline passed exactly when it did.
\<close>

theorem no_exam_no_rate:
  assumes "score w sha x cfg ms = Inr rep"
  shows "(rp_compliant_pass rep \<longleftrightarrow> (let r = run_on w x BaselineRun None (xm_code x) (xm_cmd x) in rr_error r = None \<and> rr_passed r)) \<and>
    (\<not> (rp_compliant_pass rep \<and> rp_canary_killed rep) \<longrightarrow>
       rp_killed rep = [] \<and> rp_survived rep = [] \<and> rp_invalid rep = [] \<and> rp_unmeasured rep = [] \<and> rp_total rep = 0 \<and> kill_rate rep = 0) \<and>
    (rp_canary_killed rep \<longrightarrow> rp_compliant_pass rep \<and> ms \<noteq> [] \<and> canary_result w x = Inr True)"
proof (cases "rp_canary_killed rep")
  case True
  have "rp_compliant_pass rep \<and> ms \<noteq> [] \<and> canary_result w x = Inr True"
    using assms True
  proof (rule score_exam)
    fix n1 n2 p rep1 rep2
    assume "assemble (zip ms (final_outcomes w sha x cfg p ms)) rep1 = Inr rep2" "rep = finish_report rep2" "rp_compliant_pass rep1"
      "canary_result w x = Inr True" "ms \<noteq> []"
    with assemble_spec [of ms "final_outcomes w sha x cfg p ms" rep1 rep2] show ?thesis by simp
  qed
  moreover have "rr_error (run_on w x BaselineRun None (xm_code x) (xm_cmd x)) = None \<and> rr_passed (run_on w x BaselineRun None (xm_code x) (xm_cmd x))"
    using assms True by (auto simp: score_def zero_report_def Let_def split: option.splits if_splits)
  ultimately show ?thesis using True by (simp add: Let_def)
next
  case False
  let ?r = "run_on w x BaselineRun None (xm_code x) (xm_cmd x)"
  have zero: "rp_killed rep0 = [] \<and> rp_survived rep0 = [] \<and> rp_invalid rep0 = [] \<and> rp_unmeasured rep0 = [] \<and> rp_total rep0 = 0"
    if "score_mutants w sha x cfg [] rep' = Inr rep0" "rp_killed rep' = []" "rp_survived rep' = []" "rp_invalid rep' = []" "rp_unmeasured rep' = []"
    for rep' rep0
    using that(1)
  proof (rule score_mutants_cases)
    fix n1 n2 p rep1 rep2
    assume "assemble (zip [] (final_outcomes w sha x cfg p [])) rep1 = Inr rep2" "rep0 = finish_report rep2" "rp_killed rep1 = rp_killed rep'"
      "rp_survived rep1 = rp_survived rep'" "rp_invalid rep1 = rp_invalid rep'" "rp_unmeasured rep1 = rp_unmeasured rep'"
    with that(2-) show ?thesis by simp
  qed
  have pass: "rp_compliant_pass rep0 = rp_compliant_pass rep'" if "score_mutants w sha x cfg ms' rep' = Inr rep0" for ms' rep' rep0
    using that
  proof (rule score_mutants_cases)
    fix n1 n2 p rep1 rep2
    assume "assemble (zip ms' (final_outcomes w sha x cfg p ms')) rep1 = Inr rep2" "rep0 = finish_report rep2"
      "rp_compliant_pass rep1 = rp_compliant_pass rep'"
    with assemble_spec [of ms' "final_outcomes w sha x cfg p ms'" rep1 rep2] show ?thesis by simp
  qed
  have canary: "rp_canary_killed rep0 = rp_canary_killed rep'" if "score_mutants w sha x cfg ms' rep' = Inr rep0" for ms' rep' rep0
    using that
  proof (rule score_mutants_cases)
    fix n1 n2 p rep1 rep2
    assume "assemble (zip ms' (final_outcomes w sha x cfg p ms')) rep1 = Inr rep2" "rep0 = finish_report rep2"
      "rp_canary_killed rep1 = rp_canary_killed rep'"
    with assemble_spec [of ms' "final_outcomes w sha x cfg p ms'" rep1 rep2] show ?thesis by simp
  qed
  have "(rp_compliant_pass rep \<longleftrightarrow> rr_error ?r = None \<and> rr_passed ?r) \<and>
      rp_killed rep = [] \<and> rp_survived rep = [] \<and> rp_invalid rep = [] \<and> rp_unmeasured rep = [] \<and> rp_total rep = 0"
  proof (cases "rr_error ?r")
    case (Some e)
    then show ?thesis using assms by (auto simp: score_def Let_def zero_report_def split: if_splits)
  next
    case None
    show ?thesis
    proof (cases "rr_passed ?r \<and> ms = []")
      case True
      with None assms have s: "score_mutants w sha x cfg [] (zero_report\<lparr>rp_compliant_pass := True, rp_baseline_duration := w_took w BaselineRun,
          rp_baseline_flaky := baseline_flaky cfg True (baseline_output w ?r)\<rparr>) = Inr rep"
        by (simp add: score_def Let_def)
      from zero [OF s] pass [OF s] None True show ?thesis by (simp add: zero_report_def)
    next
      case other: False
      then show ?thesis using None assms False canary
        by (auto simp: score_def Let_def zero_report_def split: if_splits sum.splits bool.splits)
    qed
  qed
  with False show ?thesis by (simp add: kill_rate_def Let_def)
qed

text \<open>
  C0. The kill rate of a scored report is a fraction: it lies between 0 and 1, and it is 1 exactly when mutants were graded, all of them
  were killed and the canary died, so neither rejected nor unmeasured mutants can move it.
\<close>

theorem kill_rate_fraction:
  assumes "score w sha x cfg ms = Inr rep"
  shows "0 \<le> kill_rate rep \<and> kill_rate rep \<le> 1 \<and>
    (kill_rate rep = 1 \<longleftrightarrow> rp_canary_killed rep \<and> rp_killed rep \<noteq> [] \<and> rp_survived rep = [])"
proof (cases "rp_canary_killed rep")
  case False then show ?thesis by (simp add: kill_rate_def)
next
  case True
  have t: "rp_total rep = length (rp_killed rep) + length (rp_survived rep)"
    using assms True
  proof (rule score_exam)
    fix rep2 assume "rep = finish_report rep2" then show ?thesis by simp
  qed
  then show ?thesis using True by (auto simp: kill_rate_def divide_simps)
qed

subsection \<open>Witnesses\<close>

definition ex_world :: world where
  \<comment> \<open>a suite that passes on the original and on one of its mutants\<close>
  "ex_world = \<lparr>w_run = (\<lambda>rid b files cmd. \<lparr>rr_passed = files ''f'' = Some ''a+b'' \<or> files ''f'' = Some ''a+c'', rr_output = [],
       rr_error = None, rr_ctx_err = None\<rparr>),
     w_took = (\<lambda>rid. 1), w_gate_took = 0, w_confirm_took = 5, w_verbose = False, w_detailed = False, w_map_order = (\<lambda>l. l), w_schedule = rev\<rparr>"

definition ex_exam :: exam where
  "ex_exam = \<lparr>xm_base = Map.empty, xm_path = ''f'', xm_code = ''a+b'', xm_cmd = [''make'', ''test'']\<rparr>"

definition ex_config :: score_config where
  "ex_config = \<lparr>sc_cap_floor = 0, sc_mutant_timeout = 0, sc_concurrency = 2, sc_compile_check = [],
     sc_command_for = Some (\<lambda>m. \<lparr>mc_cmd = [''make'', ''one''], mc_tests = 1, mc_rule = ''span''\<rparr>),
     sc_failure_parser = None, sc_fail_fast = None, sc_kill_confirmer = None\<rparr>"

definition ex_hunk :: "string \<Rightarrow> string \<Rightarrow> string \<Rightarrow> mutant" where
  "ex_hunk k s r = \<lparr>mu_id = k, mu_parent = [], mu_span = zero_range, mu_search = s, mu_replace = r\<rparr>"

definition ex_mutants :: "mutant list" where
  "ex_mutants = [ex_hunk ''m1'' ''+'' ''-'', ex_hunk ''m2'' ''b'' ''c'', ex_hunk ''m3'' ''+'' ''-'', ex_hunk ''m4'' ''x'' ''y'']"

definition ex_report :: report where
  "ex_report = (case score ex_world rev ex_exam ex_config ex_mutants of Inl _ \<Rightarrow> zero_report | Inr r \<Rightarrow> r)"

lemma ex_score: "score ex_world rev ex_exam ex_config ex_mutants = Inr ex_report"
proof -
  have "\<not> isl (score ex_world rev ex_exam ex_config ex_mutants)" by code_simp
  then show ?thesis by (auto simp: ex_report_def isl_def split: sum.splits)
qed

lemma ex_fair: "fair_world ex_world"
  by (simp add: fair_world_def ex_world_def)

lemma ex_canary: "rp_canary_killed ex_report" "rp_killed ex_report = [''m1'', ''m3'']" "rp_survived ex_report = [''m2'']" "rp_invalid ex_report = [''m4'']"
  by code_simp+

lemma ex_verdicts: "verdicts ex_world rev ex_exam ex_config ex_mutants = [Killed, Survived, Killed, Invalid]"
  by code_simp

lemma report_is_partition_witness:
  "let vs = verdicts ex_world rev ex_exam ex_config ex_mutants in
    length vs = length ex_mutants \<and> rp_killed ex_report = ids_with Killed ex_mutants vs"
  using report_is_partition [OF ex_score ex_canary(1)] by (simp add: Let_def)

lemma kills_confirmed_witness:
  "\<exists>r code cmd. r \<le> 2 \<and> apply_mutant rev (ex_mutants ! 2) (xm_code ex_exam) = Inr code \<and> grade_argv ex_world ex_exam ex_config (ex_mutants ! r) cmd"
proof -
  have "2 < length ex_mutants" "verdicts ex_world rev ex_exam ex_config ex_mutants ! 2 = Killed" by (simp add: ex_mutants_def, simp add: ex_verdicts)
  from kills_confirmed [OF ex_fair ex_score ex_canary(1) this] show ?thesis by blast
qed

lemma survivors_reached_witness:
  "\<exists>r code cmd. r \<le> 1 \<and> apply_mutant rev (ex_mutants ! 1) (xm_code ex_exam) = Inr code \<and> grade_argv ex_world ex_exam ex_config (ex_mutants ! r) cmd"
proof -
  have "1 < length ex_mutants" "verdicts ex_world rev ex_exam ex_config ex_mutants ! 1 = Survived" by (simp add: ex_mutants_def, simp add: ex_verdicts)
  from survivors_reached [OF ex_fair ex_score ex_canary(1) this] show ?thesis by blast
qed

definition ex_deaf :: world where
  \<comment> \<open>a suite that passes whatever the file holds, the canary included\<close>
  "ex_deaf = ex_world\<lparr>w_run := (\<lambda>rid b files cmd. \<lparr>rr_passed = True, rr_output = [], rr_error = None, rr_ctx_err = None\<rparr>)\<rparr>"

lemma ex_deaf_score:
  "case score ex_deaf rev ex_exam ex_config ex_mutants of Inl _ \<Rightarrow> False | Inr rep \<Rightarrow> \<not> rp_canary_killed rep"
  by code_simp

lemma no_exam_no_rate_witness:
  "rp_compliant_pass ex_report \<and> canary_result ex_world ex_exam = Inr True \<and>
   (\<exists>rep. score ex_deaf rev ex_exam ex_config ex_mutants = Inr rep \<and> rp_compliant_pass rep \<and> rp_total rep = 0 \<and> kill_rate rep = 0)"
proof -
  obtain rep where r: "score ex_deaf rev ex_exam ex_config ex_mutants = Inr rep" "\<not> rp_canary_killed rep"
    using ex_deaf_score by (auto split: sum.splits)
  have "rp_compliant_pass rep"
    using no_exam_no_rate [OF r(1)] by (simp add: run_on_def ex_deaf_def Let_def)
  then show ?thesis using no_exam_no_rate [OF ex_score] ex_canary(1) no_exam_no_rate [OF r(1)] r by blast
qed

lemma kill_rate_fraction_witness: "0 \<le> kill_rate ex_report \<and> kill_rate ex_report \<le> 1 \<and> kill_rate ex_report \<noteq> 1"
  using kill_rate_fraction [OF ex_score] by (simp add: ex_canary)

end
