(* ===== verification/Shell.thy ===== *)
theory Shell
  imports Prelude
begin

section \<open>Commands as shell text (internal/adequacy/jail.go, internal/lang/shlex.go)\<close>

text \<open>
  A command is flattened into one string (\<^verbatim>\<open>ShellJoin\<close>), parsed back into an argv (\<^verbatim>\<open>ShellSplit\<close>), and a wrapper script is read for the
  programs it runs (\<^verbatim>\<open>shellCommands\<close>). The lemmas show that the first two are inverse, and that no word written by \<^verbatim>\<open>ShellJoin\<close>, whatever it
  holds, is read by the lexer as anything but that one word. Texts are valid UTF-8, read as bytes: every character that matters is ASCII.
  The lexer works by index, as the code does; inside a double quote its loop is the flag \<open>dq\<close>.
\<close>

subsection \<open>Flattening an argv and parsing it back\<close>

abbreviation squote :: char where "squote \<equiv> CHR 0x27"
abbreviation dquote :: char where "dquote \<equiv> CHR 0x22"
abbreviation bslash :: char where "bslash \<equiv> CHR 0x5C"
abbreviation bquote :: char where "bquote \<equiv> CHR 0x60"
abbreviation space :: char where "space \<equiv> CHR 0x20"

definition escape_squote :: "string \<Rightarrow> string" where
  \<comment> \<open>\<^verbatim>\<open>strings.ReplaceAll(s, "'", `'\''`)\<close>\<close>
  "escape_squote s = concat (map (\<lambda>c. if c = squote then [squote, bslash, squote, squote] else [c]) s)"

definition shell_quote :: "string \<Rightarrow> string" where
  "shell_quote s = [squote] @ escape_squote s @ [squote]"

definition shell_join :: "string list \<Rightarrow> string" where
  "shell_join cmd = join [space] (map shell_quote cmd)"

fun shell_split_loop :: "char option \<Rightarrow> string \<Rightarrow> bool \<Rightarrow> string list \<Rightarrow> string \<Rightarrow> string list" where
  \<comment> \<open>the open quote, the word being read, whether one has started, the words read\<close>
  "shell_split_loop q cur started args [] = (if started then args @ [cur] else args)"
| "shell_split_loop q cur started args (c # s) =
     (if q = Some squote then
        (if c = squote then shell_split_loop None cur started args s
         else shell_split_loop q (cur @ [c]) started args s)
      else if q = Some dquote then
        (if c = bslash \<and> s \<noteq> [] \<and> hd s \<in> {dquote, bslash, CHR ''$'', bquote} then shell_split_loop q (cur @ [hd s]) started args (tl s)
         else if c = dquote then shell_split_loop None cur started args s
         else shell_split_loop q (cur @ [c]) started args s)
      else if c = squote \<or> c = dquote then shell_split_loop (Some c) cur True args s
      else if c = bslash \<and> s \<noteq> [] then shell_split_loop q (cur @ [hd s]) True args (tl s)
      else if c \<in> {space, CHR 0x09, CHR 0x0A, CHR 0x0D} then
        (if started then shell_split_loop q [] False (args @ [cur]) s else shell_split_loop q cur False args s)
      else shell_split_loop q (cur @ [c]) True args s)"

definition shell_split :: "string \<Rightarrow> string list" where
  "shell_split s = shell_split_loop None [] False [] s"

subsection \<open>Reading a script\<close>

record sh_word =
  sw_raw :: string
  sw_text :: string

record sh_state =
  sh_out :: "sh_word list list"
  sh_cur :: "sh_word list"
  sh_raw :: string
  sh_text :: string
  sh_in_word :: bool
  sh_redirect :: bool

definition sh_start :: sh_state where
  "sh_start = \<lparr>sh_out = [], sh_cur = [], sh_raw = [], sh_text = [], sh_in_word = False, sh_redirect = False\<rparr>"

definition flush_word :: "sh_state \<Rightarrow> sh_state" where
  "flush_word st =
     (if \<not> sh_in_word st then st
      else (if sh_redirect st then st\<lparr>sh_redirect := False\<rparr>
            else st\<lparr>sh_cur := sh_cur st @ [\<lparr>sw_raw = sh_raw st, sw_text = sh_text st\<rparr>]\<rparr>)
        \<lparr>sh_raw := [], sh_text := [], sh_in_word := False\<rparr>)"

definition flush_cmd :: "sh_state \<Rightarrow> sh_state" where
  "flush_cmd st =
     (let st1 = flush_word st in
      (if sh_cur st1 \<noteq> [] then st1\<lparr>sh_out := sh_out st1 @ [sh_cur st1]\<rparr> else st1)\<lparr>sh_cur := [], sh_redirect := False\<rparr>)"

definition add_to_word :: "string \<Rightarrow> string \<Rightarrow> sh_state \<Rightarrow> sh_state" where
  "add_to_word raw text st = st\<lparr>sh_raw := sh_raw st @ raw, sh_text := sh_text st @ text\<rparr>"

definition slice :: "string \<Rightarrow> nat \<Rightarrow> nat \<Rightarrow> string" where
  \<comment> \<open>\<^verbatim>\<open>s[i:j]\<close>\<close>
  "slice s i j = take (j - i) (drop i s)"

fun index_byte :: "string \<Rightarrow> char \<Rightarrow> nat option" where
  "index_byte [] c = None"
| "index_byte (x # s) c = (if x = c then Some 0 else map_option Suc (index_byte s c))"

function dq_end :: "string \<Rightarrow> nat \<Rightarrow> nat" where
  \<comment> \<open>the end of a double-quoted text, as \<^verbatim>\<open>shMatchParen\<close> passes over it\<close>
  "dq_end s i = (if i < length s \<and> s ! i \<noteq> dquote then dq_end s (if s ! i = bslash then i + 2 else i + 1) else i)"
  by pat_completeness auto
termination by (relation "measure (\<lambda>(s, i). length s - i)") auto

declare dq_end.simps [simp del]

lemma dq_end_ge: "i \<le> dq_end s i"
proof (induction s i rule: dq_end.induct)
  case (1 s i)
  then show ?case by (subst dq_end.simps) (force split: if_splits)
qed

function match_paren :: "string \<Rightarrow> nat \<Rightarrow> nat \<Rightarrow> nat" where
  "match_paren s depth i =
     (if i \<ge> length s then length s
      else if s ! i = bslash then match_paren s depth (i + 2)
      else if s ! i = squote then
        (case index_byte (drop (i + 1) s) squote of Some e \<Rightarrow> match_paren s depth (i + e + 2) | None \<Rightarrow> length s)
      else if s ! i = dquote then match_paren s depth (dq_end s (i + 1) + 1)
      else if s ! i = CHR ''('' then match_paren s (depth + 1) (i + 1)
      else if s ! i = CHR '')'' then (if depth = 1 then i else match_paren s (depth - 1) (i + 1))
      else match_paren s depth (i + 1))"
  by pat_completeness auto
termination
proof (relation "measure (\<lambda>(s, depth, i). length s - i)")
  fix s :: string and depth i :: nat
  assume "\<not> length s \<le> i"
  then show "((s, depth, dq_end s (i + 1) + 1), s, depth, i) \<in> measure (\<lambda>(s, depth, i). length s - i)"
    using dq_end_ge [of "i + 1" s] by simp
qed auto

declare match_paren.simps [simp del]

lemma match_paren_bounds:
  "match_paren s depth i \<le> length s \<and> (i \<le> length s \<longrightarrow> i \<le> match_paren s depth i)"
proof (induction s depth i rule: match_paren.induct)
  case (1 s depth i)
  show ?case
  proof (cases "length s \<le> i")
    case True
    then show ?thesis by (subst (1 2) match_paren.simps) simp
  next
    case False
    have "match_paren s depth j \<le> length s \<and> i \<le> match_paren s depth j"
      if "match_paren s depth j \<le> length s \<and> (j \<le> length s \<longrightarrow> j \<le> match_paren s depth j)" "i \<le> j" for depth j
    proof (cases "j \<le> length s")
      case True
      then show ?thesis using that by simp
    next
      case beyond: False
      then have "match_paren s depth j = length s" by (subst match_paren.simps) simp
      then show ?thesis using False by simp
    qed
    note step = this
    have dq: "i \<le> dq_end s (i + 1) + 1" using dq_end_ge [of "i + 1" s] by simp
    show ?thesis using False 1 step dq
      by (subst (1 2) match_paren.simps) (auto split: option.splits simp del: One_nat_def)
  qed
qed

lemma index_byte_less: "index_byte s c = Some e \<Longrightarrow> e < length s"
  by (induction s arbitrary: e) (auto split: if_splits)

definition is_sh_digit :: "char \<Rightarrow> bool" where
  "is_sh_digit c \<longleftrightarrow> c \<in> set ''0123456789''"

definition start_redirect :: "sh_state \<Rightarrow> sh_state" where
  \<comment> \<open>before \<^verbatim>\<open><\<close> or \<^verbatim>\<open>>\<close>: a word of digits is the file descriptor, not an argument\<close>
  "start_redirect st =
     (if sh_in_word st \<and> list_all is_sh_digit (sh_raw st) then st\<lparr>sh_raw := [], sh_text := [], sh_in_word := False\<rparr>
      else flush_word st)"

definition after_redirect :: "string \<Rightarrow> nat \<Rightarrow> nat" where
  \<comment> \<open>the index after the operator that starts at i\<close>
  "after_redirect s i =
     (let j = i + 1;
          j1 = (if j < length s \<and> s ! j \<in> set ''<>&|'' then j + 1 else j) in
      if j1 < length s \<and> s ! j1 = CHR ''-'' \<and> j1 \<ge> 2 \<and> slice s (j1 - 2) j1 = ''<<'' then j1 + 1 else j1)"

lemma after_redirect_gr: "i < after_redirect s i"
  by (simp add: after_redirect_def Let_def)

definition line_end :: "string \<Rightarrow> nat \<Rightarrow> nat" where
  "line_end s i = i + length (takeWhile (\<lambda>c. c \<noteq> CHR 0x0A) (drop i s))"

definition opens :: "string \<Rightarrow> nat \<Rightarrow> char \<Rightarrow> bool" where
  \<comment> \<open>a dollar sign followed by c\<close>
  "opens s i c \<longleftrightarrow> s ! i = CHR ''$'' \<and> i + 1 < length s \<and> s ! (i + 1) = c"

definition after_paren :: "string \<Rightarrow> nat \<Rightarrow> nat" where
  \<comment> \<open>the index after the substitution that starts at i\<close>
  "after_paren s i = min (match_paren s 1 (i + 2) + 1) (length s)"

definition paren_body :: "string \<Rightarrow> nat \<Rightarrow> string" where
  "paren_body s i = slice s (i + 2) (match_paren s 1 (i + 2))"

lemma after_paren_gr: "i + 1 < length s \<Longrightarrow> i < after_paren s i"
  using match_paren_bounds [of s 1 "i + 2"] by (auto simp: after_paren_def)

lemma paren_body_less: "i + 1 < length s \<Longrightarrow> length (paren_body s i) < length s"
  using match_paren_bounds [of s 1 "i + 2"] by (auto simp: paren_body_def slice_def)

definition squote_end :: "string \<Rightarrow> nat \<Rightarrow> nat" where
  \<comment> \<open>the length of the text of the single quote that opens at i\<close>
  "squote_end s i = (case index_byte (drop (i + 1) s) squote of Some e \<Rightarrow> e | None \<Rightarrow> length s - i - 1)"

definition brace_end :: "string \<Rightarrow> nat \<Rightarrow> nat" where
  "brace_end s i = (case index_byte (drop i s) (CHR ''}'') of Some e \<Rightarrow> i + e + 1 | None \<Rightarrow> length s)"

lemma lex_progress:
  "i < length s \<Longrightarrow> i < brace_end s i"
  "i < length s \<Longrightarrow> CHR ''#'' = s ! i \<Longrightarrow> i < line_end s i"
  "opens s i c \<Longrightarrow> i < length s \<Longrightarrow> i < after_paren s i"
  "opens s i c \<Longrightarrow> i < length s \<Longrightarrow> length (paren_body s i) < length s"
  by (auto simp: brace_end_def opens_def after_paren_gr paren_body_less line_end_def Cons_nth_drop_Suc [symmetric] split: option.split)

function sh_lex :: "string \<Rightarrow> nat \<Rightarrow> bool \<Rightarrow> sh_state \<Rightarrow> sh_word list list" where
  "sh_lex s i dq st =
     (if i \<ge> length s then sh_out (flush_cmd st)
      else let c = s ! i in
      if dq then
        (if c = dquote then sh_lex s (i + 1) False (add_to_word [dquote] [] st)
         else if c = bslash \<and> i + 1 < length s \<and> s ! (i + 1) \<in> {CHR ''$'', bquote, dquote, bslash, CHR 0x0A} then
           sh_lex s (i + 2) True (add_to_word (slice s i (i + 2)) (if s ! (i + 1) \<noteq> CHR 0x0A then [s ! (i + 1)] else []) st)
         else if opens s i (CHR ''('') then
           sh_lex s (after_paren s i) True
             (add_to_word (slice s i (after_paren s i)) (slice s i (after_paren s i)) (st\<lparr>sh_out := sh_out st @ sh_lex (paren_body s i) 0 False sh_start\<rparr>))
         else sh_lex s (i + 1) True (add_to_word [c] [c] st))
      else if c = space \<or> c = CHR 0x09 then sh_lex s (i + 1) False (flush_word st)
      else if c = CHR ''&'' \<and> i + 1 < length s \<and> s ! (i + 1) = CHR ''>'' then
        sh_lex s (if i + 2 < length s \<and> s ! (i + 2) = CHR ''>'' then i + 3 else i + 2) False ((flush_word st)\<lparr>sh_redirect := True\<rparr>)
      else if c \<in> {CHR 0x0A, CHR '';'', CHR ''&'', CHR ''|'', CHR ''('', CHR '')''} then sh_lex s (i + 1) False (flush_cmd st)
      else if c = CHR ''#'' \<and> \<not> sh_in_word st then sh_lex s (line_end s i) False st
      else if c = CHR ''<'' \<or> c = CHR ''>'' then sh_lex s (after_redirect s i) False ((start_redirect st)\<lparr>sh_redirect := True\<rparr>)
      else if c = bslash then
        (if i + 1 \<ge> length s then sh_lex s (i + 1) False (st\<lparr>sh_in_word := True\<rparr>)
         else if s ! (i + 1) = CHR 0x0A then sh_lex s (i + 2) False (st\<lparr>sh_in_word := True\<rparr>)
         else sh_lex s (i + 2) False (add_to_word (slice s i (i + 2)) [s ! (i + 1)] (st\<lparr>sh_in_word := True\<rparr>)))
      else if c = squote then
        (let e = squote_end s i; next = min (i + 1 + e + 1) (length s) in
         sh_lex s next False (add_to_word (slice s i next) (slice s (i + 1) (i + 1 + e)) (st\<lparr>sh_in_word := True\<rparr>)))
      else if c = dquote then sh_lex s (i + 1) True (add_to_word [dquote] [] (st\<lparr>sh_in_word := True\<rparr>))
      else if opens s i (CHR ''('') then
        sh_lex s (after_paren s i) False
          (add_to_word (slice s i (after_paren s i)) (slice s i (after_paren s i))
             (st\<lparr>sh_in_word := True, sh_out := sh_out st @ sh_lex (paren_body s i) 0 False sh_start\<rparr>))
      else if opens s i (CHR ''{'') then
        sh_lex s (brace_end s i) False (add_to_word (slice s i (brace_end s i)) (slice s i (brace_end s i)) (st\<lparr>sh_in_word := True\<rparr>))
      else sh_lex s (i + 1) False (add_to_word [c] [c] (st\<lparr>sh_in_word := True\<rparr>)))"
  by pat_completeness auto

termination
  by (relation "measures [\<lambda>(s, i, dq, st). length s, \<lambda>(s, i, dq, st). length s - i]")
    (auto simp: not_le min_def max_def dest: lex_progress intro: diff_less_mono2 lex_progress after_redirect_gr)

declare sh_lex.simps [simp del]

definition shell_commands :: "string \<Rightarrow> sh_word list list" where
  "shell_commands script = sh_lex script 0 False sh_start"

fun script_closed :: "char option \<Rightarrow> bool \<Rightarrow> string \<Rightarrow> bool" where
  \<comment> \<open>the script has no backquote and ends outside every quote\<close>
  "script_closed q escaped [] \<longleftrightarrow> q = None \<and> \<not> escaped"
| "script_closed q escaped (r # s) \<longleftrightarrow>
     (let (q', escaped') =
        (if escaped then (q, False)
         else if q = Some squote then (if r = squote then None else q, False)
         else if r = bslash then (q, True)
         else if q = Some dquote then (if r = dquote then None else q, False)
         else if r = squote \<or> r = dquote then (Some r, False)
         else (q, False)) in
      r \<noteq> bquote \<and> script_closed q' escaped' s)"

definition shell_script_commands :: "string \<Rightarrow> string list list option" where
  "shell_script_commands script =
     (if script_closed None False script then Some (map (map sw_text) (shell_commands script)) else None)"

definition is_sh_letter :: "char \<Rightarrow> bool" where
  "is_sh_letter c \<longleftrightarrow> c \<in> set ''ABCDEFGHIJKLMNOPQRSTUVWXYZabcdefghijklmnopqrstuvwxyz'' \<or> c = CHR ''_''"

definition is_assignment :: "string \<Rightarrow> bool" where
  \<comment> \<open>the regular expression \<^verbatim>\<open>^[A-Za-z_][A-Za-z0-9_]*\+?=\<close>\<close>
  "is_assignment w =
     (case w of [] \<Rightarrow> False
      | c # r \<Rightarrow>
          is_sh_letter c \<and>
          (let r1 = dropWhile (\<lambda>x. is_sh_letter x \<or> is_sh_digit x) r in has_prefix r1 ''='' \<or> has_prefix r1 ''+=''))"

definition transparent_words :: "string list" where
  "transparent_words =
     [''if'', ''then'', ''else'', ''elif'', ''fi'', ''while'', ''until'', ''do'', ''done'', ''for'', ''in'', ''case'', ''esac'',
      ''{'', ''}'', ''!'', ''time'', ''exec'', ''command'', ''builtin'', ''env'', ''nohup'', ''sudo'', ''xargs'', ''eval'', ''bundle'', ''bundler'']"

definition command_argv :: "sh_word list \<Rightarrow> sh_word list" where
  "command_argv cmd =
     dropWhile (\<lambda>w. is_assignment (sw_raw w) \<or> sw_text w \<in> set transparent_words \<or> list_all is_sh_digit (sw_text w)) cmd"

subsection \<open>Flattening is inverted by parsing\<close>

lemma escape_squote_simps [simp]:
  "escape_squote [] = []"
  "escape_squote (c # s) = (if c = squote then [squote, bslash, squote, squote] else [c]) @ escape_squote s"
  by (simp_all add: escape_squote_def)

lemma split_quoted:
  "shell_split_loop (Some squote) cur True args (escape_squote a @ squote # rest) = shell_split_loop None (cur @ a) True args rest"
  by (induction a arbitrary: cur) auto

lemma split_joined:
  "shell_split_loop None [] False args (shell_join cmd) = args @ cmd"
proof (induction cmd arbitrary: args)
  case (Cons a cmd)
  show ?case
  proof (cases cmd)
    case Nil
    then show ?thesis using split_quoted [of "[]" args a "[]"] by (simp add: shell_join_def shell_quote_def)
  next
    case (Cons b cmd')
    then have "shell_join (a # cmd) = squote # escape_squote a @ squote # space # shell_join cmd"
      by (simp add: shell_join_def shell_quote_def)
    then show ?thesis using split_quoted [of "[]" args a "space # shell_join cmd"] Cons.IH [of "args @ [a]"] by simp
  qed
qed (simp add: shell_join_def)

text \<open>
  Flattening a command and parsing it back is the identity: whatever bytes the arguments hold (spaces, quotes, newlines, nothing at all),
  the argv that runs is the argv that was written.
\<close>

theorem shell_split_join: "shell_split (shell_join cmd) = cmd"
  unfolding shell_split_def using split_joined [of "[]" cmd] by simp

subsection \<open>A quoted word is one word\<close>

lemma index_byte_append: "c \<notin> set a \<Longrightarrow> index_byte (a @ c # b) c = Some (length a)"
  by (induction a) auto

lemma slice_at:
  assumes "drop i s = a @ b"
  shows "slice s i (i + length a) = a" "drop (i + length a) s = b"
proof -
  show "slice s i (i + length a) = a" using assms by (simp add: slice_def)
  show "drop (i + length a) s = b" using assms by (metis add.commute append_eq_conv_conj drop_drop)
qed

lemma drop_head: "drop i s = c # r \<Longrightarrow> i < length s \<and> s ! i = c \<and> drop (i + 1) s = r"
  by (metis Cons_nth_drop_Suc drop_all leI list.distinct(1) list.inject Suc_eq_plus1)

lemma lex_squote:
  assumes "drop i s = squote # a @ squote # rest" "squote \<notin> set a"
  shows "sh_lex s i False st =
    sh_lex s (i + (length a + 2)) False (add_to_word (squote # a @ [squote]) a (st\<lparr>sh_in_word := True\<rparr>))"
proof -
  from assms(1) have h: "i < length s" "s ! i = squote" "drop (i + 1) s = a @ squote # rest" by (auto dest: drop_head)
  have e: "squote_end s i = length a" using index_byte_append [OF assms(2)] unfolding squote_end_def h(3) by simp
  have "length (drop i s) = length a + 2 + length rest" unfolding assms(1) by simp
  then have nx: "min (i + 1 + length a + 1) (length s) = i + (length a + 2)" using h(1) by simp
  have raw: "slice s i (i + (length a + 2)) = squote # a @ [squote]"
    using slice_at(1) [of i s "squote # a @ [squote]" rest] assms(1) by simp
  have tx: "slice s (i + 1) (i + 1 + length a) = a" using slice_at(1) [OF h(3)] .
  have o: "\<not> opens s i c" for c using h by (simp add: opens_def)
  have "sh_lex s i False st =
      (let e = squote_end s i; nx = min (i + 1 + e + 1) (length s) in
       sh_lex s nx False (add_to_word (slice s i nx) (slice s (i + 1) (i + 1 + e)) (st\<lparr>sh_in_word := True\<rparr>)))"
    using h(1,2) by (subst sh_lex.simps) (simp add: Let_def)
  then show ?thesis unfolding Let_def e nx raw tx .
qed

lemma lex_escaped_squote:
  assumes "drop i s = bslash # squote # rest"
  shows "sh_lex s i False st = sh_lex s (i + 2) False (add_to_word [bslash, squote] [squote] (st\<lparr>sh_in_word := True\<rparr>))"
proof -
  from assms have h: "i < length s" "s ! i = bslash" "drop (i + 1) s = squote # rest" by (auto dest: drop_head)
  then have h2: "i + 1 < length s" "s ! (i + 1) = squote" using drop_head [of "i + 1" s squote rest] by simp_all
  have raw: "slice s i (i + 2) = [bslash, squote]" using slice_at(1) [of i s "[bslash, squote]" rest] assms by simp
  show ?thesis using h(1) h2 raw by (subst sh_lex.simps) (simp add: h(2))
qed

lemma escape_squote_append [simp]: "escape_squote (a @ b) = escape_squote a @ escape_squote b"
  by (simp add: escape_squote_def)

lemma escape_squote_plain: "squote \<notin> set a \<Longrightarrow> escape_squote a = a"
  by (induction a) auto

lemma add_to_word_twice [simp]: "add_to_word r2 t2 (add_to_word r1 t1 st) = add_to_word (r1 @ r2) (t1 @ t2) st"
  by (simp add: add_to_word_def)

lemma add_to_word_in [simp]: "(add_to_word r t st)\<lparr>sh_in_word := b\<rparr> = add_to_word r t (st\<lparr>sh_in_word := b\<rparr>)"
  by (simp add: add_to_word_def)

lemma lex_word:
  "drop i s = shell_quote a @ rest \<Longrightarrow>
     sh_lex s i False st = sh_lex s (i + length (shell_quote a)) False (add_to_word (shell_quote a) a (st\<lparr>sh_in_word := True\<rparr>))"
proof (induction a arbitrary: i st rule: length_induct)
  case (1 a)
  show ?case
  proof (cases "squote \<in> set a")
    case False
    then show ?thesis using lex_squote [of i s a rest st] 1(2) by (simp add: shell_quote_def escape_squote_plain)
  next
    case True
    then obtain u v where a: "a = u @ squote # v" "squote \<notin> set u" by (meson split_list_first)
    then have d: "drop i s = squote # u @ squote # (bslash # squote # shell_quote v @ rest)"
      using 1(2) by (simp add: shell_quote_def escape_squote_plain)
    have d2: "drop (i + (length u + 2)) s = bslash # squote # shell_quote v @ rest"
      using slice_at(2) [of i s "squote # u @ [squote]" "bslash # squote # shell_quote v @ rest"] d by simp
    have d3: "drop (i + (length u + 2) + 2) s = shell_quote v @ rest"
      using slice_at(2) [of "i + (length u + 2)" s "[bslash, squote]" "shell_quote v @ rest"] d2 by simp
    have "length v < length a" by (simp add: a)
    then have ih: "sh_lex s (i + (length u + 2) + 2) False st' =
        sh_lex s (i + (length u + 2) + 2 + length (shell_quote v)) False (add_to_word (shell_quote v) v (st'\<lparr>sh_in_word := True\<rparr>))" for st'
      using 1(1) d3 by blast
    have len: "i + (length u + 2) + 2 + length (shell_quote v) = i + length (shell_quote a)"
      by (simp add: a(1) shell_quote_def escape_squote_plain [OF a(2)])
    have "sh_lex s i False st = sh_lex s (i + (length u + 2) + 2) False
        (add_to_word ((squote # u @ [squote]) @ [bslash, squote]) (u @ [squote]) (st\<lparr>sh_in_word := True\<rparr>))"
      unfolding lex_squote [OF d a(2), of st] lex_escaped_squote [OF d2] by (simp add: add_to_word_def)
    also have "\<dots> = sh_lex s (i + length (shell_quote a)) False (add_to_word (shell_quote a) a (st\<lparr>sh_in_word := True\<rparr>))"
      unfolding ih len by (simp add: a(1) shell_quote_def escape_squote_plain [OF a(2)] add_to_word_def)
    finally show ?thesis .
  qed
qed

definition quoted_word :: "string \<Rightarrow> sh_word" where
  "quoted_word a = \<lparr>sw_raw = shell_quote a, sw_text = a\<rparr>"

definition between_words :: "sh_state \<Rightarrow> bool" where
  "between_words st \<longleftrightarrow> sh_raw st = [] \<and> sh_text st = [] \<and> \<not> sh_in_word st \<and> \<not> sh_redirect st"

lemma lex_joined:
  "drop i s = shell_join cmd \<Longrightarrow> between_words st \<Longrightarrow>
     sh_lex s i False st = sh_out st @ (if sh_cur st @ map quoted_word cmd = [] then [] else [sh_cur st @ map quoted_word cmd])"
proof (induction cmd arbitrary: i st)
  case Nil
  then have "length s \<le> i" by (simp add: shell_join_def)
  with Nil(2) show ?case by (subst sh_lex.simps) (simp add: flush_cmd_def flush_word_def between_words_def Let_def)
next
  case (Cons a cmd)
  let ?st = "add_to_word (shell_quote a) a (st\<lparr>sh_in_word := True\<rparr>)" and ?j = "i + length (shell_quote a)"
  have flush: "flush_word ?st = st\<lparr>sh_cur := sh_cur st @ [quoted_word a]\<rparr>"
    using Cons.prems(2) by (cases st) (simp add: flush_word_def add_to_word_def between_words_def quoted_word_def)
  show ?case
  proof (cases cmd)
    case Nil
    then have d: "drop i s = shell_quote a @ []" using Cons.prems(1) by (simp add: shell_join_def)
    then have "length s \<le> ?j" using slice_at(2) [OF d] by simp
    then have "sh_lex s ?j False ?st = sh_out (flush_cmd ?st)" by (subst sh_lex.simps) simp
    then show ?thesis using lex_word [OF d, of st] Nil by (simp add: flush_cmd_def flush Let_def)
  next
    case (Cons b cmd')
    then have d: "drop i s = shell_quote a @ space # shell_join cmd" using Cons.prems(1) by (simp add: shell_join_def)
    have j: "?j < length s" "s ! ?j = space" "drop (?j + 1) s = shell_join cmd"
      using drop_head [of ?j s space "shell_join cmd"] slice_at(2) [OF d] by simp_all
    have "sh_lex s ?j False ?st = sh_lex s (?j + 1) False (flush_word ?st)" using j(1,2) by (subst sh_lex.simps) simp
    also have "\<dots> = sh_out st @ [sh_cur st @ map quoted_word (a # cmd)]"
      using Cons.IH [OF j(3), of "flush_word ?st"] Cons.prems(2) by (simp add: flush between_words_def)
    finally show ?thesis using lex_word [OF d, of st] by simp
  qed
qed

lemma lex_shell_join: "shell_commands (shell_join cmd) = (if cmd = [] then [] else [map quoted_word cmd])"
  using lex_joined [of 0 "shell_join cmd" cmd sh_start] by (simp add: shell_commands_def between_words_def sh_start_def)

lemma closed_open_quote:
  "script_closed (Some squote) False (escape_squote a @ squote # rest) \<longleftrightarrow> bquote \<notin> set a \<and> script_closed None False rest"
  by (induction a) auto

lemma closed_joined:
  "script_closed None False (shell_join cmd) \<longleftrightarrow> bquote \<notin> set (concat cmd)"
proof (induction cmd)
  case (Cons a cmd)
  show ?case
  proof (cases cmd)
    case Nil
    then show ?thesis using closed_open_quote [of a "[]"] by (simp add: shell_join_def shell_quote_def)
  next
    case (Cons b cmd')
    then have "shell_join (a # cmd) = squote # escape_squote a @ squote # space # shell_join cmd"
      by (simp add: shell_join_def shell_quote_def)
    then show ?thesis using closed_open_quote [of a "space # shell_join cmd"] Cons.IH by simp
  qed
qed (simp add: shell_join_def)

text \<open>
  C21. A quoted word stays one word. The lexer that looks for the programs a script runs reads a flattened command as one command with
  exactly the words that were written, whatever they hold: no space, separator, redirection, substitution or comment inside an argument
  puts another command or another program in command position. The reader of an operator's script gives the same answer, and declines
  exactly when an argument holds a backquote.
\<close>

theorem quoted_words_stay_words:
  "shell_commands (shell_join cmd) = (if cmd = [] then [] else [map quoted_word cmd]) \<and>
   shell_script_commands (shell_join cmd) =
     (if bquote \<in> set (concat cmd) then None else Some (if cmd = [] then [] else [cmd]))"
proof -
  have "map sw_text (map quoted_word cmd) = cmd" by (simp add: quoted_word_def comp_def)
  then show ?thesis using closed_joined [of cmd] lex_shell_join [of cmd] by (auto simp: shell_script_commands_def)
qed

lemma separator_in_a_path:
  \<comment> \<open>a test file whose name is a command\<close>
  "map (map sw_text) (shell_commands (shell_join [''node'', ''a;/bin/evil;$(id)'']) ) = [[''node'', ''a;/bin/evil;$(id)'']]"
  by (simp add: lex_shell_join quoted_word_def)

lemma unquoted_script:
  "map (map sw_text) (shell_commands ''A=1 go test 2>&1 | tee x'') = [[''A=1'', ''go'', ''test''], [''tee'', ''x'']]"
  by (simp add: shell_commands_def sh_start_def sh_lex.simps flush_word_def flush_cmd_def add_to_word_def opens_def start_redirect_def
      after_redirect_def slice_def is_sh_digit_def Let_def)

end
