(* ===== verification/Certify.thy ===== *)
theory Certify
  imports Score_Properties Shell
begin

section \<open>From a scored exam to a verdict (internal/advpool: aggregate.go, driver.go; internal/killrate)\<close>

text \<open>
  What a run keeps of its dev pass (\<^verbatim>\<open>applyDevScore\<close>), the interval around a kill rate, the sample it is taken over, the decision to certify
  (\<^verbatim>\<open>aggregate\<close>), and the rescue of a partly broken authored test (\<^verbatim>\<open>salvageByDeselect\<close>). The interval is computed in \<open>real\<close>: float64
  rounding, which moves an end of the interval by units in the last place, is not modelled here. The fields of a verdict that are copied from the run's specification, the phases' timing and the shape of
  a mutant are left out. The scorer is the locale \<open>exam_scorer\<close>, interpreted on \<open>score\<close>.
\<close>

subsection \<open>The interval\<close>

definition wilson_z :: real where "wilson_z = 1959964 / 1000000"

definition wilson_centre :: "real \<Rightarrow> real \<Rightarrow> real" where
  "wilson_centre p n = (p + wilson_z * wilson_z / (2 * n)) / (1 + wilson_z * wilson_z / n)"

definition wilson_half :: "real \<Rightarrow> real \<Rightarrow> real" where
  "wilson_half p n = wilson_z * sqrt (p * (1 - p) / n + wilson_z * wilson_z / (4 * n * n)) / (1 + wilson_z * wilson_z / n)"

definition wilson_interval :: "int \<Rightarrow> int \<Rightarrow> (real \<times> real) option" where
  "wilson_interval killed graded =
     (if graded \<le> 0 \<or> killed < 0 \<or> killed > graded then None
      else
        (let n = real_of_int graded; p = real_of_int killed / n;
             low = wilson_centre p n - wilson_half p n; high = wilson_centre p n + wilson_half p n in
         Some (if low < 0 then 0 else low, if high > 1 then 1 else high)))"

definition killed_count :: "int \<Rightarrow> int \<Rightarrow> int" where
  "killed_count graded survivors = (let k = graded - survivors in if k > 0 then k else 0)"

definition interval :: "int \<Rightarrow> int \<Rightarrow> (real \<times> real) option" where
  "interval graded survivors = wilson_interval (killed_count graded survivors) graded"

definition max_certifiable_interval_width :: real where "max_certifiable_interval_width = 35 / 100"

subsection \<open>The sample\<close>

record exam_sample =
  xs_distinct :: nat
  xs_survived :: nat

definition sample_step :: "report \<Rightarrow> mutant \<Rightarrow> (mutant_identity \<times> bool) list \<Rightarrow> (mutant_identity \<times> bool) list" where
  "sample_step rep m seen =
     (if mu_id m \<notin> set (rp_killed rep) \<and> mu_id m \<notin> set (rp_survived rep) then seen
      else AList.update (identity_of m) (map_of seen (identity_of m) = Some True \<or> mu_id m \<in> set (rp_survived rep)) seen)"

definition exam_sample_of :: "report \<Rightarrow> mutant list \<Rightarrow> exam_sample" where
  "exam_sample_of rep ms =
     (let seen = fold (sample_step rep) ms [] in
      \<lparr>xs_distinct = length seen, xs_survived = length (filter snd seen)\<rparr>)"

subsection \<open>What a run keeps of its dev pass\<close>

definition by_id :: "mutant list \<Rightarrow> string \<Rightarrow> mutant option" where
  \<comment> \<open>the last mutant of an id wins, as in the code's map\<close>
  "by_id ms k = map_of (rev (map (\<lambda>m. (mu_id m, m)) ms)) k"

definition survivors_from :: "report \<Rightarrow> mutant list \<Rightarrow> mutant list" where
  "survivors_from rep ms = List.map_filter (by_id ms) (rp_survived rep)"

definition killed_from :: "report \<Rightarrow> mutant list \<Rightarrow> mutant list" where
  "killed_from rep ms = List.map_filter (by_id ms) (rp_killed rep)"

definition proven_mutant_ids :: "report \<Rightarrow> mutant list \<Rightarrow> string list" where
  "proven_mutant_ids rep ms = map mu_id (filter (\<lambda>m. mu_id m \<in> set (rp_killed rep)) ms)"

record mutant_ref =
  mr_id :: string
  mr_parent :: string
  mr_span :: line_range
  mr_grading :: mutant_grading

definition mutant_refs_with :: "(string \<times> mutant_grading) list \<Rightarrow> mutant list \<Rightarrow> mutant_ref list" where
  "mutant_refs_with grading ms =
     map (\<lambda>m. \<lparr>mr_id = mu_id m, mr_parent = mu_parent m, mr_span = mu_span m,
                mr_grading = (case map_of grading (mu_id m) of Some g \<Rightarrow> g | None \<Rightarrow> zero_grading)\<rparr>) ms"

record dev_run =
  dr_per_mutant_graded :: bool
  dr_baseline_failed :: bool
  dr_baseline_duration :: int
  dr_baseline_flaky :: "string list"
  dr_baseline_output :: string
  dr_suite_ignores_file :: bool
  dr_kill_rate :: rat
  dr_invalid :: int
  dr_invalid_reasons :: "(string \<times> invalid_reason) list"
  dr_gate_note :: "gate_note list"
  dr_unmeasured :: int
  dr_total :: int
  dr_sample :: exam_sample
  dr_per_mutant :: "(string \<times> mutant_grading) list"
  dr_duration_median :: int
  dr_duration_max :: int
  dr_confirm_duration :: int
  dr_survivors :: "mutant list"
  dr_killed :: "mutant_ref list"
  dr_mutants :: "mutant list"

definition apply_dev_score :: "report \<Rightarrow> bool \<Rightarrow> mutant list \<Rightarrow> dev_run" where
  "apply_dev_score rep per_mutant ms =
     \<lparr>dr_per_mutant_graded = per_mutant, dr_baseline_failed = (\<not> rp_compliant_pass rep), dr_baseline_duration = rp_baseline_duration rep,
      dr_baseline_flaky = rp_baseline_flaky rep, dr_baseline_output = (if \<not> rp_compliant_pass rep then rp_baseline_output rep else []),
      dr_suite_ignores_file = (rp_compliant_pass rep \<and> \<not> rp_canary_killed rep), dr_kill_rate = kill_rate rep,
      dr_invalid = int (length (rp_invalid rep)), dr_invalid_reasons = rp_invalid_reasons rep, dr_gate_note = rp_gate_note rep,
      dr_unmeasured = int (length (rp_unmeasured rep)),
      dr_total = int (length ms) - int (length (rp_invalid rep)) - int (length (rp_unmeasured rep)),
      dr_sample = exam_sample_of rep ms, dr_per_mutant = rp_per_mutant rep,
      dr_duration_median = rp_duration_median rep, dr_duration_max = rp_duration_max rep, dr_confirm_duration = rp_confirm_duration rep,
      dr_survivors = survivors_from rep ms, dr_killed = mutant_refs_with (rp_per_mutant rep) (killed_from rep ms), dr_mutants = ms\<rparr>"

definition sink_set :: "report \<Rightarrow> mutant list \<Rightarrow> mutant list" where
  \<comment> \<open>the mutants handed to the recorded set\<close>
  "sink_set rep ms = filter (\<lambda>m. mu_id m \<notin> set (rp_invalid rep)) ms"

subsection \<open>The verdict\<close>

datatype verdict_status = StatusCertified | StatusNeedsReview
datatype indicative_reason = NothingDistinct | TooWide nat real real real

record pool_verdict =
  vd_status :: verdict_status
  vd_dev_kill_rate :: rat
  vd_mutants_total :: int
  vd_survivors :: nat
  vd_proven_missed :: nat
  vd_writer_failed :: bool
  vd_unsound :: bool
  vd_dev_scored :: bool
  vd_pool_scored :: bool
  vd_indicative :: bool
  vd_indicative_reason :: "indicative_reason option"

definition aggregate ::
  "rat \<Rightarrow> int \<Rightarrow> nat \<Rightarrow> nat \<Rightarrow> rat \<Rightarrow> real \<Rightarrow> exam_sample \<Rightarrow> bool \<Rightarrow> bool \<Rightarrow> bool \<Rightarrow> pool_verdict" where
  "aggregate rate mutants_total survivors proven_missed threshold width sample blocking writer_failed unsound =
     (let v = \<lparr>vd_status = StatusCertified, vd_dev_kill_rate = rate, vd_mutants_total = mutants_total, vd_survivors = survivors,
                vd_proven_missed = proven_missed, vd_writer_failed = writer_failed, vd_unsound = unsound, vd_dev_scored = True,
                vd_pool_scored = True, vd_indicative = False, vd_indicative_reason = None\<rparr>;
          v1 = (if blocking \<or> rate < threshold \<or> writer_failed \<or> unsound then v\<lparr>vd_status := StatusNeedsReview\<rparr> else v);
          review = (\<lambda>why. v1\<lparr>vd_status := StatusNeedsReview, vd_indicative := True, vd_indicative_reason := Some why\<rparr>) in
      if vd_status v1 = StatusCertified \<and> mutants_total > 0 \<and> width > 0 then
        (if xs_distinct sample = 0 then review NothingDistinct
         else case interval (int (xs_distinct sample)) (int (xs_survived sample)) of
                Some (lo, hi) \<Rightarrow> if hi - lo > width then review (TooWide (xs_distinct sample) lo hi width) else v1
              | None \<Rightarrow> v1)
      else v1)"

definition certify_run :: "rat \<Rightarrow> real \<Rightarrow> dev_run \<Rightarrow> nat \<Rightarrow> bool \<Rightarrow> bool \<Rightarrow> pool_verdict" where
  \<comment> \<open>the call in \<^verbatim>\<open>tickAggregate\<close>: no finding blocks\<close>
  "certify_run threshold width run proven_missed writer_failed unsound =
     aggregate (dr_kill_rate run) (dr_total run) (length (dr_survivors run)) proven_missed threshold width (dr_sample run)
       False writer_failed unsound"

subsection \<open>Rescuing a partly broken authored test\<close>

record salvage_tools =
  sv_failed_tests :: "(string \<Rightarrow> string list) option"   \<comment> \<open>\<^verbatim>\<open>DeselectorFor\<close>: the runner's failing tests, from its output\<close>
  sv_deselect :: "string list \<Rightarrow> argv option"            \<comment> \<open>\<^verbatim>\<open>DeselectCmd\<close>\<close>
  sv_failure :: "(string \<Rightarrow> string) option"              \<comment> \<open>\<^verbatim>\<open>CompliantFailure\<close> of the authored test\<close>

definition not_killed_by_dev_suite ::
  "(mutant list \<Rightarrow> string \<Rightarrow> 'e + report) \<Rightarrow> mutant list \<Rightarrow> string list \<Rightarrow> string \<Rightarrow> string list option" where
  "not_killed_by_dev_suite control survivors killed cmd =
     (case control (filter (\<lambda>m. mu_id m \<in> set killed) survivors) cmd of
        Inl e \<Rightarrow> None
      | Inr rep \<Rightarrow> if \<not> rp_compliant_pass rep then None else Some (filter (\<lambda>k. k \<notin> set (rp_killed rep)) killed))"

definition salvage_by_deselect ::
  "salvage_tools \<Rightarrow> (string \<Rightarrow> mutant list \<Rightarrow> string \<Rightarrow> 'e + report) \<Rightarrow> (mutant list \<Rightarrow> string \<Rightarrow> 'e + report)
     \<Rightarrow> string \<Rightarrow> mutant list \<Rightarrow> (nat \<times> string list \<times> nat) option" where
  "salvage_by_deselect tools authored control test survivors =
     (case sv_failed_tests tools of
        None \<Rightarrow> None
      | Some failed_tests \<Rightarrow>
          (let failing = failed_tests (case sv_failure tools of None \<Rightarrow> [] | Some f \<Rightarrow> f test) in
           if failing = [] then None
           else case sv_deselect tools failing of
             None \<Rightarrow> None
           | Some args \<Rightarrow>
               (let cmd = shell_join args in
                case authored test survivors cmd of
                  Inl e \<Rightarrow> None
                | Inr rep \<Rightarrow>
                    if \<not> rp_compliant_pass rep \<or> \<not> rp_canary_killed rep \<or> rp_total rep = 0 then None
                    else
                      (let killed = proven_mutant_ids rep survivors in
                       if killed = [] then None
                       else case not_killed_by_dev_suite control survivors killed cmd of
                         None \<Rightarrow> None
                       | Some own \<Rightarrow> if own = [] then None else Some (length own, own, length failing)))))"

subsection \<open>What the interval says\<close>

definition zz :: real where "zz = wilson_z * wilson_z"

lemma wilson_z_pos: "0 < wilson_z" "0 < zz" by (simp_all add: wilson_z_def zz_def)

lemma sqrt_zz [simp]: "sqrt zz = wilson_z" using wilson_z_pos by (simp add: zz_def)

lemma wilson_centre_form: "0 < n \<Longrightarrow> wilson_centre p n = (2 * n * p + zz) / (2 * (n + zz))"
proof -
  assume n: "0 < n"
  then have "0 < n + zz" using wilson_z_pos by simp
  then show ?thesis using n unfolding wilson_centre_def zz_def [symmetric] by (simp add: divide_simps)
qed

lemma wilson_half_form:
  assumes "0 < n"
  shows "wilson_half p n = wilson_z * sqrt (4 * n * p * (1 - p) + zz) / (2 * (n + zz))"
proof -
  have "p * (1 - p) / n + zz / (4 * n * n) = (4 * n * p * (1 - p) + zz) / (2 * n * (2 * n))"
    using assms by (simp add: field_simps)
  moreover have "sqrt (2 * n * (2 * n)) = 2 * n" using assms by (intro real_sqrt_abs2 [THEN trans]) simp
  ultimately have "sqrt (p * (1 - p) / n + zz / (4 * n * n)) = sqrt (4 * n * p * (1 - p) + zz) / (2 * n)"
    by (simp only: real_sqrt_divide)
  moreover have "1 + zz / n = (n + zz) / n" using assms by (simp add: field_simps)
  ultimately show ?thesis using assms unfolding wilson_half_def zz_def [symmetric] by simp
qed

lemma z_sqrt_le:
  assumes "zz * q \<le> b * b" "0 \<le> b"
  shows "wilson_z * sqrt q \<le> b"
proof -
  have "wilson_z * sqrt q = sqrt (zz * q)" by (simp add: real_sqrt_mult)
  also have "\<dots> \<le> sqrt (b * b)" using assms(1) by (rule real_sqrt_le_mono)
  finally show ?thesis using assms(2) by simp
qed

lemma wilson_half_le_centre:
  assumes "0 < n" "0 \<le> p"
  shows "wilson_half p n \<le> wilson_centre p n"
proof -
  have "0 \<le> n * n * (p * p) + zz * (n * (p * p))" using assms wilson_z_pos by simp
  then have "zz * (4 * n * p * (1 - p) + zz) \<le> (2 * n * p + zz) * (2 * n * p + zz)" by (simp add: algebra_simps)
  moreover have "0 \<le> 2 * n * p + zz" using assms wilson_z_pos by simp
  ultimately have "wilson_z * sqrt (4 * n * p * (1 - p) + zz) \<le> 2 * n * p + zz" by (rule z_sqrt_le)
  then show ?thesis unfolding wilson_half_form [OF assms(1)] wilson_centre_form [OF assms(1)]
    using assms wilson_z_pos by (intro divide_right_mono) simp_all
qed

lemma wilson_mirror:
  assumes "0 < n"
  shows "wilson_half (1 - p) n = wilson_half p n" "wilson_centre (1 - p) n = 1 - wilson_centre p n"
proof -
  have "4 * n * (1 - p) * (1 - (1 - p)) = 4 * n * p * (1 - p)" by (simp add: algebra_simps)
  then show "wilson_half (1 - p) n = wilson_half p n" by (simp only: wilson_half_form [OF assms])
  have "0 < n + zz" using assms wilson_z_pos by simp
  then show "wilson_centre (1 - p) n = 1 - wilson_centre p n"
    unfolding wilson_centre_form [OF assms] by (simp add: divide_simps) (simp add: algebra_simps)
qed

lemma wilson_contains:
  assumes "0 < n" "0 \<le> p" "p \<le> 1"
  shows "\<bar>p - wilson_centre p n\<bar> \<le> wilson_half p n"
proof -
  let ?q = "4 * n * p * (1 - p) + zz"
  have pos: "0 < n + zz" using assms wilson_z_pos by simp
  then have d: "p - wilson_centre p n = zz * (2 * p - 1) / (2 * (n + zz))"
    unfolding wilson_centre_form [OF assms(1)] by (simp add: divide_simps) (simp add: algebra_simps)
  have q: "0 \<le> ?q" using assms wilson_z_pos by simp
  have "0 \<le> (n + zz) * (4 * (p * (1 - p)))" using assms wilson_z_pos by simp
  then have "zz * ((2 * p - 1) * (2 * p - 1)) \<le> ?q" by (simp add: algebra_simps)
  then have "zz * (zz * ((2 * p - 1) * (2 * p - 1))) \<le> zz * ?q" using wilson_z_pos by (intro mult_left_mono) simp_all
  then have "sqrt ((zz * (2 * p - 1)) * (zz * (2 * p - 1))) \<le> sqrt (zz * ?q)" by (intro real_sqrt_le_mono) (simp add: algebra_simps)
  then have "\<bar>zz * (2 * p - 1)\<bar> \<le> wilson_z * sqrt ?q" using wilson_z_pos by (simp add: real_sqrt_mult)
  then show ?thesis unfolding d wilson_half_form [OF assms(1)] using assms wilson_z_pos
    by (simp add: abs_mult divide_right_mono)
qed

lemma wilson_width:
  assumes "0 < n" "0 \<le> p" "p \<le> 1"
  shows "zz / (n + zz) \<le> 2 * wilson_half p n" "2 * wilson_half p n \<le> wilson_z / sqrt (n + zz)"
proof -
  let ?q = "4 * n * p * (1 - p) + zz"
  have pos: "0 < n + zz" using assms wilson_z_pos by simp
  then have w: "2 * wilson_half p n = wilson_z * sqrt ?q / (n + zz)"
    unfolding wilson_half_form [OF assms(1)] by (simp add: divide_simps)
  have "sqrt zz \<le> sqrt ?q" using assms by (intro real_sqrt_le_mono) simp
  then have "wilson_z * wilson_z \<le> wilson_z * sqrt ?q" using wilson_z_pos by (intro mult_left_mono) simp_all
  then have "zz \<le> wilson_z * sqrt ?q" by (simp only: zz_def [symmetric])
  then show "zz / (n + zz) \<le> 2 * wilson_half p n" unfolding w using pos by (intro divide_right_mono) simp_all
  have "0 \<le> (2 * p - 1) * (2 * p - 1)" by simp
  then have "4 * (p * (1 - p)) \<le> 1" by (simp add: algebra_simps)
  then have "n * (4 * (p * (1 - p))) \<le> n * 1" using assms(1) by (intro mult_left_mono) simp_all
  then have "?q \<le> n + zz" by (simp add: algebra_simps)
  then have "wilson_z * sqrt ?q \<le> wilson_z * sqrt (n + zz)" using wilson_z_pos by simp
  then have "2 * wilson_half p n \<le> wilson_z * sqrt (n + zz) / (n + zz)" unfolding w using pos by (intro divide_right_mono) simp_all
  also have "\<dots> = wilson_z / sqrt (n + zz)"
  proof -
    have "a * s / (s * s) = a / s" if "0 < s" for a s :: real using that by simp
    from this [of "sqrt (n + zz)" wilson_z] show ?thesis using pos by simp
  qed
  finally show "2 * wilson_half p n \<le> wilson_z / sqrt (n + zz)" .
qed

lemma wilson_interval_form:
  assumes "wilson_interval killed graded = Some (lo, hi)"
  shows "let n = real_of_int graded; p = real_of_int killed / n in
    0 < n \<and> 0 \<le> p \<and> p \<le> 1 \<and> lo = wilson_centre p n - wilson_half p n \<and> hi = wilson_centre p n + wilson_half p n"
proof -
  let ?n = "real_of_int graded" and ?p = "real_of_int killed / real_of_int graded"
  from assms have r: "0 < graded" "0 \<le> killed" "killed \<le> graded" by (auto simp: wilson_interval_def Let_def split: if_splits)
  then have np: "0 < ?n" "0 \<le> ?p" "?p \<le> 1" by (simp_all add: divide_le_eq_1)
  have lo: "wilson_half ?p ?n \<le> wilson_centre ?p ?n" using np by (intro wilson_half_le_centre)
  have "wilson_half (1 - ?p) ?n \<le> wilson_centre (1 - ?p) ?n" using np by (intro wilson_half_le_centre) simp_all
  then have hi: "wilson_centre ?p ?n + wilson_half ?p ?n \<le> 1" unfolding wilson_mirror [OF np(1)] by simp
  have "\<not> (graded \<le> 0 \<or> killed < 0 \<or> killed > graded)" using r by simp
  moreover have "\<not> wilson_centre ?p ?n - wilson_half ?p ?n < 0" "\<not> wilson_centre ?p ?n + wilson_half ?p ?n > 1" using lo hi by simp_all
  ultimately have "lo = wilson_centre ?p ?n - wilson_half ?p ?n \<and> hi = wilson_centre ?p ?n + wilson_half ?p ?n"
    using assms unfolding wilson_interval_def Let_def by (simp only: if_False simp_thms option.inject prod.inject)
  then show ?thesis using np by (simp add: Let_def)
qed

lemma width_needs_eight:
  assumes "zz / (real_of_int n + zz) \<le> max_certifiable_interval_width" "0 < n"
  shows "8 \<le> n"
proof -
  have "0 < real_of_int n + zz" using assms wilson_z_pos by simp
  with assms(1) have "zz \<le> max_certifiable_interval_width * (real_of_int n + zz)" by (simp add: pos_divide_le_eq)
  then have "7 < real_of_int n" by (simp add: zz_def wilson_z_def max_certifiable_interval_width_def field_simps)
  then show ?thesis by linarith
qed

lemma width_of_28:
  assumes "28 \<le> n"
  shows "wilson_z / sqrt (n + zz) \<le> max_certifiable_interval_width"
proof -
  have "wilson_z / max_certifiable_interval_width = sqrt ((wilson_z / max_certifiable_interval_width)\<^sup>2)"
    by (simp add: wilson_z_def max_certifiable_interval_width_def)
  also have "\<dots> \<le> sqrt (n + zz)"
    using assms by (intro real_sqrt_le_mono) (simp add: zz_def wilson_z_def max_certifiable_interval_width_def power2_eq_square)
  finally have "wilson_z / max_certifiable_interval_width \<le> sqrt (n + zz)" .
  moreover have "0 < sqrt (n + zz)" "0 < max_certifiable_interval_width"
    using assms wilson_z_pos by (simp_all add: max_certifiable_interval_width_def)
  ultimately show ?thesis by (simp add: divide_le_eq mult.commute)
qed

text \<open>
  What the certification rule takes the interval for, over the exact reals of this theory: it lies between 0 and 1, contains the rate, and its
  width is between $z^2/(n+z^2)$ and $z/\sqrt{n+z^2}$ for an exam of n. The program computes in float64, where the last bit can be lost: at
  10 kills of 10 its upper end is 0.9999999999999999, just below the rate. So these are lemmas of the exact formula, not a claim about every
  bit of the program's result.
\<close>

lemma interval_bounds:
  assumes "wilson_interval killed graded = Some (lo, hi)"
  shows "0 \<le> lo \<and> lo \<le> real_of_int killed / real_of_int graded \<and> real_of_int killed / real_of_int graded \<le> hi \<and> hi \<le> 1 \<and>
    zz / (real_of_int graded + zz) \<le> hi - lo \<and> hi - lo \<le> wilson_z / sqrt (real_of_int graded + zz) \<and>
    (hi - lo \<le> max_certifiable_interval_width \<longrightarrow> 8 \<le> graded) \<and> (28 \<le> graded \<longrightarrow> hi - lo \<le> max_certifiable_interval_width)"
proof -
  define n where "n = real_of_int graded"
  define p where "p = real_of_int killed / n"
  from wilson_interval_form [OF assms] have f: "0 < n" "0 \<le> p" "p \<le> 1" "lo = wilson_centre p n - wilson_half p n"
      "hi = wilson_centre p n + wilson_half p n"
    by (simp_all add: Let_def n_def p_def)
  have "0 \<le> lo" using wilson_half_le_centre [OF f(1,2)] f(4) by simp
  moreover have "hi \<le> 1" using wilson_half_le_centre [of n "1 - p"] wilson_mirror [OF f(1), of p] f by simp
  moreover have "lo \<le> p" "p \<le> hi" using wilson_contains [OF f(1-3)] f(4,5) by (auto simp: abs_le_iff)
  moreover have w: "hi - lo = 2 * wilson_half p n" using f(4,5) by simp
  moreover note wilson_width [OF f(1-3)]
  moreover have "8 \<le> graded" if "hi - lo \<le> max_certifiable_interval_width"
    using width_needs_eight [of graded] that wilson_width(1) [OF f(1-3)] w f(1) by (simp add: n_def)
  moreover have "hi - lo \<le> max_certifiable_interval_width" if "28 \<le> graded"
    using width_of_28 [of n] that wilson_width(2) [OF f(1-3)] w by (simp add: n_def)
  ultimately show ?thesis unfolding n_def [symmetric] p_def [symmetric] by simp
qed

lemma survivor_choice_narrows:
  \<comment> \<open>one more survivor among eight, and the interval is narrower\<close>
  "\<exists>lo hi lo' hi'. interval 8 4 = Some (lo, hi) \<and> interval 8 5 = Some (lo', hi') \<and> hi' - lo' < hi - lo"
proof -
  obtain lo hi where a: "interval 8 4 = Some (lo, hi)" by (simp add: interval_def killed_count_def wilson_interval_def Let_def)
  obtain lo' hi' where b: "interval 8 5 = Some (lo', hi')" by (simp add: interval_def killed_count_def wilson_interval_def Let_def)
  have ab: "wilson_interval 4 8 = Some (lo, hi)" "wilson_interval 3 8 = Some (lo', hi')"
    using a b by (simp_all add: interval_def killed_count_def)
  have w: "hi - lo = 2 * wilson_half (1 / 2) 8" "hi' - lo' = 2 * wilson_half (3 / 8) 8"
    using wilson_interval_form [OF ab(1)] wilson_interval_form [OF ab(2)] by (simp_all add: Let_def)
  have "sqrt (4 * 8 * (3 / 8) * (1 - 3 / 8) + zz) < sqrt (4 * 8 * (1 / 2) * (1 - 1 / 2) + zz)" by simp
  moreover have "0 < 2 * (8 + zz)" using wilson_z_pos by simp
  ultimately have "wilson_half (3 / 8) 8 < wilson_half (1 / 2) 8"
    using wilson_z_pos by (simp only: wilson_half_form zero_less_numeral divide_strict_right_mono mult_strict_left_mono)
  then show ?thesis using a b w by simp
qed

subsection \<open>The sample counts distinct edits\<close>

definition measured :: "report \<Rightarrow> mutant \<Rightarrow> bool" where
  "measured rep m \<longleftrightarrow> mu_id m \<in> set (rp_killed rep) \<or> mu_id m \<in> set (rp_survived rep)"

lemma sample_fold:
  assumes "distinct (map fst seen)"
  shows "distinct (map fst (fold (sample_step rep) ms seen)) \<and>
    fst ` set (fold (sample_step rep) ms seen) = fst ` set seen \<union> identity_of ` {m \<in> set ms. measured rep m}"
  using assms
proof (induction ms arbitrary: seen)
  case (Cons m ms)
  have d: "distinct (map fst (sample_step rep m seen))" using Cons.prems by (simp add: sample_step_def distinct_update)
  have "fst ` set (sample_step rep m seen) = fst ` set seen \<union> identity_of ` {m' \<in> {m}. measured rep m'}"
    by (auto simp: sample_step_def measured_def dom_update)
  with Cons.IH [OF d] show ?case by auto
qed auto

lemma sample_distinct:
  "xs_distinct (exam_sample_of rep ms) = card (identity_of ` {m \<in> set ms. measured rep m})"
  "xs_survived (exam_sample_of rep ms) \<le> xs_distinct (exam_sample_of rep ms)"
proof -
  note f = sample_fold [of "[]" rep ms]
  have "length (fold (sample_step rep) ms []) = card (set (map fst (fold (sample_step rep) ms [])))"
    using f distinct_card [of "map fst (fold (sample_step rep) ms [])"] by simp
  with f show "xs_distinct (exam_sample_of rep ms) = card (identity_of ` {m \<in> set ms. measured rep m})"
    by (simp add: exam_sample_of_def Let_def)
  show "xs_survived (exam_sample_of rep ms) \<le> xs_distinct (exam_sample_of rep ms)"
    by (simp add: exam_sample_of_def Let_def)
qed

subsection \<open>What a certified verdict rests on\<close>

lemma aggregate_certified:
  assumes "vd_status (aggregate rate n survivors proven threshold width sample blocking failed unsound) = StatusCertified"
  shows "\<not> blocking \<and> threshold \<le> rate \<and> \<not> failed \<and> \<not> unsound \<and>
    (0 < n \<and> 0 < width \<longrightarrow> xs_distinct sample \<noteq> 0 \<and>
       (\<forall>lo hi. interval (int (xs_distinct sample)) (int (xs_survived sample)) = Some (lo, hi) \<longrightarrow> hi - lo \<le> width))"
  using assms unfolding aggregate_def Let_def by (auto split: if_splits option.splits prod.splits)

lemma interval_total:
  assumes "0 < n" "s \<le> n"
  shows "\<exists>lo hi. interval (int n) (int s) = Some (lo, hi) \<and> wilson_interval (int n - int s) (int n) = Some (lo, hi)"
proof -
  have "interval (int n) (int s) = wilson_interval (int n - int s) (int n)" using assms by (auto simp: interval_def killed_count_def)
  moreover have "\<exists>lo hi. wilson_interval (int n - int s) (int n) = Some (lo, hi)" using assms by (simp add: wilson_interval_def Let_def)
  ultimately show ?thesis by simp
qed

locale exam_scorer =
  fixes report_of :: "mutant list \<Rightarrow> 'e + report"
  assumes sat: "report_of ms = Inr rep \<Longrightarrow> rp_canary_killed rep \<Longrightarrow>
    rp_compliant_pass rep \<and> rp_total rep = length (rp_killed rep) + length (rp_survived rep) \<and>
    rp_total rep + length (rp_invalid rep) + length (rp_unmeasured rep) = length ms"
begin

lemma certified:
  assumes rep: "report_of ms = Inr rep" and thr: "0 < threshold"
    and cert: "vd_status (certify_run threshold width (apply_dev_score rep pm ms) proven failed unsound) = StatusCertified"
  shows "rp_compliant_pass rep \<and> rp_canary_killed rep \<and> rp_killed rep \<noteq> [] \<and> \<not> failed \<and> \<not> unsound \<and>
    threshold \<le> of_nat (length (rp_killed rep)) / of_nat (length (rp_killed rep) + length (rp_survived rep)) \<and>
    dr_total (apply_dev_score rep pm ms) = int (length (rp_killed rep) + length (rp_survived rep)) \<and>
    (0 < width \<longrightarrow> (\<exists>lo hi. interval (int (xs_distinct (exam_sample_of rep ms))) (int (xs_survived (exam_sample_of rep ms))) = Some (lo, hi) \<and>
       hi - lo \<le> width)) \<and>
    (0 < width \<and> width \<le> max_certifiable_interval_width \<longrightarrow> 8 \<le> card (identity_of ` {m \<in> set ms. measured rep m}))"
proof -
  let ?sample = "exam_sample_of rep ms" and ?run = "apply_dev_score rep pm ms"
  from aggregate_certified [OF cert [unfolded certify_run_def]]
  have a: "threshold \<le> kill_rate rep" "\<not> failed" "\<not> unsound"
    and i: "0 < dr_total ?run \<and> 0 < width \<longrightarrow> xs_distinct ?sample \<noteq> 0 \<and>
       (\<forall>lo hi. interval (int (xs_distinct ?sample)) (int (xs_survived ?sample)) = Some (lo, hi) \<longrightarrow> hi - lo \<le> width)"
    by (auto simp: apply_dev_score_def)
  from a(1) thr have "kill_rate rep \<noteq> 0" by simp
  then have k: "rp_canary_killed rep" "rp_total rep \<noteq> 0" "rp_killed rep \<noteq> []" "kill_rate rep = of_nat (length (rp_killed rep)) / of_nat (rp_total rep)"
    by (auto simp: kill_rate_def split: if_splits)
  note s = sat [OF rep k(1)]
  have t: "dr_total ?run = int (length (rp_killed rep) + length (rp_survived rep))" using s by (simp add: apply_dev_score_def)
  have w: "\<exists>lo hi. interval (int (xs_distinct ?sample)) (int (xs_survived ?sample)) = Some (lo, hi) \<and> hi - lo \<le> width \<and>
      wilson_interval (int (xs_distinct ?sample) - int (xs_survived ?sample)) (int (xs_distinct ?sample)) = Some (lo, hi)" if "0 < width"
  proof -
    have "dr_total ?run = int (rp_total rep)" using t s by simp
    then have pos: "0 < dr_total ?run \<and> 0 < width" using k(2) that by simp
    then have "0 < xs_distinct ?sample" using i by simp
    from interval_total [OF this sample_distinct(2)] obtain lo hi
      where lh: "interval (int (xs_distinct ?sample)) (int (xs_survived ?sample)) = Some (lo, hi)"
        "wilson_interval (int (xs_distinct ?sample) - int (xs_survived ?sample)) (int (xs_distinct ?sample)) = Some (lo, hi)" by blast
    have "hi - lo \<le> width" using i pos lh(1) by blast
    with lh show ?thesis by blast
  qed
  have rate: "threshold \<le> of_nat (length (rp_killed rep)) / of_nat (length (rp_killed rep) + length (rp_survived rep))"
    using a(1) k(4) s by simp
  have band: "\<exists>lo hi. interval (int (xs_distinct ?sample)) (int (xs_survived ?sample)) = Some (lo, hi) \<and> hi - lo \<le> width" if "0 < width"
    using w [OF that] by blast
  have "8 \<le> card (identity_of ` {m \<in> set ms. measured rep m})" if "0 < width" "width \<le> max_certifiable_interval_width"
    using w [OF that(1)] that(2) interval_bounds sample_distinct(1) [of rep ms] by fastforce
  then show ?thesis using a(2,3) k(1,3) s t rate band by blast
qed

end

lemma score_is_exam_scorer:
  assumes "score w sha x cfg ms = Inr rep" "rp_canary_killed rep"
  shows "rp_compliant_pass rep \<and> rp_total rep = length (rp_killed rep) + length (rp_survived rep) \<and>
    rp_total rep + length (rp_invalid rep) + length (rp_unmeasured rep) = length ms"
  using assms
proof (rule score_exam)
  fix n1 n2 p rep1 rep2
  assume a: "assemble (zip ms (final_outcomes w sha x cfg p ms)) rep1 = Inr rep2" "rep = finish_report rep2" "rp_killed rep1 = []"
    "rp_survived rep1 = []" "rp_invalid rep1 = []" "rp_unmeasured rep1 = []" "rp_compliant_pass rep1"
  from assemble_spec [OF a(1)] a ids_partition [of ms "map verdict_of (final_outcomes w sha x cfg p ms)"] show ?thesis by simp
qed

interpretation scored: exam_scorer "score w sha x cfg" for w sha x cfg
  by unfold_locales (rule score_is_exam_scorer)

text \<open>
  C3. What a certified verdict rests on. If a run is certified over a positive threshold, its baseline passed, the suite fails on source
  that cannot compile, at least one mutant was killed, the killed are at least the threshold's share of the killed and survived, which are
  all the verdict counts, and the authored test neither failed to be written nor failed to grade. If a band is asked for, the interval over
  the distinct edits that were measured is no wider; if that band is at most the default (0.35), at least eight distinct edits were.
\<close>

theorem certification_sound:
  assumes "score w sha x cfg ms = Inr rep" and "0 < threshold"
    and "vd_status (certify_run threshold width (apply_dev_score rep pm ms) proven failed unsound) = StatusCertified"
  shows "rp_compliant_pass rep \<and> rp_canary_killed rep \<and> rp_killed rep \<noteq> [] \<and> \<not> failed \<and> \<not> unsound \<and>
    threshold \<le> of_nat (length (rp_killed rep)) / of_nat (length (rp_killed rep) + length (rp_survived rep)) \<and>
    dr_total (apply_dev_score rep pm ms) = int (length (rp_killed rep) + length (rp_survived rep)) \<and>
    (0 < width \<longrightarrow> (\<exists>lo hi. interval (int (xs_distinct (exam_sample_of rep ms))) (int (xs_survived (exam_sample_of rep ms))) = Some (lo, hi) \<and>
       hi - lo \<le> width)) \<and>
    (0 < width \<and> width \<le> max_certifiable_interval_width \<longrightarrow> 8 \<le> card (identity_of ` {m \<in> set ms. measured rep m}))"
  using assms by (rule scored.certified)

lemma ex_certified:
  "vd_status (certify_run (1 / 2) 1 (apply_dev_score ex_report True ex_mutants) 0 False False) = StatusCertified"
proof -
  have s: "exam_sample_of ex_report ex_mutants = \<lparr>xs_distinct = 2, xs_survived = 1\<rparr>" by code_simp
  have k: "\<not> kill_rate ex_report < 1 / 2" by code_simp
  have "\<exists>lo hi. interval 2 1 = Some (lo, hi) \<and> wilson_interval 1 2 = Some (lo, hi)" using interval_total [of 2 1] by simp
  then obtain lo hi where i: "interval 2 1 = Some (lo, hi)" and i2: "wilson_interval 1 2 = Some (lo, hi)" by blast
  from interval_bounds [OF i2] have "\<not> hi - lo > 1" by linarith
  with s k i show ?thesis by (simp add: certify_run_def aggregate_def apply_dev_score_def Let_def)
qed

lemma certification_sound_witness: "rp_compliant_pass ex_report \<and> rp_killed ex_report \<noteq> []"
  using certification_sound [OF ex_score _ ex_certified] by simp

subsection \<open>What a salvaged test is credited with\<close>

text \<open>
  C25. A salvaged test is credited with nothing it did not do. When the rescue answers, the tests it left out are the failing ones the runner
  named, the command it ran parses back to the runner's own argv, the rerun of what was left passed on compliant code, failed on source
  that cannot compile and graded something; and every mutant it credits is a survivor of the dev suite that this rerun killed and that the
  dev suite, run again under the very same command with its baseline passing, does not kill. There is at least one.
\<close>

theorem salvage_sound:
  assumes "salvage_by_deselect tools authored control test survivors = Some (n, own, k)"
  shows "\<exists>failed_tests args rep crep. sv_failed_tests tools = Some failed_tests \<and>
    k = length (failed_tests (case sv_failure tools of None \<Rightarrow> [] | Some f \<Rightarrow> f test)) \<and> 0 < k \<and>
    sv_deselect tools (failed_tests (case sv_failure tools of None \<Rightarrow> [] | Some f \<Rightarrow> f test)) = Some args \<and>
    shell_split (shell_join args) = args \<and>
    authored test survivors (shell_join args) = Inr rep \<and> rp_compliant_pass rep \<and> rp_canary_killed rep \<and> 0 < rp_total rep \<and>
    control (filter (\<lambda>m. mu_id m \<in> set (rp_killed rep)) survivors) (shell_join args) = Inr crep \<and> rp_compliant_pass crep \<and>
    n = length own \<and> own \<noteq> [] \<and>
    own = map mu_id (filter (\<lambda>m. mu_id m \<in> set (rp_killed rep) \<and> mu_id m \<notin> set (rp_killed crep)) survivors)"
proof -
  obtain failed_tests where f: "sv_failed_tests tools = Some failed_tests"
    using assms by (auto simp: salvage_by_deselect_def split: option.splits)
  let ?failing = "failed_tests (case sv_failure tools of None \<Rightarrow> [] | Some f \<Rightarrow> f test)"
  obtain args where a: "?failing \<noteq> []" "sv_deselect tools ?failing = Some args"
    using assms f by (auto simp: salvage_by_deselect_def Let_def split: option.splits if_splits)
  obtain rep where r: "authored test survivors (shell_join args) = Inr rep" "rp_compliant_pass rep" "rp_canary_killed rep" "rp_total rep \<noteq> 0"
    using assms f a by (auto simp: salvage_by_deselect_def Let_def split: sum.splits if_splits)
  let ?killed = "proven_mutant_ids rep survivors"
  have own: "not_killed_by_dev_suite control survivors ?killed (shell_join args) = Some own" "own \<noteq> []" "n = length own" "k = length ?failing"
    using assms f a r by (auto simp: salvage_by_deselect_def Let_def split: option.splits if_splits)
  have same: "filter (\<lambda>m. mu_id m \<in> set ?killed) survivors = filter (\<lambda>m. mu_id m \<in> set (rp_killed rep)) survivors"
    by (rule filter_cong) (auto simp: proven_mutant_ids_def)
  obtain crep where c: "control (filter (\<lambda>m. mu_id m \<in> set (rp_killed rep)) survivors) (shell_join args) = Inr crep" "rp_compliant_pass crep"
      "own = filter (\<lambda>k. k \<notin> set (rp_killed crep)) ?killed"
    using own(1) unfolding not_killed_by_dev_suite_def same by (auto split: sum.splits if_splits)
  have "own = map mu_id (filter (\<lambda>m. mu_id m \<in> set (rp_killed rep) \<and> mu_id m \<notin> set (rp_killed crep)) survivors)"
    unfolding c(3) proven_mutant_ids_def by (simp add: filter_map comp_def conj_commute)
  with f a r own c split_joined [of "[]" args] show ?thesis
    unfolding shell_split_def by (intro exI [of _ failed_tests] exI [of _ args] exI [of _ rep] exI [of _ crep]) simp
qed

lemma salvage_sound_witness:
  "\<exists>n own k. salvage_by_deselect
     \<lparr>sv_failed_tests = Some (\<lambda>out. [out]), sv_deselect = (\<lambda>ts. Some (''pytest'' # ts)), sv_failure = Some (\<lambda>t. ''test_b'')\<rparr>
     (\<lambda>test ms cmd. Inr (zero_report\<lparr>rp_compliant_pass := True, rp_canary_killed := True, rp_total := 2, rp_killed := [''m1'', ''m2'']\<rparr>))
     (\<lambda>ms cmd. (Inr (zero_report\<lparr>rp_compliant_pass := True, rp_killed := [''m1'']\<rparr>) :: nat + report))
     ''t'' [ex_hunk ''m1'' ''+'' ''-'', ex_hunk ''m2'' ''b'' ''c''] = Some (n, own, k) \<and> n = length own \<and> own = [''m2'']"
proof -
  let ?tools = "\<lparr>sv_failed_tests = Some (\<lambda>out. [out]), sv_deselect = (\<lambda>ts. Some (''pytest'' # ts)), sv_failure = Some (\<lambda>t. ''test_b'')\<rparr>"
  let ?authored = "\<lambda>test ms cmd. Inr (zero_report\<lparr>rp_compliant_pass := True, rp_canary_killed := True, rp_total := 2, rp_killed := [''m1'', ''m2'']\<rparr>) :: nat + report"
  let ?control = "\<lambda>ms cmd. (Inr (zero_report\<lparr>rp_compliant_pass := True, rp_killed := [''m1'']\<rparr>) :: nat + report)"
  let ?ms = "[ex_hunk ''m1'' ''+'' ''-'', ex_hunk ''m2'' ''b'' ''c'']"
  have s: "salvage_by_deselect ?tools ?authored ?control ''t'' ?ms = Some (1, [''m2''], 1)"
    by (simp add: salvage_by_deselect_def not_killed_by_dev_suite_def proven_mutant_ids_def ex_hunk_def Let_def)
  from salvage_sound [OF s] have "(1 :: nat) = length [''m2'']" by blast
  with s show ?thesis by simp
qed

end
