(* ===== verification/Exam_Plan.thy ===== *)
theory Exam_Plan
  imports Testmap "HOL-Library.Multiset" "HOL-Library.Product_Lexorder"
begin

section \<open>Planning an exam (internal/advpool: shard.go, budget.go, exam.go)\<close>

text \<open>
  How a file's symbols are divided among the mutant generators (\<^verbatim>\<open>ShardSymbols\<close>), how many mutants each is asked for (\<^verbatim>\<open>PlanShards\<close>), and
  how much of the file the exam reached (\<^verbatim>\<open>examSurface.coverage\<close>). A nil slice of shards is None. The code computes two quotients in
  float64: \<open>fl\<close> is the rounding of a number to the nearest float64, and \<open>float64\<close> states what IEEE 754 promises of it. Counts are
  \<open>int\<close>; durations are nanoseconds.
\<close>

subsection \<open>Shards\<close>

record signature_info =
  sg_name :: string
  sg_receiver :: string
  sg_line :: int
  sg_complexity :: int
  sg_lines :: int
  sg_decisions :: "line_range list"

record shard =
  sh_index :: nat
  sh_symbols :: "string list"
  sh_complexity :: int
  sh_lines :: int
  sh_mutants :: int

definition symbol_identity :: "signature_info \<Rightarrow> string" where
  "symbol_identity s = (if sg_receiver s \<noteq> [] then sg_receiver s @ ''.'' @ sg_name s else sg_name s)"

definition named_symbols :: "signature_info list \<Rightarrow> signature_info list" where
  "named_symbols sigs = filter (\<lambda>s. sg_name s \<noteq> []) sigs"

definition hardest_first :: "signature_info list \<Rightarrow> signature_info list" where
  "hardest_first sigs = sort_key (\<lambda>s. (- sg_complexity s, symbol_identity s)) sigs"

definition lighter :: "shard \<Rightarrow> shard \<Rightarrow> bool" where
  "lighter a b \<longleftrightarrow> sh_complexity a < sh_complexity b \<or>
     sh_complexity a = sh_complexity b \<and> length (sh_symbols a) < length (sh_symbols b)"

definition lightest :: "shard list \<Rightarrow> nat" where
  "lightest shards = fold (\<lambda>i best. if lighter (shards ! i) (shards ! best) then i else best) [1..<length shards] 0"

definition pack :: "signature_info \<Rightarrow> shard list \<Rightarrow> shard list" where
  "pack s shards =
     (let l = lightest shards; sh = shards ! l in
      shards[l := sh\<lparr>sh_symbols := sh_symbols sh @ [symbol_identity s],
                     sh_complexity := sh_complexity sh + sg_complexity s, sh_lines := sh_lines sh + sg_lines s\<rparr>])"

definition empty_shard :: "nat \<Rightarrow> shard" where
  "empty_shard i = \<lparr>sh_index = i, sh_symbols = [], sh_complexity = 0, sh_lines = 0, sh_mutants = 0\<rparr>"

definition shard_symbols :: "signature_info list \<Rightarrow> int \<Rightarrow> shard list option" where
  "shard_symbols sigs max_shards =
     (if max_shards \<le> 1 then None
      else let named = named_symbols sigs in
        if length named < 2 then None
        else let n = (if int (length named) < max_shards then length named else nat max_shards) in
          Some (fold pack (hardest_first named) (map empty_shard [0..<n])))"

subsection \<open>The mutant budget\<close>

definition default_n_mutants :: int where "default_n_mutants = 5"
definition default_max_shards :: int where "default_max_shards = 8"
definition budget_floor :: int where "budget_floor = 5"
definition budget_ceiling :: int where "budget_ceiling = default_n_mutants * default_max_shards"
definition mutants_per_complexity :: int where "mutants_per_complexity = 1"

datatype budget_rule = BudgetComplexity | BudgetExplicit | BudgetDefault | BudgetFitted

record mutant_budget =
  mb_total :: int
  mb_rule :: budget_rule
  mb_complexity :: int
  mb_floor :: int
  mb_ceiling :: int
  mb_per_seat :: int
  mb_before_fit :: int
  mb_deadline_ms :: int
  mb_round_cost_ms :: int
  mb_trees :: int
  mb_exceeds :: bool

record plan_spec =
  ps_n_mutants :: int
  ps_max_shards :: int
  ps_round_cost :: int
  ps_deadline :: int
  ps_trees :: int

definition zero_budget :: mutant_budget where
  "zero_budget = \<lparr>mb_total = 0, mb_rule = BudgetDefault, mb_complexity = 0, mb_floor = 0, mb_ceiling = 0, mb_per_seat = 0,
     mb_before_fit = 0, mb_deadline_ms = 0, mb_round_cost_ms = 0, mb_trees = 0, mb_exceeds = False\<rparr>"

definition fits_in_deadline :: "(rat \<Rightarrow> rat) \<Rightarrow> plan_spec \<Rightarrow> int" where
  "fits_in_deadline fl rs =
     (if ps_round_cost rs \<le> 0 \<or> ps_deadline rs \<le> 0 then 0
      else let trees = max 1 (ps_trees rs);
               rounds = \<lfloor>fl (fl (fl (of_int (ps_deadline rs)) / 2) / fl (of_int (ps_round_cost rs)))\<rfloor> in
        (max 1 rounds) * trees)"

definition named_count :: "signature_info list \<Rightarrow> int" where
  "named_count sigs = int (length (named_symbols sigs))"

definition base_budget :: "signature_info list \<Rightarrow> plan_spec \<Rightarrow> mutant_budget" where
  "base_budget sigs rs =
     (let complexity = sum_list (map sg_complexity (named_symbols sigs)) in
      if ps_n_mutants rs > 0 then
        zero_budget\<lparr>mb_rule := BudgetExplicit, mb_complexity := complexity, mb_per_seat := ps_n_mutants rs\<rparr>
      else if complexity \<le> 0 then zero_budget\<lparr>mb_rule := BudgetDefault, mb_per_seat := default_n_mutants\<rparr>
      else
        (let total0 = complexity * mutants_per_complexity;
             total1 = (if total0 < budget_floor then budget_floor else total0);
             total2 = (if total1 > budget_ceiling then budget_ceiling else total1) in
         zero_budget\<lparr>mb_rule := BudgetComplexity, mb_complexity := complexity, mb_total := total2,
           mb_floor := budget_floor, mb_ceiling := budget_ceiling\<rparr>))"

definition fit_budget :: "(rat \<Rightarrow> rat) \<Rightarrow> signature_info list \<Rightarrow> plan_spec \<Rightarrow> mutant_budget \<Rightarrow> mutant_budget" where
  "fit_budget fl sigs rs b =
     (let capacity = fits_in_deadline fl rs; trees = max 1 (ps_trees rs);
          clocked = (\<lambda>b. b\<lparr>mb_deadline_ms := ps_deadline rs div 1000000, mb_round_cost_ms := ps_round_cost rs div 1000000, mb_trees := trees\<rparr>) in
      if capacity > 0 then
        (case mb_rule b of
           BudgetComplexity \<Rightarrow>
             if mb_total b > capacity then
               clocked (b\<lparr>mb_rule := BudgetFitted, mb_before_fit := mb_total b, mb_total := max budget_floor capacity\<rparr>)
             else b
         | BudgetExplicit \<Rightarrow>
             (let seats = max 1 (min (ps_max_shards rs) (named_count sigs)) in
              if mb_per_seat b * seats > capacity then clocked (b\<lparr>mb_exceeds := True\<rparr>) else b)
         | _ \<Rightarrow> b)
      else b)"

definition derived_rule :: "mutant_budget \<Rightarrow> bool" where
  "derived_rule b \<longleftrightarrow> mb_rule b = BudgetComplexity \<or> mb_rule b = BudgetFitted"

definition complexity_share :: "(rat \<Rightarrow> rat) \<Rightarrow> int \<Rightarrow> int \<Rightarrow> int \<Rightarrow> rat" where
  "complexity_share fl spare weight c =
     (if weight > 0 then fl (fl (fl (of_int spare) * fl (of_int c)) / fl (of_int weight)) else 0)"

definition bump :: "nat \<Rightarrow> shard list \<Rightarrow> shard list" where
  "bump i shards = shards[i := (shards ! i)\<lparr>sh_mutants := sh_mutants (shards ! i) + 1\<rparr>]"

definition split_by_complexity :: "(rat \<Rightarrow> rat) \<Rightarrow> shard list \<Rightarrow> int \<Rightarrow> shard list" where
  "split_by_complexity fl shards total0 =
     (let n = length shards;
          total' = (if total0 < int n then int n else total0);
          weight = sum_list (map sh_complexity shards);
          spare = total' - int n;
          shares = map (\<lambda>sh. complexity_share fl spare weight (sh_complexity sh)) shards;
          wholes = map floor shares;
          given = sum_list wholes;
          shards1 = map (\<lambda>(sh, w). sh\<lparr>sh_mutants := 1 + w\<rparr>) (zip shards wholes);
          rems = map fst (sort_key (\<lambda>r. - snd r) (zip [0..<n] (map (\<lambda>(s, w). fl (s - of_int w)) (zip shares wholes)))) in
      fold (\<lambda>k. bump (rems ! (k mod n))) [0..<nat (spare - given)] shards1)"

definition plan_shards :: "(rat \<Rightarrow> rat) \<Rightarrow> signature_info list \<Rightarrow> plan_spec \<Rightarrow> shard list option \<times> mutant_budget" where
  "plan_shards fl sigs rs =
     (let b = fit_budget fl sigs rs (base_budget sigs rs);
          width = (if derived_rule b \<and> ps_max_shards rs > mb_total b then mb_total b else ps_max_shards rs) in
      case shard_symbols sigs width of
        None \<Rightarrow> (None, if derived_rule b then b else b\<lparr>mb_total := mb_per_seat b\<rparr>)
      | Some shards \<Rightarrow>
          if \<not> derived_rule b then
            (Some (map (\<lambda>sh. sh\<lparr>sh_mutants := mb_per_seat b\<rparr>) shards), b\<lparr>mb_total := mb_per_seat b * int (length shards)\<rparr>)
          else (Some (split_by_complexity fl shards (mb_total b)), b))"

subsection \<open>How much of the file the exam reached\<close>

record exam_coverage =
  ec_symbols :: nat
  ec_symbols_probed :: nat
  ec_decisions :: nat
  ec_decisions_probed :: nat
  ec_unplaced :: nat
  ec_measured :: bool

record exam_surface =
  es_symbols :: "line_range list"
  es_decisions :: "line_range list"

definition new_exam_surface :: "signature_info list \<Rightarrow> exam_surface" where
  "new_exam_surface sigs =
     (let kept = filter (\<lambda>s. sg_name s \<noteq> [] \<and> sg_line s > 0) sigs in
      \<lparr>es_symbols = map (\<lambda>s. \<lparr>lr_start = sg_line s, lr_end = (if sg_lines s > 0 then sg_line s + sg_lines s - 1 else sg_line s)\<rparr>) kept,
       es_decisions = concat (map sg_decisions kept)\<rparr>)"

definition probed :: "line_range list \<Rightarrow> line_range \<Rightarrow> bool" where
  "probed spans r \<longleftrightarrow> (\<exists>sp\<in>set spans. lr_start sp \<le> lr_end r \<and> lr_start r \<le> lr_end sp)"

definition exam_coverage_of :: "exam_surface \<Rightarrow> line_range list \<Rightarrow> exam_coverage" where
  \<comment> \<open>over the spans of the graded mutants\<close>
  "exam_coverage_of s graded =
     (let spans = filter (\<lambda>r. \<not> is_zero_range r) graded;
          c = \<lparr>ec_symbols = length (es_symbols s), ec_symbols_probed = 0, ec_decisions = length (es_decisions s), ec_decisions_probed = 0,
               ec_unplaced = length (filter is_zero_range graded), ec_measured = False\<rparr> in
      if es_symbols s = [] \<or> graded = [] then c
      else c\<lparr>ec_measured := True, ec_symbols_probed := length (filter (probed spans) (es_symbols s)),
             ec_decisions_probed := length (filter (probed spans) (es_decisions s))\<rparr>)"

subsection \<open>Every symbol in one shard, and no shard much heavier than another\<close>

lemma fold_keeps:
  "(\<And>i b. i \<in> set is \<Longrightarrow> P b \<Longrightarrow> P (f i b)) \<Longrightarrow> P b \<Longrightarrow> P (fold f is b)"
  by (induction "is" arbitrary: b) auto

lemma lightest_least:
  assumes "shards \<noteq> []"
  shows "lightest shards < length shards" "i < length shards \<Longrightarrow> sh_complexity (shards ! lightest shards) \<le> sh_complexity (shards ! i)"
proof -
  let ?f = "\<lambda>i best. if lighter (shards ! i) (shards ! best) then i else best"
  have inv: "fold ?f [1..<Suc k] 0 \<le> k \<and> (\<forall>i\<le>k. sh_complexity (shards ! fold ?f [1..<Suc k] 0) \<le> sh_complexity (shards ! i))" for k
  proof (induction k)
    case (Suc k)
    then show ?case by (auto simp: lighter_def le_Suc_eq)
  qed simp
  obtain k where k: "length shards = Suc k" using assms by (cases shards) auto
  show "lightest shards < length shards" "i < length shards \<Longrightarrow> sh_complexity (shards ! lightest shards) \<le> sh_complexity (shards ! i)"
    using inv [of k] by (auto simp: lightest_def k)
qed

definition packed :: "signature_info list \<Rightarrow> nat \<Rightarrow> int \<Rightarrow> shard list \<Rightarrow> bool" where
  "packed syms n M shards \<longleftrightarrow> map sh_index shards = [0..<n] \<and>
     mset (concat (map sh_symbols shards)) = mset (map symbol_identity syms) \<and>
     sum_list (map sh_complexity shards) = sum_list (map sg_complexity syms) \<and>
     (\<forall>a\<in>set shards. 0 \<le> sh_complexity a \<and> (\<forall>b\<in>set shards. sh_complexity a \<le> sh_complexity b + M))"

lemma mset_concat_update:
  "l < length xss \<Longrightarrow> mset (concat (xss[l := xss ! l @ ys])) = mset (concat xss) + mset ys"
  by (induction xss arbitrary: l) (auto split: nat.splits)

lemma sum_list_update_int: "l < length xs \<Longrightarrow> sum_list (xs[l := (v::int)]) = sum_list xs - xs ! l + v"
  by (induction xs arbitrary: l) (auto split: nat.splits)

lemma pack_packed:
  assumes p: "packed syms n M shards" and n: "0 < n" and s: "0 \<le> sg_complexity s" "sg_complexity s \<le> M"
  shows "packed (syms @ [s]) n M (pack s shards)"
proof -
  have len: "length shards = n" using p unfolding packed_def by (metis length_map length_upt minus_nat.diff_0)
  then have ne: "shards \<noteq> []" using n by auto
  let ?l = "lightest shards"
  note l = lightest_least [OF ne]
  let ?new = "(shards ! ?l)\<lparr>sh_symbols := sh_symbols (shards ! ?l) @ [symbol_identity s],
    sh_complexity := sh_complexity (shards ! ?l) + sg_complexity s, sh_lines := sh_lines (shards ! ?l) + sg_lines s\<rparr>"
  have pk: "pack s shards = shards[?l := ?new]" by (simp add: pack_def Let_def)
  have idx: "map sh_index (shards[?l := ?new]) = map sh_index shards"
    using l(1) list_update_id [of "map sh_index shards" ?l] by (simp add: map_update)
  have syms: "mset (concat (map sh_symbols (shards[?l := ?new]))) = mset (concat (map sh_symbols shards)) + {#symbol_identity s#}"
    using mset_concat_update [of ?l "map sh_symbols shards" "[symbol_identity s]"] l(1) by (simp add: map_update)
  have cplx: "sum_list (map sh_complexity (shards[?l := ?new])) = sum_list (map sh_complexity shards) + sg_complexity s"
    using sum_list_update_int [of ?l "map sh_complexity shards"] l(1) by (simp add: map_update)
  have low: "sh_complexity (shards ! ?l) \<le> sh_complexity b" if "b \<in> set shards" for b
    using that l(2) by (auto simp: in_set_conv_nth)
  have mem: "shards ! ?l \<in> set shards" using l(1) by simp
  have bal: "0 \<le> sh_complexity a \<and> sh_complexity a \<le> sh_complexity b + M"
    if "a \<in> set (shards[?l := ?new])" "b \<in> set (shards[?l := ?new])" for a b
  proof -
    have a: "a = ?new \<or> a \<in> set shards" and b: "b = ?new \<or> b \<in> set shards" using that set_update_subset_insert by fastforce+
    have old: "\<And>a b. a \<in> set shards \<Longrightarrow> b \<in> set shards \<Longrightarrow> 0 \<le> sh_complexity a \<and> sh_complexity a \<le> sh_complexity b + M"
      using p by (auto simp: packed_def)
    show ?thesis using a b old [OF mem mem] old [of a b] old [OF _ mem, of a] low [of b] s mem by (elim disjE) auto
  qed
  show ?thesis unfolding pk packed_def idx syms cplx using p bal by (auto simp: packed_def)
qed

lemma fold_pack:
  "packed done0 n M shards \<Longrightarrow> 0 < n \<Longrightarrow> \<forall>s\<in>set syms. 0 \<le> sg_complexity s \<and> sg_complexity s \<le> M \<Longrightarrow>
     packed (done0 @ syms) n M (fold pack syms shards)"
proof (induction syms arbitrary: done0 shards)
  case (Cons s syms)
  from Cons.IH [of "done0 @ [s]" "pack s shards"] pack_packed [OF Cons.prems(1,2), of s] Cons.prems show ?case by simp
qed simp

text \<open>
  C34. Sharding covers and balances: every named symbol of the file is in exactly one shard (as often as it is declared), the shards are
  numbered from 0 and there are as many as were asked for or as there are symbols, their complexities add up to the file's, and no shard
  is heavier than another by more than the hardest single symbol.
\<close>

theorem shards_cover_and_balance:
  assumes "shard_symbols sigs k = Some shards"
    and "\<forall>s\<in>set (named_symbols sigs). 0 \<le> sg_complexity s \<and> sg_complexity s \<le> M"
  shows "map sh_index shards = [0..<nat (min k (named_count sigs))] \<and> 2 \<le> length shards \<and>
    mset (concat (map sh_symbols shards)) = mset (map symbol_identity (named_symbols sigs)) \<and>
    sum_list (map sh_complexity shards) = sum_list (map sg_complexity (named_symbols sigs)) \<and>
    (\<forall>a\<in>set shards. \<forall>b\<in>set shards. sh_complexity a \<le> sh_complexity b + M)"
proof -
  let ?named = "named_symbols sigs"
  let ?n = "if int (length ?named) < k then length ?named else nat k"
  from assms(1) have s: "shards = fold pack (hardest_first ?named) (map empty_shard [0..<?n])" and n: "2 \<le> ?n" "k > 1"
    by (auto simp: shard_symbols_def Let_def split: if_splits)
  have m: "mset (hardest_first ?named) = mset ?named" by (simp add: hardest_first_def)
  have "?named \<noteq> []" using n by (auto split: if_splits)
  then obtain s0 where "s0 \<in> set ?named" by (cases ?named) auto
  then have M: "0 \<le> M" using assms(2) by force
  have "packed [] ?n M (map empty_shard [0..<?n])"
    using M by (auto simp: packed_def empty_shard_def comp_def intro!: map_idI)
  moreover have "\<forall>s\<in>set (hardest_first ?named). 0 \<le> sg_complexity s \<and> sg_complexity s \<le> M"
    using assms(2) m by (metis set_mset_mset)
  ultimately have p: "packed (hardest_first ?named) ?n M shards"
    using fold_pack [of "[]" ?n M "map empty_shard [0..<?n]" "hardest_first ?named"] n s by simp
  have "sum_list (map sg_complexity (hardest_first ?named)) = sum_list (map sg_complexity ?named)"
    using m by (metis mset_map sum_mset_sum_list)
  moreover have "mset (map symbol_identity (hardest_first ?named)) = mset (map symbol_identity ?named)" using m by simp
  moreover have "?n = nat (min k (named_count sigs))" using n by (auto simp: named_count_def min_def)
  moreover have "length shards = ?n" using p unfolding packed_def by (metis length_map length_upt minus_nat.diff_0)
  ultimately show ?thesis using p n unfolding packed_def by auto
qed

lemma shards_cover_and_balance_witness:
  "\<exists>shards. shard_symbols [\<lparr>sg_name = ''f'', sg_receiver = [], sg_line = 1, sg_complexity = 3, sg_lines = 2, sg_decisions = []\<rparr>,
      \<lparr>sg_name = ''g'', sg_receiver = ''T'', sg_line = 4, sg_complexity = 1, sg_lines = 1, sg_decisions = []\<rparr>] 8 = Some shards \<and> 2 \<le> length shards"
proof -
  let ?sigs = "[\<lparr>sg_name = ''f'', sg_receiver = [], sg_line = 1, sg_complexity = 3, sg_lines = 2, sg_decisions = []\<rparr>,
      \<lparr>sg_name = ''g'', sg_receiver = ''T'', sg_line = 4, sg_complexity = 1, sg_lines = 1, sg_decisions = []\<rparr>]"
  obtain shards where s: "shard_symbols ?sigs 8 = Some shards" by (simp add: shard_symbols_def named_symbols_def Let_def)
  moreover have "2 \<le> length shards"
    using shards_cover_and_balance [OF s, of 3] by (simp add: named_symbols_def)
  ultimately show ?thesis by blast
qed

subsection \<open>The budget is handed out exactly\<close>

definition float64 :: "(rat \<Rightarrow> rat) \<Rightarrow> bool" where
  \<comment> \<open>rounding to nearest: integers up to $2^{53}$ are exact, and in the normal range the relative error is at most $2^{-53}$\<close>
  "float64 fl \<longleftrightarrow> (\<forall>i. \<bar>i\<bar> \<le> 2 ^ 53 \<longrightarrow> fl (of_int i) = of_int i) \<and>
     (\<forall>x. 1 / 2 ^ 100 \<le> \<bar>x\<bar> \<and> \<bar>x\<bar> \<le> 2 ^ 100 \<longrightarrow> \<bar>fl x - x\<bar> \<le> \<bar>x\<bar> / 2 ^ 53)"

lemma fl_div_floor:
  assumes fl: "float64 fl" and p: "0 \<le> p" "p < 2 ^ 53" and w: "0 < w" "w \<le> 2 ^ 53"
  shows "\<lfloor>fl (of_int p / of_int w)\<rfloor> = p div w"
proof (cases "p mod w = 0")
  case True
  then have "(of_int p / of_int w :: rat) = of_int (p div w)" using w by (metis of_int_div mod_0_imp_dvd of_int_0_eq_iff less_irrefl)
  moreover have "p div w \<le> p" "0 \<le> p div w" using p w zdiv_mono2 [of p 1 w] by (simp_all add: pos_imp_zdiv_nonneg_iff)
  ultimately show ?thesis using fl p by (simp add: float64_def)
next
  case False
  let ?x = "of_int p / of_int w :: rat" and ?n = "p div w"
  have m: "1 \<le> p mod w" "p mod w \<le> w - 1" using False pos_mod_sign [of w p] pos_mod_bound [of w p] w by linarith+
  have e: "p = w * ?n + p mod w" by simp
  have x: "?x = of_int ?n + of_int (p mod w) / of_int w"
  proof -
    have "(of_int p :: rat) = of_int w * of_int ?n + of_int (p mod w)" by (metis e of_int_add of_int_mult)
    then show ?thesis using w by (simp only: add_divide_distrib) simp
  qed
  have lo: "of_int ?n + 1 / of_int w \<le> ?x" and hi: "?x \<le> of_int ?n + 1 - 1 / of_int w"
  proof -
    have "(1 :: rat) \<le> of_int (p mod w)" "(of_int (p mod w) :: rat) \<le> of_int w - 1"
      using m of_int_le_iff [of 1 "p mod w", where 'a = rat] of_int_le_iff [of "p mod w" "w - 1", where 'a = rat] by simp_all
    then have "(1 :: rat) / of_int w \<le> of_int (p mod w) / of_int w" "(of_int (p mod w) / of_int w :: rat) \<le> (of_int w - 1) / of_int w"
      using w by (simp_all only: divide_right_mono of_int_0_le_iff less_imp_le)
    moreover have "(of_int w - 1) / of_int w = (1 :: rat) - 1 / of_int w" using w by (simp add: diff_divide_distrib)
    ultimately show "of_int ?n + 1 / of_int w \<le> ?x" "?x \<le> of_int ?n + 1 - 1 / of_int w" unfolding x by linarith+
  qed
  have "1 \<le> p" using False p by (cases "p = 0") auto
  then have x0: "0 < ?x" using w by simp
  have "1 / 2 ^ 100 \<le> ?x"
  proof -
    have "(of_int w :: rat) \<le> of_int (2 ^ 53)" using w(2) by (simp only: of_int_le_iff)
    then have "(of_int w :: rat) \<le> 2 ^ 100" by simp
    then have "(1 :: rat) / 2 ^ 100 \<le> 1 / of_int w" using w by (simp add: frac_le)
    also have "\<dots> \<le> ?x" using \<open>1 \<le> p\<close> w by (simp add: divide_right_mono)
    finally show ?thesis .
  qed
  moreover have "?x \<le> 2 ^ 100"
  proof -
    have "?x \<le> of_int p" using p w by (simp add: divide_le_eq mult_le_cancel_left1)
    also have "\<dots> \<le> of_int (2 ^ 53)" using p(2) by (simp only: of_int_le_iff less_imp_le)
    finally show ?thesis by simp
  qed
  ultimately have rng: "1 / 2 ^ 100 \<le> ?x \<and> ?x \<le> 2 ^ 100" by blast
  have ax: "\<bar>?x\<bar> = ?x" using x0 by (rule abs_of_pos)
  have "1 / 2 ^ 100 \<le> \<bar>?x\<bar> \<and> \<bar>?x\<bar> \<le> 2 ^ 100" unfolding ax by (rule rng)
  then have "\<bar>fl ?x - ?x\<bar> \<le> \<bar>?x\<bar> / 2 ^ 53" by (rule fl [unfolded float64_def, THEN conjunct2, rule_format])
  then have "\<bar>fl ?x - ?x\<bar> \<le> ?x / 2 ^ 53" unfolding ax .
  moreover have "?x / 2 ^ 53 < 1 / of_int w"
  proof -
    have "(of_int p :: rat) < of_int (2 ^ 53)" using p(2) by (simp only: of_int_less_iff)
    moreover have "(0 :: rat) < of_int w" using w by simp
    ultimately have "?x < of_int (2 ^ 53) / of_int w" by (rule divide_strict_right_mono)
    then have "?x / 2 ^ 53 < of_int (2 ^ 53) / of_int w / 2 ^ 53" by (rule divide_strict_right_mono) simp
    also have "\<dots> = 1 / of_int w" by simp
    finally show ?thesis .
  qed
  ultimately have "of_int ?n < fl ?x" "fl ?x < of_int ?n + 1" using lo hi by linarith+
  then show ?thesis by (simp add: floor_eq_iff)
qed

lemma bump_adds:
  assumes "i < length shards"
  shows "length (bump i shards) = length shards" "sum_list (map sh_mutants (bump i shards)) = sum_list (map sh_mutants shards) + 1"
    "\<forall>sh\<in>set shards. 1 \<le> sh_mutants sh \<Longrightarrow> \<forall>sh\<in>set (bump i shards). 1 \<le> sh_mutants sh"
proof -
  show "length (bump i shards) = length shards" by (simp add: bump_def)
  show "sum_list (map sh_mutants (bump i shards)) = sum_list (map sh_mutants shards) + 1"
    using assms sum_list_update_int [of i "map sh_mutants shards"] by (simp add: bump_def map_update)
  assume all: "\<forall>sh\<in>set shards. 1 \<le> sh_mutants sh"
  have "1 \<le> sh_mutants (shards ! i)" using all assms by simp
  then show "\<forall>sh\<in>set (bump i shards). 1 \<le> sh_mutants sh"
    using all set_update_subset_insert [of shards i "(shards ! i)\<lparr>sh_mutants := sh_mutants (shards ! i) + 1\<rparr>"]
    by (auto simp: bump_def)
qed

lemma fold_bump:
  "\<forall>k\<in>set ks. f k < length shards \<Longrightarrow> \<forall>sh\<in>set shards. 1 \<le> sh_mutants sh \<Longrightarrow>
     sum_list (map sh_mutants (fold (\<lambda>k. bump (f k)) ks shards)) = sum_list (map sh_mutants shards) + int (length ks) \<and>
     (\<forall>sh\<in>set (fold (\<lambda>k. bump (f k)) ks shards). 1 \<le> sh_mutants sh)"
proof (induction ks arbitrary: shards)
  case (Cons k ks)
  then have "f k < length shards" by simp
  note b = bump_adds [OF this]
  from Cons.IH [of "bump (f k) shards"] Cons.prems b show ?case by simp
qed simp

lemma sum_of_shares:
  assumes "0 < (w :: int)"
  shows "w * sum_list (map (\<lambda>c. s * c div w) cs) \<le> s * sum_list cs"
proof (induction cs)
  case (Cons c cs)
  have "w * (s * c div w) \<le> s * c" using assms by (metis mult_div_mod_eq le_add_same_cancel1 pos_mod_sign)
  with Cons show ?case by (simp add: distrib_left)
qed simp

lemma complexity_share_floor:
  assumes "float64 fl" "0 \<le> s" "0 \<le> c" "0 < w" "s \<le> 2 ^ 10" "c \<le> w" "w \<le> 2 ^ 40"
  shows "\<lfloor>complexity_share fl s w c\<rfloor> = s * c div w"
proof -
  have ex: "fl (of_int i) = of_int i" if "\<bar>i\<bar> \<le> 2 ^ 53" for i using assms(1) that unfolding float64_def by blast
  have "s * c \<le> 2 ^ 10 * 2 ^ 40" using assms by (intro mult_mono) auto
  then have "s * c < 2 ^ 53" "0 \<le> s * c" using assms by auto
  moreover have "fl (of_int s) = of_int s" "fl (of_int c) = of_int c" "fl (of_int w) = of_int w" "fl (of_int (s * c)) = of_int (s * c)"
    using assms \<open>s * c < 2 ^ 53\<close> \<open>0 \<le> s * c\<close> by (auto intro!: ex simp del: of_int_mult)
  ultimately show ?thesis using fl_div_floor [of fl "s * c" w] assms unfolding complexity_share_def by simp
qed

lemma hand_out:
  assumes "length ws = length shards"
  shows "sum_list (map sh_mutants (map (\<lambda>(sh, w). sh\<lparr>sh_mutants := 1 + w\<rparr>) (zip shards ws))) = int (length shards) + sum_list ws"
    "\<forall>x\<in>set ws. 0 \<le> x \<Longrightarrow> \<forall>sh\<in>set (map (\<lambda>(sh, w). sh\<lparr>sh_mutants := 1 + w\<rparr>) (zip shards ws)). 1 \<le> sh_mutants sh"
  using assms by (induction ws shards rule: list_induct2) auto

lemma split_by_complexity_exact:
  assumes fl: "float64 fl" and pos: "\<forall>sh\<in>set shards. 0 \<le> sh_complexity sh" and w: "0 < sum_list (map sh_complexity shards)"
    "sum_list (map sh_complexity shards) \<le> 2 ^ 40" and t: "int (length shards) \<le> t" "t \<le> 2 ^ 10"
  shows "sum_list (map sh_mutants (split_by_complexity fl shards t)) = t \<and>
    (\<forall>sh\<in>set (split_by_complexity fl shards t). 1 \<le> sh_mutants sh)"
proof -
  let ?n = "length shards" and ?w = "sum_list (map sh_complexity shards)"
  let ?s = "t - int ?n"
  let ?shares = "map (\<lambda>sh. complexity_share fl ?s ?w (sh_complexity sh)) shards"
  let ?wholes = "map floor ?shares"
  let ?rems = "map fst (sort_key (\<lambda>r. - snd r) (zip [0..<?n] (map (\<lambda>(s, w). fl (s - of_int w)) (zip ?shares ?wholes))))"
  let ?shards1 = "map (\<lambda>(sh, w). sh\<lparr>sh_mutants := 1 + w\<rparr>) (zip shards ?wholes)"
  have le: "sh_complexity sh \<le> ?w" if "sh \<in> set shards" for sh
    using that pos by (intro member_le_sum_list) auto
  have wh: "?wholes = map (\<lambda>c. ?s * c div ?w) (map sh_complexity shards)"
    using complexity_share_floor [OF fl, of ?s _ ?w] pos w t le by simp
  have wpos: "\<forall>x\<in>set ?wholes. 0 \<le> x" unfolding wh using pos w(1) t by (auto intro!: pos_imp_zdiv_nonneg_iff [THEN iffD2])
  have "?w * sum_list ?wholes \<le> ?w * ?s" unfolding wh using sum_of_shares [OF w(1), of ?s "map sh_complexity shards"] by (simp only: mult.commute [of ?w ?s])
  then have given: "sum_list ?wholes \<le> ?s" using w(1) by (simp only: mult_le_cancel_left_pos)
  have len: "length ?rems = ?n" "length ?shards1 = ?n" by simp_all
  have "set ?rems = {0..<?n}" by (simp add: set_zip_leftD image_def set_zip) force
  then have rem: "?rems ! (k mod ?n) < length ?shards1" for k
    using nth_mem [of "k mod ?n" ?rems] len w(1) by (cases shards) auto
  have "length ?wholes = ?n" by simp
  note one = hand_out(2) [OF this wpos] and sum1 = hand_out(1) [OF this]
  have eq: "split_by_complexity fl shards t = fold (\<lambda>k. bump (?rems ! (k mod ?n))) [0..<nat (?s - sum_list ?wholes)] ?shards1"
    using t(1) unfolding split_by_complexity_def Let_def by simp
  have "int (length [0..<nat (?s - sum_list ?wholes)]) = ?s - sum_list ?wholes" using given by simp
  moreover have "\<forall>k\<in>set [0..<nat (?s - sum_list ?wholes)]. ?rems ! (k mod ?n) < length ?shards1" using rem by blast
  note fold_bump [of "[0..<nat (?s - sum_list ?wholes)]" "\<lambda>k. ?rems ! (k mod ?n)" ?shards1, OF this one]
  ultimately show ?thesis unfolding eq sum1 by simp
qed

lemma derived_budget:
  assumes "derived_rule (fit_budget fl sigs rs (base_budget sigs rs))"
  shows "budget_floor \<le> mb_total (fit_budget fl sigs rs (base_budget sigs rs)) \<and>
    mb_total (fit_budget fl sigs rs (base_budget sigs rs)) \<le> budget_ceiling \<and> 0 < sum_list (map sg_complexity (named_symbols sigs))"
  using assms
  by (auto simp: fit_budget_def base_budget_def derived_rule_def zero_budget_def Let_def budget_floor_def budget_ceiling_def
      default_n_mutants_def default_max_shards_def mutants_per_complexity_def split: if_splits)

lemma shards_of:
  assumes "shard_symbols sigs k = Some shards" "\<forall>s\<in>set (named_symbols sigs). 0 \<le> sg_complexity s"
  shows "2 \<le> length shards" "int (length shards) \<le> k" "\<forall>sh\<in>set shards. 0 \<le> sh_complexity sh"
    "sum_list (map sh_complexity shards) = sum_list (map sg_complexity (named_symbols sigs))"
proof -
  let ?named = "named_symbols sigs" and ?M = "sum_list (map sg_complexity (named_symbols sigs))"
  let ?n = "if int (length ?named) < k then length ?named else nat k"
  from assms(1) have s: "shards = fold pack (hardest_first ?named) (map empty_shard [0..<?n])" and n: "2 \<le> ?n" "k > 1"
    by (auto simp: shard_symbols_def Let_def split: if_splits)
  have m: "mset (hardest_first ?named) = mset ?named" by (simp add: hardest_first_def)
  have M: "\<forall>s\<in>set ?named. 0 \<le> sg_complexity s \<and> sg_complexity s \<le> ?M"     using assms(2) member_le_sum_list [of _ "map sg_complexity ?named"] by auto
  then have "\<forall>s\<in>set (hardest_first ?named). 0 \<le> sg_complexity s \<and> sg_complexity s \<le> ?M" using m by (metis set_mset_mset)
  moreover have "packed [] ?n ?M (map empty_shard [0..<?n])"
    using assms(2) by (auto simp: packed_def empty_shard_def comp_def intro!: map_idI sum_list_nonneg)
  ultimately have p: "packed (hardest_first ?named) ?n ?M shards"
    using fold_pack [of "[]" ?n ?M "map empty_shard [0..<?n]" "hardest_first ?named"] n s by simp
  have "length shards = ?n" using p unfolding packed_def by (metis length_map length_upt minus_nat.diff_0)
  then show "2 \<le> length shards" "int (length shards) \<le> k" using n by (auto split: if_splits)
  show "\<forall>sh\<in>set shards. 0 \<le> sh_complexity sh" using p by (auto simp: packed_def)
  have "sum_list (map sg_complexity (hardest_first ?named)) = ?M" using m by (metis mset_map sum_mset_sum_list)
  then show "sum_list (map sh_complexity shards) = ?M" using p by (simp add: packed_def)
qed

text \<open>
  C29. The mutant budget is handed out exactly: when the plan derives the budget from the file's complexity, it is between the floor (5) and the
  ceiling (40) whatever the deadline allows, the generators together are asked for exactly that many mutants, and every one of them for at least
  one, although the shares are computed in float64. The code rounds to nearest; complexities are not negative and add up to at most $2^{40}$.
\<close>

theorem budget_handed_out_exactly:
  assumes "float64 fl" and "\<forall>s\<in>set (named_symbols sigs). 0 \<le> sg_complexity s"
    and "sum_list (map sg_complexity (named_symbols sigs)) \<le> 2 ^ 40"
    and "plan_shards fl sigs rs = (Some shards, b)" and "derived_rule b"
  shows "sum_list (map sh_mutants shards) = mb_total b \<and> (\<forall>sh\<in>set shards. 1 \<le> sh_mutants sh) \<and>
    budget_floor \<le> mb_total b \<and> mb_total b \<le> budget_ceiling"
proof -
  let ?b = "fit_budget fl sigs rs (base_budget sigs rs)"
  define k where "k = (if ps_max_shards rs > mb_total ?b then mb_total ?b else ps_max_shards rs)"
  have d: "derived_rule ?b" using assms(4,5) by (auto simp: plan_shards_def Let_def derived_rule_def split: option.splits if_splits)
  obtain s0 where s0: "shard_symbols sigs k = Some s0" "shards = split_by_complexity fl s0 (mb_total ?b)" "b = ?b"
  proof -
    have "plan_shards fl sigs rs = (case shard_symbols sigs k of None \<Rightarrow> (None, ?b) | Some shards \<Rightarrow> (Some (split_by_complexity fl shards (mb_total ?b)), ?b))"
      using d unfolding plan_shards_def Let_def k_def by (simp split: option.splits)
    then show ?thesis using assms(4) that by (cases "shard_symbols sigs k") simp_all
  qed
  note t = derived_budget [OF d] and sh = shards_of [OF s0(1) assms(2)]
  have "int (length s0) \<le> mb_total ?b" using sh(2) by (simp add: k_def split: if_splits)
  moreover have "mb_total ?b \<le> 2 ^ 10" using t by (simp add: budget_ceiling_def default_n_mutants_def default_max_shards_def)
  ultimately show ?thesis
    using split_by_complexity_exact [OF assms(1) sh(3)] t sh(4) assms(3) s0(2,3) by simp
qed

lemma budget_handed_out_exactly_witness:
  "\<exists>shards b. plan_shards id [\<lparr>sg_name = ''f'', sg_receiver = [], sg_line = 1, sg_complexity = 5, sg_lines = 2, sg_decisions = []\<rparr>,
      \<lparr>sg_name = ''g'', sg_receiver = ''T'', sg_line = 4, sg_complexity = 2, sg_lines = 1, sg_decisions = []\<rparr>]
      \<lparr>ps_n_mutants = 0, ps_max_shards = 8, ps_round_cost = 0, ps_deadline = 0, ps_trees = 1\<rparr> = (Some shards, b) \<and>
    sum_list (map sh_mutants shards) = 7"
proof -
  let ?sigs = "[\<lparr>sg_name = ''f'', sg_receiver = [], sg_line = 1, sg_complexity = 5, sg_lines = 2, sg_decisions = []\<rparr>,
      \<lparr>sg_name = ''g'', sg_receiver = ''T'', sg_line = 4, sg_complexity = 2, sg_lines = 1, sg_decisions = []\<rparr>]"
  let ?rs = "\<lparr>ps_n_mutants = 0, ps_max_shards = 8, ps_round_cost = 0, ps_deadline = 0, ps_trees = 1\<rparr>"
  have b: "fit_budget id ?sigs ?rs (base_budget ?sigs ?rs) = zero_budget\<lparr>mb_rule := BudgetComplexity, mb_complexity := 7, mb_total := 7,
      mb_floor := 5, mb_ceiling := 40\<rparr>"
    by (simp add: fit_budget_def fits_in_deadline_def base_budget_def named_symbols_def Let_def budget_floor_def budget_ceiling_def
        default_n_mutants_def default_max_shards_def mutants_per_complexity_def zero_budget_def)
  obtain s0 where "shard_symbols ?sigs 7 = Some s0" by (simp add: shard_symbols_def named_symbols_def Let_def)
  then obtain shards where s: "plan_shards id ?sigs ?rs = (Some shards, fit_budget id ?sigs ?rs (base_budget ?sigs ?rs))"
    unfolding plan_shards_def b by (simp add: derived_rule_def zero_budget_def)
  have f: "float64 id" by (simp add: float64_def)
  show ?thesis using budget_handed_out_exactly [OF f _ _ s] s unfolding b by (simp add: named_symbols_def derived_rule_def)
qed

end
