(* ===== verification/Pairing.thy ===== *)
theory Pairing
  imports Mutant Path
begin

section \<open>Which file tests which (internal/pairing)\<close>

text \<open>
  From the conventions a language declares to the file a source is tested by: the candidates and their merge (\<^verbatim>\<open>pairing.go\<close>, \<^verbatim>\<open>dedupe.go\<close>), the
  two questions whether a file is a test, the two-stage resolution with the confinement of a path the source itself names (\<^verbatim>\<open>search.go\<close>,
  \<^verbatim>\<open>confine.go\<close>), the settlement of a contested test, and where an authored test lands (\<^verbatim>\<open>landing.go\<close>). The last section holds the
  conventions of the seven languages the program ships (\<^verbatim>\<open>internal/lang\<close>).

  What the disk answers is a parameter: the absolute form of a path, the path behind its symbolic links, which files exist, the listing of
  the repository and the declarations of a source. \<^verbatim>\<open>strings.ToLower\<close> outside ASCII is the parameter \<open>ul\<close>. A Shape is a datatype, so
  the panic on an undeclared one has no counterpart.
\<close>

subsection \<open>Rules and shapes\<close>

datatype shape = Sibling | BesideDir | ParallelTree | FlatRoot | Recognize | Inline | Declared | TestDir

definition shape_name :: "shape \<Rightarrow> string" where
  "shape_name s =
     (case s of Sibling \<Rightarrow> ''sibling'' | BesideDir \<Rightarrow> ''beside-dir'' | ParallelTree \<Rightarrow> ''parallel-tree'' | FlatRoot \<Rightarrow> ''flat-root''
      | Recognize \<Rightarrow> ''recognize'' | Inline \<Rightarrow> ''inline'' | Declared \<Rightarrow> ''declared'' | TestDir \<Rightarrow> ''test-dir'')"

record test_module =
  md_name :: string
  md_inline :: bool
  md_path_attr :: string
  md_cfg_test :: bool

record pairing_rule =
  ru_shape :: shape
  ru_name :: string
  ru_dir :: string
  ru_keep_leading :: bool
  ru_max_depth :: int
  ru_rank :: int

type_synonym labelled = "string \<times> string"   \<comment> \<open>a path and its label\<close>

record shape_traits =
  tr_candidate :: "(pairing_rule \<Rightarrow> string \<Rightarrow> string \<Rightarrow> string \<Rightarrow> string option) option"
  tr_search_root :: bool
  tr_test_dir :: bool
  tr_name_marks_test :: bool
  tr_same_dir :: bool
  tr_content :: bool
  tr_from_modules :: "string \<Rightarrow> test_module list \<Rightarrow> labelled list"
  tr_dir_marks_test :: bool
  tr_confined :: bool
  tr_module_depth :: int

definition no_traits :: shape_traits where
  \<comment> \<open>the zero value; no reader asks for the modules of a shape without content\<close>
  "no_traits = \<lparr>tr_candidate = None, tr_search_root = False, tr_test_dir = False, tr_name_marks_test = False, tr_same_dir = False,
     tr_content = False, tr_from_modules = (\<lambda>_ _. []), tr_dir_marks_test = False, tr_confined = False, tr_module_depth = 0\<rparr>"

definition split_path :: "string \<Rightarrow> string \<times> string \<times> string" where
  "split_path code_path =
     (let ext = path_ext code_path; base = cut_suffix (path_base code_path) ext; dir = path_dir code_path in
      (if dir = ''.'' then [] else dir, base, ext))"

definition join_dir :: "string \<Rightarrow> string \<Rightarrow> string" where
  "join_dir dir name = (if dir = [] then name else path_join [dir, name])"

definition strip_first_segment :: "string \<Rightarrow> string" where
  "strip_first_segment dir = (if CHR ''/'' \<in> set dir then tl (dropWhile (\<lambda>c. c \<noteq> CHR ''/'') dir) else [])"

definition dir_depth :: "string \<Rightarrow> int" where
  "dir_depth dir = (if dir = [] then 0 else int (length (slash_elements dir)))"

definition inline_module :: "string \<Rightarrow> test_module list \<Rightarrow> labelled list" where
  "inline_module src mods = (if list_ex md_inline mods then [(src, ''inline'')] else [])"

definition module_dir :: "string \<Rightarrow> string" where
  "module_dir src =
     (let b = path_base src in
      if b = ''mod.rs'' \<or> b = ''lib.rs'' \<or> b = ''main.rs'' then path_dir src
      else path_join [path_dir src, cut_suffix b (path_ext src)])"

definition module_files :: "string \<Rightarrow> test_module \<Rightarrow> labelled list" where
  \<comment> \<open>the body of \<^verbatim>\<open>declaredModule\<close>'s loop\<close>
  "module_files src m =
     (if md_inline m then []
      else if md_path_attr m \<noteq> [] then [(clean_path (path_join [path_dir src, md_path_attr m]), ''path-attr'')]
      else [(clean_path (path_join [module_dir src, md_name m @ ''.rs'']), ''default-module''),
            (clean_path (path_join [module_dir src, md_name m, ''mod.rs'']), ''default-module'')])"

definition declared_module :: "string \<Rightarrow> test_module list \<Rightarrow> labelled list" where
  "declared_module src mods = concat (map (module_files src) mods)"

definition traits_of :: "shape \<Rightarrow> shape_traits" where
  "traits_of s =
     (case s of
        Sibling \<Rightarrow> no_traits\<lparr>tr_candidate := Some (\<lambda>_ _ dir name. Some (join_dir dir name)), tr_name_marks_test := True, tr_same_dir := True\<rparr>
      | BesideDir \<Rightarrow> no_traits\<lparr>tr_candidate := Some (\<lambda>r _ dir name. Some (path_join [dir, ru_dir r, name])),
          tr_search_root := True, tr_test_dir := True, tr_name_marks_test := True\<rparr>
      | ParallelTree \<Rightarrow> no_traits\<lparr>tr_candidate := Some (\<lambda>r _ dir name.
            Some (path_join [ru_dir r, if ru_keep_leading r then dir else strip_first_segment dir, name])),
          tr_search_root := True, tr_test_dir := True, tr_name_marks_test := True\<rparr>
      | FlatRoot \<Rightarrow> no_traits\<lparr>tr_candidate := Some (\<lambda>r _ dir name.
            if dir_depth dir > ru_max_depth r then None else Some (path_join [ru_dir r, name])),
          tr_search_root := True, tr_test_dir := True, tr_name_marks_test := True\<rparr>
      | Recognize \<Rightarrow> no_traits\<lparr>tr_test_dir := True, tr_name_marks_test := True\<rparr>
      | Inline \<Rightarrow> no_traits\<lparr>tr_candidate := Some (\<lambda>_ src _ _. Some src), tr_content := True, tr_from_modules := inline_module,
          tr_module_depth := 0\<rparr>
      | Declared \<Rightarrow> no_traits\<lparr>tr_content := True, tr_from_modules := declared_module, tr_confined := True, tr_module_depth := 1\<rparr>
      | TestDir \<Rightarrow> no_traits\<lparr>tr_search_root := True, tr_test_dir := True, tr_dir_marks_test := True\<rparr>)"

subsection \<open>Candidates\<close>

record candidate =
  ca_path :: string
  ca_rank :: int
  ca_shape :: shape

record merge_state =
  \<comment> \<open>the variables of \<^verbatim>\<open>Dedupe\<close>; a path is in \<^verbatim>\<open>firstIdx\<close> when it has a shape\<close>
  dd_order :: "string list"
  dd_shape :: "string \<rightharpoonup> shape"
  dd_max :: "string \<Rightarrow> int"
  dd_sibling :: "string \<Rightarrow> bool"

definition merge_step :: "candidate \<Rightarrow> merge_state \<Rightarrow> merge_state" where
  "merge_step c s =
     (let p = ca_path c;
          s1 = (if tr_same_dir (traits_of (ca_shape c)) then s\<lparr>dd_sibling := (dd_sibling s)(p := True)\<rparr> else s) in
      if dd_shape s1 p = None
      then s1\<lparr>dd_order := dd_order s1 @ [p], dd_shape := (dd_shape s1)(p \<mapsto> ca_shape c), dd_max := (dd_max s1)(p := ca_rank c)\<rparr>
      else if ca_rank c > dd_max s1 p then s1\<lparr>dd_max := (dd_max s1)(p := ca_rank c)\<rparr> else s1)"

definition dedupe :: "candidate list \<Rightarrow> candidate list" where
  "dedupe cands =
     (let s = fold merge_step cands \<lparr>dd_order = [], dd_shape = Map.empty, dd_max = (\<lambda>_. 0), dd_sibling = (\<lambda>_. False)\<rparr> in
      map (\<lambda>p. \<lparr>ca_path = p, ca_rank = (if dd_sibling s p then 0 else dd_max s p), ca_shape = the (dd_shape s p)\<rparr>) (dd_order s))"

definition replace_once :: "string \<Rightarrow> string \<Rightarrow> string \<Rightarrow> string" where
  \<comment> \<open>\<^verbatim>\<open>strings.Replace(s, old, new, 1)\<close>\<close>
  "replace_once s old new =
     (case str_index s old of None \<Rightarrow> s | Some i \<Rightarrow> take i s @ new @ drop (i + length old) s)"

definition rule_candidate :: "string \<Rightarrow> pairing_rule \<Rightarrow> candidate option" where
  \<comment> \<open>the body of \<^verbatim>\<open>Candidates\<close>' loop; None is a \<^verbatim>\<open>continue\<close>\<close>
  "rule_candidate code_path r =
     (let (dir, base, ext) = split_path code_path in
      case tr_candidate (traits_of (ru_shape r)) of
        None \<Rightarrow> None
      | Some build \<Rightarrow> map_option (\<lambda>p. \<lparr>ca_path = p, ca_rank = ru_rank r, ca_shape = ru_shape r\<rparr>)
          (build r code_path dir (replace_once (ru_name r) ''{base}'' base)))"

definition pair_candidates :: "pairing_rule list \<Rightarrow> string \<Rightarrow> candidate list" where
  "pair_candidates rules code_path = dedupe (List.map_filter (rule_candidate code_path) rules)"

definition primary :: "pairing_rule list \<Rightarrow> string \<Rightarrow> candidate option" where
  "primary rules code_path = (case pair_candidates rules code_path of [] \<Rightarrow> None | c # cs \<Rightarrow> Some c)"

definition trim_slashes :: "string \<Rightarrow> string" where
  \<comment> \<open>\<^verbatim>\<open>strings.Trim(s, "/")\<close>\<close>
  "trim_slashes s = trim_right (\<lambda>c. c = CHR ''/'') (dropWhile (\<lambda>c. c = CHR ''/'') s)"

abbreviation default_root :: string where "default_root \<equiv> ''tests''"

definition add_root :: "pairing_rule \<Rightarrow> string list \<Rightarrow> string list" where
  \<comment> \<open>\<^verbatim>\<open>seen\<close> is what \<^verbatim>\<open>out\<close> holds\<close>
  "add_root r out =
     (let d = trim_slashes (ru_dir r) in
      if \<not> tr_search_root (traits_of (ru_shape r)) \<or> d = [] \<or> d \<in> set out then out else out @ [d])"

definition search_roots :: "pairing_rule list \<Rightarrow> string list" where
  "search_roots rules = fold add_root rules [default_root]"

subsection \<open>Is it a test?\<close>

abbreviation marker :: "string \<Rightarrow> pairing_rule" where
  "marker name \<equiv> \<lparr>ru_shape = Recognize, ru_name = name, ru_dir = [], ru_keep_leading = False, ru_max_depth = 0, ru_rank = 0\<rparr>"

abbreviation test_dir_named :: "string \<Rightarrow> pairing_rule" where
  "test_dir_named dir \<equiv> \<lparr>ru_shape = Recognize, ru_name = [], ru_dir = dir, ru_keep_leading = False, ru_max_depth = 0, ru_rank = 0\<rparr>"

definition generic_rules :: "pairing_rule list" where
  "generic_rules =
     [marker ''{base}_test{ext}'', marker ''test_{base}'', marker ''{base}_spec{ext}'', marker ''{base}.test{ext}'', marker ''{base}.spec{ext}'',
      test_dir_named ''test'', test_dir_named ''tests'', test_dir_named ''spec'', test_dir_named ''specs'', test_dir_named ''__tests__'',
      test_dir_named ''testing'']"

fun name_pattern :: "string \<Rightarrow> string" where
  "name_pattern [] = []"
| "name_pattern (c # s) =
     (if has_prefix (c # s) ''{base}'' then CHR ''*'' # name_pattern (drop 5 s)
      else if has_prefix (c # s) ''{ext}'' then ''.*'' @ name_pattern (drop 4 s)
      else (if c \<in> set [CHR ''*'', CHR ''?'', CHR ''['', CHR '']'', CHR 0x5C] then [CHR 0x5C, c] else [c]) @ name_pattern s)"

function (sequential) path_match :: "string \<Rightarrow> string \<Rightarrow> bool" where
  \<comment> \<open>\<^verbatim>\<open>path.Match\<close> on a pattern with no unescaped question mark or bracket (\<open>plain_pattern\<close>); a bad pattern matches nothing, as the
     caller reads it\<close>
  "path_match [] s = (s = [])"
| "path_match (p # ps) [] = (p = CHR ''*'' \<and> path_match ps [])"
| "path_match (p # ps) (c # cs) =
     (if p = CHR ''*'' then path_match ps (c # cs) \<or> (c \<noteq> CHR ''/'' \<and> path_match (p # ps) cs)
      else if p = CHR 0x5C then (case ps of [] \<Rightarrow> False | q # qs \<Rightarrow> q = c \<and> path_match qs cs)
      else p = c \<and> path_match ps cs)"
  by pat_completeness auto

termination
  by (relation "measure (\<lambda>(p, s). length p + length s)") auto

fun plain_pattern :: "string \<Rightarrow> bool" where
  "plain_pattern [] = True"
| "plain_pattern [c] = (c \<noteq> CHR ''?'' \<and> c \<noteq> CHR ''['' \<and> c \<noteq> CHR 0x5C)"
| "plain_pattern (c # d # s) =
     (if c = CHR 0x5C then plain_pattern s else c \<noteq> CHR ''?'' \<and> c \<noteq> CHR ''['' \<and> plain_pattern (d # s))"

definition to_lower :: "(string \<Rightarrow> string) \<Rightarrow> string \<Rightarrow> string" where
  \<comment> \<open>\<^verbatim>\<open>strings.ToLower\<close>\<close>
  "to_lower ul s = (if \<forall>c\<in>set s. of_char c < (128::nat) then map ascii_lower s else ul s)"

definition name_matches :: "(string \<Rightarrow> string) \<Rightarrow> pairing_rule list \<Rightarrow> string \<Rightarrow> bool \<Rightarrow> bool" where
  "name_matches ul rules base ignore_case \<longleftrightarrow>
     list_ex (\<lambda>r. tr_name_marks_test (traits_of (ru_shape r)) \<and> ru_name r \<noteq> [] \<and>
        path_match (name_pattern (if ignore_case then to_lower ul (ru_name r) else ru_name r)) base) rules"

definition dir_marks_test :: "pairing_rule list \<Rightarrow> string \<Rightarrow> bool" where
  "dir_marks_test rules rel \<longleftrightarrow>
     list_ex (\<lambda>r. tr_dir_marks_test (traits_of (ru_shape r)) \<and> trim_slashes (ru_dir r) \<noteq> [] \<and>
        trim_slashes (ru_dir r) \<in> set (slash_elements (path_dir rel))) rules"

definition is_test :: "(string \<Rightarrow> string) \<Rightarrow> pairing_rule list \<Rightarrow> string \<Rightarrow> bool" where
  "is_test ul rules rel \<longleftrightarrow>
     name_matches ul rules (path_base rel) False \<or> name_matches ul generic_rules (path_base rel) False \<or> dir_marks_test rules rel"

definition test_dirs :: "pairing_rule list \<Rightarrow> string list" where
  "test_dirs rules = filter (\<lambda>d. d \<noteq> []) (map (trim_slashes \<circ> ru_dir) (filter (\<lambda>r. tr_test_dir (traits_of (ru_shape r))) rules))"

definition in_test_tree :: "pairing_rule list list \<Rightarrow> string \<Rightarrow> bool" where
  "in_test_tree rulesets rel \<longleftrightarrow>
     list_ex (\<lambda>seg. seg \<in> set (concat (map test_dirs (generic_rules # rulesets)))) (slash_elements (path_dir rel))"

definition might_be_test :: "(string \<Rightarrow> string) \<Rightarrow> pairing_rule list list \<Rightarrow> string \<Rightarrow> bool" where
  "might_be_test ul rulesets rel \<longleftrightarrow>
     in_test_tree rulesets rel \<or>
     list_ex (\<lambda>rules. name_matches ul rules (to_lower ul (path_base rel)) True) (generic_rules # rulesets)"

subsection \<open>Confinement\<close>

record disk =
  dk_abs :: "string \<Rightarrow> string option"    \<comment> \<open>\<^verbatim>\<open>filepath.Abs\<close>\<close>
  dk_real :: "string \<Rightarrow> string option"   \<comment> \<open>\<^verbatim>\<open>filepath.EvalSymlinks\<close>\<close>

fun below :: "string list \<Rightarrow> string list \<Rightarrow> string list option" where
  \<comment> \<open>\<^verbatim>\<open>filepath.Rel\<close> on the elements of two clean paths: up and then down from where they part\<close>
  "below [] t = Some t"
| "below (b # bs) (e # es) = (if b = e then below bs es else if b = ''..'' then None else Some (map (\<lambda>_. ''..'') (b # bs) @ e # es))"
| "below (b # bs) [] = (if b = ''..'' then None else Some (map (\<lambda>_. ''..'') (b # bs)))"

definition path_rel :: "string \<Rightarrow> string \<Rightarrow> string option" where
  "path_rel base target =
     (if clean_path base = clean_path target then Some ''.''
      else if is_abs base \<noteq> is_abs target then None
      else map_option (join ''/'') (below (clean_parts base) (clean_parts target)))"

definition path_within :: "string \<Rightarrow> string \<Rightarrow> bool" where
  "path_within dir p =
     (case path_rel dir p of None \<Rightarrow> False | Some rel \<Rightarrow> rel \<noteq> ''..'' \<and> \<not> has_prefix rel ''../'' \<and> \<not> is_abs rel)"

definition under_root_on_disk :: "disk \<Rightarrow> string \<Rightarrow> string \<Rightarrow> bool" where
  "under_root_on_disk d dir p =
     (case dk_abs d dir of
        None \<Rightarrow> False
      | Some abs_root \<Rightarrow>
          (case dk_abs d p of
             None \<Rightarrow> False
           | Some abs_p \<Rightarrow>
               path_within abs_root abs_p \<and>
               (let real_root = (case dk_real d abs_root of None \<Rightarrow> abs_root | Some r \<Rightarrow> r) in
                case dk_real d abs_p of None \<Rightarrow> True | Some real_p \<Rightarrow> path_within real_root real_p)))"

definition inside_root :: "disk \<Rightarrow> string \<Rightarrow> string \<Rightarrow> bool" where
  "inside_root d dir p =
     (if \<not> is_abs p then
        (let c = clean_path p in
         if c = ''..'' \<or> has_prefix c ''../'' then False
         else if dir = [] then True
         else under_root_on_disk d dir (path_join [dir, c]))
      else if dir = [] then False
      else under_root_on_disk d dir p)"

subsection \<open>Resolution\<close>

datatype modules_error = DeclarationsUnreadable | ReadError string

record sources =
  sr_root :: string
  sr_exists :: "string \<Rightarrow> bool"
  sr_universe :: "string + string list"
  sr_test_modules :: "(string \<Rightarrow> modules_error + test_module list) option"

record resolution =
  rs_path :: string
  rs_rank :: int
  rs_shape :: "shape option"   \<comment> \<open>None is the empty Shape\<close>
  rs_label :: string
  rs_via_search :: bool
  rs_tried :: "string list"
  rs_refused :: "string list"
  rs_roots :: "string list"
  rs_unreadable :: bool
  rs_found :: bool

definition zero_resolution :: resolution where
  "zero_resolution = \<lparr>rs_path = [], rs_rank = 0, rs_shape = None, rs_label = [], rs_via_search = False, rs_tried = [], rs_refused = [],
     rs_roots = [], rs_unreadable = False, rs_found = False\<rparr>"

datatype resolve_error = NoModulesReader string shape | ModulesError string string | UniverseError string

definition search_rank :: int where "search_rank = 100"

definition content_rules :: "pairing_rule list \<Rightarrow> pairing_rule list" where
  "content_rules rules = filter (\<lambda>r. tr_content (traits_of (ru_shape r))) rules"

fun try_declared :: "disk \<Rightarrow> sources \<Rightarrow> pairing_rule \<Rightarrow> labelled list \<Rightarrow> resolution \<Rightarrow> resolution" where
  "try_declared d src r [] res = res"
| "try_declared d src r ((p, label) # ls) res =
     (if tr_confined (traits_of (ru_shape r)) \<and> \<not> inside_root d (sr_root src) p
      then try_declared d src r ls (res\<lparr>rs_refused := rs_refused res @ [p]\<rparr>)
      else
        (let res = res\<lparr>rs_tried := rs_tried res @ [p]\<rparr> in
         if sr_exists src p
         then res\<lparr>rs_path := p, rs_rank := ru_rank r, rs_shape := Some (ru_shape r), rs_label := label, rs_found := True\<rparr>
         else try_declared d src r ls res))"

fun try_content :: "disk \<Rightarrow> sources \<Rightarrow> string \<Rightarrow> test_module list \<Rightarrow> pairing_rule list \<Rightarrow> resolution \<Rightarrow> resolution" where
  "try_content d src code_path mods [] res = res"
| "try_content d src code_path mods (r # rs) res =
     (let res = try_declared d src r (tr_from_modules (traits_of (ru_shape r)) code_path mods) res in
      if rs_found res then res else try_content d src code_path mods rs res)"

definition resolve_declared :: "disk \<Rightarrow> pairing_rule list \<Rightarrow> string \<Rightarrow> sources \<Rightarrow> (string \<Rightarrow> modules_error + test_module list) \<Rightarrow>
    resolution \<times> resolve_error option" where
  "resolve_declared d content code_path src modules =
     (if content = [] then (zero_resolution, None)
      else (case modules code_path of
              Inl DeclarationsUnreadable \<Rightarrow> (zero_resolution\<lparr>rs_unreadable := True\<rparr>, None)
            | Inl (ReadError e) \<Rightarrow> (zero_resolution, Some (ModulesError code_path e))
            | Inr mods \<Rightarrow> (try_content d src code_path mods content zero_resolution, None)))"

fun try_candidates :: "sources \<Rightarrow> candidate list \<Rightarrow> resolution \<Rightarrow> resolution" where
  \<comment> \<open>stage 1b\<close>
  "try_candidates src [] res = res"
| "try_candidates src (c # cs) res =
     (if ca_path c = [] then try_candidates src cs res
      else
        (let res = res\<lparr>rs_tried := rs_tried res @ [ca_path c]\<rparr> in
         if sr_exists src (ca_path c)
         then res\<lparr>rs_path := ca_path c, rs_rank := ca_rank c, rs_shape := Some (ca_shape c), rs_label := shape_name (ca_shape c), rs_found := True\<rparr>
         else try_candidates src cs res))"

definition search_basenames :: "candidate list \<Rightarrow> string list" where
  "search_basenames cands = map (path_base \<circ> ca_path) (filter (\<lambda>c. ca_path c \<noteq> []) cands)"

definition under_roots :: "string \<Rightarrow> string list \<Rightarrow> bool" where
  "under_roots rel roots \<longleftrightarrow> CHR ''/'' \<in> set rel \<and> takeWhile (\<lambda>c. c \<noteq> CHR ''/'') rel \<in> set roots"

fun common_length :: "string list \<Rightarrow> string list \<Rightarrow> nat" where
  "common_length (a # as) (b # bs) = (if a = b then Suc (common_length as bs) else 0)"
| "common_length as bs = 0"

definition path_stem_score :: "string list \<Rightarrow> string list \<Rightarrow> nat" where
  "path_stem_score a b = common_length (rev a) (rev b)"

definition segments :: "string \<Rightarrow> string list" where
  "segments dir = (if dir = [] \<or> dir = ''.'' then [] else slash_elements dir)"

definition dir_prefixes :: "string list" where "dir_prefixes = [''test_'', ''spec_'']"
definition dir_suffixes :: "string list" where "dir_suffixes = [''_test'', ''_spec'']"

definition normalize_seg :: "string \<Rightarrow> string" where
  "normalize_seg s =
     (case find (\<lambda>p. has_prefix s p \<and> s \<noteq> p) dir_prefixes of
        Some p \<Rightarrow> drop (length p) s
      | None \<Rightarrow> (case find (\<lambda>q. has_suffix s q \<and> s \<noteq> q) dir_suffixes of
                  Some q \<Rightarrow> take (length s - length q) s
                | None \<Rightarrow> s))"

definition dir_segments :: "string \<Rightarrow> string list" where
  \<comment> \<open>\<^verbatim>\<open>normalizeSegs(segments(filepath.Dir(f)))\<close>\<close>
  "dir_segments f = map normalize_seg (segments (path_dir f))"

definition search_step :: "string list \<Rightarrow> string list \<Rightarrow> string list \<Rightarrow> string \<Rightarrow> string \<times> nat \<times> string list \<Rightarrow> string \<times> nat \<times> string list" where
  \<comment> \<open>\<^verbatim>\<open>best\<close>, \<^verbatim>\<open>bestScore\<close>, \<^verbatim>\<open>bestSegs\<close>\<close>
  "search_step src_segs roots basenames f st =
     (let (best, best_score, best_segs) = st; segs = dir_segments f; score = path_stem_score segs src_segs in
      if \<not> under_roots f roots \<or> path_base f \<notin> set basenames then st
      else if score = 0 then st
      else if best = [] \<or> score > best_score then (f, score, segs)
      else if score = best_score \<and> (length segs < length best_segs \<or> length segs = length best_segs \<and> f < best) then (f, best_score, segs)
      else st)"

definition best_search_match :: "string \<Rightarrow> string list \<Rightarrow> string list \<Rightarrow> string list \<Rightarrow> string option" where
  "best_search_match code_path roots basenames files =
     (let best = fst (fold (search_step (dir_segments code_path) roots basenames) files ([], 0, [])) in
      if best \<noteq> [] then Some best else None)"

definition pair_resolve :: "disk \<Rightarrow> pairing_rule list \<Rightarrow> string \<Rightarrow> sources \<Rightarrow> resolution \<times> resolve_error option" where
  "pair_resolve d rules code_path src =
     (let content = content_rules rules in
      if content \<noteq> [] \<and> sr_test_modules src = None then (zero_resolution, Some (NoModulesReader code_path (ru_shape (hd content))))
      else
        (let (res, err) = resolve_declared d content code_path src (case sr_test_modules src of Some f \<Rightarrow> f | None \<Rightarrow> (\<lambda>_. Inr [])) in
         if err \<noteq> None \<or> rs_found res then (res, err)
         else
           (let cands = filter (\<lambda>c. \<not> tr_content (traits_of (ca_shape c))) (pair_candidates rules code_path);
                res = try_candidates src cands res;
                basenames = search_basenames cands in
            if rs_found res \<or> basenames = [] then (res, None)
            else
              (let res = res\<lparr>rs_roots := search_roots rules\<rparr> in
               case sr_universe src of
                 Inl e \<Rightarrow> (res, Some (UniverseError e))
               | Inr files \<Rightarrow>
                   (case best_search_match code_path (rs_roots res) basenames files of
                      None \<Rightarrow> (res, None)
                    | Some f \<Rightarrow> (res\<lparr>rs_path := f, rs_rank := search_rank, rs_via_search := True, rs_found := True\<rparr>, None))))))"

subsection \<open>A contested test\<close>

fun settle_loop :: "nat \<Rightarrow> int list \<Rightarrow> (nat \<times> int) option \<times> bool \<Rightarrow> (nat \<times> int) option \<times> bool" where
  \<comment> \<open>the winner with its rank\<close>
  "settle_loop i [] st = st"
| "settle_loop i (r # rs) (winner, ok) =
     settle_loop (i + 1) rs
       (case winner of
          None \<Rightarrow> (Some (i, r), True)
        | Some (j, q) \<Rightarrow> if r < q then (Some (i, r), True) else if r = q then (winner, False) else (winner, ok))"

definition best_claim :: "int list \<Rightarrow> nat option" where
  \<comment> \<open>None for \<^verbatim>\<open>(-1, false)\<close>\<close>
  "best_claim ranks =
     (let (winner, ok) = settle_loop 0 ranks (None, False) in if ok then map_option fst winner else None)"

subsection \<open>Where an authored test lands\<close>

record landing =
  ld_path :: string
  ld_shape :: "shape option"
  ld_label :: string
  ld_into :: bool
  ld_depth :: int
  ld_declarations_read :: bool
  ld_unreadable :: bool
  ld_refused :: "string list"

definition zero_landing :: landing where
  "zero_landing = \<lparr>ld_path = [], ld_shape = None, ld_label = [], ld_into = False, ld_depth = 0, ld_declarations_read = False,
     ld_unreadable = False, ld_refused = []\<rparr>"

definition land_primary :: "landing \<Rightarrow> pairing_rule list \<Rightarrow> string \<Rightarrow> landing" where
  "land_primary l rules code_path =
     (case primary rules code_path of
        None \<Rightarrow> l
      | Some c \<Rightarrow> l\<lparr>ld_path := ca_path c, ld_shape := Some (ca_shape c), ld_label := shape_name (ca_shape c),
          ld_into := tr_content (traits_of (ca_shape c)), ld_depth := tr_module_depth (traits_of (ca_shape c))\<rparr>)"

definition land :: "disk \<Rightarrow> pairing_rule list \<Rightarrow> string \<Rightarrow> sources \<Rightarrow> landing \<times> resolve_error option" where
  "land d rules code_path src =
     (let content = content_rules rules in
      case (if content \<noteq> [] then sr_test_modules src else None) of
        None \<Rightarrow> (land_primary zero_landing rules code_path, None)
      | Some modules \<Rightarrow>
          (let (res, err) = resolve_declared d content code_path src modules in
           if err \<noteq> None then (zero_landing, err)
           else if rs_unreadable res then (land_primary (zero_landing\<lparr>ld_unreadable := True\<rparr>) rules code_path, None)
           else
             (let l = zero_landing\<lparr>ld_declarations_read := True, ld_refused := rs_refused res\<rparr> in
              case rs_shape res of
                Some s \<Rightarrow> if rs_found res
                  then (l\<lparr>ld_path := rs_path res, ld_shape := Some s, ld_label := rs_label res, ld_into := True,
                          ld_depth := tr_module_depth (traits_of s)\<rparr>, None)
                  else (land_primary l rules code_path, None)
              | None \<Rightarrow> (land_primary l rules code_path, None))))"

subsection \<open>The languages the program ships\<close>

abbreviation conv :: "shape \<Rightarrow> string \<Rightarrow> string \<Rightarrow> int \<Rightarrow> pairing_rule" where
  "conv s name dir rank \<equiv> \<lparr>ru_shape = s, ru_name = name, ru_dir = dir, ru_keep_leading = False, ru_max_depth = 0, ru_rank = rank\<rparr>"

definition go_rules :: "pairing_rule list" where
  "go_rules = [conv Sibling ''{base}_test.go'' [] 0]"

definition python_rules :: "pairing_rule list" where
  "python_rules =
     [conv Sibling ''test_{base}.py'' [] 0, conv Sibling ''{base}_test.py'' [] 0,
      (conv ParallelTree ''test_{base}.py'' ''tests'' 1)\<lparr>ru_keep_leading := True\<rparr>, conv ParallelTree ''test_{base}.py'' ''tests'' 2,
      (conv FlatRoot ''test_{base}.py'' ''tests'' 3)\<lparr>ru_max_depth := 2\<rparr>]"

definition js_family_rules :: "string \<Rightarrow> pairing_rule list" where
  "js_family_rules ext =
     [conv Sibling (''{base}.test'' @ ext) [] 0, conv Sibling (''{base}.spec'' @ ext) [] 0, conv BesideDir (''{base}.test'' @ ext) ''__tests__'' 1,
      conv ParallelTree (''{base}.test'' @ ext) ''test'' 2, conv ParallelTree (''{base}.test'' @ ext) ''tests'' 2]"

definition php_rules :: "pairing_rule list" where
  "php_rules = [conv Sibling ''{base}Test.php'' [] 0, conv ParallelTree ''{base}Test.php'' ''tests'' 1, conv ParallelTree ''{base}Test.php'' ''test'' 1]"

definition ruby_rules :: "pairing_rule list" where
  "ruby_rules =
     [conv Sibling ''{base}_test.rb'' [] 0, conv ParallelTree ''{base}_test.rb'' ''test'' 1, conv ParallelTree ''{base}_spec.rb'' ''spec'' 1,
      conv ParallelTree ''test_{base}.rb'' ''test'' 2, conv Recognize ''spec_{base}.rb'' [] 0]"

definition rust_rules :: "pairing_rule list" where
  "rust_rules =
     [conv Declared [] [] 0, conv Inline [] [] 0, conv Recognize ''{base}_tests.rs'' [] 0, conv Recognize ''tests.rs'' [] 0,
      conv TestDir [] ''tests'' 0]"

definition all_test_rules :: "pairing_rule list list" where
  "all_test_rules = [go_rules, js_family_rules ''.js'', php_rules, python_rules, ruby_rules, rust_rules, js_family_rules ''.ts'']"

end
