(* ===== verification/Pairing_Properties.thy ===== *)
theory Pairing_Properties
  imports Pairing Mutant_Properties
begin

section \<open>What the pairing promises\<close>

text \<open>
  The merge of the candidates, exactly; every candidate of a shipped language is a test under the language's own strict question, and what is
  a test might be one; the search picks the one best match, whatever the order of the listing; what a resolution returns and in which order
  it looks; an authored test lands in the file its source is paired to; a contested test goes to the one strictly better claim.
\<close>

subsection \<open>Name patterns\<close>

lemma path_match_star: "CHR ''/'' \<notin> set w \<Longrightarrow> path_match ps s \<Longrightarrow> path_match (CHR ''*'' # ps) (w @ s)"
  by (induction w) (auto, cases s, auto)

lemma name_pattern_plain: "plain_pattern (name_pattern n)"
proof -
  have lit: "plain_pattern (c # p)" if "plain_pattern p" "c \<noteq> CHR ''?''" "c \<noteq> CHR ''[''" "c \<noteq> CHR 0x5C" for c p
    using that by (cases p) auto
  have esc: "plain_pattern (CHR 0x5C # c # p)" if "plain_pattern p" for c p using that by simp
  show ?thesis by (induction n rule: name_pattern.induct) (auto intro!: lit esc)
qed

lemma str_contains_drop: "\<not> str_contains s p \<Longrightarrow> \<not> str_contains (drop k s) p"
  by (metis append.assoc append_take_drop_id str_contains_iff)

lemma str_contains_Cons: "\<not> str_contains (c # s) p \<Longrightarrow> \<not> str_contains s p"
  using str_contains_drop [of "c # s" p 1] by simp

lemma str_contains_prefix: "\<not> str_contains s p \<Longrightarrow> \<not> has_prefix s p"
  by (auto simp: str_contains_iff has_prefix_iff)

lemma path_match_literal: "path_match (name_pattern s) t \<Longrightarrow> \<not> has_prefix (c # s) ''{base}'' \<Longrightarrow> \<not> has_prefix (c # s) ''{ext}'' \<Longrightarrow>
    path_match (name_pattern (c # s)) (c # t)"
  by auto

lemma name_matches_itself:
  "\<not> str_contains n ''{ext}'' \<Longrightarrow> path_match (name_pattern n) n"
proof (induction n rule: name_pattern.induct)
  case (2 c s)
  have ext: "\<not> has_prefix (c # s) ''{ext}''" by (rule str_contains_prefix [OF 2(4)])
  show ?case
  proof (cases "has_prefix (c # s) ''{base}''")
    case True
    then have cs: "c # s = ''{base}'' @ drop 5 s" by (auto simp: has_prefix_iff)
    have "path_match (name_pattern (drop 5 s)) (drop 5 s)"
      using 2(1) [OF True] str_contains_drop [OF 2(4), of 6] by simp
    from path_match_star [OF _ this, of "''{base}''"] True show ?thesis by (simp add: cs [symmetric] del: append.simps)
  next
    case False
    show ?thesis by (rule path_match_literal [OF 2(3) [OF False ext str_contains_Cons [OF 2(4)]] False ext])
  qed
qed simp

lemma replace_once_Cons: "\<not> has_prefix (c # s) old \<Longrightarrow> replace_once (c # s) old new = c # replace_once s old new"
  by (auto simp: replace_once_def split: option.splits)

lemma replace_once_here: "replace_once (old @ s) old new = new @ s"
proof -
  have "str_index (old @ s) old = Some 0" using has_prefix_append [of old s] by (cases "old @ s") auto
  then show ?thesis by (simp add: replace_once_def)
qed

lemma instance_matches:
  "CHR ''/'' \<notin> set base \<Longrightarrow> \<not> str_contains n ''{ext}'' \<Longrightarrow> path_match (name_pattern n) (replace_once n ''{base}'' base)"
proof (induction n rule: name_pattern.induct)
  case (2 c s)
  have ext: "\<not> has_prefix (c # s) ''{ext}''" by (rule str_contains_prefix [OF 2(5)])
  show ?case
  proof (cases "has_prefix (c # s) ''{base}''")
    case True
    then have cs: "c # s = ''{base}'' @ drop 5 s" by (auto simp: has_prefix_iff)
    have "path_match (name_pattern (drop 5 s)) (drop 5 s)"
      using name_matches_itself str_contains_drop [OF 2(5), of 6] by simp
    then have "path_match (CHR ''*'' # name_pattern (drop 5 s)) (base @ drop 5 s)" by (rule path_match_star [OF 2(4)])
    then show ?thesis using True by (subst cs, subst replace_once_here) simp
  next
    case False
    show ?thesis
      unfolding replace_once_Cons [OF False] by (rule path_match_literal [OF 2(3) [OF False ext 2(4) str_contains_Cons [OF 2(5)]] False ext])
  qed
qed (simp add: replace_once_def has_prefix_def)

subsection \<open>The merge\<close>

definition firsts :: "string list \<Rightarrow> string list" where
  \<comment> \<open>each element once, where it occurs first\<close>
  "firsts xs = rev (remdups (rev xs))"

lemma firsts_simps [simp]: "firsts [] = []" "firsts (xs @ [x]) = (if x \<in> set xs then firsts xs else firsts xs @ [x])"
  "set (firsts xs) = set xs" "distinct (firsts xs)"
  by (auto simp: firsts_def)

definition merged :: "candidate list \<Rightarrow> merge_state" where
  "merged cs = fold merge_step cs \<lparr>dd_order = [], dd_shape = Map.empty, dd_max = (\<lambda>_. 0), dd_sibling = (\<lambda>_. False)\<rparr>"

abbreviation at_path :: "string \<Rightarrow> candidate list \<Rightarrow> candidate list" where
  "at_path p cs \<equiv> filter (\<lambda>c. ca_path c = p) cs"

lemma merged_snoc [simp]: "merged (cs @ [c]) = merge_step c (merged cs)"
  by (simp add: merged_def)

lemma at_path_empty: "at_path p cs = [] \<longleftrightarrow> p \<notin> ca_path ` set cs"
  by (auto simp: filter_empty_conv)

lemma merged_order: "dd_order (merged cs) = firsts (map ca_path cs) \<and>
    dd_shape (merged cs) p = (case at_path p cs of [] \<Rightarrow> None | c # _ \<Rightarrow> Some (ca_shape c))"
proof (induction cs arbitrary: p rule: rev_induct)
  case (snoc c cs)
  have "dd_shape (merged cs) (ca_path c) = None \<longleftrightarrow> ca_path c \<notin> ca_path ` set cs"
    using snoc.IH [of "ca_path c"] by (auto simp: at_path_empty [symmetric] split: list.splits)
  with snoc.IH show ?case by (auto simp: merge_step_def Let_def split: list.splits)
qed (simp add: merged_def)

lemma merged_rank:
  "dd_sibling (merged cs) p = (\<exists>c\<in>set cs. ca_path c = p \<and> tr_same_dir (traits_of (ca_shape c)))"
  "p \<in> ca_path ` set cs \<Longrightarrow> dd_max (merged cs) p = Max (ca_rank ` set (at_path p cs))"
proof (induction cs rule: rev_induct)
  case (snoc c cs)
  have new: "dd_shape (merged cs) (ca_path c) = None \<longleftrightarrow> ca_path c \<notin> ca_path ` set cs"
    using merged_order [of cs "ca_path c"] by (auto simp: at_path_empty [symmetric] split: list.splits)
  {
    case 1 show ?case using snoc.IH(1) by (auto simp: merge_step_def Let_def)
  next
    case 2
    show ?case
    proof (cases "p = ca_path c")
      case False then show ?thesis using 2 snoc.IH(2) by (auto simp: merge_step_def Let_def)
    next
      case here: True
      show ?thesis
      proof (cases "p \<in> ca_path ` set cs")
        case False
        then have "at_path p cs = []" by (simp add: at_path_empty)
        with False here new show ?thesis by (simp add: merge_step_def Let_def)
      next
        case True
        then have "set (at_path p cs) \<noteq> {}" by auto
        then have m: "Max (ca_rank ` set (at_path p (cs @ [c]))) = max (ca_rank c) (Max (ca_rank ` set (at_path p cs)))"
          using here by (simp add: Max_insert)
        show ?thesis unfolding m snoc.IH(2) [OF True, symmetric] using here new True by (auto simp: merge_step_def Let_def)
      qed
    qed
  }
qed (auto simp: merged_def)

theorem merge_exact:
  shows "map ca_path (dedupe cs) = firsts (map ca_path cs)"
    and "c \<in> set (dedupe cs) \<Longrightarrow> ca_shape c = ca_shape (hd (at_path (ca_path c) cs)) \<and>
      ca_rank c = (if \<exists>b\<in>set cs. ca_path b = ca_path c \<and> tr_same_dir (traits_of (ca_shape b)) then 0
                   else Max (ca_rank ` set (at_path (ca_path c) cs)))"
proof -
  have d: "dedupe cs = map (\<lambda>p. \<lparr>ca_path = p, ca_rank = (if dd_sibling (merged cs) p then 0 else dd_max (merged cs) p),
      ca_shape = the (dd_shape (merged cs) p)\<rparr>) (firsts (map ca_path cs))"
    using merged_order [of cs] by (simp add: dedupe_def merged_def [symmetric] Let_def)
  show "map ca_path (dedupe cs) = firsts (map ca_path cs)" by (simp add: d comp_def)
  assume "c \<in> set (dedupe cs)"
  then obtain p where p: "p \<in> ca_path ` set cs" and c0: "c = \<lparr>ca_path = p,
      ca_rank = (if dd_sibling (merged cs) p then 0 else dd_max (merged cs) p), ca_shape = the (dd_shape (merged cs) p)\<rparr>"
    unfolding d by auto
  have c: "ca_path c = p" "ca_shape c = the (dd_shape (merged cs) p)"
      "ca_rank c = (if dd_sibling (merged cs) p then 0 else dd_max (merged cs) p)" by (simp_all add: c0)
  have "at_path p cs \<noteq> []" using p by (simp add: at_path_empty)
  then have "the (dd_shape (merged cs) p) = ca_shape (hd (at_path p cs))" using merged_order [of cs p] by (auto split: list.splits)
  then show "ca_shape c = ca_shape (hd (at_path (ca_path c) cs)) \<and>
      ca_rank c = (if \<exists>b\<in>set cs. ca_path b = ca_path c \<and> tr_same_dir (traits_of (ca_shape b)) then 0
                   else Max (ca_rank ` set (at_path (ca_path c) cs)))"
    using c merged_rank(1) [of cs p] merged_rank(2) [OF p] by auto
qed

lemma dedupe_from:
  assumes "c \<in> set (dedupe cs)"
  shows "\<exists>b\<in>set cs. ca_path b = ca_path c \<and> ca_shape b = ca_shape c"
proof -
  have "ca_path c \<in> ca_path ` set cs" using merge_exact(1) [of cs] assms by (metis firsts_simps(3) image_eqI list.set_map)
  then have "at_path (ca_path c) cs \<noteq> []" by (simp add: at_path_empty)
  then have "hd (at_path (ca_path c) cs) \<in> set (at_path (ca_path c) cs)" by (rule hd_in_set)
  then show ?thesis using merge_exact(2) [OF assms] by auto
qed

subsection \<open>Candidates are tests\<close>

definition names_a_test :: "shape \<Rightarrow> bool" where
  \<comment> \<open>the shapes whose candidate carries the rule's name\<close>
  "names_a_test s \<longleftrightarrow> s = Sibling \<or> s = BesideDir \<or> s = ParallelTree \<or> s = FlatRoot"

definition sound_name :: "string \<Rightarrow> bool" where
  \<comment> \<open>a file name that says more than the source's own name, without a wildcard no candidate fills in\<close>
  "sound_name n \<longleftrightarrow> CHR ''/'' \<notin> set n \<and> \<not> str_contains n ''{ext}'' \<and> 8 < length n"

definition sound_rules :: "pairing_rule list \<Rightarrow> bool" where
  "sound_rules rules \<longleftrightarrow> (\<forall>r\<in>set rules. names_a_test (ru_shape r) \<longrightarrow> sound_name (ru_name r))"

lemma traits_simps [simp]:
  "tr_content (traits_of s) \<longleftrightarrow> s = Inline \<or> s = Declared"
  "tr_confined (traits_of s) \<longleftrightarrow> s = Declared"
  "tr_name_marks_test (traits_of s) \<longleftrightarrow> names_a_test s \<or> s = Recognize"
  "tr_same_dir (traits_of s) \<longleftrightarrow> s = Sibling"
  "tr_dir_marks_test (traits_of s) \<longleftrightarrow> s = TestDir"
  "tr_test_dir (traits_of s) \<longleftrightarrow> s \<noteq> Sibling \<and> s \<noteq> Inline \<and> s \<noteq> Declared"
  by (cases s; simp add: traits_of_def no_traits_def names_a_test_def)+

lemma sound_instance:
  assumes "sound_name n" and "CHR ''/'' \<notin> set base"
  shows "element (replace_once n ''{base}'' base)" and "path_match (name_pattern n) (replace_once n ''{base}'' base)"
proof -
  let ?m = "replace_once n ''{base}'' base"
  have "set ?m \<subseteq> set n \<union> set base"
    by (auto simp: replace_once_def split: option.splits dest: in_set_takeD in_set_dropD)
  moreover have "length n \<le> length ?m + 6"
  proof (cases "str_index n ''{base}''")
    case (Some i)
    then obtain t where t: "drop i n = ''{base}'' @ t" "i \<le> length n" by (auto simp: str_index_Some occurs_at_def has_prefix_iff)
    have "length (drop i n) = 6 + length t" unfolding t(1) by simp
    then show ?thesis using Some t(2) by (simp add: replace_once_def)
  qed (simp add: replace_once_def)
  ultimately have "CHR ''/'' \<notin> set ?m" "2 < length ?m" using assms by (auto simp: sound_name_def)
  then show "element ?m" by (auto simp: element_def)
  show "path_match (name_pattern n) ?m" by (rule instance_matches) (use assms in \<open>auto simp: sound_name_def\<close>)
qed

lemma cut_suffix_subset: "set (cut_suffix s suf) \<subseteq> set s"
  by (auto simp: cut_suffix_def dest: in_set_takeD)

lemma rule_candidate_test:
  assumes "sound_rules rules" "r \<in> set rules" "path_base p \<noteq> ''/''" and c: "rule_candidate p r = Some c"
  shows "ca_shape c = ru_shape r \<and> ca_rank c = ru_rank r \<and>
    (if ca_shape c = Inline then ca_path c = p
     else names_a_test (ca_shape c) \<and> path_base (ca_path c) = replace_once (ru_name r) ''{base}'' (cut_suffix (path_base p) (path_ext p)) \<and>
       path_match (name_pattern (ru_name r)) (path_base (ca_path c)))"
proof -
  obtain dir base ext where s: "split_path p = (dir, base, ext)" by (cases "split_path p") auto
  then have b: "base = cut_suffix (path_base p) (path_ext p)" by (auto simp: split_path_def Let_def)
  have nb: "CHR ''/'' \<notin> set base" using cut_suffix_subset path_base_no_slash [OF assms(3)] b by blast
  let ?m = "replace_once (ru_name r) ''{base}'' base"
  show ?thesis
  proof (cases "names_a_test (ru_shape r)")
    case True
    then have "sound_name (ru_name r)" using assms(1,2) by (simp add: sound_rules_def)
    note m = sound_instance [OF this nb]
    have e: "?m \<noteq> []" "CHR ''/'' \<notin> set ?m" using m(1) by (auto simp: element_def)
    have "path_base (join_dir dir ?m) = ?m"
      using path_base_join [OF m(1), of "[dir]"] path_base_snoc(1) [OF e] by (simp add: join_dir_def)
    moreover have "path_base (path_join [x, y, ?m]) = ?m" "path_base (path_join [x, ?m]) = ?m" for x y
      using path_base_join [OF m(1), of "[x, y]"] path_base_join [OF m(1), of "[x]"] by simp_all
    ultimately have "path_base (ca_path c) = ?m" "ca_shape c = ru_shape r" "ca_rank c = ru_rank r"
      using c True by (auto simp: rule_candidate_def s names_a_test_def traits_of_def split: if_splits)
    then show ?thesis using m(2) True b by (auto simp: names_a_test_def)
  next
    case False
    then show ?thesis using c s by (cases "ru_shape r") (auto simp: rule_candidate_def names_a_test_def traits_of_def no_traits_def)
  qed
qed

lemma in_candidatesD:
  assumes "c \<in> set (pair_candidates rules p)"
  shows "\<exists>r\<in>set rules. \<exists>b. rule_candidate p r = Some b \<and> ca_path b = ca_path c \<and> ca_shape b = ca_shape c"
  using dedupe_from [OF assms [unfolded pair_candidates_def]] unfolding map_filter_def by (auto simp: image_iff) blast

lemma candidate_is_test:
  assumes "sound_rules rules" "path_base p \<noteq> ''/''" "c \<in> set (pair_candidates rules p)"
  shows "if ca_shape c = Inline then ca_path c = p else is_test ul rules (ca_path c)"
proof -
  obtain r b where r: "r \<in> set rules" "rule_candidate p r = Some b" and b: "ca_path b = ca_path c" "ca_shape b = ca_shape c"
    using in_candidatesD [OF assms(3)] by blast
  note t = rule_candidate_test [OF assms(1) r(1) assms(2) r(2)]
  show ?thesis
  proof (cases "ca_shape c = Inline")
    case True then show ?thesis using t b by simp
  next
    case False
    then have n: "names_a_test (ru_shape r)" and pm: "path_match (name_pattern (ru_name r)) (path_base (ca_path c))" using t b by auto
    moreover from n have "ru_name r \<noteq> []" using assms(1) r(1) by (auto simp: sound_rules_def sound_name_def)
    ultimately have "name_matches ul rules (path_base (ca_path c)) False" using r(1) by (auto simp: name_matches_def list_ex_iff)
    with False show ?thesis by (simp add: is_test_def)
  qed
qed

lemmas shipped_rules_defs = go_rules_def python_rules_def js_family_rules_def php_rules_def ruby_rules_def rust_rules_def

lemma shipped_rules_sound: "rules \<in> set all_test_rules \<Longrightarrow> sound_rules rules"
  by (auto simp: all_test_rules_def shipped_rules_defs sound_rules_def names_a_test_def sound_name_def str_contains_def has_prefix_def)

subsection \<open>The generous question\<close>

lemma ascii_lower_other:
  assumes "d \<notin> set ''ABCDEFGHIJKLMNOPQRSTUVWXYZ''" "d \<notin> set ''abcdefghijklmnopqrstuvwxyz''"
  shows "ascii_lower c = d \<longleftrightarrow> c = d"
proof (cases "map_of (zip ''ABCDEFGHIJKLMNOPQRSTUVWXYZ'' ''abcdefghijklmnopqrstuvwxyz'') c")
  case None then show ?thesis by (simp add: ascii_lower_def)
next
  case (Some e)
  then have "(c, e) \<in> set (zip ''ABCDEFGHIJKLMNOPQRSTUVWXYZ'' ''abcdefghijklmnopqrstuvwxyz'')" by (rule map_of_SomeD)
  then have "c \<in> set ''ABCDEFGHIJKLMNOPQRSTUVWXYZ''" "e \<in> set ''abcdefghijklmnopqrstuvwxyz''" by (rule set_zip_leftD, rule set_zip_rightD)
  moreover have "ascii_lower c = e" using Some by (simp add: ascii_lower_def)
  ultimately show ?thesis using assms by metis
qed

lemma ascii_lower_special [simp]:
  "ascii_lower c = CHR ''*'' \<longleftrightarrow> c = CHR ''*''" "ascii_lower c = CHR ''/'' \<longleftrightarrow> c = CHR ''/''" "ascii_lower c = CHR 0x5C \<longleftrightarrow> c = CHR 0x5C"
  "ascii_lower c = CHR ''?'' \<longleftrightarrow> c = CHR ''?''" "ascii_lower c = CHR ''{'' \<longleftrightarrow> c = CHR ''{''" "ascii_lower c = CHR ''['' \<longleftrightarrow> c = CHR ''[''" "ascii_lower c = CHR '']'' \<longleftrightarrow> c = CHR '']''"
  by (rule ascii_lower_other; simp)+

lemma ascii_lower_fixed [simp]: "ascii_lower (CHR ''*'') = CHR ''*''" "ascii_lower (CHR 0x5C) = CHR 0x5C" "ascii_lower (CHR ''.'') = CHR ''.''"
  by simp_all (simp add: ascii_lower_def)

lemma path_match_lower: "path_match p s \<Longrightarrow> path_match (map ascii_lower p) (map ascii_lower s)"
proof (induction p s rule: path_match.induct)
  case (3 p ps c cs)
  then show ?case by (cases ps) (auto split: if_splits)
qed auto

fun caseless_name :: "string \<Rightarrow> bool" where
  \<comment> \<open>an ASCII name in which lowercasing makes no new wildcard\<close>
  "caseless_name [] = True"
| "caseless_name (c # s) =
     (of_char c < (128::nat) \<and> has_prefix (map ascii_lower (c # s)) ''{base}'' = has_prefix (c # s) ''{base}'' \<and>
      has_prefix (map ascii_lower (c # s)) ''{ext}'' = has_prefix (c # s) ''{ext}'' \<and> caseless_name s)"

lemma caseless_drop: "caseless_name n \<Longrightarrow> caseless_name (drop k n)"
  by (induction n arbitrary: k) (auto simp: drop_Cons split: nat.splits)

lemma caseless_ascii: "caseless_name n \<Longrightarrow> \<forall>c\<in>set n. of_char c < (128::nat)"
  by (induction n) auto

lemma caseless_literal: "c \<noteq> CHR ''{'' \<Longrightarrow> of_char c < (128::nat) \<Longrightarrow> caseless_name s \<Longrightarrow> caseless_name (c # s)"
  by (auto simp: has_prefix_def)

lemma caseless_wildcard: "caseless_name s \<Longrightarrow> caseless_name (CHR ''{'' # CHR ''b'' # CHR ''a'' # CHR ''s'' # CHR ''e'' # CHR ''}'' # s)"
  "caseless_name s \<Longrightarrow> caseless_name (CHR ''{'' # CHR ''e'' # CHR ''x'' # CHR ''t'' # CHR ''}'' # s)"
  by (simp_all add: has_prefix_def ascii_lower_def)

lemma name_pattern_lower: "caseless_name n \<Longrightarrow> name_pattern (map ascii_lower n) = map ascii_lower (name_pattern n)"
proof (induction n rule: name_pattern.induct)
  case (2 c s)
  have same: "has_prefix (map ascii_lower (c # s)) w = has_prefix (c # s) w" if "w \<in> {''{base}'', ''{ext}''}" for w
    using 2(4) that by auto
  have d: "caseless_name s" "caseless_name (drop 5 s)" "caseless_name (drop 4 s)"
    using caseless_drop [OF 2(4), of 1] caseless_drop [OF 2(4), of 6] caseless_drop [OF 2(4), of 5] by simp_all
  consider "has_prefix (c # s) ''{base}''" | "\<not> has_prefix (c # s) ''{base}''" "has_prefix (c # s) ''{ext}''"
    | "\<not> has_prefix (c # s) ''{base}''" "\<not> has_prefix (c # s) ''{ext}''" by blast
  then show ?case
  proof cases
    case 1 then show ?thesis using 2(1) d same by (simp add: drop_map [symmetric])
  next
    case 2 then show ?thesis using "2.IH"(2) d same by (simp add: drop_map [symmetric])
  next
    case 3 then show ?thesis using "2.IH"(3) d same by simp
  qed
qed simp

lemma name_matches_lower:
  assumes "\<forall>r\<in>set rules. caseless_name (ru_name r)" and "\<forall>c\<in>set base. of_char c < (128::nat)" and "name_matches ul rules base False"
  shows "name_matches ul rules (to_lower ul base) True"
proof -
  obtain r where r: "r \<in> set rules" "tr_name_marks_test (traits_of (ru_shape r))" "ru_name r \<noteq> []" "path_match (name_pattern (ru_name r)) base"
    using assms(3) by (auto simp: name_matches_def list_ex_iff)
  have c: "caseless_name (ru_name r)" using assms(1) r(1) by blast
  then have "to_lower ul (ru_name r) = map ascii_lower (ru_name r)" by (simp add: to_lower_def caseless_ascii)
  moreover have "path_match (name_pattern (map ascii_lower (ru_name r))) (map ascii_lower base)"
    using path_match_lower [OF r(4)] name_pattern_lower [OF c] by simp
  moreover have "to_lower ul base = map ascii_lower base" using assms(2) by (simp add: to_lower_def)
  ultimately show ?thesis using r(1-3) unfolding name_matches_def list_ex_iff by (intro bexI [of _ r]) auto
qed

lemma shipped_names_caseless: "rules \<in> set (generic_rules # all_test_rules) \<Longrightarrow> \<forall>r\<in>set rules. caseless_name (ru_name r)"
  by (auto simp: all_test_rules_def generic_rules_def shipped_rules_defs caseless_literal caseless_wildcard simp del: caseless_name.simps(2))

lemma test_might_be_test:
  assumes "rules \<in> set all_test_rules" and "\<forall>x\<in>set rel. of_char x < (128::nat)" and "is_test ul rules rel"
  shows "might_be_test ul all_test_rules rel"
proof -
  have "set (path_base rel) \<subseteq> insert (CHR ''.'') (insert (CHR ''/'') (set rel))"
    by (auto simp: path_base_def trim_right_def Let_def split: if_splits dest!: set_takeWhileD set_dropWhileD)
  then have base: "\<forall>c\<in>set (path_base rel). of_char c < (128::nat)" using assms(2) by fastforce
  consider (name) R where "R \<in> set (generic_rules # all_test_rules)" "name_matches ul R (path_base rel) False" | (dir) "dir_marks_test rules rel"
    using assms(1,3) by (auto simp: is_test_def)
  then show ?thesis
  proof cases
    case name
    from name_matches_lower [OF shipped_names_caseless [OF name(1)] base name(2)] show ?thesis
      using name(1) by (auto simp: might_be_test_def list_ex_iff)
  next
    case dir
    then obtain r where r: "r \<in> set rules" "ru_shape r = TestDir" "trim_slashes (ru_dir r) \<noteq> []"
        "trim_slashes (ru_dir r) \<in> set (slash_elements (path_dir rel))"
      by (auto simp: dir_marks_test_def list_ex_iff)
    then have "trim_slashes (ru_dir r) \<in> set (test_dirs rules)" by (auto simp: test_dirs_def)
    then have "in_test_tree all_test_rules rel" using r(4) assms(1) unfolding in_test_tree_def list_ex_iff by fastforce
    then show ?thesis by (simp add: might_be_test_def)
  qed
qed

text \<open>
  C19. A test the program proposes is a test the program recognizes, in every language it ships: the candidates of a source are named by one
  of the language's conventions, and the strict question says yes to each of them, so that a test written where a candidate says is never
  audited as code. The one exception is a source that holds its own tests, whose candidate is itself. What the strict question calls a test
  the generous question, which folds case, calls a possible test; this half is for ASCII paths, on which the folding is Go's.
\<close>

theorem candidates_are_tests:
  assumes "rules \<in> set all_test_rules" and "path_base p \<noteq> ''/''" and "c \<in> set (pair_candidates rules p)"
  shows "(if ca_shape c = Inline then ca_path c = p else is_test ul rules (ca_path c)) \<and>
    ((\<forall>x\<in>set rel. of_char x < (128::nat)) \<and> is_test ul rules rel \<longrightarrow> might_be_test ul all_test_rules rel)"
  using candidate_is_test [OF shipped_rules_sound [OF assms(1)] assms(2,3)] test_might_be_test [OF assms(1)] by blast

subsection \<open>The search\<close>

definition search_hit :: "string \<Rightarrow> string list \<Rightarrow> string list \<Rightarrow> string \<Rightarrow> bool" where
  \<comment> \<open>the file may be the test at all: right place, right name, and some trailing directory shared with the source\<close>
  "search_hit p roots names f \<longleftrightarrow>
     under_roots f roots \<and> path_base f \<in> set names \<and> 0 < path_stem_score (dir_segments f) (dir_segments p)"

definition search_key :: "string \<Rightarrow> string \<Rightarrow> int \<times> nat \<times> string" where
  \<comment> \<open>most directories shared, then the shallower, then the first in the order of strings\<close>
  "search_key p f = (- int (path_stem_score (dir_segments f) (dir_segments p)), length (dir_segments f), f)"

definition search_state :: "string \<Rightarrow> string list \<Rightarrow> string list \<Rightarrow> string list \<Rightarrow> string \<times> nat \<times> string list" where
  "search_state p roots names files = fold (search_step (dir_segments p) roots names) files ([], 0, [])"

lemma search_hit_ne: "search_hit p roots names f \<Longrightarrow> f \<noteq> []"
  by (auto simp: search_hit_def under_roots_def)

lemma search_state_inv:
  "case search_state p roots names files of (best, score, segs) \<Rightarrow>
     if \<exists>g\<in>set files. search_hit p roots names g
     then best \<in> set files \<and> search_hit p roots names best \<and> score = path_stem_score (dir_segments best) (dir_segments p) \<and>
       segs = dir_segments best \<and> (\<forall>g\<in>set files. search_hit p roots names g \<longrightarrow> search_key p best \<le> search_key p g)
     else best = []"
proof (induction files rule: rev_induct)
  case (snoc f files)
  obtain best score segs where s: "search_state p roots names files = (best, score, segs)" by (cases "search_state p roots names files") auto
  have st: "search_state p roots names (files @ [f]) = search_step (dir_segments p) roots names f (best, score, segs)"
    using s by (simp add: search_state_def)
  show ?case
  proof (cases "search_hit p roots names f")
    case False
    then have "search_step (dir_segments p) roots names f (best, score, segs) = (best, score, segs)"
      by (auto simp: search_step_def search_hit_def Let_def)
    with st snoc s False show ?thesis by auto
  next
    case hit: True
    show ?thesis
    proof (cases "\<exists>g\<in>set files. search_hit p roots names g")
      case False
      then have "best = []" using snoc s by auto
      then have "search_step (dir_segments p) roots names f (best, score, segs) = (f, path_stem_score (dir_segments f) (dir_segments p), dir_segments f)"
        using hit by (simp add: search_step_def search_hit_def Let_def)
      with st hit False show ?thesis by auto
    next
      case True
      then have b: "best \<in> set files" "search_hit p roots names best" "score = path_stem_score (dir_segments best) (dir_segments p)"
          "segs = dir_segments best" "\<forall>g\<in>set files. search_hit p roots names g \<longrightarrow> search_key p best \<le> search_key p g"
        using snoc s by auto
      have "search_step (dir_segments p) roots names f (best, score, segs) =
          (if search_key p f < search_key p best then (f, path_stem_score (dir_segments f) (dir_segments p), dir_segments f) else (best, score, segs))"
        using hit search_hit_ne [OF b(2)]
        by (auto simp: search_step_def search_hit_def search_key_def Let_def b(3,4) less_prod_simp)
      with st b hit True show ?thesis by (auto intro: order.trans)
    qed
  qed
qed (simp add: search_state_def)

lemma search_key_inj: "search_key p f = search_key p g \<Longrightarrow> f = g"
  by (simp add: search_key_def)

text \<open>
  C18. The search for a test is exact. What it returns is a file of the listing that sits under one of the test roots, carries one of the
  conventional names and shares at least one trailing directory with the source, and among those it is the best: the most directories
  shared, then the shallowest, then the first in the order of strings. When no file qualifies it returns none. So the answer does not depend
  on the order in which the repository is listed.
\<close>

theorem search_picks_best:
  shows "best_search_match p roots names files = Some f \<longleftrightarrow>
    f \<in> set files \<and> search_hit p roots names f \<and> (\<forall>g\<in>set files. search_hit p roots names g \<longrightarrow> search_key p f \<le> search_key p g)"
proof -
  obtain best score segs where s: "search_state p roots names files = (best, score, segs)" by (cases "search_state p roots names files") auto
  have m: "best_search_match p roots names files = (if best \<noteq> [] then Some best else None)"
    using s by (simp add: best_search_match_def search_state_def)
  note inv = search_state_inv [where p = p and roots = roots and names = names and files = files, unfolded s, simplified]
  show ?thesis
  proof (cases "\<exists>g\<in>set files. search_hit p roots names g")
    case True
    with inv have b: "best \<in> set files" "search_hit p roots names best"
        "\<forall>g\<in>set files. search_hit p roots names g \<longrightarrow> search_key p best \<le> search_key p g" by auto
    then show ?thesis unfolding m using search_hit_ne [OF b(2)] by (auto intro: search_key_inj [of p] antisym)
  next
    case False with inv show ?thesis unfolding m by auto
  qed
qed

subsection \<open>Resolution\<close>

inductive offers :: "disk \<Rightarrow> pairing_rule list \<Rightarrow> string \<Rightarrow> sources \<Rightarrow> string \<Rightarrow> string \<Rightarrow> shape \<Rightarrow> int \<Rightarrow> bool"
  for d rules p src where
    \<comment> \<open>a path that may be looked at, with the label, the shape and the rank it resolves under\<close>
  declared: "\<lbrakk>r \<in> set rules; ru_shape r = Declared \<or> ru_shape r = Inline; sr_test_modules src = Some f; f p = Inr mods;
      (q, l) \<in> set (tr_from_modules (traits_of (ru_shape r)) p mods); ru_shape r = Declared \<longrightarrow> inside_root d (sr_root src) q\<rbrakk>
    \<Longrightarrow> offers d rules p src q l (ru_shape r) (ru_rank r)"
| convention: "\<lbrakk>c \<in> set (pair_candidates rules p); ca_shape c \<noteq> Inline; ca_shape c \<noteq> Declared\<rbrakk>
    \<Longrightarrow> offers d rules p src (ca_path c) (shape_name (ca_shape c)) (ca_shape c) (ca_rank c)"

definition tried_ok :: "disk \<Rightarrow> pairing_rule list \<Rightarrow> string \<Rightarrow> sources \<Rightarrow> resolution \<Rightarrow> bool" where
  \<comment> \<open>what holds of a resolution before the search\<close>
  "tried_ok d rules p src res \<longleftrightarrow>
     (\<forall>q\<in>set (rs_tried res). (\<exists>l s k. offers d rules p src q l s k) \<and> (sr_exists src q \<longrightarrow> rs_found res \<and> rs_path res = q)) \<and>
     (if rs_found res then sr_exists src (rs_path res) \<and> rs_path res \<in> set (rs_tried res) \<and>
        (\<exists>s. rs_shape res = Some s \<and> offers d rules p src (rs_path res) (rs_label res) s (rs_rank res))
      else rs_path res = [] \<and> rs_shape res = None) \<and>
     \<not> rs_via_search res \<and> rs_roots res = [] \<and> (\<forall>q\<in>set (rs_refused res). \<not> inside_root d (sr_root src) q)"

lemma tried_ok_zero: "tried_ok d rules p src zero_resolution" "tried_ok d rules p src (zero_resolution\<lparr>rs_unreadable := True\<rparr>)"
  by (simp_all add: tried_ok_def zero_resolution_def)

lemma try_declared_ok:
  assumes "r \<in> set rules" "ru_shape r = Declared \<or> ru_shape r = Inline" "sr_test_modules src = Some f" "f p = Inr mods"
    and "set ls \<subseteq> set (tr_from_modules (traits_of (ru_shape r)) p mods)" "tried_ok d rules p src res" "\<not> rs_found res"
  shows "tried_ok d rules p src (try_declared d src r ls res)"
  using assms(5-)
proof (induction ls arbitrary: res)
  case (Cons ql ls)
  obtain q l where ql: "ql = (q, l)" by fastforce
  show ?case
  proof (cases "ru_shape r = Declared \<and> \<not> inside_root d (sr_root src) q")
    case True
    then have "try_declared d src r (ql # ls) res = try_declared d src r ls (res\<lparr>rs_refused := rs_refused res @ [q]\<rparr>)" by (simp add: ql)
    moreover have "tried_ok d rules p src (res\<lparr>rs_refused := rs_refused res @ [q]\<rparr>)" using Cons.prems True by (auto simp: tried_ok_def)
    ultimately show ?thesis using Cons by simp
  next
    case False
    then have o: "offers d rules p src q l (ru_shape r) (ru_rank r)"
      using offers.declared [OF assms(1-4), of q l] Cons.prems(1) ql by auto
    show ?thesis
    proof (cases "sr_exists src q")
      case True
      then have "try_declared d src r (ql # ls) res = res\<lparr>rs_tried := rs_tried res @ [q], rs_path := q, rs_rank := ru_rank r,
          rs_shape := Some (ru_shape r), rs_label := l, rs_found := True\<rparr>" using False by (auto simp: ql Let_def)
      then show ?thesis using Cons.prems True o by (auto simp: tried_ok_def)
    next
      case no: False
      then have "try_declared d src r (ql # ls) res = try_declared d src r ls (res\<lparr>rs_tried := rs_tried res @ [q]\<rparr>)"
        using False by (auto simp: ql Let_def)
      moreover have "tried_ok d rules p src (res\<lparr>rs_tried := rs_tried res @ [q]\<rparr>)" using Cons.prems no o by (auto simp: tried_ok_def)
      ultimately show ?thesis using Cons by simp
    qed
  qed
qed simp

lemma try_content_ok:
  assumes "sr_test_modules src = Some f" "f p = Inr mods"
    and "set rs \<subseteq> set (content_rules rules)" "tried_ok d rules p src res" "\<not> rs_found res"
  shows "tried_ok d rules p src (try_content d src p mods rs res)"
  using assms(3-)
proof (induction rs arbitrary: res)
  case (Cons r rs)
  have r: "r \<in> set rules" "ru_shape r = Declared \<or> ru_shape r = Inline" using Cons.prems(1) by (auto simp: content_rules_def)
  have "tried_ok d rules p src (try_declared d src r (tr_from_modules (traits_of (ru_shape r)) p mods) res)"
    by (rule try_declared_ok [OF r assms(1,2) order.refl Cons.prems(2,3)])
  with Cons show ?case by (simp add: Let_def)
qed simp

lemma resolve_declared_ok:
  assumes "sr_test_modules src = Some f" "resolve_declared d (content_rules rules) p src f = (res, None)"
  shows "tried_ok d rules p src res"
  using assms try_content_ok [OF assms(1) _ order.refl tried_ok_zero(1)] tried_ok_zero
  by (auto simp: resolve_declared_def zero_resolution_def split: if_splits sum.splits modules_error.splits)

lemma try_candidates_ok:
  assumes "set cs \<subseteq> {c \<in> set (pair_candidates rules p). ca_shape c \<noteq> Inline \<and> ca_shape c \<noteq> Declared}"
    and "tried_ok d rules p src res" "\<not> rs_found res"
  shows "tried_ok d rules p src (try_candidates src cs res)"
  using assms
proof (induction cs arbitrary: res)
  case (Cons c cs)
  have o: "offers d rules p src (ca_path c) (shape_name (ca_shape c)) (ca_shape c) (ca_rank c)"
    using Cons.prems(1) by (auto intro: offers.convention)
  show ?case
  proof (cases "sr_exists src (ca_path c)")
    case True
    show ?thesis
    proof (cases "ca_path c = []")
      case empty: True with Cons show ?thesis by simp
    next
      case False
      then have "try_candidates src (c # cs) res = res\<lparr>rs_tried := rs_tried res @ [ca_path c], rs_path := ca_path c, rs_rank := ca_rank c,
          rs_shape := Some (ca_shape c), rs_label := shape_name (ca_shape c), rs_found := True\<rparr>" using True by (simp add: Let_def)
      then show ?thesis using Cons.prems(2,3) True o by (auto simp: tried_ok_def)
    qed
  next
    case False
    then have "tried_ok d rules p src (res\<lparr>rs_tried := rs_tried res @ [ca_path c]\<rparr>)" using Cons.prems o by (auto simp: tried_ok_def)
    with Cons False show ?thesis by (auto simp: Let_def)
  qed
qed simp

abbreviation name_candidates :: "pairing_rule list \<Rightarrow> string \<Rightarrow> candidate list" where
  "name_candidates rules p \<equiv> filter (\<lambda>c. \<not> tr_content (traits_of (ca_shape c))) (pair_candidates rules p)"

abbreviation modules_of :: "sources \<Rightarrow> string \<Rightarrow> modules_error + test_module list" where
  "modules_of src \<equiv> (case sr_test_modules src of Some f \<Rightarrow> f | None \<Rightarrow> (\<lambda>_. Inr []))"

definition second_stage :: "pairing_rule list \<Rightarrow> string \<Rightarrow> sources \<Rightarrow> resolution \<Rightarrow> resolution \<Rightarrow> bool" where
  \<comment> \<open>how the answer follows from the candidates when no declaration resolved\<close>
  "second_stage rules p src res2 res \<longleftrightarrow>
     (let names = search_basenames (name_candidates rules p) in
      if rs_found res2 \<or> names = [] then res = res2
      else \<exists>files. sr_universe src = Inr files \<and>
        res = (case best_search_match p (search_roots rules) names files of
          None \<Rightarrow> res2\<lparr>rs_roots := search_roots rules\<rparr>
        | Some f \<Rightarrow> res2\<lparr>rs_roots := search_roots rules, rs_path := f, rs_rank := search_rank, rs_via_search := True, rs_found := True\<rparr>))"

lemma pair_resolve_cases:
  assumes "pair_resolve d rules p src = (res, None)"
  obtains (declared) "resolve_declared d (content_rules rules) p src (modules_of src) = (res, None)" "tried_ok d rules p src res" "rs_found res"
  | (named) res1 where "resolve_declared d (content_rules rules) p src (modules_of src) = (res1, None)" "tried_ok d rules p src res1" "\<not> rs_found res1"
      "tried_ok d rules p src (try_candidates src (name_candidates rules p) res1)"
      "second_stage rules p src (try_candidates src (name_candidates rules p) res1) res"
proof -
  let ?content = "content_rules rules" and ?names = "search_basenames (name_candidates rules p)"
  have reader: "?content = [] \<or> (\<exists>f. sr_test_modules src = Some f)"
    using assms by (cases "sr_test_modules src") (auto simp: pair_resolve_def Let_def split: if_splits)
  obtain res1 err where r1: "resolve_declared d ?content p src (modules_of src) = (res1, err)"
    by (cases "resolve_declared d ?content p src (modules_of src)") auto
  from reader have cond: "\<not> (?content \<noteq> [] \<and> sr_test_modules src = None)" by auto
  have main: "(if err \<noteq> None \<or> rs_found res1 then (res1, err)
      else let res2 = try_candidates src (name_candidates rules p) res1 in
        if rs_found res2 \<or> ?names = [] then (res2, None)
        else let res3 = res2\<lparr>rs_roots := search_roots rules\<rparr> in
          case sr_universe src of Inl e \<Rightarrow> (res3, Some (UniverseError e))
          | Inr files \<Rightarrow> (case best_search_match p (rs_roots res3) ?names files of None \<Rightarrow> (res3, None)
              | Some f \<Rightarrow> (res3\<lparr>rs_path := f, rs_rank := search_rank, rs_via_search := True, rs_found := True\<rparr>, None))) = (res, None)"
    using assms [unfolded pair_resolve_def Let_def if_not_P [OF cond] r1 prod.case] unfolding Let_def .
  then have err: "err = None" by (auto split: if_splits)
  have ok1: "tried_ok d rules p src res1"
  proof (cases "?content = []")
    case True then show ?thesis using r1 tried_ok_zero(1) by (auto simp: resolve_declared_def)
  next
    case False
    with reader obtain f where f: "sr_test_modules src = Some f" by blast
    show ?thesis by (rule resolve_declared_ok [OF f]) (use r1 f err in simp)
  qed
  show ?thesis
  proof (cases "rs_found res1")
    case True with main r1 ok1 err show ?thesis by (auto intro: declared)
  next
    case False
    define res2 where "res2 = try_candidates src (name_candidates rules p) res1"
    have ok2: "tried_ok d rules p src res2" unfolding res2_def by (rule try_candidates_ok [OF _ ok1 False]) auto
    note m2 = main [unfolded err res2_def [symmetric], simplified False, simplified, unfolded Let_def, simplified]
    have "second_stage rules p src res2 res"
      using m2 unfolding second_stage_def Let_def by (auto split: if_splits sum.splits option.splits)
    with named r1 ok1 ok2 False err show ?thesis unfolding res2_def by blast
  qed
qed

text \<open>
  What a resolution may look at, in order: what the source's declarations name, rule by rule, when they can be read, and after that the
  candidates of the conventions. An offer carries the label, the shape and the rank it resolves under; a declared path outside the
  repository is barred.
\<close>

record offer =
  of_path :: string
  of_label :: string
  of_shape :: shape
  of_rank :: int

definition declared_offers :: "pairing_rule list \<Rightarrow> string \<Rightarrow> test_module list \<Rightarrow> offer list" where
  "declared_offers rules p mods = concat (map (\<lambda>r. map (\<lambda>(q, l). \<lparr>of_path = q, of_label = l, of_shape = ru_shape r, of_rank = ru_rank r\<rparr>)
     (tr_from_modules (traits_of (ru_shape r)) p mods)) rules)"

definition candidate_offer :: "candidate \<Rightarrow> offer" where
  "candidate_offer c = \<lparr>of_path = ca_path c, of_label = shape_name (ca_shape c), of_shape = ca_shape c, of_rank = ca_rank c\<rparr>"

definition offered :: "pairing_rule list \<Rightarrow> string \<Rightarrow> sources \<Rightarrow> offer list" where
  "offered rules p src =
     (case modules_of src p of Inr mods \<Rightarrow> declared_offers (content_rules rules) p mods | Inl _ \<Rightarrow> []) @
     map candidate_offer (filter (\<lambda>c. ca_path c \<noteq> []) (name_candidates rules p))"

definition barred :: "disk \<Rightarrow> sources \<Rightarrow> offer \<Rightarrow> bool" where
  "barred d src x \<longleftrightarrow> of_shape x = Declared \<and> \<not> inside_root d (sr_root src) (of_path x)"

definition answers :: "disk \<Rightarrow> sources \<Rightarrow> offer \<Rightarrow> bool" where
  "answers d src x \<longleftrightarrow> \<not> barred d src x \<and> sr_exists src (of_path x)"

fun walk_offers :: "disk \<Rightarrow> sources \<Rightarrow> offer list \<Rightarrow> resolution \<Rightarrow> resolution" where
  "walk_offers d src [] res = res"
| "walk_offers d src (x # xs) res =
     (if barred d src x then walk_offers d src xs (res\<lparr>rs_refused := rs_refused res @ [of_path x]\<rparr>)
      else if answers d src x
      then res\<lparr>rs_tried := rs_tried res @ [of_path x], rs_path := of_path x, rs_rank := of_rank x, rs_shape := Some (of_shape x),
             rs_label := of_label x, rs_found := True\<rparr>
      else walk_offers d src xs (res\<lparr>rs_tried := rs_tried res @ [of_path x]\<rparr>))"

lemma walk_found: "rs_found (walk_offers d src xs res) \<longleftrightarrow> rs_found res \<or> (\<exists>x\<in>set xs. answers d src x)"
  by (induction xs arbitrary: res) (auto simp: answers_def)

lemma walk_append:
  "walk_offers d src (xs @ ys) res =
     (if \<exists>x\<in>set xs. answers d src x then walk_offers d src xs res else walk_offers d src ys (walk_offers d src xs res))"
  by (induction xs arbitrary: res) (auto simp: answers_def)

lemma walk_exact:
  "let seen = takeWhile (\<lambda>x. \<not> answers d src x) xs; rest = dropWhile (\<lambda>x. \<not> answers d src x) xs;
       w = res\<lparr>rs_tried := rs_tried res @ map of_path (filter (\<lambda>x. \<not> barred d src x) (seen @ take 1 rest)),
             rs_refused := rs_refused res @ map of_path (filter (barred d src) seen)\<rparr>
   in walk_offers d src xs res = (case rest of [] \<Rightarrow> w
     | x # _ \<Rightarrow> w\<lparr>rs_path := of_path x, rs_rank := of_rank x, rs_shape := Some (of_shape x), rs_label := of_label x, rs_found := True\<rparr>)"
proof (induction xs arbitrary: res)
  case (Cons x xs)
  show ?case
  proof (cases "answers d src x")
    case True then show ?thesis by (simp add: answers_def)
  next
    case False
    let ?r = "res\<lparr>rs_refused := rs_refused res @ [of_path x]\<rparr>" and ?t = "res\<lparr>rs_tried := rs_tried res @ [of_path x]\<rparr>"
    show ?thesis
    proof (cases "dropWhile (\<lambda>x. \<not> answers d src x) xs")
      case Nil
      then show ?thesis using Cons.IH [of ?r] Cons.IH [of ?t] False
        by (cases "barred d src x") (simp_all add: Let_def del: dropWhile_eq_Nil_conv)
    next
      case more: (Cons y ys)
      then have "answers d src y" using hd_dropWhile [of "\<lambda>x. \<not> answers d src x" xs] by simp
      then have "\<not> barred d src y" by (simp add: answers_def)
      with more show ?thesis using Cons.IH [of ?r] Cons.IH [of ?t] False
        by (cases "barred d src x") (simp_all add: Let_def del: dropWhile_eq_Nil_conv)
    qed
  qed
qed simp

lemma try_declared_walk:
  "try_declared d src r ls res =
     walk_offers d src (map (\<lambda>(q, l). \<lparr>of_path = q, of_label = l, of_shape = ru_shape r, of_rank = ru_rank r\<rparr>) ls) res"
  by (induction d src r ls res rule: try_declared.induct) (auto simp: barred_def answers_def Let_def)

lemma try_content_walk:
  "\<not> rs_found res \<Longrightarrow> try_content d src p mods rs res = walk_offers d src (declared_offers rs p mods) res"
proof (induction rs arbitrary: res)
  case (Cons r rs)
  let ?os = "map (\<lambda>(q, l). \<lparr>of_path = q, of_label = l, of_shape = ru_shape r, of_rank = ru_rank r\<rparr>)
      (tr_from_modules (traits_of (ru_shape r)) p mods)"
  have "declared_offers (r # rs) p mods = ?os @ declared_offers rs p mods" by (simp add: declared_offers_def)
  then show ?case
    using Cons walk_found [of d src ?os res] walk_append [of d src ?os "declared_offers rs p mods" res]
    by (simp add: try_declared_walk Let_def)
qed (simp add: declared_offers_def)

lemma try_candidates_walk:
  "\<forall>c\<in>set cs. ca_shape c \<noteq> Declared \<Longrightarrow>
     try_candidates src cs res = walk_offers d src (map candidate_offer (filter (\<lambda>c. ca_path c \<noteq> []) cs)) res"
  by (induction src cs res rule: try_candidates.induct) (auto simp: barred_def answers_def candidate_offer_def Let_def)

lemma resolve_walks:
  assumes "pair_resolve d rules p src = (res, None)"
  obtains u where "second_stage rules p src (walk_offers d src (offered rules p src) (zero_resolution\<lparr>rs_unreadable := u\<rparr>)) res"
proof -
  let ?content = "content_rules rules"
  define D where "D = (case modules_of src p of Inr mods \<Rightarrow> declared_offers ?content p mods | Inl _ \<Rightarrow> [])"
  let ?C = "map candidate_offer (filter (\<lambda>c. ca_path c \<noteq> []) (name_candidates rules p))"
  have off: "offered rules p src = D @ ?C" by (simp add: offered_def D_def)
  have z: "zero_resolution\<lparr>rs_unreadable := False\<rparr> = zero_resolution" by (simp add: zero_resolution_def)
  have first: "\<exists>u. res1 = walk_offers d src D (zero_resolution\<lparr>rs_unreadable := u\<rparr>)"
    if r: "resolve_declared d ?content p src (modules_of src) = (res1, None)" for res1
  proof (cases "?content = []")
    case True
    then have "D = []" by (simp add: D_def declared_offers_def split: sum.splits)
    with True r show ?thesis by (intro exI [of _ False]) (simp add: resolve_declared_def z)
  next
    case False
    show ?thesis
    proof (cases "modules_of src p")
      case (Inl e)
      with False r have "res1 = zero_resolution\<lparr>rs_unreadable := True\<rparr>"
        by (auto simp: resolve_declared_def split: modules_error.splits)
      then show ?thesis using Inl by (intro exI [of _ True]) (simp add: D_def)
    next
      case (Inr mods)
      with False r have "res1 = try_content d src p mods ?content zero_resolution" by (simp add: resolve_declared_def)
      then show ?thesis using Inr
        by (intro exI [of _ False]) (simp add: D_def z try_content_walk zero_resolution_def [THEN arg_cong, of rs_found])
    qed
  qed
  from assms show thesis
  proof (cases rule: pair_resolve_cases)
    case declared
    then obtain u where u: "res = walk_offers d src D (zero_resolution\<lparr>rs_unreadable := u\<rparr>)" using first by blast
    with declared(3) have "\<exists>x\<in>set D. answers d src x" by (simp add: walk_found zero_resolution_def)
    then have "walk_offers d src (offered rules p src) (zero_resolution\<lparr>rs_unreadable := u\<rparr>) = res" by (simp add: off walk_append u)
    with declared(3) show ?thesis by (intro that [of u]) (simp add: second_stage_def Let_def)
  next
    case (named res1)
    then obtain u where u: "res1 = walk_offers d src D (zero_resolution\<lparr>rs_unreadable := u\<rparr>)" using first by blast
    with named(3) have "\<not> (\<exists>x\<in>set D. answers d src x)" by (auto simp: walk_found)
    then have "walk_offers d src (offered rules p src) (zero_resolution\<lparr>rs_unreadable := u\<rparr>) = try_candidates src (name_candidates rules p) res1"
      by (subst try_candidates_walk [where d = d]) (auto simp: off walk_append u)
    with named(5) show ?thesis by (intro that [of u]) simp
  qed
qed

text \<open>
  C17. What a resolution looks at, in which order, and what it answers. The offers are the paths the source's own declarations
  name, rule by rule (the source itself for an inline test module), and then the candidates of the conventions. The resolution goes through
  them in this order up to and including the first that may be looked at and exists: a declared path outside the repository (as spelled or
  behind symbolic links) is refused and not looked at, all others are tried, and nothing after the first hit is. That hit is the answer,
  under the label, shape and rank of the rule that offered it. Only when no offer is there does it search, for the names of the candidates,
  and then the answer is the best match of the search or none.
\<close>

theorem resolution_sound:
  assumes "pair_resolve d rules p src = (res, None)"
  shows "let seen = takeWhile (\<lambda>x. \<not> answers d src x) (offered rules p src);
             rest = dropWhile (\<lambda>x. \<not> answers d src x) (offered rules p src);
             names = search_basenames (name_candidates rules p)
    in rs_tried res = map of_path (filter (\<lambda>x. \<not> barred d src x) (seen @ take 1 rest)) \<and>
       rs_refused res = map of_path (filter (barred d src) seen) \<and>
       (case rest of
          x # _ \<Rightarrow> rs_found res \<and> \<not> rs_via_search res \<and> rs_path res = of_path x \<and> rs_label res = of_label x \<and>
            rs_shape res = Some (of_shape x) \<and> rs_rank res = of_rank x
        | [] \<Rightarrow> rs_shape res = None \<and> rs_via_search res = rs_found res \<and>
            (if names = [] then \<not> rs_found res
             else \<exists>files. sr_universe src = Inr files \<and>
               best_search_match p (search_roots rules) names files = (if rs_found res then Some (rs_path res) else None)))"
proof -
  let ?os = "offered rules p src"
  obtain u where u: "second_stage rules p src (walk_offers d src ?os (zero_resolution\<lparr>rs_unreadable := u\<rparr>)) res"
    by (rule resolve_walks [OF assms])
  note w = walk_exact [of d src ?os "zero_resolution\<lparr>rs_unreadable := u\<rparr>", unfolded Let_def]
  show ?thesis
  proof (cases "dropWhile (\<lambda>x. \<not> answers d src x) ?os")
    case Nil
    show ?thesis using u unfolding w Nil Let_def
      by (auto simp: second_stage_def zero_resolution_def Let_def split: if_splits option.splits)
  next
    case (Cons x xs)
    show ?thesis using u unfolding w Cons Let_def by (simp add: second_stage_def zero_resolution_def Let_def)
  qed
qed

subsection \<open>A contested test\<close>

definition claim_state :: "int list \<Rightarrow> (nat \<times> int) option \<times> bool \<Rightarrow> bool" where
  "claim_state ps st \<longleftrightarrow>
     (case st of
        (None, ok) \<Rightarrow> ps = [] \<and> \<not> ok
      | (Some (j, q), ok) \<Rightarrow> j < length ps \<and> ps ! j = q \<and> (\<forall>k<length ps. q \<le> ps ! k) \<and> (ok \<longleftrightarrow> (\<forall>k<length ps. k \<noteq> j \<longrightarrow> q < ps ! k)))"

lemma settle_loop_state: "claim_state ps st \<Longrightarrow> claim_state (ps @ rs) (settle_loop (length ps) rs st)"
proof (induction rs arbitrary: ps st)
  case (Cons r rs)
  obtain winner ok where st: "st = (winner, ok)" by fastforce
  let ?st = "case winner of None \<Rightarrow> (Some (length ps, r), True)
    | Some (j, q) \<Rightarrow> if r < q then (Some (length ps, r), True) else if r = q then (winner, False) else (winner, ok)"
  have "claim_state (ps @ [r]) ?st"
  proof (cases winner)
    case None then show ?thesis using Cons.prems st by (auto simp: claim_state_def)
  next
    case (Some jq)
    obtain j q where jq: "jq = (j, q)" by fastforce
    have c: "j < length ps" "ps ! j = q" "\<forall>k<length ps. q \<le> ps ! k" "ok \<longleftrightarrow> (\<forall>k<length ps. k \<noteq> j \<longrightarrow> q < ps ! k)"
      using Cons.prems st Some jq by (auto simp: claim_state_def)
    show ?thesis using c Some jq by (auto simp: claim_state_def nth_append less_Suc_eq)
  qed
  from Cons.IH [OF this] show ?case by (simp add: st)
qed simp

theorem best_claim_exact:
  "best_claim ranks = Some i \<longleftrightarrow> i < length ranks \<and> (\<forall>j<length ranks. j \<noteq> i \<longrightarrow> ranks ! i < ranks ! j)"
proof -
  obtain winner ok where w: "settle_loop 0 ranks (None, False) = (winner, ok)" by fastforce
  have "claim_state ranks (winner, ok)" using settle_loop_state [of "[]" "(None, False)" ranks] w by (simp add: claim_state_def)
  moreover have "best_claim ranks = (if ok then map_option fst winner else None)" by (simp add: best_claim_def w)
  ultimately show ?thesis by (auto simp: claim_state_def split: option.splits prod.splits)
      (metis less_asym, metis leD)
qed

subsection \<open>Landing\<close>

lemma primary_candidate: "primary rules p = Some c \<Longrightarrow> c \<in> set (pair_candidates rules p)"
  by (auto simp: primary_def split: list.splits)

lemma candidate_shape:
  assumes "c \<in> set (pair_candidates rules p)"
  shows "ca_shape c \<noteq> Declared \<and> (ca_shape c = Inline \<longrightarrow> ca_path c = p)"
proof -
  obtain r b where "rule_candidate p r = Some b" "ca_path b = ca_path c" "ca_shape b = ca_shape c"
    using in_candidatesD [OF assms] by blast
  then show ?thesis by (cases "ru_shape r") (auto simp: rule_candidate_def traits_of_def no_traits_def split: prod.splits)
qed

lemma land_primary_shape:
  "ld_shape (land_primary l rules p) = Some s \<Longrightarrow> ld_shape l = None \<Longrightarrow>
    s \<noteq> Declared \<and> (s = Inline \<longrightarrow> ld_path (land_primary l rules p) = p)"
  using candidate_shape [OF primary_candidate] by (auto simp: land_primary_def split: option.splits)

lemma try_declared_unreadable [simp]: "rs_unreadable (try_declared d src r ls res) = rs_unreadable res"
  by (induction d src r ls res rule: try_declared.induct) (auto simp: Let_def)

lemma try_content_unreadable [simp]: "rs_unreadable (try_content d src p mods rs res) = rs_unreadable res"
  by (induction d src p mods rs res rule: try_content.induct) (auto simp: Let_def)

lemma try_candidates_shape:
  "rs_shape (try_candidates src cs res) = rs_shape res \<or> (\<exists>c\<in>set cs. rs_shape (try_candidates src cs res) = Some (ca_shape c))"
  by (induction src cs res rule: try_candidates.induct) (auto simp: Let_def)

text \<open>
  C20. The file a source is paired to and the file its authored test lands in are one. For a language whose sources declare their tests, the
  resolution answers with a declaration exactly when the landing is the declared file, and then both name the same path; a source that
  resolves to itself is what its test lands on. The declared file is inside the repository and exists, so a test is appended to a file that
  is there.
\<close>

theorem landing_is_pairing:
  assumes "content_rules rules \<noteq> []" and "pair_resolve d rules p src = (res, None)" and "land d rules p src = (l, None)"
  shows "(ld_shape l = Some Declared \<longleftrightarrow> rs_found res \<and> rs_shape res = Some Declared) \<and>
    (rs_found res \<and> (rs_shape res = Some Declared \<or> rs_shape res = Some Inline) \<longrightarrow>
       ld_into l \<and> ld_path l = rs_path res \<and> ld_shape l = rs_shape res \<and> ld_label l = rs_label res) \<and>
    (ld_shape l = Some Declared \<longrightarrow> ld_into l \<and> ld_depth l = 1 \<and> sr_exists src (ld_path l) \<and> inside_root d (sr_root src) (ld_path l))"
proof -
  obtain f where f: "sr_test_modules src = Some f" using assms(1,2) by (cases "sr_test_modules src") (auto simp: pair_resolve_def)
  obtain res1 err where r1: "resolve_declared d (content_rules rules) p src f = (res1, err)"
    by (cases "resolve_declared d (content_rules rules) p src f") auto
  have err: "err = None" using assms(3) by (cases err) (auto simp: land_def f r1 assms(1))
  have ok1: "tried_ok d rules p src res1" by (rule resolve_declared_ok [OF f]) (use r1 err in simp)
  show ?thesis
  proof (cases "rs_found res1")
    case True
    then obtain s where s: "rs_shape res1 = Some s" "offers d rules p src (rs_path res1) (rs_label res1) s (rs_rank res1)" "sr_exists src (rs_path res1)"
      using ok1 by (auto simp: tried_ok_def)
    have res: "res = res1" using assms(2) True by (cases rule: pair_resolve_cases) (simp_all add: f r1)
    have "\<not> rs_unreadable res1" using r1 True by (auto simp: resolve_declared_def zero_resolution_def assms(1) split: sum.splits modules_error.splits)
    then have l: "l = zero_landing\<lparr>ld_declarations_read := True, ld_refused := rs_refused res1, ld_path := rs_path res1, ld_shape := Some s,
        ld_label := rs_label res1, ld_into := True, ld_depth := tr_module_depth (traits_of s)\<rparr>"
      using assms(3) by (simp add: land_def f r1 err assms(1) s(1) True)
    have "s = Declared \<Longrightarrow> inside_root d (sr_root src) (rs_path res1)"
      using s(2) candidate_shape by (auto elim!: offers.cases)
    then show ?thesis using True s res l by (auto simp: traits_of_def)
  next
    case False
    have "l = land_primary (zero_landing\<lparr>ld_unreadable := True\<rparr>) rules p \<or>
        l = land_primary (zero_landing\<lparr>ld_declarations_read := True, ld_refused := rs_refused res1\<rparr>) rules p"
      using assms(3) False by (auto simp: land_def f r1 err assms(1) Let_def split: if_splits option.splits)
    moreover have "ld_shape (zero_landing\<lparr>ld_unreadable := True\<rparr>) = None"
        "ld_shape (zero_landing\<lparr>ld_declarations_read := True, ld_refused := rs_refused res1\<rparr>) = None" by (simp_all add: zero_landing_def)
    ultimately have n: "ld_shape l \<noteq> Some Declared" using land_primary_shape by metis
    from assms(2) have "rs_shape res \<noteq> Some Declared \<and> rs_shape res \<noteq> Some Inline"
    proof (cases rule: pair_resolve_cases)
      case declared with False show ?thesis by (simp add: f r1)
    next
      case (named res0)
      have "rs_shape res0 = None" using named(2,3) by (simp add: tried_ok_def)
      with try_candidates_shape [of src "name_candidates rules p" res0]
      have "rs_shape (try_candidates src (name_candidates rules p) res0) \<notin> {Some Declared, Some Inline}" by auto
      then show ?thesis using named(5) by (auto simp: second_stage_def Let_def split: if_splits option.splits)
    qed
    with n show ?thesis by auto
  qed
qed

subsection \<open>Confinement\<close>

lemma below_cases: "below bs ts = Some xs \<Longrightarrow> ts = bs @ xs \<or> (\<exists>ys. xs = ''..'' # ys)"
  by (induction bs ts rule: below.induct) (auto split: if_splits)

lemma join_dots: "join ''/'' (''..'' # ys) = ''..'' \<or> has_prefix (join ''/'' (''..'' # ys)) ''../''"
  by (cases ys) (auto simp: has_prefix_def)

lemma clean_join_inj:
  assumes "join ''/'' (clean_parts a) = join ''/'' (clean_parts b)"
  shows "clean_parts a = clean_parts b"
proof -
  have ne: "join ''/'' (clean_parts q) = [] \<longleftrightarrow> clean_parts q = []" for q
    using join_empty [of "CHR ''/''" "clean_parts q"] clean_parts_no_slash [of "[]" q] by auto
  have split: "split_on (CHR ''/'') (join ''/'' (clean_parts q)) = clean_parts q" if "clean_parts q \<noteq> []" for q
    by (rule split_on_join) (use clean_parts_no_slash that in auto)
  show ?thesis
  proof (cases "clean_parts a = []")
    case True then show ?thesis using ne [of a] ne [of b] assms by simp
  next
    case False
    then have "clean_parts b \<noteq> []" using ne [of a] ne [of b] assms by simp
    then show ?thesis using split [OF False] split [of b] assms by metis
  qed
qed

lemma is_abs_simps [simp]: "\<not> is_abs []" "is_abs (c # s) \<longleftrightarrow> c = CHR ''/''"
  by (auto simp: is_abs_def has_prefix_def)

lemma is_abs_clean: "is_abs (clean_path q) \<longleftrightarrow> is_abs q"
proof (cases "is_abs q")
  case True then show ?thesis by (simp add: clean_path_def)
next
  case False
  show ?thesis
  proof (cases "clean_parts q")
    case Nil with False show ?thesis by (simp add: clean_path_def)
  next
    case (Cons e es)
    then have "e \<noteq> []" "CHR ''/'' \<notin> set e" using clean_parts_no_slash [of e q] by auto
    then obtain x e' where e: "e = x # e'" "x \<noteq> CHR ''/''" by (cases e) auto
    have "is_abs (join ''/'' (e # es)) = False" using e by (cases es) simp_all
    with False Cons show ?thesis by (simp add: clean_path_def)
  qed
qed

lemma path_within_prefix:
  assumes "path_within dir p" and "is_abs dir"
  shows "is_abs p \<and> (\<exists>rest. clean_parts p = clean_parts dir @ rest)"
proof (cases "clean_path dir = clean_path p")
  case True
  with assms(2) have p: "is_abs p" using is_abs_clean by metis
  have "join ''/'' (clean_parts dir) = join ''/'' (clean_parts p)" using True p assms(2) by (simp add: clean_path_def)
  then have "clean_parts dir = clean_parts p" by (rule clean_join_inj)
  then show ?thesis using p by auto
next
  case False
  then obtain xs where xs: "is_abs p" "below (clean_parts dir) (clean_parts p) = Some xs"
      "join ''/'' xs \<noteq> ''..''" "\<not> has_prefix (join ''/'' xs) ''../''"
    using assms by (auto simp: path_within_def path_rel_def split: if_splits option.splits)
  then show ?thesis using below_cases [OF xs(2)] join_dots by metis
qed

theorem declared_path_confined:
  assumes "inside_root d dir p" and "\<And>q a. dk_abs d q = Some a \<Longrightarrow> is_abs a"
  shows "(\<not> is_abs p \<longrightarrow> (\<forall>ps. clean_parts p \<noteq> ''..'' # ps)) \<and>
    (dir \<noteq> [] \<longrightarrow> (\<exists>abs_dir abs_p rest. dk_abs d dir = Some abs_dir \<and>
       dk_abs d (if is_abs p then p else path_join [dir, clean_path p]) = Some abs_p \<and> clean_parts abs_p = clean_parts abs_dir @ rest)) \<and>
    (is_abs p \<longrightarrow> dir \<noteq> [])"
proof -
  have "clean_parts p \<noteq> ''..'' # ps" if "\<not> is_abs p" for ps
    using assms(1) that join_dots [of ps] by (auto simp: inside_root_def clean_path_def Let_def)
  moreover have "\<exists>abs_dir abs_p rest. dk_abs d dir = Some abs_dir \<and> dk_abs d q = Some abs_p \<and> clean_parts abs_p = clean_parts abs_dir @ rest"
    if "under_root_on_disk d dir q" for q
    using that path_within_prefix assms(2) by (fastforce simp: under_root_on_disk_def split: option.splits)
  ultimately show ?thesis using assms(1) by (auto simp: inside_root_def Let_def split: if_splits)
qed

subsection \<open>Examples\<close>

lemma ex_python_candidate:
  "\<lparr>ca_path = ''tests/flask/test_views.py'', ca_rank = 2, ca_shape = ParallelTree\<rparr> \<in> set (pair_candidates python_rules ''src/flask/views.py'')"
  "path_base ''src/flask/views.py'' \<noteq> ''/''"
  by code_simp+

lemma candidates_are_tests_witness:
  "is_test id python_rules ''tests/flask/test_views.py'' \<and> might_be_test id all_test_rules ''tests/flask/test_views.py''"
proof -
  have "python_rules \<in> set all_test_rules" by (simp add: all_test_rules_def)
  from candidates_are_tests [OF this ex_python_candidate(2,1), of id "''tests/flask/test_views.py''"] show ?thesis by simp
qed

definition ex_files :: "string list" where
  "ex_files = [''tests/other/test_signer.py'', ''tests/a/itsdangerous/test_signer.py'', ''src/itsdangerous/test_signer.py'',
     ''tests/test_itsdangerous/test_signer.py'']"

lemma ex_search: "best_search_match ''src/itsdangerous/signer.py'' [''tests''] [''test_signer.py''] ex_files =
    Some ''tests/test_itsdangerous/test_signer.py''"
  by code_simp

lemma search_picks_best_witness:
  "search_hit ''src/itsdangerous/signer.py'' [''tests''] [''test_signer.py''] ''tests/test_itsdangerous/test_signer.py''"
  using iffD1 [OF search_picks_best ex_search] by blast

definition ex_disk :: disk where
  "ex_disk = \<lparr>dk_abs = (\<lambda>p. None), dk_real = (\<lambda>p. None)\<rparr>"

definition ex_module :: "string \<Rightarrow> test_module" where
  "ex_module attr = \<lparr>md_name = ''tests'', md_inline = False, md_path_attr = attr, md_cfg_test = True\<rparr>"

definition ex_sources :: sources where
  \<comment> \<open>a source that names a file outside the repository first, then one inside it\<close>
  "ex_sources = \<lparr>sr_root = [], sr_exists = (\<lambda>q. q = ''src/a_tests.rs''), sr_universe = Inl ''no listing'',
     sr_test_modules = Some (\<lambda>_. Inr [ex_module ''../../x.rs'', ex_module ''a_tests.rs''])\<rparr>"

definition ex_resolution :: resolution where
  "ex_resolution = fst (pair_resolve ex_disk rust_rules ''src/a.rs'' ex_sources)"

lemma ex_resolve: "pair_resolve ex_disk rust_rules ''src/a.rs'' ex_sources = (ex_resolution, None)"
  "rs_path ex_resolution = ''src/a_tests.rs''" "rs_refused ex_resolution = [''../x.rs'']" "rs_shape ex_resolution = Some Declared"
  "rs_found ex_resolution" "\<not> rs_via_search ex_resolution"
proof -
  have "snd (pair_resolve ex_disk rust_rules ''src/a.rs'' ex_sources) = None" by code_simp
  then show "pair_resolve ex_disk rust_rules ''src/a.rs'' ex_sources = (ex_resolution, None)" by (simp add: ex_resolution_def prod_eq_iff)
qed code_simp+

lemma ex_offered: "map of_path (offered rust_rules ''src/a.rs'' ex_sources) = [''../x.rs'', ''src/a_tests.rs'']" "rs_tried ex_resolution = [''src/a_tests.rs'']"
  by code_simp+

lemma resolution_sound_witness:
  "\<exists>x. dropWhile (\<lambda>x. \<not> answers ex_disk ex_sources x) (offered rust_rules ''src/a.rs'' ex_sources) = [x] \<and> of_path x = ''src/a_tests.rs''"
proof -
  let ?rest = "dropWhile (\<lambda>x. \<not> answers ex_disk ex_sources x) (offered rust_rules ''src/a.rs'' ex_sources)"
  note r = resolution_sound [OF ex_resolve(1), unfolded Let_def, THEN conjunct2, THEN conjunct2]
  show ?thesis
  proof (cases ?rest)
    case Nil
    with r ex_resolve(5,6) show ?thesis by simp
  next
    case (Cons x xs)
    with r have x: "of_path x = ''src/a_tests.rs''" using ex_resolve(2) by simp
    obtain ys where "offered rust_rules ''src/a.rs'' ex_sources = ys @ x # xs" using Cons by (metis takeWhile_dropWhile_id)
    then have "map of_path ys @ ''src/a_tests.rs'' # map of_path xs = [''../x.rs'', ''src/a_tests.rs'']" using ex_offered(1) x by simp
    then have "xs = []" by (auto simp: Cons_eq_append_conv append_eq_Cons_conv)
    with Cons x show ?thesis by simp
  qed
qed

lemma ex_land: "snd (land ex_disk rust_rules ''src/a.rs'' ex_sources) = None" "content_rules rust_rules \<noteq> []"
  by code_simp+

lemma landing_is_pairing_witness:
  "\<exists>l. land ex_disk rust_rules ''src/a.rs'' ex_sources = (l, None) \<and> ld_into l \<and> ld_path l = ''src/a_tests.rs'' \<and> ld_depth l = 1"
proof -
  obtain l where l: "land ex_disk rust_rules ''src/a.rs'' ex_sources = (l, None)" using ex_land(1) by (metis prod.collapse)
  from landing_is_pairing [OF ex_land(2) ex_resolve(1) l] show ?thesis using l by (auto simp: ex_resolve)
qed

end
