(* ===== verification/Spec2Isabelle.thy ===== *)
theory Spec2Isabelle
  imports Queue_Lifecycle Steering Plans Fence Coord_Properties Canonical Ledger_Authority Ledger_Rules Ledger_Derive
    Merkle_Properties Testmap_Properties Mutant_Parse Certify Exam_Plan Pairing_Properties
begin

text \<open>
  Corral is a coordination brain for coding agents and an auditor of test suites. Three of its parts carry its own logic and are modelled
  here, each from the Go source under \<^verbatim>\<open>src/internal\<close>.

  \<^item> Coordination. Agents (``bees'') claim tasks of missions from a queue, hold leases on paths, and are steered by an operator. The
    mission engine ticks over running missions: it promotes tasks whose dependencies are done, and finishes, parks or fails the mission.
  \<^item> Measurement. For a file, a model writes mutants; the test map tells which tests reach the file; the scorer runs those tests on
    the compliant code and on each mutant and reports who was killed and who survived.
  \<^item> The record. Verdicts are written to a hash-linked ledger of signed entries, which any reader can verify and derive a document from.

  The parts meet in three places: the mission store halts the queue (\<open>Steering\<close>), the engine's gate reads the queue's findings and
  executions (\<open>Engine\<close>), and the scorer grades what the parser admits, by the selection the map gives (\<open>Score\<close> takes the
  command of a mutant as a function of it).

  Theories and sources:

  \<^item> \<open>Prelude\<close>: Go's scalars and strings, SQL statements over lists of rows, and the locales \<open>rowid_table\<close> (an integer primary key)
    and \<open>invariant_machine\<close> (one-step invariants hold in every reachable state). \<open>Machine\<close>: runs of labelled calls (\<open>event_run\<close>), with
    the locales \<open>traced_machine\<close> (invariants that depend on the calls made so far) and \<open>simulation\<close> (call-by-call refinement).
  \<^item> \<open>Queue\<close>, \<open>Queue_Replan\<close>, \<open>Queue_Findings\<close>: \<^verbatim>\<open>queue/store.go\<close>, \<^verbatim>\<open>supersede.go\<close>, \<^verbatim>\<open>findings.go\<close>, \<^verbatim>\<open>executions.go\<close>, one definition per
    method over a record of tables. \<open>Queue_Machine\<close> has one labelled rule per writing method, deletions and prunes included;
    \<open>Queue_Properties\<close> says what a claim grants, that re-planning keeps the plan acyclic and strands nothing, that retired tasks stay
    retired while their mission's rows are kept, that reachable stores are well formed. \<open>Queue_Lifecycle\<close> states what a client may
    assume of its tasks as a labelled machine over a board of jobs (mission, key, needs, phase with its holder), which the queue refines
    call by call.
  \<^item> \<open>Mission\<close>, \<open>Engine\<close>, \<open>Mission_Properties\<close>, \<open>Steering\<close>, \<open>Plans\<close>: \<^verbatim>\<open>mission/store.go\<close> and \<^verbatim>\<open>engine.go\<close>. The lemmas give the
    outcome of a tick on every branch, a bound on the ticks of an idle mission (the configured number of ticks without progress), and,
    over the two stores together with every call of either, that a stopped mission's tasks are not handed out, unless its rows were
    pruned or a stopped status was written directly since it was last steered or re-opened; those two calls do not keep the stores
    together, and \<open>pruned_pause_dispatches\<close> shows what a prune does.
  \<^item> \<open>Fence\<close>: \<^verbatim>\<open>fence/fence.go\<close>. \<open>Bus\<close>, \<open>Coord\<close>, \<open>Coord_Properties\<close>: \<^verbatim>\<open>coord/bus.go\<close>, \<^verbatim>\<open>store.go\<close>, \<^verbatim>\<open>inbox.go\<close>; the invariant of the leases.
  \<^item> \<open>Canonical\<close>, \<open>Ledger\<close>, \<open>Ledger_Verify\<close>, \<open>Ledger_Record\<close>: \<^verbatim>\<open>ledger/canonical.go\<close>, \<^verbatim>\<open>entry.go\<close>, \<^verbatim>\<open>parse.go\<close>, \<^verbatim>\<open>signer.go\<close>, \<^verbatim>\<open>scanuid.go\<close>,
    \<^verbatim>\<open>verify.go\<close>, \<^verbatim>\<open>signers.go\<close>, \<^verbatim>\<open>keyless.go\<close>, \<^verbatim>\<open>level.go\<close>, \<^verbatim>\<open>rules.go\<close>, \<^verbatim>\<open>derive.go\<close>. \<open>Ledger_Properties\<close>, \<open>Ledger_Authority\<close>,
    \<open>Ledger_Rules\<close>, \<open>Ledger_Derive\<close>: the head hash fixes the chain, or exhibits a collision or an entry that has two readings of its \<^verbatim>\<open>prev\<close>, every accepted key goes back to the root
    key, retractions alternate, a derived document serves one intact chain. \<open>Merkle\<close>, \<open>Merkle_Properties\<close>: the log inclusion proof of
    \<^verbatim>\<open>keyless.go\<close> on 64-bit words, against the recursive definition of RFC 6962.
  \<^item> \<open>Testmap\<close>, \<open>Testmap_Select\<close>, \<open>Testmap_Properties\<close>: \<^verbatim>\<open>testmap/testmap.go\<close>, \<^verbatim>\<open>from_evidence.go\<close>, \<^verbatim>\<open>select.go\<close>; what a selection holds.
  \<^item> \<open>Path\<close>, \<open>Pairing\<close>, \<open>Pairing_Properties\<close>: Go's path functions and \<^verbatim>\<open>internal/pairing\<close> (\<^verbatim>\<open>pairing.go\<close>, \<^verbatim>\<open>dedupe.go\<close>, \<^verbatim>\<open>search.go\<close>,
    \<^verbatim>\<open>confine.go\<close>, \<^verbatim>\<open>landing.go\<close>) with the conventions of the seven languages of \<^verbatim>\<open>internal/lang\<close>. A resolution goes through what it is
    offered in order, looks only where it may and answers with the first test there is, its search with the best; a proposed test is recognized as one; an authored test lands in the
    file its source is paired to.
  \<^item> \<open>Mutant\<close>, \<open>Mutant_Properties\<close>, \<open>Mutant_Parse\<close>: the mutant of \<^verbatim>\<open>adequacy/score.go\<close>, \<^verbatim>\<open>dedupe.go\<close>, \<^verbatim>\<open>mutantset.go\<close> and the parser of
    \<^verbatim>\<open>testgen/parse.go\<close>, \<^verbatim>\<open>parse_diag.go\<close>. A mutant applies at exactly one place of exactly one source; what a model answers is
    admitted only as such an edit; a response in the format is read back.
  \<^item> \<open>Score\<close>, \<open>Score_Properties\<close>: \<^verbatim>\<open>Score\<close> of \<^verbatim>\<open>adequacy/score.go\<close> in the order of the source (its closures are definitions with
    their captures as arguments). A kill rests on two observations, a survivor's command reaches the file, the report is a partition of
    the exam.
  \<^item> \<open>Exam_Plan\<close>: \<^verbatim>\<open>advpool/shard.go\<close>, \<^verbatim>\<open>budget.go\<close>, \<^verbatim>\<open>exam.go\<close>. The shards cover the symbols and are balanced; the mutant budget is handed
    out exactly, float64 rounding included.
  \<^item> \<open>Shell\<close>: \<^verbatim>\<open>shellQuote\<close>, \<^verbatim>\<open>shellJoin\<close>, \<^verbatim>\<open>ShellSplit\<close> of \<^verbatim>\<open>adequacy/jail.go\<close> and the lexer of \<^verbatim>\<open>lang/shlex.go\<close>. Flattening a command is
    inverted by parsing it, and a quoted word stays one word of one command.
  \<^item> \<open>Certify\<close>: \<^verbatim>\<open>killrate.go\<close>, the decision of \<^verbatim>\<open>advpool/aggregate.go\<close>, \<^verbatim>\<open>applyDevScore\<close> and \<^verbatim>\<open>salvageByDeselect\<close> of \<^verbatim>\<open>driver.go\<close>. A certified verdict rests on a real exam; a salvaged test is credited with
    nothing it did not do. The locale \<open>exam_scorer\<close> is what certification asks of a scorer, interpreted on \<open>score\<close>.

  Conventions. A Go struct is a record, an error a constructor carrying its arguments (the English wording is left out), a method that
  writes returns the new state. A table is the list of its rows in rowid order; a Go map is a partial function, or the list of its entries
  where the code iterates over it, the order then being arbitrary. Strings are lists of bytes. Counts and ids are \<open>int\<close> or \<open>nat\<close>, far below
  \<^verbatim>\<open>2^63\<close>; words are used where the code works bitwise (\<open>Merkle\<close>). Each method runs in one transaction or under one lock and is one step.

  Parameters. SHA-256 (\<open>sha\<close>), Ed25519, gzip, encoding/json and the verification of a Sigstore certificate are arguments; statements that
  need collision freedom have the collision as the other case. A runner of the language plugins is a record of functions. What the
  disk answers to the pairing is a record or a function. The jail, the
  clock and the scheduler of the scorer are a \<open>world\<close>, which may answer each run differently and is one execution (so answers under
  different concurrency are not compared); \<open>fair_world\<close> says that a map iteration visits
  all entries and that a started grading ends. The rounding of float64 is a function \<open>fl\<close> with \<open>float64\<close>, the IEEE 754 bound, in
  \<open>Exam_Plan\<close>; in \<open>Certify\<close> and for kill rates it is not modelled, so what is said there of an interval or a rate is said of the exact value.
  \<open>json_maps\<close> says that encoding/json writes and reads an object as a map of its members.

  Bounds. No definition has fuel: walks with work lists, the cycle guard, the parser and the search of a free key are proved to terminate.
  A replacement's key is searched among 9,998 suffixes, hence the bound of \<open>supersede_total\<close> on the tasks of one mission. A budget is between 5 and 40 mutants.

  Findings. Where the code and its comments differ, a lemma beside the properties shows it: \<open>deletion_hunk_is_malformed\<close> in \<open>Mutant_Parse\<close>,
  \<open>edit_span_misses_joined_line\<close> in \<open>Mutant_Properties\<close>, \<open>survivor_choice_narrows\<close> in \<open>Certify\<close>, the cases of \<open>create_mission_outcome\<close> in \<open>Plans\<close>, \<open>pruned_pause_dispatches\<close> in
  \<open>Steering\<close>, and the third case of \<open>chain_fixed_by_head\<close> in \<open>Ledger_Properties\<close>. \<open>id_reused_after_prune\<close> in \<open>Queue_Properties\<close> shows
  why a retired id is only kept with its mission's rows: the task table gives the ids above its largest remaining one again.

  Not modelled: opening and migrating databases, I/O errors, formatted text, and the parts of the repository that call services or tools
  rather than decide: language-model clients, the MCP server, the DuckDB warehouse and its SQL, the sandbox, git and tree-sitter, the user interfaces, the parsers of single test runners' output, and the commands under \<^verbatim>\<open>src/cmd\<close>. The driver of the adversarial pool
  (the rest of \<^verbatim>\<open>advpool/driver.go\<close>, \<^verbatim>\<open>gate.go\<close>) sequences calls to these and to the parts modelled here. Within modelled files: the JSON of the
  test map, reading and writing a mutant set file, the certificate chain of a keyless entry, and the summary figures of a document.
\<close>

end
